(* ===== verification/Netcore_Prelude.thy ===== *)
theory Netcore_Prelude
  imports Main "HOL-Library.Word" "HOL-Library.Sublist"
begin

unbundle bit_operations_syntax

text \<open>
  Shared vocabulary of the development: the machine types the C++ code uses, the
  constants of HTTP text, checked reads of a byte range, the result type of the
  pointer-walking parsers, and the generic list lemmas that the component theories
  collect in the fact collections declared here.

  A \<^verbatim>\<open>char\<close> of the source is HOL's \<^typ>\<open>char\<close> (eight bits); \<^verbatim>\<open>(unsigned char)c\<close> is
  \<open>uchar c\<close>. A half-open range \<^verbatim>\<open>[buf, buf_end)\<close> is a list, a pointer into it is an
  offset, and a read outside the range is the value \<open>Fault\<close>, so that memory safety
  is a theorem about the models and not a convention.
\<close>

named_theorems no_fault \<open>a checked computation does not read outside its range\<close>
named_theorems stable \<open>a decided result does not change when the range grows\<close>
named_theorems codec \<open>steps of an encoder or decoder on printed input\<close>

type_synonym byte = "8 word"
type_synonym u16 = "16 word"
type_synonym u32 = "32 word"
type_synonym size_t = "64 word"

section \<open>Characters\<close>

definition uchar :: "char \<Rightarrow> nat" where
  "uchar c = of_char c"

abbreviation CR :: char where "CR \<equiv> CHR 0x0D"
abbreviation LF :: char where "LF \<equiv> CHR 0x0A"
abbreviation TAB :: char where "TAB \<equiv> CHR 0x09"
abbreviation SP :: char where "SP \<equiv> CHR '' ''"
abbreviation crlf :: string where "crlf \<equiv> [CR, LF]"

lemma uchar_less [simp]: "uchar c < 256"
  by (simp add: uchar_def)

lemma uchar_eq_iff: "uchar c = uchar d \<longleftrightarrow> c = d"
  by (simp add: uchar_def)

lemma char_of_uchar [simp]: "char_of (uchar c) = c"
  by (simp add: uchar_def)

lemma uchar_char_of [simp]: "n < 256 \<Longrightarrow> uchar (char_of n) = n"
  by (simp add: uchar_def)

definition char_byte :: "char \<Rightarrow> byte" where
  "char_byte c = of_nat (uchar c)"

definition byte_char :: "byte \<Rightarrow> char" where
  "byte_char b = char_of (unat b)"

lemma unat_byte_less [simp]: "unat (b :: byte) < 256"
  by (rule order_less_le_trans [OF unsigned_less]) simp

lemma byte_char_inverse [simp]: "char_byte (byte_char b) = b"
  by (simp add: char_byte_def byte_char_def)

lemma char_byte_inverse [simp]: "byte_char (char_byte c) = c"
  by (simp add: char_byte_def byte_char_def unat_of_nat)

lemma char_byte_eq_iff [simp]: "char_byte c = char_byte d \<longleftrightarrow> c = d"
  by (metis char_byte_inverse)

lemma unat_size_t: "n < 2 ^ 64 \<Longrightarrow> unat (of_nat n :: size_t) = n"
  by (simp add: unat_of_nat)

lemma unat_u32: "n < 2 ^ 32 \<Longrightarrow> unat (of_nat n :: u32) = n"
  by (simp add: unat_of_nat)

section \<open>Results of the pointer-walking parsers\<close>

text \<open>
  \<open>Ok x\<close> is a normal return, \<open>Ret r\<close> the early return of a null pointer with the
  status \<open>*ret = r\<close>, and \<open>Fault\<close> a dereference outside the range (undefined
  behaviour of the C++ program).
\<close>

datatype 'a presult = Ok 'a | Ret int | Fault

fun pbind :: "'a presult \<Rightarrow> ('a \<Rightarrow> 'b presult) \<Rightarrow> 'b presult" where
  "pbind (Ok x) f = f x"
| "pbind (Ret r) f = Ret r"
| "pbind Fault f = Fault"

definition decided :: "'a presult \<Rightarrow> bool" where
  "decided r \<longleftrightarrow> r \<noteq> Ret (- 2) \<and> r \<noteq> Fault"

lemma decided_simps [simp]:
  "decided (Ok x)" "\<not> decided Fault" "decided (Ret r) \<longleftrightarrow> r \<noteq> - 2"
  by (simp_all add: decided_def)

lemma pbind_Ok_iff: "pbind m f = Ok y \<longleftrightarrow> (\<exists>x. m = Ok x \<and> f x = Ok y)"
  by (cases m) auto

lemma pbind_Fault_iff: "pbind m f = Fault \<longleftrightarrow> m = Fault \<or> (\<exists>x. m = Ok x \<and> f x = Fault)"
  by (cases m) auto

text \<open>
  The same for a step inside a function with out-parameters: on an early return the
  out-parameters keep what earlier steps stored.
\<close>

fun pstep :: "'o \<Rightarrow> 'a presult \<Rightarrow> ('a \<Rightarrow> 'o \<times> 'b presult) \<Rightarrow> 'o \<times> 'b presult" where
  "pstep out (Ok x) f = f x"
| "pstep out (Ret r) f = (out, Ret r)"
| "pstep out Fault f = (out, Fault)"

lemma pstep_Fault_iff:
  "pstep out m f = (out', Fault) \<longleftrightarrow>
     m = Fault \<and> out' = out \<or> (\<exists>x. m = Ok x \<and> f x = (out', Fault))"
  by (cases m) auto

lemma pstep_Ok_iff: "pstep out m f = (out', Ok y) \<longleftrightarrow> (\<exists>x. m = Ok x \<and> f x = (out', Ok y))"
  by (cases m) auto

lemma pstep_stable:
  assumes "decided (snd (pstep out m f))"
    and "decided m \<Longrightarrow> m' = m"
    and "\<And>x. m = Ok x \<Longrightarrow> decided (snd (f x)) \<Longrightarrow> f' x = f x"
  shows "pstep out m' f' = pstep out m f"
  using assms by (cases m) auto

lemma pbind_stable:
  assumes "decided (pbind m f)"
    and "decided m \<Longrightarrow> m' = m"
    and "\<And>x. m = Ok x \<Longrightarrow> decided (f x) \<Longrightarrow> f' x = f x"
  shows "pbind m' f' = pbind m f"
  using assms by (cases m) auto

section \<open>Slices of a range\<close>

definition subrange :: "'a list \<Rightarrow> nat \<Rightarrow> nat \<Rightarrow> 'a list" where
  "subrange xs start len = take len (drop start xs)"

lemma subrange_append_prefix [simp]: "subrange (pre @ xs @ post) (length pre) (length xs) = xs"
  by (simp add: subrange_def)

lemma subrange_extend: "start + len \<le> length xs \<Longrightarrow> subrange (xs @ ys) start len = subrange xs start len"
  by (simp add: subrange_def)

lemma length_subrange [simp]: "start + len \<le> length xs \<Longrightarrow> length (subrange xs start len) = len"
  by (simp add: subrange_def)

lemma nth_append_here [simp]: "(pre @ x # post) ! length pre = x"
  by (simp add: nth_append)

lemma subrange_at:
  assumes "buf = pre @ xs @ post" "n = length pre" "k = length xs"
  shows "subrange buf n k = xs"
  using assms by simp

end
