(* ===== verification/Pico_Parser.thy ===== *)
theory Pico_Parser
  imports Netcore_Prelude
begin

text \<open>
  The HTTP/1.x head parser of \<^verbatim>\<open>include/netcore/picohttpparser.h\<close>, as the server
  builds it (no SSE 4.2, so \<^verbatim>\<open>findchar_fast\<close> is the identity and
  \<^verbatim>\<open>get_token_to_eol\<close> takes its hand-unrolled loop).

  Every function walks a pointer through \<^verbatim>\<open>[buf, buf_end)\<close>. Here the range is a string
  and the pointer an offset; out-parameters are the fields of \<open>phr_out\<close>, which keep
  what was stored before an early return, because the caller looks at them then too.
\<close>

section \<open>Data\<close>

text \<open>\<open>hdr_name\<close> is \<open>None\<close> for the null name of a continuation line.\<close>

record phr_header =
  hdr_name :: "nat option"
  hdr_name_len :: nat
  hdr_value :: nat
  hdr_value_len :: nat

record phr_out =
  phr_method :: "nat option"
  phr_method_len :: nat
  phr_path :: "nat option"
  phr_path_len :: nat
  phr_minor_version :: int
  phr_headers :: "phr_header list"

section \<open>Character classes and the reading macros\<close>

definition IS_PRINTABLE_ASCII :: "char \<Rightarrow> bool" where
  "IS_PRINTABLE_ASCII c \<longleftrightarrow> (of_nat (uchar c) :: u32) - 32 < 95"

definition token_char_map :: "nat list" where
  "token_char_map =
    replicate 32 0 @
    [0,1,0,1,1,1,1,1,0,0,1,1,0,1,1,0,1,1,1,1,1,1,1,1,1,1,0,0,0,0,0,0] @
    [0,1,1,1,1,1,1,1,1,1,1,1,1,1,1,1,1,1,1,1,1,1,1,1,1,1,1,0,0,0,1,1] @
    [1,1,1,1,1,1,1,1,1,1,1,1,1,1,1,1,1,1,1,1,1,1,1,1,1,1,1,0,1,0,1,0] @
    replicate 128 0"

definition rd :: "string \<Rightarrow> nat \<Rightarrow> char presult" where
  "rd buf i = (if i < length buf then Ok (buf ! i) else Fault)"

definition CHECK_EOF :: "string \<Rightarrow> nat \<Rightarrow> 'a presult \<Rightarrow> 'a presult" where
  "CHECK_EOF buf i k = (if i = length buf then Ret (- 2) else k)"

definition EXPECT_CHAR_NO_CHECK :: "string \<Rightarrow> nat \<Rightarrow> char \<Rightarrow> nat presult" where
  "EXPECT_CHAR_NO_CHECK buf i ch =
     pbind (rd buf i) (\<lambda>c. if c \<noteq> ch then Ret (- 1) else Ok (i + 1))"

definition EXPECT_CHAR :: "string \<Rightarrow> nat \<Rightarrow> char \<Rightarrow> nat presult" where
  "EXPECT_CHAR buf i ch = CHECK_EOF buf i (EXPECT_CHAR_NO_CHECK buf i ch)"

text \<open>Without SSE 4.2 the search returns its argument and \<^verbatim>\<open>*found = 0\<close>.\<close>

definition findchar_fast :: "string \<Rightarrow> nat \<Rightarrow> nat \<times> bool" where
  "findchar_fast buf i = (i, False)"

section \<open>Tokens\<close>

text \<open>The \<^verbatim>\<open>while (1)\<close> loop of the macro \<^verbatim>\<open>ADVANCE_TOKEN\<close>.\<close>

function advance_loop :: "string \<Rightarrow> nat \<Rightarrow> nat presult" where
  "advance_loop buf i =
     (if i < length buf then
        (if buf ! i = SP then Ok i
         else if \<not> IS_PRINTABLE_ASCII (buf ! i) \<and> (uchar (buf ! i) < 32 \<or> buf ! i = CHR 0x7F)
         then Ret (- 1)
         else CHECK_EOF buf (i + 1) (advance_loop buf (i + 1)))
      else Fault)"
  by pat_completeness auto
termination
  by (relation "measure (\<lambda>(buf, i). length buf - i)") auto

declare advance_loop.simps [simp del]

text \<open>Result: the new position, the token's start and its length.\<close>

definition ADVANCE_TOKEN :: "string \<Rightarrow> nat \<Rightarrow> (nat \<times> nat \<times> nat) presult" where
  "ADVANCE_TOKEN buf i =
     (let (j, found2) = findchar_fast buf i;
          rest = pbind (advance_loop buf j) (\<lambda>k. Ok (k, i, k - i))
      in if \<not> found2 then CHECK_EOF buf j rest else rest)"

text \<open>
  \<^verbatim>\<open>get_token_to_eol\<close>: eight \<^verbatim>\<open>DOIT\<close> steps at a time while at least eight bytes are left
  (\<open>True\<close> marks the jump to \<^verbatim>\<open>NonPrintable\<close>), then one byte at a time.
\<close>

definition eol_ctl :: "char \<Rightarrow> bool" where
  "eol_ctl c \<longleftrightarrow> (uchar c < 32 \<and> c \<noteq> TAB) \<or> c = CHR 0x7F"

fun eol_doit :: "nat \<Rightarrow> string \<Rightarrow> nat \<Rightarrow> (nat \<times> bool) presult" where
  "eol_doit 0 buf i = Ok (i, False)"
| "eol_doit (Suc k) buf i =
     pbind (rd buf i)
       (\<lambda>c. if \<not> IS_PRINTABLE_ASCII c then Ok (i, True) else eol_doit k buf (i + 1))"

lemma eol_doit_bounds:
  "eol_doit k buf i = Ok (j, b) \<Longrightarrow> i \<le> j \<and> (\<not> b \<longrightarrow> j = i + k) \<and> (b \<longrightarrow> j < length buf)"
  by (induction k arbitrary: i) (fastforce simp: pbind_Ok_iff rd_def split: if_splits)+

text \<open>\<open>(j, True)\<close> is the jump to \<^verbatim>\<open>FOUND_CTL\<close> at \<open>j\<close>.\<close>

function eol_fast :: "string \<Rightarrow> nat \<Rightarrow> (nat \<times> bool) presult" where
  "eol_fast buf i =
     (if 8 \<le> length buf - i then
        (case eol_doit 8 buf i of
           Ok (j, nonprintable) \<Rightarrow>
             if \<not> nonprintable then eol_fast buf j
             else if eol_ctl (buf ! j) then Ok (j, True)
             else eol_fast buf (j + 1)
         | Ret r \<Rightarrow> Ret r
         | Fault \<Rightarrow> Fault)
      else Ok (i, False))"
  by pat_completeness auto
termination
  by (relation "measure (\<lambda>(buf, i). length buf - i)") (auto dest!: eol_doit_bounds)

declare eol_fast.simps [simp del]

function eol_slow :: "string \<Rightarrow> nat \<Rightarrow> nat presult" where
  "eol_slow buf i =
     CHECK_EOF buf i
       (if i < length buf then
          (if \<not> IS_PRINTABLE_ASCII (buf ! i) \<and> eol_ctl (buf ! i) then Ok i
           else eol_slow buf (i + 1))
        else Fault)"
  by pat_completeness auto
termination
  by (relation "measure (\<lambda>(buf, i). length buf - i)") auto

declare eol_slow.simps [simp del]

definition found_ctl :: "string \<Rightarrow> nat \<Rightarrow> nat \<Rightarrow> (nat \<times> nat \<times> nat) presult" where
  "found_ctl buf token_start i =
     pbind (rd buf i) (\<lambda>c.
       if c = CR then
         pbind (EXPECT_CHAR buf (i + 1) LF) (\<lambda>j. Ok (j, token_start, j - 2 - token_start))
       else if c = LF then Ok (i + 1, token_start, i - token_start)
       else Ret (- 1))"

definition get_token_to_eol :: "string \<Rightarrow> nat \<Rightarrow> (nat \<times> nat \<times> nat) presult" where
  "get_token_to_eol buf token_start =
     pbind (eol_fast buf token_start) (\<lambda>(i, found).
       pbind (if found then Ok i else eol_slow buf i) (found_ctl buf token_start))"

section \<open>Completeness test\<close>

function is_complete_loop :: "string \<Rightarrow> nat \<Rightarrow> nat \<Rightarrow> nat presult" where
  "is_complete_loop buf i ret_cnt =
     CHECK_EOF buf i
       (if i < length buf then
          (if buf ! i = CR then
             CHECK_EOF buf (i + 1)
               (case EXPECT_CHAR buf (i + 1) LF of
                  Ok j \<Rightarrow> if ret_cnt + 1 = 2 then Ok (i + 2)
                          else is_complete_loop buf (i + 2) (ret_cnt + 1)
                | Ret r \<Rightarrow> Ret r
                | Fault \<Rightarrow> Fault)
           else if buf ! i = LF then
             (if ret_cnt + 1 = 2 then Ok (i + 1) else is_complete_loop buf (i + 1) (ret_cnt + 1))
           else is_complete_loop buf (i + 1) 0)
        else Fault)"
  by pat_completeness auto
termination
  by (relation "measure (\<lambda>(buf, i, n). length buf - i)") auto

declare is_complete_loop.simps [simp del]

definition is_complete :: "string \<Rightarrow> nat \<Rightarrow> nat presult" where
  "is_complete buf last_len =
     is_complete_loop buf (if last_len < 3 then 0 else last_len - 3) 0"

section \<open>Versions, headers, request\<close>

definition PARSE_INT :: "string \<Rightarrow> nat \<Rightarrow> int \<Rightarrow> (nat \<times> int) presult" where
  "PARSE_INT buf i mul =
     pbind (rd buf i) (\<lambda>c.
       if uchar c < uchar (CHR ''0'') \<or> uchar (CHR ''9'') < uchar c then Ret (- 1)
       else Ok (i + 1, mul * (int (uchar c) - int (uchar (CHR ''0'')))))"

fun expect_chars :: "string \<Rightarrow> nat \<Rightarrow> string \<Rightarrow> nat presult" where
  "expect_chars buf i [] = Ok i"
| "expect_chars buf i (ch # chs) =
     pbind (EXPECT_CHAR_NO_CHECK buf i ch) (\<lambda>j. expect_chars buf j chs)"

definition parse_http_version :: "string \<Rightarrow> nat \<Rightarrow> (nat \<times> int) presult" where
  "parse_http_version buf i =
     (if length buf - i < 9 then Ret (- 2)
      else pbind (expect_chars buf i ''HTTP/1.'') (\<lambda>j. PARSE_INT buf j 1))"

function name_loop :: "string \<Rightarrow> nat \<Rightarrow> nat presult" where
  "name_loop buf i =
     (if i < length buf then
        (if buf ! i = CHR '':'' then Ok i
         else if token_char_map ! uchar (buf ! i) = 0 then Ret (- 1)
         else CHECK_EOF buf (i + 1) (name_loop buf (i + 1)))
      else Fault)"
  by pat_completeness auto
termination
  by (relation "measure (\<lambda>(buf, i). length buf - i)") auto

function skip_ws :: "string \<Rightarrow> nat \<Rightarrow> nat presult" where
  "skip_ws buf i =
     CHECK_EOF buf i
       (if i < length buf then
          (if \<not> (buf ! i = SP \<or> buf ! i = TAB) then Ok i else skip_ws buf (i + 1))
        else Fault)"
  by pat_completeness auto
termination
  by (relation "measure (\<lambda>(buf, i). length buf - i)") auto

declare name_loop.simps [simp del] skip_ws.simps [simp del]

definition header_name :: "string \<Rightarrow> nat \<Rightarrow> (nat \<times> nat option \<times> nat) presult" where
  "header_name buf i =
     (let (j, found) = findchar_fast buf i;
          rest = pbind (name_loop buf j) (\<lambda>k.
                   if k - i = 0 then Ret (- 1)
                   else pbind (skip_ws buf (k + 1)) (\<lambda>m. Ok (m, Some i, k - i)))
      in if \<not> found then CHECK_EOF buf j rest else rest)"

section \<open>How far each step moves\<close>

lemma rd_Ok_iff: "rd buf i = Ok c \<longleftrightarrow> i < length buf \<and> c = buf ! i"
  by (auto simp: rd_def)

lemma rd_Fault_iff: "rd buf i = Fault \<longleftrightarrow> length buf \<le> i"
  by (auto simp: rd_def)

lemma rd_not_Ret [simp]: "rd buf i \<noteq> Ret r"
  by (auto simp: rd_def)

lemma CHECK_EOF_Ok_iff: "CHECK_EOF buf i k = Ok x \<longleftrightarrow> i \<noteq> length buf \<and> k = Ok x"
  by (auto simp: CHECK_EOF_def)

lemma CHECK_EOF_Fault_iff: "CHECK_EOF buf i k = Fault \<longleftrightarrow> i \<noteq> length buf \<and> k = Fault"
  by (auto simp: CHECK_EOF_def)

lemmas presult_iffs =
  pbind_Ok_iff pbind_Fault_iff rd_Ok_iff rd_Fault_iff CHECK_EOF_Ok_iff CHECK_EOF_Fault_iff

lemma EXPECT_CHAR_NO_CHECK_Ok_iff:
  "EXPECT_CHAR_NO_CHECK buf i ch = Ok j \<longleftrightarrow> i < length buf \<and> buf ! i = ch \<and> j = i + 1"
  by (auto simp: EXPECT_CHAR_NO_CHECK_def presult_iffs)

lemma EXPECT_CHAR_Ok_iff:
  "EXPECT_CHAR buf i ch = Ok j \<longleftrightarrow> i < length buf \<and> buf ! i = ch \<and> j = i + 1"
  by (auto simp: EXPECT_CHAR_def presult_iffs EXPECT_CHAR_NO_CHECK_Ok_iff)

lemma advance_loop_bounds:
  "advance_loop buf i = Ok j \<Longrightarrow> i \<le> j \<and> j < length buf \<and> buf ! j = SP"
proof (induction buf i rule: advance_loop.induct)
  case (1 buf i)
  from "1.prems" show ?case
    by (subst (asm) advance_loop.simps) (auto simp: presult_iffs split: if_splits dest: "1.IH")
qed

lemma ADVANCE_TOKEN_bounds:
  "ADVANCE_TOKEN buf i = Ok (j, s, n) \<Longrightarrow> s = i \<and> i + n = j \<and> j < length buf"
  by (auto simp: ADVANCE_TOKEN_def findchar_fast_def presult_iffs dest!: advance_loop_bounds)

text \<open>
  The unrolled loop is an optimisation of the plain one: whatever it skips, the plain
  loop would have skipped as well.
\<close>

lemma eol_doit_skips:
  "i + k \<le> length buf \<Longrightarrow>
     \<exists>j b. eol_doit k buf i = Ok (j, b) \<and> i \<le> j \<and> (b \<longrightarrow> j < i + k) \<and> (\<not> b \<longrightarrow> j = i + k) \<and>
       (\<forall>m. i \<le> m \<and> m < j \<longrightarrow> IS_PRINTABLE_ASCII (buf ! m)) \<and>
       (b \<longrightarrow> \<not> IS_PRINTABLE_ASCII (buf ! j))"
proof (induction k arbitrary: i)
  case 0
  then show ?case by (intro exI [of _ i] exI [of _ False]) auto
next
  case (Suc k)
  show ?case
  proof (cases "IS_PRINTABLE_ASCII (buf ! i)")
    case True
    from Suc.IH [of "i + 1"] Suc.prems obtain j b where
      jb: "eol_doit k buf (i + 1) = Ok (j, b)" "i + 1 \<le> j" "b \<longrightarrow> j < i + 1 + k"
      "\<not> b \<longrightarrow> j = i + 1 + k" "b \<longrightarrow> \<not> IS_PRINTABLE_ASCII (buf ! j)"
      and pr: "\<forall>m. i + 1 \<le> m \<and> m < j \<longrightarrow> IS_PRINTABLE_ASCII (buf ! m)"
      by auto
    from pr True have "\<forall>m. i \<le> m \<and> m < j \<longrightarrow> IS_PRINTABLE_ASCII (buf ! m)"
      by (metis Suc_eq_plus1 Suc_leI le_eq_less_or_eq)
    with jb True Suc.prems show ?thesis
      by (intro exI [of _ j] exI [of _ b]) (simp add: rd_def)
  next
    case False
    with Suc.prems show ?thesis
      by (intro exI [of _ i] exI [of _ True]) (auto simp: rd_def)
  qed
qed

lemma eol_slow_skip_one:
  "i < length buf \<Longrightarrow> IS_PRINTABLE_ASCII (buf ! i) \<or> \<not> eol_ctl (buf ! i) \<Longrightarrow>
     eol_slow buf i = eol_slow buf (i + 1)"
  by (subst eol_slow.simps) (auto simp: CHECK_EOF_def)

lemma eol_slow_skip:
  "i \<le> j \<Longrightarrow> j \<le> length buf \<Longrightarrow> \<forall>m. i \<le> m \<and> m < j \<longrightarrow> IS_PRINTABLE_ASCII (buf ! m) \<Longrightarrow>
     eol_slow buf i = eol_slow buf j"
proof (induction "j - i" arbitrary: i)
  case 0
  then show ?case by simp
next
  case (Suc d)
  then have "eol_slow buf i = eol_slow buf (i + 1)"
    by (intro eol_slow_skip_one) auto
  also have "\<dots> = eol_slow buf j"
    using Suc.hyps(2) Suc.prems by (intro Suc.hyps(1)) auto
  finally show ?case .
qed

lemma eol_slow_hit:
  "i < length buf \<Longrightarrow> \<not> IS_PRINTABLE_ASCII (buf ! i) \<Longrightarrow> eol_ctl (buf ! i) \<Longrightarrow> eol_slow buf i = Ok i"
  by (subst eol_slow.simps) (auto simp: CHECK_EOF_def)

lemma eol_fast_slow:
  "i \<le> length buf \<Longrightarrow>
     pbind (eol_fast buf i) (\<lambda>(j, found). if found then Ok j else eol_slow buf j) = eol_slow buf i"
proof (induction buf i rule: eol_fast.induct)
  case (1 buf i)
  show ?case
  proof (cases "8 \<le> length buf - i")
    case False
    then show ?thesis by (subst eol_fast.simps) simp
  next
    case True
    have "i + 8 \<le> length buf" using True "1.prems" by simp
    then obtain j b where d: "eol_doit 8 buf i = Ok (j, b)" and ij: "i \<le> j" "b \<longrightarrow> j < i + 8"
      "\<not> b \<longrightarrow> j = i + 8" and pr: "\<forall>m. i \<le> m \<and> m < j \<longrightarrow> IS_PRINTABLE_ASCII (buf ! m)"
      and np: "b \<longrightarrow> \<not> IS_PRINTABLE_ASCII (buf ! j)"
      using eol_doit_skips [of i 8 buf] by blast
    from True ij have jl: "j \<le> length buf" "b \<longrightarrow> j < length buf" by auto
    have skip: "eol_slow buf i = eol_slow buf j"
      using ij(1) jl(1) pr by (rule eol_slow_skip)
    have unf: "eol_fast buf i = (if \<not> b then eol_fast buf j
        else if eol_ctl (buf ! j) then Ok (j, True) else eol_fast buf (j + 1))"
      using True d by (subst eol_fast.simps) simp
    consider "\<not> b" | "b" "eol_ctl (buf ! j)" | "b" "\<not> eol_ctl (buf ! j)" by blast
    then show ?thesis
    proof cases
      case 1
      with "1.IH"(1) [OF True d refl] jl unf skip show ?thesis by simp
    next
      case 2
      with np jl have "eol_slow buf j = Ok j" by (intro eol_slow_hit) auto
      with 2 unf skip show ?thesis by simp
    next
      case 3
      with jl have "eol_slow buf j = eol_slow buf (j + 1)" by (intro eol_slow_skip_one) auto
      with "1.IH"(2) [OF True d refl] 3 jl unf skip show ?thesis by simp
    qed
  qed
qed

lemma get_token_to_eol_slow:
  assumes "i \<le> length buf"
  shows "get_token_to_eol buf i = pbind (eol_slow buf i) (found_ctl buf i)"
proof -
  have "get_token_to_eol buf i =
    pbind (pbind (eol_fast buf i) (\<lambda>(j, found). if found then Ok j else eol_slow buf j)) (found_ctl buf i)"
    by (cases "eol_fast buf i") (auto simp: get_token_to_eol_def split: prod.splits)
  with eol_fast_slow [OF assms] show ?thesis by simp
qed

lemma eol_slow_bounds:
  "eol_slow buf i = Ok j \<Longrightarrow> i \<le> j \<and> j < length buf \<and> eol_ctl (buf ! j)"
proof (induction buf i rule: eol_slow.induct)
  case (1 buf i)
  from "1.prems" show ?case
    by (subst (asm) eol_slow.simps) (auto simp: presult_iffs split: if_splits dest: "1.IH")
qed

lemma get_token_to_eol_bounds:
  assumes "i \<le> length buf" and "get_token_to_eol buf i = Ok (j, s, n)"
  shows "s = i \<and> i + n < j \<and> j \<le> length buf"
  using assms
  by (auto simp: get_token_to_eol_slow found_ctl_def presult_iffs EXPECT_CHAR_Ok_iff
      split: if_splits dest!: eol_slow_bounds)

lemma name_loop_bounds: "name_loop buf i = Ok j \<Longrightarrow> i \<le> j \<and> j < length buf"
proof (induction buf i rule: name_loop.induct)
  case (1 buf i)
  from "1.prems" show ?case
    by (subst (asm) name_loop.simps) (auto simp: presult_iffs split: if_splits dest: "1.IH")
qed

lemma skip_ws_bounds: "skip_ws buf i = Ok j \<Longrightarrow> i \<le> j \<and> j < length buf"
proof (induction buf i rule: skip_ws.induct)
  case (1 buf i)
  from "1.prems" show ?case
    by (subst (asm) skip_ws.simps) (auto simp: presult_iffs split: if_splits dest: "1.IH")
qed

lemma header_name_bounds:
  "header_name buf i = Ok (k, nm, n) \<Longrightarrow> nm = Some i \<and> 0 < n \<and> i + n < k \<and> k < length buf"
  by (fastforce simp: header_name_def findchar_fast_def presult_iffs split: if_splits
      dest!: name_loop_bounds skip_ws_bounds)

section \<open>Headers, request, response\<close>

text \<open>
  The name part of a header line (none for a continuation line, which \<^verbatim>\<open>parse_headers\<close>
  accepts after the first header): it moves the pointer forward.
\<close>

definition header_start :: "string \<Rightarrow> phr_header list \<Rightarrow> nat \<Rightarrow> (nat \<times> nat option \<times> nat) presult" where
  "header_start buf hs i =
     (if \<not> (length hs \<noteq> 0 \<and> (buf ! i = SP \<or> buf ! i = TAB))
      then header_name buf i else Ok (i, None, 0))"

lemma header_start_bounds:
  "header_start buf hs i = Ok (k, nm, nl) \<Longrightarrow> i < length buf \<Longrightarrow>
     i \<le> k \<and> k < length buf \<and> (nm = None \<and> nl = 0 \<or> nm = Some i \<and> 0 < nl \<and> i + nl < k)"
  by (auto simp: header_start_def split: if_splits dest!: header_name_bounds)

text \<open>
  \<^verbatim>\<open>parse_headers\<close>: \<open>hs\<close> is \<^verbatim>\<open>headers[0 .. *num_headers)\<close>, so \<^verbatim>\<open>*num_headers\<close> is its length.
\<close>

function parse_headers ::
  "string \<Rightarrow> nat \<Rightarrow> phr_header list \<Rightarrow> nat \<Rightarrow> phr_header list \<times> nat presult" where
  "parse_headers buf max_headers hs i =
     (if i = length buf then (hs, Ret (- 2))
      else if length buf < i then (hs, Fault)
      else if buf ! i = CR then (hs, EXPECT_CHAR buf (i + 1) LF)
      else if buf ! i = LF then (hs, Ok (i + 1))
      else if length hs = max_headers then (hs, Ret (- 1))
      else case header_start buf hs i of
             Ok (k, nm, nl) \<Rightarrow>
               (case get_token_to_eol buf k of
                  Ok (j, v, vl) \<Rightarrow>
                    parse_headers buf max_headers
                      (hs @ [\<lparr>hdr_name = nm, hdr_name_len = nl, hdr_value = v, hdr_value_len = vl\<rparr>]) j
                | Ret r \<Rightarrow> (hs, Ret r)
                | Fault \<Rightarrow> (hs, Fault))
           | Ret r \<Rightarrow> (hs, Ret r)
           | Fault \<Rightarrow> (hs, Fault))"
  by pat_completeness auto

termination parse_headers
proof (relation "measure (\<lambda>(buf, mx, hs, i). length buf - i)")
  fix buf :: string and mx i k nl j v vl :: nat and hs :: "phr_header list" and nm r p q t
  assume i: "i \<noteq> length buf" "\<not> length buf < i"
    and st: "header_start buf hs i = Ok r"
    and r: "(k, p) = r" "(nm, nl) = p"
    and tok: "get_token_to_eol buf k = Ok q" "(j, t) = q" "(v, vl) = t"
  have "i < length buf" using i by simp
  moreover have "header_start buf hs i = Ok (k, nm, nl)"
    using st r by simp
  ultimately have k: "i \<le> k" "k < length buf" using header_start_bounds by blast+
  then have "k < j" "j \<le> length buf"
    using get_token_to_eol_bounds [of k buf j v vl] tok by auto
  with k show "((buf, mx, hs @ [\<lparr>hdr_name = nm, hdr_name_len = nl, hdr_value = v,
      hdr_value_len = vl\<rparr>], j), buf, mx, hs, i)
     \<in> measure (\<lambda>(buf, mx, hs, i). length buf - i)" by simp
qed simp

declare parse_headers.simps [simp del]

text \<open>The optional line end that \<^verbatim>\<open>parse_request\<close> skips before the request line.\<close>

definition skip_empty_line :: "string \<Rightarrow> nat \<Rightarrow> nat presult" where
  "skip_empty_line buf i =
     CHECK_EOF buf i (pbind (rd buf i) (\<lambda>c.
       if c = CR then EXPECT_CHAR buf (i + 1) LF
       else if c = LF then Ok (i + 1)
       else Ok i))"

text \<open>The line end that \<^verbatim>\<open>parse_request\<close> demands after the version.\<close>

definition request_line_end :: "string \<Rightarrow> nat \<Rightarrow> nat presult" where
  "request_line_end buf i =
     pbind (rd buf i) (\<lambda>c.
       if c = CR then EXPECT_CHAR buf (i + 1) LF
       else if c = LF then Ok (i + 1)
       else Ret (- 1))"

definition parse_request ::
  "string \<Rightarrow> nat \<Rightarrow> nat \<Rightarrow> phr_out \<Rightarrow> phr_out \<times> nat presult" where
  "parse_request buf i max_headers out =
     pstep out (skip_empty_line buf i) (\<lambda>i1.
     pstep out (ADVANCE_TOKEN buf i1) (\<lambda>(i2, m, ml).
       (let out = out\<lparr>phr_method := Some m, phr_method_len := ml\<rparr> in
     pstep out (ADVANCE_TOKEN buf (i2 + 1)) (\<lambda>(i3, p, pl).
       (let out = out\<lparr>phr_path := Some p, phr_path_len := pl\<rparr> in
     pstep out (parse_http_version buf (i3 + 1)) (\<lambda>(i4, v).
       (let out = out\<lparr>phr_minor_version := v\<rparr> in
     pstep out (request_line_end buf i4) (\<lambda>i5.
       (let (hs, res) = parse_headers buf max_headers (phr_headers out) i5
        in (out\<lparr>phr_headers := hs\<rparr>, res))))))))))"

definition phr_out_init :: phr_out where
  "phr_out_init = \<lparr>phr_method = None, phr_method_len = 0, phr_path = None, phr_path_len = 0,
     phr_minor_version = - 1, phr_headers = []\<rparr>"

text \<open>
  \<open>Ok n\<close> stands for the return value \<open>n\<close> (bytes consumed), \<open>Ret r\<close> for \<open>r\<close>. The program converts the number of bytes to \<^verbatim>\<open>int\<close>, which is exact for less than
  \<open>2 ^ 31\<close> bytes; the buffers of its callers have at most 3 MB.
\<close>

definition phr_parse_request :: "string \<Rightarrow> nat \<Rightarrow> nat \<Rightarrow> phr_out \<times> nat presult" where
  "phr_parse_request buf max_headers last_len =
     (case (if last_len \<noteq> 0 then is_complete buf last_len else Ok 0) of
        Ret r \<Rightarrow> (phr_out_init, Ret r)
      | Fault \<Rightarrow> (phr_out_init, Fault)
      | Ok _ \<Rightarrow>
          (let (out, res) = parse_request buf last_len max_headers phr_out_init
           in (out, pbind res (\<lambda>p. Ok (p - last_len)))))"

record phr_resp =
  resp_minor_version :: int
  resp_status :: int
  resp_msg :: "nat option"
  resp_msg_len :: nat
  resp_headers :: "phr_header list"

text \<open>\<^verbatim>\<open>PARSE_INT_3\<close> adds each digit to \<^verbatim>\<open>*status\<close> as it goes.\<close>

definition PARSE_INT_3 :: "string \<Rightarrow> nat \<Rightarrow> phr_resp \<Rightarrow> phr_resp \<times> nat presult" where
  "PARSE_INT_3 buf i out =
     pstep out (PARSE_INT buf i 100) (\<lambda>(i1, a).
       (let out = out\<lparr>resp_status := a\<rparr> in
     pstep out (PARSE_INT buf i1 10) (\<lambda>(i2, b).
       (let out = out\<lparr>resp_status := resp_status out + b\<rparr> in
     pstep out (PARSE_INT buf i2 1) (\<lambda>(i3, c).
       (out\<lparr>resp_status := resp_status out + c\<rparr>, Ok i3))))))"

text \<open>The rest of \<^verbatim>\<open>parse_response\<close> after the check that four bytes of the status are there.\<close>

definition parse_status_line_rest ::
  "string \<Rightarrow> nat \<Rightarrow> nat \<Rightarrow> phr_resp \<Rightarrow> phr_resp \<times> nat presult" where
  "parse_status_line_rest buf i2 max_headers out =
     (let (out, res) = PARSE_INT_3 buf i2 out in
     pstep out res (\<lambda>i3.
     pstep out (EXPECT_CHAR_NO_CHECK buf i3 SP) (\<lambda>i4.
     pstep out (get_token_to_eol buf i4) (\<lambda>(i5, m, ml).
       (let out = out\<lparr>resp_msg := Some m, resp_msg_len := ml\<rparr>;
            (hs, res) = parse_headers buf max_headers (resp_headers out) i5
        in (out\<lparr>resp_headers := hs\<rparr>, res))))))"

definition parse_response ::
  "string \<Rightarrow> nat \<Rightarrow> nat \<Rightarrow> phr_resp \<Rightarrow> phr_resp \<times> nat presult" where
  "parse_response buf i max_headers out =
     pstep out (parse_http_version buf i) (\<lambda>(i1, v).
       (let out = out\<lparr>resp_minor_version := v\<rparr> in
     pstep out (EXPECT_CHAR_NO_CHECK buf i1 SP) (\<lambda>i2.
       (if length buf - i2 < 4 then (out, Ret (- 2))
        else parse_status_line_rest buf i2 max_headers out))))"

definition phr_resp_init :: phr_resp where
  "phr_resp_init = \<lparr>resp_minor_version = - 1, resp_status = 0, resp_msg = None, resp_msg_len = 0,
     resp_headers = []\<rparr>"

definition phr_parse_response :: "string \<Rightarrow> nat \<Rightarrow> nat \<Rightarrow> phr_resp \<times> nat presult" where
  "phr_parse_response buf max_headers last_len =
     (case (if last_len \<noteq> 0 then is_complete buf last_len else Ok 0) of
        Ret r \<Rightarrow> (phr_resp_init, Ret r)
      | Fault \<Rightarrow> (phr_resp_init, Fault)
      | Ok _ \<Rightarrow> parse_response buf 0 max_headers phr_resp_init)"

definition phr_parse_headers :: "string \<Rightarrow> nat \<Rightarrow> nat \<Rightarrow> phr_header list \<times> nat presult" where
  "phr_parse_headers buf max_headers last_len =
     (case (if last_len \<noteq> 0 then is_complete buf last_len else Ok 0) of
        Ret r \<Rightarrow> ([], Ret r)
      | Fault \<Rightarrow> ([], Fault)
      | Ok _ \<Rightarrow> parse_headers buf max_headers [] 0)"

end
