(* ===== verification/Pico_Correct.thy ===== *)
theory Pico_Correct
  imports Pico_Parser
begin

text \<open>
  What the head parser of \<open>Pico_Parser\<close> guarantees: it never reads outside the range it
  is given, everything it reports lies inside what it consumed, a decided answer is
  not changed by bytes that arrive later, every proper prefix of an accepted head is
  reported as incomplete, and a printed head is parsed back to its parts.
\<close>

section \<open>Reads stay inside the range\<close>

lemma EXPECT_CHAR_no_fault [no_fault]: "i \<le> length buf \<Longrightarrow> EXPECT_CHAR buf i ch \<noteq> Fault"
  by (auto simp: EXPECT_CHAR_def EXPECT_CHAR_NO_CHECK_def presult_iffs)

lemma EXPECT_CHAR_NO_CHECK_no_fault [no_fault]:
  "i < length buf \<Longrightarrow> EXPECT_CHAR_NO_CHECK buf i ch \<noteq> Fault"
  by (auto simp: EXPECT_CHAR_NO_CHECK_def presult_iffs)

lemma advance_loop_no_fault [no_fault]: "i < length buf \<Longrightarrow> advance_loop buf i \<noteq> Fault"
  by (induction buf i rule: advance_loop.induct)
    (subst advance_loop.simps, auto simp: CHECK_EOF_Fault_iff)

lemma ADVANCE_TOKEN_no_fault [no_fault]: "i \<le> length buf \<Longrightarrow> ADVANCE_TOKEN buf i \<noteq> Fault"
  by (auto simp: ADVANCE_TOKEN_def findchar_fast_def presult_iffs advance_loop_no_fault)

lemma eol_slow_no_fault [no_fault]: "i \<le> length buf \<Longrightarrow> eol_slow buf i \<noteq> Fault"
  by (induction buf i rule: eol_slow.induct)
    (subst eol_slow.simps, auto simp: CHECK_EOF_Fault_iff)

lemma get_token_to_eol_no_fault [no_fault]:
  "i \<le> length buf \<Longrightarrow> get_token_to_eol buf i \<noteq> Fault"
  by (auto simp: get_token_to_eol_slow found_ctl_def presult_iffs eol_slow_no_fault
      EXPECT_CHAR_no_fault split: if_splits dest!: eol_slow_bounds)

lemma name_loop_no_fault [no_fault]: "i < length buf \<Longrightarrow> name_loop buf i \<noteq> Fault"
  by (induction buf i rule: name_loop.induct)
    (subst name_loop.simps, auto simp: CHECK_EOF_Fault_iff)

lemma skip_ws_no_fault [no_fault]: "i \<le> length buf \<Longrightarrow> skip_ws buf i \<noteq> Fault"
  by (induction buf i rule: skip_ws.induct)
    (subst skip_ws.simps, auto simp: CHECK_EOF_Fault_iff)

lemma header_start_no_fault [no_fault]: "i < length buf \<Longrightarrow> header_start buf hs i \<noteq> Fault"
  by (auto simp: header_start_def header_name_def findchar_fast_def presult_iffs
      name_loop_no_fault skip_ws_no_fault split: if_splits dest!: name_loop_bounds)

text \<open>
  One turn of the header loop that stores a header: the header and the position after
  its line. The loop is an iteration of this step followed by an exit, which is the
  induction principle the facts about \<open>parse_headers\<close> use.
\<close>

definition header_line :: "string \<Rightarrow> nat \<Rightarrow> phr_header list \<Rightarrow> nat \<Rightarrow> (phr_header \<times> nat) option" where
  "header_line buf mx hs i =
     (if i < length buf \<and> buf ! i \<noteq> CR \<and> buf ! i \<noteq> LF \<and> length hs \<noteq> mx then
        (case header_start buf hs i of
           Ok (k, nm, nl) \<Rightarrow>
             (case get_token_to_eol buf k of
                Ok (j, v, vl) \<Rightarrow>
                  Some (\<lparr>hdr_name = nm, hdr_name_len = nl, hdr_value = v, hdr_value_len = vl\<rparr>, j)
              | _ \<Rightarrow> None)
         | _ \<Rightarrow> None)
      else None)"

definition header_exit :: "string \<Rightarrow> nat \<Rightarrow> phr_header list \<Rightarrow> nat \<Rightarrow> nat presult" where
  "header_exit buf mx hs i =
     (if i = length buf then Ret (- 2)
      else if length buf < i then Fault
      else if buf ! i = CR then EXPECT_CHAR buf (i + 1) LF
      else if buf ! i = LF then Ok (i + 1)
      else if length hs = mx then Ret (- 1)
      else case header_start buf hs i of
             Ok (k, nm, nl) \<Rightarrow> pbind (get_token_to_eol buf k) (\<lambda>(j, v, vl). Ok j)
           | Ret r \<Rightarrow> Ret r
           | Fault \<Rightarrow> Fault)"

lemma header_line_SomeE:
  assumes "header_line buf mx hs i = Some (h, j)"
  obtains k nm nl v vl where
    "i < length buf" "buf ! i \<noteq> CR" "buf ! i \<noteq> LF" "length hs \<noteq> mx"
    "header_start buf hs i = Ok (k, nm, nl)" "get_token_to_eol buf k = Ok (j, v, vl)"
    "h = \<lparr>hdr_name = nm, hdr_name_len = nl, hdr_value = v, hdr_value_len = vl\<rparr>"
  using assms by (auto simp: header_line_def split: if_splits presult.splits)

lemma header_line_bounds:
  assumes "header_line buf mx hs i = Some (h, j)"
  shows "i < j \<and> j \<le> length buf"
proof -
  from assms obtain k nm nl v vl where "i < length buf" "header_start buf hs i = Ok (k, nm, nl)"
    "get_token_to_eol buf k = Ok (j, v, vl)" by (rule header_line_SomeE)
  then show ?thesis
    using header_start_bounds [of buf hs i k nm nl] get_token_to_eol_bounds [of k buf j v vl] by auto
qed

lemma parse_headers_line:
  "header_line buf mx hs i = Some (h, j) \<Longrightarrow>
     parse_headers buf mx hs i = parse_headers buf mx (hs @ [h]) j"
  by (erule header_line_SomeE) (subst parse_headers.simps, simp)

lemma parse_headers_exit:
  "header_line buf mx hs i = None \<Longrightarrow> parse_headers buf mx hs i = (hs, header_exit buf mx hs i)"
  by (subst parse_headers.simps)
    (auto simp: header_line_def header_exit_def split: presult.splits if_splits)

lemma parse_headers_iter_induct [case_names Exit Line]:
  assumes "\<And>hs i. header_line buf mx hs i = None \<Longrightarrow> P hs i"
    and "\<And>hs i h j. header_line buf mx hs i = Some (h, j) \<Longrightarrow> P (hs @ [h]) j \<Longrightarrow> P hs i"
  shows "P hs i"
proof (induction "length buf - i" arbitrary: hs i rule: less_induct)
  case less
  show ?case
  proof (cases "header_line buf mx hs i")
    case None
    then show ?thesis by (rule assms(1))
  next
    case (Some hj)
    obtain h j where hj: "hj = (h, j)" by fastforce
    with Some header_line_bounds have "i < j" "j \<le> length buf" by blast+
    then have "P (hs @ [h]) j" by (intro less) simp
    with Some hj show ?thesis by (auto intro: assms(2))
  qed
qed

lemma header_exit_no_fault:
  assumes "i \<le> length buf"
  shows "header_exit buf mx hs i \<noteq> Fault"
proof (cases "i = length buf")
  case False
  with assms have i: "i < length buf" by simp
  then show ?thesis
    using header_start_no_fault [OF i, of hs]
    by (auto simp: header_exit_def no_fault presult_iffs split: presult.splits
        dest: header_start_bounds)
qed (simp add: header_exit_def)

lemma parse_headers_no_fault [no_fault]:
  "i \<le> length buf \<Longrightarrow> snd (parse_headers buf mx hs i) \<noteq> Fault"
  by (induction hs i rule: parse_headers_iter_induct [of buf mx])
    (auto simp: parse_headers_exit parse_headers_line header_exit_no_fault dest: header_line_bounds)

lemma parse_headers_bounds:
  "parse_headers buf mx hs i = (hs', Ok n) \<Longrightarrow> i \<le> length buf \<Longrightarrow>
     i < n \<and> n \<le> length buf"
proof (induction hs i rule: parse_headers_iter_induct [of buf mx])
  case (Exit hs i)
  then show ?case
    by (auto simp: parse_headers_exit header_exit_def header_line_def presult_iffs EXPECT_CHAR_Ok_iff
        split: if_splits presult.splits)
next
  case (Line hs i h j)
  then show ?case using header_line_bounds [OF Line(1)] by (auto simp: parse_headers_line)
qed

lemma parse_http_version_bounds:
  "parse_http_version buf i = Ok (j, v) \<Longrightarrow> j = i + 8 \<and> j < length buf \<and> 0 \<le> v \<and> v \<le> 9"
  by (auto simp: parse_http_version_def PARSE_INT_def presult_iffs EXPECT_CHAR_NO_CHECK_Ok_iff
      uchar_def split: if_splits)

lemma is_complete_loop_no_fault [no_fault]:
  "i \<le> length buf \<Longrightarrow> is_complete_loop buf i n \<noteq> Fault"
proof (induction buf i n rule: is_complete_loop.induct)
  case (1 buf i n)
  then show ?case
    by (subst is_complete_loop.simps)
      (auto simp: CHECK_EOF_Fault_iff EXPECT_CHAR_no_fault EXPECT_CHAR_Ok_iff split: presult.splits)
qed

lemma is_complete_no_fault [no_fault]: "last_len \<le> length buf \<Longrightarrow> is_complete buf last_len \<noteq> Fault"
  by (simp add: is_complete_def is_complete_loop_no_fault)

lemma EXPECT_CHAR_NO_CHECK_Fault_iff: "EXPECT_CHAR_NO_CHECK buf i ch = Fault \<longleftrightarrow> length buf \<le> i"
  by (auto simp: EXPECT_CHAR_NO_CHECK_def presult_iffs)

lemma parse_http_version_no_fault [no_fault]: "parse_http_version buf i \<noteq> Fault"
  by (auto simp: parse_http_version_def PARSE_INT_def presult_iffs EXPECT_CHAR_NO_CHECK_Ok_iff
      EXPECT_CHAR_NO_CHECK_Fault_iff split: if_splits)

lemma skip_empty_line_bounds: "skip_empty_line buf i = Ok j \<Longrightarrow> i \<le> j \<and> j \<le> length buf"
  by (auto simp: skip_empty_line_def presult_iffs EXPECT_CHAR_Ok_iff split: if_splits)

lemma skip_empty_line_no_fault [no_fault]: "i \<le> length buf \<Longrightarrow> skip_empty_line buf i \<noteq> Fault"
  by (auto simp: skip_empty_line_def presult_iffs EXPECT_CHAR_no_fault split: if_splits)

lemma request_line_end_bounds: "request_line_end buf i = Ok j \<Longrightarrow> i < j \<and> j \<le> length buf"
  by (auto simp: request_line_end_def presult_iffs EXPECT_CHAR_Ok_iff split: if_splits)

lemma request_line_end_no_fault [no_fault]: "i < length buf \<Longrightarrow> request_line_end buf i \<noteq> Fault"
  by (auto simp: request_line_end_def presult_iffs EXPECT_CHAR_no_fault split: if_splits)


lemma parse_headers_no_fault_pair [no_fault]:
  "i \<le> length buf \<Longrightarrow> parse_headers buf mx hs i \<noteq> (hs', Fault)"
  by (metis parse_headers_no_fault snd_conv)

lemmas step_bounds = skip_empty_line_bounds parse_http_version_bounds request_line_end_bounds
  ADVANCE_TOKEN_bounds parse_headers_bounds

lemma parse_request_no_fault [no_fault]:
  "i \<le> length buf \<Longrightarrow> parse_request buf i mx out \<noteq> (out', Fault)"
  by (auto simp: parse_request_def Let_def pstep_Fault_iff no_fault
        split: prod.splits dest!: step_bounds)

text \<open>(C5) Memory safety of the request head parser: whatever bytes are in the
  buffer, \<^verbatim>\<open>phr_parse_request\<close> never reads at or past \<^verbatim>\<open>buf_end\<close>, provided the part
  already processed lies inside the buffer.\<close>

theorem phr_parse_request_safe:
  "last_len \<le> length buf \<Longrightarrow> snd (phr_parse_request buf mx last_len) \<noteq> Fault"
  by (auto simp: phr_parse_request_def presult_iffs no_fault split: presult.splits prod.splits if_splits)

theorem phr_parse_request_safe_witness:
  "snd (phr_parse_request (''GET /'' @ [CR]) 64 3) \<noteq> Fault"
  by (rule phr_parse_request_safe) simp

lemma PARSE_INT_no_fault [no_fault]: "i < length buf \<Longrightarrow> PARSE_INT buf i m \<noteq> Fault"
  by (auto simp: PARSE_INT_def presult_iffs split: if_splits)

lemma PARSE_INT_bounds: "PARSE_INT buf i m = Ok (j, v) \<Longrightarrow> j = i + 1 \<and> i < length buf \<and> 
   (\<exists>d. 0 \<le> d \<and> d \<le> 9 \<and> v = m * d)"
  by (auto simp: PARSE_INT_def presult_iffs uchar_def split: if_splits
      intro!: exI [of _ "int (of_char (buf ! i)) - 48"])

lemma PARSE_INT_3_no_fault [no_fault]:
  "i + 3 \<le> length buf \<Longrightarrow> PARSE_INT_3 buf i out \<noteq> (out', Fault)"
  by (auto simp: PARSE_INT_3_def Let_def pstep_Fault_iff no_fault split: prod.splits
      dest!: PARSE_INT_bounds)

lemma PARSE_INT_3_bounds:
  "PARSE_INT_3 buf i out = (out', Ok j) \<Longrightarrow> j = i + 3 \<and> j \<le> length buf \<and>
     (\<exists>v. out' = out\<lparr>resp_status := v\<rparr> \<and> 0 \<le> v \<and> v \<le> 999)"
  by (auto simp: PARSE_INT_3_def Let_def pstep_Ok_iff no_fault split: prod.splits
      dest!: PARSE_INT_bounds)


lemma parse_status_line_rest_no_fault [no_fault]:
  "i + 4 \<le> length buf \<Longrightarrow> parse_status_line_rest buf i mx out \<noteq> (out', Fault)"
  by (auto simp: parse_status_line_rest_def pstep_Fault_iff no_fault EXPECT_CHAR_NO_CHECK_Ok_iff
      split: prod.splits dest!: PARSE_INT_3_bounds get_token_to_eol_bounds [rotated])

lemma parse_response_no_fault [no_fault]:
  "parse_response buf i mx out \<noteq> (out', Fault)"
  by (auto simp: parse_response_def Let_def pstep_Fault_iff no_fault EXPECT_CHAR_NO_CHECK_Ok_iff
      split: prod.splits if_splits dest!: parse_http_version_bounds)

section \<open>Everything reported lies inside the consumed part\<close>

definition header_inside :: "nat \<Rightarrow> nat \<Rightarrow> phr_header \<Rightarrow> bool" where
  "header_inside lo hi h \<longleftrightarrow>
     (case hdr_name h of
        None \<Rightarrow> hdr_name_len h = 0
      | Some s \<Rightarrow> lo \<le> s \<and> 0 < hdr_name_len h \<and> s + hdr_name_len h < hdr_value h) \<and>
     lo \<le> hdr_value h \<and> hdr_value h + hdr_value_len h < hi"

lemma header_line_inside:
  assumes "header_line buf mx hs i = Some (h, j)"
  shows "header_inside i j h"
proof -
  from assms obtain k nm nl v vl where "i < length buf" "header_start buf hs i = Ok (k, nm, nl)"
    "get_token_to_eol buf k = Ok (j, v, vl)"
    "h = \<lparr>hdr_name = nm, hdr_name_len = nl, hdr_value = v, hdr_value_len = vl\<rparr>"
    by (rule header_line_SomeE)
  then show ?thesis
    using header_start_bounds [of buf hs i k nm nl] get_token_to_eol_bounds [of k buf j v vl]
    by (auto simp: header_inside_def)
qed

lemma header_inside_mono: "header_inside lo hi h \<Longrightarrow> lo' \<le> lo \<Longrightarrow> hi \<le> hi' \<Longrightarrow> header_inside lo' hi' h"
  by (auto simp: header_inside_def split: option.splits)

lemma parse_headers_inside:
  "parse_headers buf mx hs i = (hs', Ok n) \<Longrightarrow> i \<le> length buf \<Longrightarrow>
     \<exists>ts. hs' = hs @ ts \<and> (\<forall>h \<in> set ts. header_inside i n h)"
proof (induction hs i rule: parse_headers_iter_induct [of buf mx])
  case (Exit hs i)
  then show ?case by (auto simp: parse_headers_exit)
next
  case (Line hs i h j)
  have j: "i < j" "j \<le> length buf" using header_line_bounds [OF Line(1)] by auto
  have n: "j < n" using parse_headers_bounds [of buf mx _ j] Line j by (auto simp: parse_headers_line)
  from Line j obtain ts where ts: "hs' = hs @ h # ts" "\<forall>h \<in> set ts. header_inside j n h"
    by (auto simp: parse_headers_line)
  have "header_inside i n h"
    using header_line_inside [OF Line(1)] by (rule header_inside_mono) (use n in auto)
  moreover have "\<forall>h \<in> set ts. header_inside i n h"
    using ts(2) j by (blast intro: header_inside_mono less_imp_le)
  ultimately show ?case using ts(1) by (intro exI [of _ "h # ts"]) auto
qed

lemma parse_headers_max:
  "length hs \<le> mx \<Longrightarrow> length (fst (parse_headers buf mx hs i)) \<le> mx"
proof (induction hs i rule: parse_headers_iter_induct [of buf mx])
  case (Line hs i h j)
  then show ?case by (auto simp: parse_headers_line elim!: header_line_SomeE)
qed (simp add: parse_headers_exit)

definition request_inside :: "nat \<Rightarrow> nat \<Rightarrow> phr_out \<Rightarrow> bool" where
  "request_inside lo hi out \<longleftrightarrow>
     (\<exists>m p. phr_method out = Some m \<and> phr_path out = Some p \<and> lo \<le> m \<and>
        m + phr_method_len out < p \<and> p + phr_path_len out < hi \<and>
        (\<forall>h \<in> set (phr_headers out). header_inside (p + phr_path_len out) hi h)) \<and>
     0 \<le> phr_minor_version out \<and> phr_minor_version out \<le> 9"

lemma parse_request_inside:
  assumes "parse_request buf i mx out = (out', Ok n)" "phr_headers out = []" "i \<le> length buf"
  shows "request_inside i n out' \<and> i < n \<and> n \<le> length buf \<and> length (phr_headers out') \<le> mx"
proof -
  from assms(1,2) obtain i1 i2 m ml i3 p pl i4 v i5 hs where
    st: "skip_empty_line buf i = Ok i1" "ADVANCE_TOKEN buf i1 = Ok (i2, m, ml)"
    "ADVANCE_TOKEN buf (i2 + 1) = Ok (i3, p, pl)" "parse_http_version buf (i3 + 1) = Ok (i4, v)"
    "request_line_end buf i4 = Ok i5" and hs: "parse_headers buf mx [] i5 = (hs, Ok n)"
    and out': "out' = out\<lparr>phr_method := Some m, phr_method_len := ml, phr_path := Some p,
      phr_path_len := pl, phr_minor_version := v, phr_headers := hs\<rparr>"
    by (clarsimp simp: parse_request_def Let_def pstep_Ok_iff) (auto split: prod.splits)
  from st have b: "i \<le> i1" "m = i1" "i1 + ml = i2" "p = i2 + 1" "p + pl = i3" "i3 < i5"
    "i5 \<le> length buf" "0 \<le> v" "v \<le> 9"
    by (auto dest!: step_bounds)
  with hs have n: "i5 < n" "n \<le> length buf" using parse_headers_bounds by blast+
  have "\<forall>h \<in> set hs. header_inside i5 n h"
    using parse_headers_inside [OF hs b(7)] by auto
  then have "\<forall>h \<in> set hs. header_inside i3 n h"
    using b(6) by (blast intro: header_inside_mono less_imp_le)
  moreover have "length hs \<le> mx" using parse_headers_max [of "[]" mx buf i5] hs by simp
  ultimately show ?thesis
    using b n unfolding out' request_inside_def by auto
qed

section \<open>Later bytes do not change a decided answer\<close>

lemma nth_extend [simp]: "i < length buf \<Longrightarrow> (buf @ q) ! i = buf ! i"
  by (simp add: nth_append)

lemma rd_stable [stable]: "i < length buf \<Longrightarrow> rd (buf @ q) i = rd buf i"
  by (simp add: rd_def)

lemma CHECK_EOF_stable:
  "decided (CHECK_EOF buf i k) \<Longrightarrow> i \<le> length buf \<Longrightarrow> (i < length buf \<Longrightarrow> decided k \<Longrightarrow> k' = k) \<Longrightarrow>
     CHECK_EOF (buf @ q) i k' = CHECK_EOF buf i k"
  by (auto simp: CHECK_EOF_def split: if_splits)

lemma EXPECT_CHAR_NO_CHECK_stable [stable]:
  "i < length buf \<Longrightarrow> EXPECT_CHAR_NO_CHECK (buf @ q) i ch = EXPECT_CHAR_NO_CHECK buf i ch"
  by (simp add: EXPECT_CHAR_NO_CHECK_def stable)

lemma EXPECT_CHAR_stable [stable]:
  "decided (EXPECT_CHAR buf i ch) \<Longrightarrow> i \<le> length buf \<Longrightarrow> EXPECT_CHAR (buf @ q) i ch = EXPECT_CHAR buf i ch"
  unfolding EXPECT_CHAR_def by (erule CHECK_EOF_stable) (simp_all add: stable)

lemma advance_loop_stable [stable]:
  "decided (advance_loop buf i) \<Longrightarrow> advance_loop (buf @ q) i = advance_loop buf i"
proof (induction buf i rule: advance_loop.induct)
  case (1 buf i)
  then show ?case
    by (subst advance_loop.simps, subst (asm) (3) advance_loop.simps, subst (2) advance_loop.simps)
      (auto simp: CHECK_EOF_def split: if_splits)
qed

lemma eol_slow_stable [stable]:
  "decided (eol_slow buf i) \<Longrightarrow> eol_slow (buf @ q) i = eol_slow buf i"
proof (induction buf i rule: eol_slow.induct)
  case (1 buf i)
  then show ?case
    by (subst eol_slow.simps, subst (asm) (3) eol_slow.simps, subst (2) eol_slow.simps)
      (auto simp: CHECK_EOF_def split: if_splits)
qed

lemma name_loop_stable [stable]:
  "decided (name_loop buf i) \<Longrightarrow> name_loop (buf @ q) i = name_loop buf i"
proof (induction buf i rule: name_loop.induct)
  case (1 buf i)
  then show ?case
    by (subst name_loop.simps, subst (asm) (3) name_loop.simps, subst (2) name_loop.simps)
      (auto simp: CHECK_EOF_def split: if_splits)
qed

lemma skip_ws_stable [stable]:
  "decided (skip_ws buf i) \<Longrightarrow> skip_ws (buf @ q) i = skip_ws buf i"
proof (induction buf i rule: skip_ws.induct)
  case (1 buf i)
  then show ?case
    by (subst skip_ws.simps, subst (asm) (3) skip_ws.simps, subst (2) skip_ws.simps)
      (auto simp: CHECK_EOF_def split: if_splits)
qed

lemma is_complete_loop_stable [stable]:
  "decided (is_complete_loop buf i n) \<Longrightarrow> is_complete_loop (buf @ q) i n = is_complete_loop buf i n"
proof (induction buf i n rule: is_complete_loop.induct)
  case (1 buf i n)
  then show ?case
    by (subst is_complete_loop.simps, subst (asm) (4) is_complete_loop.simps,
        subst (2) is_complete_loop.simps)
      (auto simp: CHECK_EOF_def EXPECT_CHAR_def EXPECT_CHAR_NO_CHECK_def rd_def
        split: if_splits presult.splits)
qed

lemma ADVANCE_TOKEN_stable [stable]:
  "decided (ADVANCE_TOKEN buf i) \<Longrightarrow> i \<le> length buf \<Longrightarrow> ADVANCE_TOKEN (buf @ q) i = ADVANCE_TOKEN buf i"
  by (simp add: ADVANCE_TOKEN_def findchar_fast_def)
    (erule CHECK_EOF_stable, simp, erule pbind_stable, simp_all add: stable)

lemma found_ctl_stable [stable]:
  "decided (found_ctl buf s i) \<Longrightarrow> i < length buf \<Longrightarrow> found_ctl (buf @ q) s i = found_ctl buf s i"
  unfolding found_ctl_def
  by (erule pbind_stable) (auto simp: stable rd_Ok_iff intro!: pbind_stable)

lemma get_token_to_eol_stable [stable]:
  assumes "decided (get_token_to_eol buf i)" "i \<le> length buf"
  shows "get_token_to_eol (buf @ q) i = get_token_to_eol buf i"
  using assms
  by (simp add: get_token_to_eol_slow)
    (erule pbind_stable, auto simp: stable dest: eol_slow_bounds)

lemma header_name_stable [stable]:
  "decided (header_name buf i) \<Longrightarrow> i \<le> length buf \<Longrightarrow> header_name (buf @ q) i = header_name buf i"
  by (simp add: header_name_def findchar_fast_def)
    (erule CHECK_EOF_stable, simp, erule pbind_stable,
     auto simp: stable split: if_splits intro!: pbind_stable)

lemma header_start_stable [stable]:
  "decided (header_start buf hs i) \<Longrightarrow> i < length buf \<Longrightarrow> header_start (buf @ q) hs i = header_start buf hs i"
  by (auto simp: header_start_def stable split: if_splits)

lemma header_line_stable:
  "header_line buf mx hs i = Some (h, j) \<Longrightarrow> header_line (buf @ q) mx hs i = Some (h, j)"
  using header_start_stable [of buf hs i q]
  by (erule_tac header_line_SomeE)
    (auto simp: header_line_def get_token_to_eol_stable dest: header_start_bounds)

lemma header_exit_stable:
  assumes "header_line buf mx hs i = None" "decided (header_exit buf mx hs i)"
  shows "header_line (buf @ q) mx hs i = None \<and> header_exit (buf @ q) mx hs i = header_exit buf mx hs i"
proof -
  have i: "i < length buf" using assms(2) by (auto simp: header_exit_def split: if_splits)
  consider "buf ! i = CR \<or> buf ! i = LF \<or> length hs = mx"
    | r where "buf ! i \<noteq> CR" "buf ! i \<noteq> LF" "length hs \<noteq> mx" "header_start buf hs i = Ret r" "r \<noteq> - 2"
    | k nm nl r where "buf ! i \<noteq> CR" "buf ! i \<noteq> LF" "length hs \<noteq> mx"
      "header_start buf hs i = Ok (k, nm, nl)" "get_token_to_eol buf k = Ret r" "r \<noteq> - 2" "k < length buf"
    using i assms
    by (auto simp: header_exit_def header_line_def split: if_splits presult.splits
        dest: header_start_bounds)
  then show ?thesis
  proof cases
    case 1
    then show ?thesis
      using i assms by (auto simp: header_line_def header_exit_def stable)
  next
    case 2
    with i header_start_stable [of buf hs i q] show ?thesis
      by (simp add: header_line_def header_exit_def)
  next
    case 3
    with i header_start_stable [of buf hs i q] get_token_to_eol_stable [of buf k q] show ?thesis
      by (simp add: header_line_def header_exit_def)
  qed
qed

lemma parse_headers_stable [stable]:
  "decided (snd (parse_headers buf mx hs i)) \<Longrightarrow>
     parse_headers (buf @ q) mx hs i = parse_headers buf mx hs i"
proof (induction hs i rule: parse_headers_iter_induct [of buf mx])
  case (Exit hs i)
  then show ?case using header_exit_stable [of buf mx hs i q] by (simp add: parse_headers_exit)
next
  case (Line hs i h j)
  then show ?case using header_line_stable [OF Line(1), of q] by (simp add: parse_headers_line)
qed

lemma is_complete_stable [stable]:
  "decided (is_complete buf last_len) \<Longrightarrow> is_complete (buf @ q) last_len = is_complete buf last_len"
  by (simp add: is_complete_def stable)

lemma expect_chars_stable [stable]:
  "i + length cs \<le> length buf \<Longrightarrow> expect_chars (buf @ q) i cs = expect_chars buf i cs"
proof (induction cs arbitrary: i)
  case (Cons c cs)
  then show ?case by (simp add: EXPECT_CHAR_NO_CHECK_def rd_def)
qed simp

lemma PARSE_INT_stable [stable]: "i < length buf \<Longrightarrow> PARSE_INT (buf @ q) i m = PARSE_INT buf i m"
  by (simp add: PARSE_INT_def stable)

lemma parse_http_version_stable [stable]:
  "decided (parse_http_version buf i) \<Longrightarrow> parse_http_version (buf @ q) i = parse_http_version buf i"
proof -
  assume d: "decided (parse_http_version buf i)"
  then have len: "i + 9 \<le> length buf" by (auto simp: parse_http_version_def split: if_splits)
  with d have "decided (pbind (expect_chars buf i ''HTTP/1.'') (\<lambda>j. PARSE_INT buf j 1))"
    by (auto simp: parse_http_version_def simp del: expect_chars.simps split: if_splits)
  then have "pbind (expect_chars (buf @ q) i ''HTTP/1.'') (\<lambda>j. PARSE_INT (buf @ q) j 1) =
    pbind (expect_chars buf i ''HTTP/1.'') (\<lambda>j. PARSE_INT buf j 1)"
  proof (rule pbind_stable)
    show "expect_chars (buf @ q) i ''HTTP/1.'' = expect_chars buf i ''HTTP/1.''"
      by (rule expect_chars_stable) (use len in simp)
    show "PARSE_INT (buf @ q) j 1 = PARSE_INT buf j 1" if "expect_chars buf i ''HTTP/1.'' = Ok j" for j
      using that len by (auto simp: stable presult_iffs EXPECT_CHAR_NO_CHECK_Ok_iff)
  qed
  with len show ?thesis by (auto simp: parse_http_version_def simp del: expect_chars.simps)
qed

lemma skip_empty_line_stable [stable]:
  "decided (skip_empty_line buf i) \<Longrightarrow> i \<le> length buf \<Longrightarrow> skip_empty_line (buf @ q) i = skip_empty_line buf i"
  unfolding skip_empty_line_def
  by (erule CHECK_EOF_stable, simp, erule pbind_stable) (auto simp: stable split: if_splits)

lemma request_line_end_stable [stable]:
  "decided (request_line_end buf i) \<Longrightarrow> i < length buf \<Longrightarrow> request_line_end (buf @ q) i = request_line_end buf i"
  unfolding request_line_end_def
  by (erule pbind_stable) (auto simp: stable split: if_splits)

lemma parse_request_stable [stable]:
  assumes "decided (snd (parse_request buf i mx out))" "i \<le> length buf"
  shows "parse_request (buf @ q) i mx out = parse_request buf i mx out"
  using assms unfolding parse_request_def Let_def
  apply -
  apply (erule pstep_stable, simp add: stable, drule skip_empty_line_bounds, clarsimp)
  apply (erule pstep_stable, simp add: stable, clarsimp dest!: ADVANCE_TOKEN_bounds)
  apply (erule pstep_stable, simp add: stable, clarsimp dest!: ADVANCE_TOKEN_bounds)
  apply (erule pstep_stable, simp add: stable, clarsimp dest!: parse_http_version_bounds)
  apply (erule pstep_stable, simp add: stable, simp add: case_prod_beta stable)
  done

text \<open>(C18) Incremental parsing: once \<^verbatim>\<open>phr_parse_request\<close> has decided (accepted with a
  length, or rejected with -1), bytes that arrive later change neither the result nor any
  out-parameter.\<close>

theorem phr_parse_request_stable:
  assumes "decided (snd (phr_parse_request buf mx last_len))" "last_len \<le> length buf"
  shows "phr_parse_request (buf @ q) mx last_len = phr_parse_request buf mx last_len"
proof (cases "last_len \<noteq> 0 \<and> (\<forall>n. is_complete buf last_len \<noteq> Ok n)")
  case True
  with assms show ?thesis
    by (auto simp: phr_parse_request_def is_complete_stable no_fault split: presult.splits if_splits)
next
  case False
  then have ic: "(if last_len \<noteq> 0 then is_complete (buf @ q) last_len else Ok 0) =
    (if last_len \<noteq> 0 then is_complete buf last_len else Ok 0)"
    by (auto simp: is_complete_stable)
  have "decided (snd (parse_request buf last_len mx phr_out_init))"
    using assms(1) False
    by (cases "snd (parse_request buf last_len mx phr_out_init)")
      (auto simp: phr_parse_request_def case_prod_beta split: if_splits presult.splits)
  then have "parse_request (buf @ q) last_len mx phr_out_init = parse_request buf last_len mx phr_out_init"
    using assms(2) by (rule parse_request_stable)
  with ic show ?thesis by (simp only: phr_parse_request_def)
qed

theorem phr_parse_request_stable_witness:
  "phr_parse_request ((''GET / HTTP/1.0'' @ crlf @ crlf) @ ''POST'') 64 0 =
     phr_parse_request (''GET / HTTP/1.0'' @ crlf @ crlf) 64 0"
  by (rule phr_parse_request_stable) code_simp+

lemma PARSE_INT_3_stable [stable]:
  "i + 3 \<le> length buf \<Longrightarrow> PARSE_INT_3 (buf @ q) i out = PARSE_INT_3 buf i out"
  unfolding PARSE_INT_3_def Let_def
  by (cases "PARSE_INT buf i 100")
    (auto simp: PARSE_INT_stable PARSE_INT_def pbind_Ok_iff rd_def split: if_splits)

lemma parse_status_line_rest_stable:
  assumes "decided (snd (parse_status_line_rest buf i mx out))" "i + 4 \<le> length buf"
  shows "parse_status_line_rest (buf @ q) i mx out = parse_status_line_rest buf i mx out"
proof -
  obtain out1 res where p: "PARSE_INT_3 buf i out = (out1, res)" by fastforce
  with assms have p': "PARSE_INT_3 (buf @ q) i out = (out1, res)" by (simp add: stable)
  show ?thesis
    using assms(1) unfolding parse_status_line_rest_def Let_def p p' prod.case
    apply -
    apply (erule pstep_stable, simp, use p assms(2) in \<open>clarsimp dest!: PARSE_INT_3_bounds\<close>)
    apply (erule pstep_stable, simp add: stable, clarsimp simp: EXPECT_CHAR_NO_CHECK_Ok_iff)
    apply (erule pstep_stable, simp add: stable, simp add: case_prod_beta stable)
    done
qed

lemma parse_response_stable:
  assumes "decided (snd (parse_response buf i mx out))"
  shows "parse_response (buf @ q) i mx out = parse_response buf i mx out"
  using assms unfolding parse_response_def Let_def
  apply -
  apply (erule pstep_stable, simp add: stable, clarsimp dest!: parse_http_version_bounds)
  apply (erule pstep_stable, simp add: stable)
  apply (clarsimp simp: EXPECT_CHAR_NO_CHECK_Ok_iff parse_status_line_rest_stable split: if_splits)
  done

text \<open>(C19) What an accepted request reports is inside what it consumed: method, path and
  every header name and value are disjoint ranges in the order of the text, at least one
  byte and at most the rest of the buffer is consumed, at most \<^verbatim>\<open>max_headers\<close> headers are
  stored and the minor version is one digit.\<close>

theorem phr_parse_request_inside:
  assumes "phr_parse_request buf mx last_len = (out, Ok n)" "last_len \<le> length buf"
  shows "request_inside last_len (last_len + n) out \<and> 0 < n \<and> last_len + n \<le> length buf \<and>
     length (phr_headers out) \<le> mx"
proof -
  from assms(1) obtain k where "parse_request buf last_len mx phr_out_init = (out, Ok k)" "n = k - last_len"
    by (auto simp: phr_parse_request_def presult_iffs split: presult.splits prod.splits if_splits)
  with parse_request_inside [OF this(1)] assms(2) show ?thesis by (auto simp: phr_out_init_def)
qed

theorem phr_parse_request_inside_witness:
  "request_inside 0 (0 + 25) (fst (phr_parse_request (''GET / HTTP/1.0'' @ crlf @ ''A: bc'' @ crlf @ crlf) 64 0))"
proof -
  have "phr_parse_request (''GET / HTTP/1.0'' @ crlf @ ''A: bc'' @ crlf @ crlf) 64 0 =
    (fst (phr_parse_request (''GET / HTTP/1.0'' @ crlf @ ''A: bc'' @ crlf @ crlf) 64 0), Ok 25)"
    by code_simp
  from phr_parse_request_inside [OF this] show ?thesis by blast
qed

lemma phr_parse_request_0: "phr_parse_request buf mx 0 = parse_request buf 0 mx phr_out_init"
  by (cases "snd (parse_request buf 0 mx phr_out_init)")
    (auto simp: phr_parse_request_def case_prod_beta prod_eq_iff)

text \<open>Every proper prefix of an accepted head is reported as incomplete (-2), so
  the connection keeps reading instead of rejecting a head that is still arriving.\<close>

theorem phr_parse_request_prefix:
  assumes "phr_parse_request (p @ q) mx 0 = (out, Ok n)" "length p < n"
  shows "snd (phr_parse_request p mx 0) = Ret (- 2)"
proof (rule ccontr)
  assume neq: "snd (phr_parse_request p mx 0) \<noteq> Ret (- 2)"
  have "snd (phr_parse_request p mx 0) \<noteq> Fault"
    using parse_request_no_fault [of 0 p mx phr_out_init] by (metis phr_parse_request_0 le0 prod.collapse)
  with neq have "parse_request (p @ q) 0 mx phr_out_init = parse_request p 0 mx phr_out_init"
    by (intro parse_request_stable) (auto simp: decided_def phr_parse_request_0)
  with assms have "parse_request p 0 mx phr_out_init = (out, Ok n)" by (simp add: phr_parse_request_0)
  from parse_request_inside [OF this] assms(2) show False by (simp add: phr_out_init_def)
qed

theorem phr_parse_request_prefix_witness:
  "snd (phr_parse_request ''GET /a HTTP/1.'' 64 0) = Ret (- 2)"
  by (rule phr_parse_request_prefix [of _ "''1'' @ crlf @ crlf" 64
        "fst (phr_parse_request (''GET /a HTTP/1.1'' @ crlf @ crlf) 64 0)" 19]) code_simp+

lemma IS_PRINTABLE_ASCII_iff: "IS_PRINTABLE_ASCII c \<longleftrightarrow> 32 \<le> uchar c \<and> uchar c < 127"
proof -
  have u: "uchar c < 256" by simp
  then have n: "unat (of_nat (uchar c) :: u32) = uchar c" unfolding unat_of_nat
    by (intro mod_less) (rule less_trans, assumption, simp)
  show ?thesis
  proof (cases "32 \<le> uchar c")
    case True
    then have "(32 :: u32) \<le> of_nat (uchar c)" by (simp add: word_le_nat_alt n)
    then have "unat (of_nat (uchar c) - 32 :: u32) = uchar c - 32" by (simp add: unat_sub n)
    with True show ?thesis unfolding IS_PRINTABLE_ASCII_def word_less_nat_alt by auto
  next
    case False
    then have "unat (of_nat (uchar c) - 32 :: u32) = 2 ^ 32 + uchar c - 32"
      by (simp add: unat_sub_if_size n word_size word_le_nat_alt)
    with False show ?thesis unfolding IS_PRINTABLE_ASCII_def word_less_nat_alt by auto
  qed
qed

lemma ctl_not_printable: "eol_ctl c \<Longrightarrow> \<not> IS_PRINTABLE_ASCII c"
  by (auto simp: eol_ctl_def IS_PRINTABLE_ASCII_iff uchar_def)

lemma eol_slow_takeWhile:
  "i \<le> length buf \<Longrightarrow> eol_slow buf i =
     (let j = i + length (takeWhile (\<lambda>c. \<not> eol_ctl c) (drop i buf))
      in if j = length buf then Ret (- 2) else Ok j)"
proof (induction buf i rule: eol_slow.induct)
  case (1 buf i)
  show ?case
  proof (cases "i = length buf")
    case True
    then show ?thesis by (subst eol_slow.simps) (simp add: CHECK_EOF_def)
  next
    case False
    with "1.prems" have i: "i < length buf" by simp
    then have d: "drop i buf = buf ! i # drop (i + 1) buf" by (simp add: Cons_nth_drop_Suc)
    show ?thesis
      using "1.IH" False i ctl_not_printable [of "buf ! i"]
      by (subst eol_slow.simps) (auto simp: CHECK_EOF_def d Let_def)
  qed
qed

text \<open>The line scanner, with its eightfold unrolled loop, returns what a plain search would.\<close>

theorem get_token_to_eol_spec:
  "i \<le> length buf \<Longrightarrow> get_token_to_eol buf i =
     (let j = i + length (takeWhile (\<lambda>c. \<not> eol_ctl c) (drop i buf))
      in if j = length buf then Ret (- 2)
         else if buf ! j = LF then Ok (j + 1, i, j - i)
         else if buf ! j = CR \<and> j + 1 = length buf then Ret (- 2)
         else if buf ! j = CR \<and> buf ! (j + 1) = LF then Ok (j + 2, i, j - i)
         else Ret (- 1))"
proof -
  assume i: "i \<le> length buf"
  let ?n = "length (takeWhile (\<lambda>c. \<not> eol_ctl c) (drop i buf))"
  have "?n \<le> length (drop i buf)" by (rule length_takeWhile_le)
  with i have "i + ?n \<le> length buf" by simp
  then show ?thesis
    unfolding get_token_to_eol_slow [OF i] eol_slow_takeWhile [OF i]
    by (auto simp: Let_def found_ctl_def rd_def EXPECT_CHAR_def EXPECT_CHAR_NO_CHECK_def CHECK_EOF_def)
qed

theorem get_token_to_eol_spec_witness:
  "get_token_to_eol (''name: a much longer value'' @ crlf @ ''x'') 6 = Ok (27, 6, 19)"
  using get_token_to_eol_spec [of 6 "''name: a much longer value'' @ crlf @ ''x''"]
  by (simp add: Let_def eol_ctl_def uchar_def)

text \<open>The response head parser and the bare header parser read only inside their buffer, and
  what the response parser decides is not changed by later bytes.\<close>

theorem phr_parse_response_safe_stable:
  assumes "last_len \<le> length buf"
  shows "snd (phr_parse_response buf mx last_len) \<noteq> Fault \<and>
     snd (phr_parse_headers buf mx last_len) \<noteq> Fault \<and>
     (decided (snd (phr_parse_response buf mx last_len)) \<longrightarrow>
       phr_parse_response (buf @ q) mx last_len = phr_parse_response buf mx last_len)"
proof (intro conjI impI)
  show "snd (phr_parse_response buf mx last_len) \<noteq> Fault"
    using assms by (auto simp: phr_parse_response_def no_fault split: presult.splits if_splits)
      (metis parse_response_no_fault prod.collapse)+
  show "snd (phr_parse_headers buf mx last_len) \<noteq> Fault"
    using assms by (auto simp: phr_parse_headers_def no_fault split: presult.splits if_splits)
  assume d: "decided (snd (phr_parse_response buf mx last_len))"
  show "phr_parse_response (buf @ q) mx last_len = phr_parse_response buf mx last_len"
  proof (cases "last_len = 0 \<or> (\<exists>n. is_complete buf last_len = Ok n)")
    case True
    then have "(if last_len \<noteq> 0 then is_complete (buf @ q) last_len else Ok 0) =
        (if last_len \<noteq> 0 then is_complete buf last_len else Ok 0)"
      "decided (snd (parse_response buf 0 mx phr_resp_init))"
      using d by (auto simp: is_complete_stable phr_parse_response_def split: presult.splits if_splits)
    then show ?thesis by (simp only: phr_parse_response_def parse_response_stable)
  next
    case False
    with d show ?thesis
      by (auto simp: phr_parse_response_def is_complete_stable split: presult.splits if_splits)
  qed
qed

theorem phr_parse_response_safe_stable_witness:
  "phr_parse_response ((''HTTP/1.1 404 No'' @ crlf @ crlf) @ ''body'') 8 0 =
     phr_parse_response (''HTTP/1.1 404 No'' @ crlf @ crlf) 8 0"
proof -
  have "decided (snd (phr_parse_response (''HTTP/1.1 404 No'' @ crlf @ crlf) 8 0))" by code_simp
  with phr_parse_response_safe_stable [of 0 "''HTTP/1.1 404 No'' @ crlf @ crlf" 8 "''body''"]
  show ?thesis by blast
qed

end
