(* ===== verification/Pico_Roundtrip.thy ===== *)
theory Pico_Roundtrip
  imports Pico_Correct
begin

text \<open>
  Heads written in the usual form (one blank after the colon, \<^verbatim>\<open>CRLF\<close> line ends) are parsed
  back to exactly the strings they were made of. The lemmas in \<open>codec\<close> say what each step
  of the parser does on a printed piece.
\<close>

section \<open>Printed heads are parsed back\<close>

definition plain_char :: "char \<Rightarrow> bool" where
  "plain_char c \<longleftrightarrow> c \<noteq> SP \<and> 32 \<le> uchar c \<and> c \<noteq> CHR 0x7F"

definition name_char :: "char \<Rightarrow> bool" where
  "name_char c \<longleftrightarrow> token_char_map ! uchar c \<noteq> 0 \<and> c \<noteq> CHR '':''"

definition value_ok :: "string \<Rightarrow> bool" where
  "value_ok v \<longleftrightarrow> (\<forall>c \<in> set v. \<not> eol_ctl c) \<and> (v = [] \<or> hd v \<noteq> SP \<and> hd v \<noteq> TAB)"

definition header_ok :: "string \<times> string \<Rightarrow> bool" where
  "header_ok nv \<longleftrightarrow> fst nv \<noteq> [] \<and> (\<forall>c \<in> set (fst nv). name_char c) \<and> value_ok (snd nv)"

definition print_header :: "string \<times> string \<Rightarrow> string" where
  "print_header nv = fst nv @ '': '' @ snd nv @ crlf"

definition print_request :: "string \<Rightarrow> string \<Rightarrow> nat \<Rightarrow> (string \<times> string) list \<Rightarrow> string" where
  "print_request m p v hs =
     m @ [SP] @ p @ [SP] @ ''HTTP/1.'' @ [char_of (48 + v)] @ crlf @ concat (map print_header hs) @ crlf"

definition header_strings :: "string \<Rightarrow> phr_header \<Rightarrow> string \<times> string" where
  "header_strings buf h =
     (subrange buf (the (hdr_name h)) (hdr_name_len h), subrange buf (hdr_value h) (hdr_value_len h))"

text \<open>The header \<open>h\<close> of the buffer has this name and value, and the value ends at the carriage return.\<close>

definition header_at :: "string \<Rightarrow> phr_header \<Rightarrow> string \<times> string \<Rightarrow> bool" where
  "header_at buf h nv \<longleftrightarrow> header_strings buf h = nv \<and> hdr_name h \<noteq> None \<and> (\<exists>rest. drop (hdr_value h) buf = snd nv @ CR # rest)"

lemma header_at_strings: "list_all2 (header_at buf) ts hs \<Longrightarrow> map (header_strings buf) ts = hs"
  by (induction ts hs rule: list_all2_induct) (auto simp: header_at_def)

lemma CHECK_EOF_inside [simp]: "i < length buf \<Longrightarrow> CHECK_EOF buf i k = k"
  by (simp add: CHECK_EOF_def)

lemma advance_loop_token [codec]:
  "\<forall>c \<in> set tok. plain_char c \<Longrightarrow>
     advance_loop (pre @ tok @ SP # post) (length pre) = Ok (length pre + length tok)"
proof (induction tok arbitrary: pre)
  case Nil
  then show ?case by (subst advance_loop.simps) simp
next
  case (Cons c tok)
  then have "advance_loop ((pre @ [c]) @ tok @ SP # post) (length (pre @ [c])) =
     Ok (length (pre @ [c]) + length tok)" by (intro Cons.IH) auto
  with Cons.prems show ?case by (subst advance_loop.simps) (auto simp: plain_char_def)
qed

lemma ADVANCE_TOKEN_token [codec]:
  "\<forall>c \<in> set tok. plain_char c \<Longrightarrow>
     ADVANCE_TOKEN (pre @ tok @ SP # post) (length pre) =
       Ok (length pre + length tok, length pre, length tok)"
  by (simp add: ADVANCE_TOKEN_def findchar_fast_def codec)

lemma eol_slow_value [codec]:
  "\<forall>c \<in> set v. \<not> eol_ctl c \<Longrightarrow>
     eol_slow (pre @ v @ CR # post) (length pre) = Ok (length pre + length v)"
proof (induction v arbitrary: pre)
  case Nil
  then show ?case by (subst eol_slow.simps) (simp add: eol_ctl_def uchar_def ctl_not_printable)
next
  case (Cons c v)
  then have "eol_slow ((pre @ [c]) @ v @ CR # post) (length (pre @ [c])) =
     Ok (length (pre @ [c]) + length v)" by (intro Cons.IH) auto
  with Cons.prems show ?case by (subst eol_slow.simps) auto
qed

lemma get_token_to_eol_value [codec]:
  "\<forall>c \<in> set v. \<not> eol_ctl c \<Longrightarrow>
     get_token_to_eol (pre @ v @ CR # LF # post) (length pre) =
       Ok (length pre + length v + 2, length pre, length v)"
  using nth_append_here [of "pre @ v" CR "LF # post"] nth_append_here [of "pre @ v @ [CR]" LF post]
  by (simp add: get_token_to_eol_slow codec found_ctl_def rd_def EXPECT_CHAR_def EXPECT_CHAR_NO_CHECK_def)

lemma name_loop_name [codec]:
  "\<forall>c \<in> set nm. name_char c \<Longrightarrow>
     name_loop (pre @ nm @ CHR '':'' # post) (length pre) = Ok (length pre + length nm)"
proof (induction nm arbitrary: pre)
  case Nil
  then show ?case by (subst name_loop.simps) simp
next
  case (Cons c nm)
  then have "name_loop ((pre @ [c]) @ nm @ CHR '':'' # post) (length (pre @ [c])) =
     Ok (length (pre @ [c]) + length nm)" by (intro Cons.IH) auto
  with Cons.prems show ?case by (subst name_loop.simps) (auto simp: name_char_def)
qed

lemma token_char_map_blank:
  "token_char_map ! 32 = 0" "token_char_map ! 9 = 0" "token_char_map ! 13 = 0" "token_char_map ! 10 = 0"
  by code_simp+

lemma name_char_not_blank: "name_char c \<Longrightarrow> c \<noteq> SP \<and> c \<noteq> TAB \<and> c \<noteq> CR \<and> c \<noteq> LF"
  by (auto simp: name_char_def token_char_map_blank uchar_def)

lemma value_then_crlf_not_blank: "value_ok v \<Longrightarrow> hd (v @ crlf) \<noteq> SP \<and> hd (v @ crlf) \<noteq> TAB"
  by (cases v) (auto simp: value_ok_def)

text \<open>A header field with any white space after the colon; \<open>print_header\<close> is the case of one blank.\<close>

definition print_field :: "string \<times> string \<times> string \<Rightarrow> string" where
  "print_field f = (case f of (n, ws, v) \<Rightarrow> n @ '':'' @ ws @ v @ crlf)"

definition field_ok :: "string \<times> string \<times> string \<Rightarrow> bool" where
  "field_ok f = (case f of (n, ws, v) \<Rightarrow> header_ok (n, v) \<and> set ws \<subseteq> {SP, TAB})"

lemma skip_ws_blanks [codec]:
  assumes "set ws \<subseteq> {SP, TAB}" "post \<noteq> []" "hd post \<noteq> SP" "hd post \<noteq> TAB"
  shows "skip_ws (pre @ ws @ post) (length pre) = Ok (length pre + length ws)"
  using assms(1)
proof (induction ws arbitrary: pre)
  case Nil
  have "(pre @ post) ! length pre = hd post" using assms(2) by (simp add: nth_append hd_conv_nth)
  with assms(2-4) show ?case by (subst skip_ws.simps) simp
next
  case (Cons c ws)
  have "skip_ws ((pre @ [c]) @ ws @ post) (length (pre @ [c])) = Ok (length (pre @ [c]) + length ws)"
    using Cons by (intro Cons.IH) auto
  with Cons.prems assms(2) show ?case by (subst skip_ws.simps) (auto simp: neq_Nil_conv)
qed

lemma header_start_printed [codec]:
  assumes "field_ok (n, ws, v)"
  shows "header_start (pre @ print_field (n, ws, v) @ post) hs (length pre) =
     Ok (length pre + length n + 1 + length ws, Some (length pre), length n)"
proof -
  have ne: "n \<noteq> []" using assms by (simp add: field_ok_def header_ok_def)
  have nm: "\<forall>c \<in> set n. name_char c" and v: "value_ok v" and ws: "set ws \<subseteq> {SP, TAB}"
    using assms by (auto simp: field_ok_def header_ok_def)
  have nb: "n ! 0 \<noteq> SP" "n ! 0 \<noteq> TAB" using nm name_char_not_blank ne nth_mem [of 0 n] by auto
  have buf: "pre @ print_field (n, ws, v) @ post = pre @ n @ CHR '':'' # (ws @ v @ crlf @ post)"
    by (simp add: print_field_def)
  have at: "(pre @ n @ CHR '':'' # (ws @ v @ crlf @ post)) ! length pre = n ! 0"
    using ne by (simp add: nth_append)
  have "hd (v @ crlf @ post) \<noteq> SP" "hd (v @ crlf @ post) \<noteq> TAB"
    using value_then_crlf_not_blank [OF v] by (cases v; simp)+
  then have "skip_ws ((pre @ n @ [CHR '':'']) @ ws @ (v @ crlf @ post)) (length (pre @ n @ [CHR '':''])) =
     Ok (length (pre @ n @ [CHR '':'']) + length ws)"
    by (intro skip_ws_blanks ws) auto
  then have "header_name (pre @ n @ CHR '':'' # (ws @ v @ crlf @ post)) (length pre) =
     Ok (length pre + length n + 1 + length ws, Some (length pre), length n)"
    using name_loop_name [OF nm, of pre "ws @ v @ crlf @ post"] ne
    by (simp add: header_name_def findchar_fast_def)
  then show ?thesis using nb at unfolding buf by (simp add: header_start_def)
qed

lemma header_line_field:
  assumes "field_ok (n, ws, v)" "length acc < mx"
  shows "header_line (pre @ print_field (n, ws, v) @ post) mx acc (length pre) =
     Some (\<lparr>hdr_name = Some (length pre), hdr_name_len = length n,
       hdr_value = length pre + length n + 1 + length ws, hdr_value_len = length v\<rparr>, length (pre @ print_field (n, ws, v)))"
proof -
  obtain c n' where n: "n = c # n'" and c: "c \<noteq> CR" "c \<noteq> LF"
    using assms(1) name_char_not_blank by (cases n) (auto simp: field_ok_def header_ok_def)
  have "get_token_to_eol ((pre @ n @ '':'' @ ws) @ v @ CR # LF # post) (length (pre @ n @ '':'' @ ws)) =
    Ok (length (pre @ n @ '':'' @ ws) + length v + 2, length (pre @ n @ '':'' @ ws), length v)"
    using assms(1) by (intro get_token_to_eol_value) (auto simp: field_ok_def header_ok_def value_ok_def)
  then show ?thesis
    using header_start_printed [OF assms(1), of pre post acc] c n assms(2)
    by (simp add: header_line_def print_field_def nth_append add.assoc)
qed

lemma parse_headers_fields:
  assumes "\<forall>f \<in> set fs. field_ok f" "length acc + length fs \<le> mx"
  shows "\<exists>ts. \<forall>post. parse_headers (pre @ concat (map print_field fs) @ crlf @ post) mx acc (length pre) =
       (acc @ ts, Ok (length pre + length (concat (map print_field fs)) + 2)) \<and>
     list_all2 (header_at (pre @ concat (map print_field fs) @ crlf @ post)) ts (map (\<lambda>(n, ws, v). (n, v)) fs)"
  using assms
proof (induction fs arbitrary: pre acc)
  case Nil
  have "header_line (pre @ crlf @ post) mx acc (length pre) = None" for post
    by (simp add: header_line_def nth_append)
  then show ?case
    by (simp add: parse_headers_exit header_exit_def EXPECT_CHAR_def EXPECT_CHAR_NO_CHECK_def rd_def nth_append)
next
  case (Cons f fs)
  obtain n ws v where f: "f = (n, ws, v)" by (cases f) auto
  have ok: "field_ok (n, ws, v)" and rest: "\<forall>f \<in> set fs. field_ok f" using Cons.prems f by auto
  let ?tail = "\<lambda>post. concat (map print_field fs) @ crlf @ post"
  let ?buf = "\<lambda>post. pre @ print_field (n, ws, v) @ ?tail post"
  let ?h = "\<lparr>hdr_name = Some (length pre), hdr_name_len = length n,
     hdr_value = length pre + length n + 1 + length ws, hdr_value_len = length v\<rparr>"
  let ?pre = "pre @ print_field (n, ws, v)"
  have ph: "parse_headers (?buf post) mx acc (length pre) = parse_headers (?buf post) mx (acc @ [?h]) (length ?pre)" for post
    using Cons.prems(2) by (intro parse_headers_line header_line_field ok) simp
  have at: "header_at (?buf post) ?h (n, v)" for post
    using subrange_append_prefix [of pre n "'':'' @ ws @ v @ crlf @ ?tail post"]
      subrange_append_prefix [of "pre @ n @ '':'' @ ws" v "crlf @ ?tail post"]
    by (simp add: header_at_def header_strings_def print_field_def add.assoc)
  from Cons.IH [of "acc @ [?h]" ?pre] rest Cons.prems(2) obtain ts where
    "\<And>post. parse_headers (?buf post) mx (acc @ [?h]) (length ?pre) =
       (acc @ ?h # ts, Ok (length ?pre + length (concat (map print_field fs)) + 2)) \<and>
     list_all2 (header_at (?buf post)) ts (map (\<lambda>(n, ws, v). (n, v)) fs)" by auto
  then show ?case using ph at by (intro exI [of _ "?h # ts"]) (simp add: f add.assoc)
qed

lemma print_header_field: "print_header nv = print_field (fst nv, '' '', snd nv)"
  by (simp add: print_header_def print_field_def)

lemma expect_chars_printed [codec]: "expect_chars (pre @ cs @ post) (length pre) cs = Ok (length pre + length cs)"
proof (induction cs arbitrary: pre)
  case (Cons c cs)
  from Cons.IH [of "pre @ [c]"] show ?case
    by (simp add: EXPECT_CHAR_NO_CHECK_def rd_def nth_append)
qed simp

lemma parse_http_version_printed [codec]:
  assumes "v \<le> 9" "post \<noteq> []"
  shows "parse_http_version (pre @ ''HTTP/1.'' @ char_of (48 + v) # post) (length pre) =
    Ok (length pre + 8, int v)"
proof -
  let ?buf = "pre @ ''HTTP/1.'' @ char_of (48 + v) # post"
  have "expect_chars ?buf (length pre) ''HTTP/1.'' = Ok (length pre + 7)"
    using expect_chars_printed [of pre "''HTTP/1.''" "char_of (48 + v) # post"] by (simp del: expect_chars.simps)
  moreover have "?buf ! (length pre + 7) = char_of (48 + v)" by (simp add: nth_append)
  then have "PARSE_INT ?buf (length pre + 7) 1 = Ok (length pre + 8, int v)"
    using assms(1) by (simp add: PARSE_INT_def rd_def uchar_def)
  moreover have "9 \<le> length ?buf - length pre" using assms(2) by (cases post) auto
  ultimately show ?thesis
    using assms(2) unfolding parse_http_version_def by (simp del: expect_chars.simps)
qed

lemma skip_empty_line_plain [codec]:
  "buf \<noteq> [] \<Longrightarrow> hd buf \<noteq> CR \<Longrightarrow> hd buf \<noteq> LF \<Longrightarrow> skip_empty_line buf 0 = Ok 0"
  by (cases buf) (auto simp: skip_empty_line_def rd_def)

text \<open>A request head whose headers have any white space after their colons.\<close>

definition request_text :: "string \<Rightarrow> string \<Rightarrow> nat \<Rightarrow> (string \<times> string \<times> string) list \<Rightarrow> string" where
  "request_text m p v fs =
     m @ [SP] @ p @ [SP] @ ''HTTP/1.'' @ [char_of (48 + v)] @ crlf @ concat (map print_field fs) @ crlf"

definition head_text :: "string \<Rightarrow> string \<Rightarrow> nat \<Rightarrow> (string \<times> string) list \<Rightarrow> string \<Rightarrow> bool" where
  "head_text m p v hs H \<longleftrightarrow>
     (\<exists>fs. (\<forall>f \<in> set fs. field_ok f) \<and> hs = map (\<lambda>(n, ws, v). (n, v)) fs \<and> H = request_text m p v fs)"

lemma head_text_print:
  assumes "\<forall>nv \<in> set hs. header_ok nv"
  shows "head_text m p v hs (print_request m p v hs)"
proof -
  let ?fs = "map (\<lambda>nv. (fst nv, '' '', snd nv)) hs"
  have "\<forall>f \<in> set ?fs. field_ok f" using assms by (auto simp: field_ok_def)
  moreover have "hs = map (\<lambda>(n, ws, v). (n, v)) ?fs" by (simp add: comp_def)
  moreover have "print_request m p v hs = request_text m p v ?fs"
    by (simp add: print_request_def request_text_def comp_def flip: print_header_field)
  ultimately show ?thesis unfolding head_text_def by blast
qed

lemma head_text_headers: "head_text m p v hs H \<Longrightarrow> \<forall>nv \<in> set hs. header_ok nv"
  by (auto simp: head_text_def field_ok_def)

lemma head_text_parts:
  assumes "head_text m p v hs H"
  shows "subrange (H @ body) 0 (length m) = m" "subrange (H @ body) (length m + 1) (length p) = p" "H \<noteq> []"
  using assms by (auto simp: head_text_def request_text_def subrange_def)

lemma parse_request_fields:
  assumes m: "\<forall>c \<in> set m. plain_char c" and p: "\<forall>c \<in> set p. plain_char c" and v: "v \<le> 9"
    and fs: "\<forall>f \<in> set fs. field_ok f" "length fs \<le> mx"
  shows "\<exists>ts. \<forall>body. phr_parse_request (request_text m p v fs @ body) mx 0 =
      (\<lparr>phr_method = Some 0, phr_method_len = length m, phr_path = Some (length m + 1), phr_path_len = length p,
        phr_minor_version = int v, phr_headers = ts\<rparr>, Ok (length (request_text m p v fs))) \<and>
     list_all2 (header_at (request_text m p v fs @ body)) ts (map (\<lambda>(n, ws, v). (n, v)) fs)"
proof -
  let ?H = "concat (map print_field fs)"
  let ?l1 = "m @ [SP]" let ?l2 = "m @ [SP] @ p @ [SP]"
  let ?l3 = "m @ [SP] @ p @ [SP] @ ''HTTP/1.'' @ [char_of (48 + v)] @ crlf"
  let ?buf = "\<lambda>body. request_text m p v fs @ body"
  have b1: "?buf body = [] @ m @ SP # (p @ [SP] @ ''HTTP/1.'' @ [char_of (48 + v)] @ crlf @ ?H @ crlf @ body)"
   and b2: "?buf body = ?l1 @ p @ SP # (''HTTP/1.'' @ [char_of (48 + v)] @ crlf @ ?H @ crlf @ body)"
   and b3: "?buf body = ?l2 @ ''HTTP/1.'' @ char_of (48 + v) # (crlf @ ?H @ crlf @ body)"
   and b4: "?buf body = ?l3 @ ?H @ crlf @ body" for body
    by (simp_all add: request_text_def)
  have s0: "skip_empty_line (?buf body) 0 = Ok 0" for body
  proof (rule skip_empty_line_plain)
    show "?buf body \<noteq> []" "hd (?buf body) \<noteq> CR" "hd (?buf body) \<noteq> LF"
      using m unfolding b1 by (auto simp: hd_append plain_char_def uchar_def dest!: bspec [OF _ hd_in_set])
  qed
  have s1: "ADVANCE_TOKEN (?buf body) 0 = Ok (length m, 0, length m)" for body
    using ADVANCE_TOKEN_token [OF m, of "[]"] unfolding b1 by simp
  have s2: "ADVANCE_TOKEN (?buf body) (length m + 1) = Ok (length m + 1 + length p, length m + 1, length p)" for body
    using ADVANCE_TOKEN_token [OF p, of ?l1] unfolding b2 by simp
  have s3: "parse_http_version (?buf body) (length m + 1 + length p + 1) = Ok (length m + length p + 10, int v)" for body
    using parse_http_version_printed [OF v, of "crlf @ ?H @ crlf @ body" ?l2] unfolding b3 by simp
  have "?buf body ! (length m + length p + 10) = CR" "?buf body ! (length m + length p + 11) = LF"
    "length m + length p + 10 < length (?buf body)" "length m + length p + 11 < length (?buf body)" for body
    unfolding b3 by (simp_all add: nth_append)
  then have s4: "request_line_end (?buf body) (length m + length p + 10) = Ok (length m + length p + 12)" for body
    by (simp add: request_line_end_def rd_def EXPECT_CHAR_def EXPECT_CHAR_NO_CHECK_def algebra_simps)
  have l3: "length m + length p + 12 = length ?l3" by simp
  from parse_headers_fields [OF fs(1), of "[]" mx ?l3] fs(2) obtain ts where
    s5: "\<And>body. parse_headers (?buf body) mx [] (length m + length p + 12) = (ts, Ok (length ?l3 + length ?H + 2))"
    and ts: "\<And>body. list_all2 (header_at (?buf body)) ts (map (\<lambda>(n, ws, v). (n, v)) fs)"
    unfolding b4 l3 by auto
  have "phr_parse_request (?buf body) mx 0 = (\<lparr>phr_method = Some 0, phr_method_len = length m,
      phr_path = Some (length m + 1), phr_path_len = length p, phr_minor_version = int v,
      phr_headers = ts\<rparr>, Ok (length (request_text m p v fs)))" for body
    using s0 [of body] s1 [of body] s2 [of body] s3 [of body] s4 [of body] s5 [of body]
    by (simp add: phr_parse_request_def parse_request_def phr_out_init_def Let_def) (simp add: request_text_def)
  then show ?thesis using ts by blast
qed

lemma parse_request_text:
  assumes m: "\<forall>c \<in> set m. plain_char c" and p: "\<forall>c \<in> set p. plain_char c" and v: "v \<le> 9"
    and H: "head_text m p v hs H" and hs: "length hs \<le> mx"
  shows "\<exists>ts. \<forall>body. phr_parse_request (H @ body) mx 0 =
      (\<lparr>phr_method = Some 0, phr_method_len = length m, phr_path = Some (length m + 1), phr_path_len = length p,
        phr_minor_version = int v, phr_headers = ts\<rparr>, Ok (length H)) \<and>
     list_all2 (header_at (H @ body)) ts hs"
proof -
  obtain fs where "\<forall>f \<in> set fs. field_ok f" "hs = map (\<lambda>(n, ws, v). (n, v)) fs" "H = request_text m p v fs"
    using H unfolding head_text_def by blast
  then show ?thesis using parse_request_fields [OF m p v, of fs mx] hs by simp
qed

text \<open>Round trip: a request head printed from a method, a path, a version and headers, followed
  by any bytes, is accepted with exactly its length, and the reported ranges are the strings
  it was printed from.\<close>

theorem phr_parse_request_print:
  assumes m: "\<forall>c \<in> set m. plain_char c" and p: "\<forall>c \<in> set p. plain_char c" and v: "v \<le> 9"
    and hs: "\<forall>nv \<in> set hs. header_ok nv" "length hs \<le> mx"
    and buf: "buf = print_request m p v hs @ body"
  shows "\<exists>out. phr_parse_request buf mx 0 = (out, Ok (length (print_request m p v hs))) \<and>
     subrange buf (the (phr_method out)) (phr_method_len out) = m \<and>
     subrange buf (the (phr_path out)) (phr_path_len out) = p \<and>
     phr_minor_version out = int v \<and> map (header_strings buf) (phr_headers out) = hs"
  using parse_request_text [OF assms(1-3) head_text_print [OF hs(1)] hs(2)] head_text_parts(1,2) [OF head_text_print [OF hs(1), of m p v], of body] header_at_strings
  unfolding buf by fastforce

theorem phr_parse_request_print_witness:
  "\<exists>out. phr_parse_request (print_request ''GET'' ''/a?b'' 1 [(''Host'', ''x.y''), (''Empty'', [])] @ ''rest'') 64 0 =
      (out, Ok (length (print_request ''GET'' ''/a?b'' 1 [(''Host'', ''x.y''), (''Empty'', [])]))) \<and>
    subrange (print_request ''GET'' ''/a?b'' 1 [(''Host'', ''x.y''), (''Empty'', [])] @ ''rest'')
      (the (phr_path out)) (phr_path_len out) = ''/a?b''"
proof -
  have "\<forall>c \<in> set ''GET''. plain_char c" "\<forall>c \<in> set ''/a?b''. plain_char c"
    "\<forall>nv \<in> set [(''Host'', ''x.y''), (''Empty'', [])]. header_ok nv"
    by code_simp+
  from phr_parse_request_print [OF this(1,2) _ this(3) _ refl, of 1 64 "''rest''"]
  show ?thesis by auto
qed

section \<open>Status lines\<close>

definition print_response :: "nat \<Rightarrow> string \<Rightarrow> (string \<times> string \<times> string) list \<Rightarrow> string" where
  "print_response status msg fs =
     ''HTTP/1.1 '' @ [char_of (48 + status div 100), char_of (48 + status div 10 mod 10), char_of (48 + status mod 10)] @
     SP # msg @ crlf @ concat (map print_field fs) @ crlf"

lemma PARSE_INT_digit: "d \<le> 9 \<Longrightarrow> PARSE_INT (pre @ char_of (48 + d) # post) (length pre) m = Ok (length pre + 1, m * int d)"
  by (simp add: PARSE_INT_def rd_def uchar_def)

lemma phr_parse_response_print:
  assumes "status < 1000" "\<forall>c \<in> set msg. \<not> eol_ctl c" "\<forall>f \<in> set fs. field_ok f" "length fs \<le> mx"
    and buf: "buf = print_response status msg fs @ body"
  shows "\<exists>out. phr_parse_response buf mx 0 = (out, Ok (length (print_response status msg fs))) \<and>
     resp_minor_version out = 1 \<and> resp_status out = int status \<and>
     subrange buf (the (resp_msg out)) (resp_msg_len out) = msg \<and>
     list_all2 (header_at buf) (resp_headers out) (map (\<lambda>(n, ws, v). (n, v)) fs) \<and>
     map (header_strings buf) (resp_headers out) = map (\<lambda>(n, ws, v). (n, v)) fs"
proof -
  define a b c where d: "a = status div 100" "b = status div 10 mod 10" "c = status mod 10"
  have "status div 100 = status div 10 div 10" by (simp flip: div_mult2_eq)
  then have "10 * a + b = status div 10" unfolding d by simp
  then have st: "100 * a + 10 * b + c = status" using mult_div_mod_eq [of 10 status] unfolding d(3) by linarith
  have le: "a \<le> 9" "b \<le> 9" "c \<le> 9" using assms(1) unfolding d by auto
  have one: "char_of (49 :: nat) = CHR ''1''" by code_simp
  let ?H = "concat (map print_field fs)" and ?v = "''HTTP/1.1''"
  let ?l1 = "?v @ [SP]" let ?l2 = "?l1 @ [char_of (48 + a)]" let ?l3 = "?l2 @ [char_of (48 + b)]"
  let ?l4 = "?l3 @ [char_of (48 + c), SP]" let ?l5 = "?l4 @ msg @ crlf"
  let ?r4 = "msg @ CR # LF # ?H @ crlf @ body"
  have b1: "buf = [] @ ''HTTP/1.'' @ CHR ''1'' # (SP # char_of (48 + a) # char_of (48 + b) # char_of (48 + c) # SP # ?r4)"
   and b2: "buf = ?l1 @ char_of (48 + a) # (char_of (48 + b) # char_of (48 + c) # SP # ?r4)"
   and b3: "buf = ?l2 @ char_of (48 + b) # (char_of (48 + c) # SP # ?r4)"
   and b4: "buf = ?l3 @ char_of (48 + c) # (SP # ?r4)"
   and b5: "buf = ?l4 @ ?r4" and b6: "buf = ?l5 @ ?H @ crlf @ body"
    by (simp_all add: buf print_response_def d [symmetric] one)
  have s1: "parse_http_version buf 0 = Ok (8, 1)"
    unfolding b1 using parse_http_version_printed [of 1 "SP # char_of (48 + a) # char_of (48 + b) # char_of (48 + c) # SP # ?r4" "[]"] by (simp add: one)
  have s2: "EXPECT_CHAR_NO_CHECK buf 8 SP = Ok 9" "EXPECT_CHAR_NO_CHECK buf 12 SP = Ok 13" "\<not> length buf - 9 < 4"
    unfolding b1 by (simp_all add: EXPECT_CHAR_NO_CHECK_def rd_def)
  have s3: "PARSE_INT buf 9 100 = Ok (10, 100 * int a)" "PARSE_INT buf 10 10 = Ok (11, 10 * int b)" "PARSE_INT buf 11 1 = Ok (12, int c)"
    using PARSE_INT_digit [OF le(1), of ?l1 "char_of (48 + b) # char_of (48 + c) # SP # ?r4" 100]
      PARSE_INT_digit [OF le(2), of ?l2 "char_of (48 + c) # SP # ?r4" 10] PARSE_INT_digit [OF le(3), of ?l3 "SP # ?r4" 1]
    unfolding b2 [symmetric] b3 [symmetric] b4 [symmetric] by (simp_all add: eval_nat_numeral)
  have s4: "get_token_to_eol buf 13 = Ok (15 + length msg, 13, length msg)"
    using get_token_to_eol_value [OF assms(2), of ?l4 "?H @ crlf @ body"] unfolding b5 [symmetric] by (simp add: eval_nat_numeral)
  from parse_headers_fields [OF assms(3), of "[]" mx ?l5] assms(4) obtain ts where
    "parse_headers (?l5 @ ?H @ crlf @ body) mx [] (length ?l5) = (ts, Ok (length ?l5 + length ?H + 2))"
    "list_all2 (header_at (?l5 @ ?H @ crlf @ body)) ts (map (\<lambda>(n, ws, v). (n, v)) fs)" by auto
  then have s5: "parse_headers buf mx [] (15 + length msg) = (ts, Ok (17 + length msg + length ?H))"
    and ts: "map (header_strings buf) ts = map (\<lambda>(n, ws, v). (n, v)) fs" "list_all2 (header_at buf) ts (map (\<lambda>(n, ws, v). (n, v)) fs)"
    unfolding b6 [symmetric] using header_at_strings by (auto simp: eval_nat_numeral)
  have "phr_parse_response buf mx 0 = (\<lparr>resp_minor_version = 1, resp_status = int status, resp_msg = Some 13,
      resp_msg_len = length msg, resp_headers = ts\<rparr>, Ok (length (print_response status msg fs)))"
    using s1 s2 s3 s4 s5 st
    by (simp add: phr_parse_response_def parse_response_def parse_status_line_rest_def PARSE_INT_3_def phr_resp_init_def print_response_def Let_def)
  moreover have "subrange buf 13 (length msg) = msg" unfolding b5 by (simp add: subrange_def)
  ultimately show ?thesis using ts by simp
qed

end
