(* ===== verification/Chunked.thy ===== *)
theory Chunked
  imports Netcore_Prelude
begin

text \<open>
  The chunked transfer decoder of \<^verbatim>\<open>picohttpparser.h\<close> (\<^verbatim>\<open>phr_decode_chunked\<close>), which rewrites
  its buffer in place, and the chunk writer of \<^verbatim>\<open>response.hpp\<close> (\<^verbatim>\<open>to_chunked_buffers\<close>).

  The model keeps the buffer, the two offsets \<^verbatim>\<open>dst\<close> and \<^verbatim>\<open>src\<close> and every \<^verbatim>\<open>memmove\<close>; each
  label of the \<^verbatim>\<open>switch\<close> is one definition, and falling through is a call of the next.
  The abstract specification is an automaton that reads one byte at a time (\<open>crun\<close>); the
  refinement theorem relates the two, and splitting and round trip are shown for the code
  through it.
\<close>

section \<open>The decoder\<close>

datatype chunk_state = CHUNKED_IN_CHUNK_SIZE | CHUNKED_IN_CHUNK_EXT | CHUNKED_IN_CHUNK_DATA
  | CHUNKED_IN_CHUNK_CRLF | CHUNKED_IN_TRAILERS_LINE_HEAD | CHUNKED_IN_TRAILERS_LINE_MIDDLE

record phr_chunked_decoder =
  bytes_left_in_chunk :: size_t
  consume_trailer :: bool
  hex_count :: nat
  cd_state :: chunk_state

definition decode_hex :: "char \<Rightarrow> int" where
  "decode_hex c =
     (let ch = uchar c in
      if 48 \<le> ch \<and> ch \<le> 57 then int ch - 48
      else if 65 \<le> ch \<and> ch \<le> 70 then int ch - 65 + 10
      else if 97 \<le> ch \<and> ch \<le> 102 then int ch - 97 + 10
      else - 1)"

definition memmove :: "string \<Rightarrow> nat \<Rightarrow> nat \<Rightarrow> nat \<Rightarrow> string" where
  "memmove buf dst src n = take dst buf @ take n (drop src buf) @ drop (dst + n) buf"

text \<open>How a pass through the \<^verbatim>\<open>switch\<close> ends: back to the \<^verbatim>\<open>while\<close>, or at \<^verbatim>\<open>Exit\<close> with a result.\<close>

datatype chunk_flow = Again | Exit int

type_synonym chunk_pass = "phr_chunked_decoder \<times> string \<times> nat \<times> nat \<times> chunk_flow"

fun scan_lf :: "string \<Rightarrow> nat" where
  "scan_lf [] = 0"
| "scan_lf (c # cs) = (if c = LF then 0 else Suc (scan_lf cs))"

fun scan_cr :: "string \<Rightarrow> nat" where
  "scan_cr [] = 0"
| "scan_cr (c # cs) = (if c \<noteq> CR then 0 else Suc (scan_cr cs))"

definition in_chunk_crlf :: "phr_chunked_decoder \<Rightarrow> string \<Rightarrow> nat \<Rightarrow> nat \<Rightarrow> chunk_pass" where
  "in_chunk_crlf d buf dst src =
     (let src = src + scan_cr (drop src buf) in
      if src = length buf then (d, buf, dst, src, Exit (- 2))
      else if buf ! src \<noteq> LF then (d, buf, dst, src, Exit (- 1))
      else (d\<lparr>cd_state := CHUNKED_IN_CHUNK_SIZE\<rparr>, buf, dst, src + 1, Again))"

definition in_chunk_data :: "phr_chunked_decoder \<Rightarrow> string \<Rightarrow> nat \<Rightarrow> nat \<Rightarrow> chunk_pass" where
  "in_chunk_data d buf dst src =
     (let avail = length buf - src;
          left = unat (bytes_left_in_chunk d) in
      if avail < left then
        (d\<lparr>bytes_left_in_chunk := bytes_left_in_chunk d - of_nat avail\<rparr>,
         if dst \<noteq> src then memmove buf dst src avail else buf, dst + avail, src + avail, Exit (- 2))
      else
        in_chunk_crlf (d\<lparr>bytes_left_in_chunk := 0, cd_state := CHUNKED_IN_CHUNK_CRLF\<rparr>)
          (if dst \<noteq> src then memmove buf dst src left else buf) (dst + left) (src + left))"

definition in_chunk_ext :: "phr_chunked_decoder \<Rightarrow> string \<Rightarrow> nat \<Rightarrow> nat \<Rightarrow> chunk_pass" where
  "in_chunk_ext d buf dst src =
     (let src = src + scan_lf (drop src buf) in
      if src = length buf then (d, buf, dst, src, Exit (- 2))
      else
        (let src = src + 1 in
         if bytes_left_in_chunk d = 0 then
           if consume_trailer d
           then (d\<lparr>cd_state := CHUNKED_IN_TRAILERS_LINE_HEAD\<rparr>, buf, dst, src, Again)
           else (d, buf, dst, src, Exit (int (length buf - src)))
         else in_chunk_data (d\<lparr>cd_state := CHUNKED_IN_CHUNK_DATA\<rparr>) buf dst src))"

text \<open>The digits of the chunk size: decoder, digits read, and the \<^verbatim>\<open>goto Exit\<close> if one is taken.\<close>

fun size_digits :: "phr_chunked_decoder \<Rightarrow> string \<Rightarrow> phr_chunked_decoder \<times> nat \<times> int option" where
  "size_digits d [] = (d, 0, Some (- 2))"
| "size_digits d (c # cs) =
     (let v = decode_hex c in
      if v = - 1 then
        (if hex_count d = 0 then (d, 0, Some (- 1)) else (d, 0, None))
      else if hex_count d = 16 then (d, 0, Some (- 1))
      else
        (let (d', n, r) = size_digits
           (d\<lparr>bytes_left_in_chunk := bytes_left_in_chunk d * 16 + of_int v, hex_count := hex_count d + 1\<rparr>) cs
         in (d', Suc n, r)))"

definition in_chunk_size :: "phr_chunked_decoder \<Rightarrow> string \<Rightarrow> nat \<Rightarrow> nat \<Rightarrow> chunk_pass" where
  "in_chunk_size d buf dst src =
     (let (d, n, r) = size_digits d (drop src buf); src = src + n in
      case r of
        Some ret \<Rightarrow> (d, buf, dst, src, Exit ret)
      | None \<Rightarrow> in_chunk_ext (d\<lparr>hex_count := 0, cd_state := CHUNKED_IN_CHUNK_EXT\<rparr>) buf dst src)"

definition in_trailers_line_middle :: "phr_chunked_decoder \<Rightarrow> string \<Rightarrow> nat \<Rightarrow> nat \<Rightarrow> chunk_pass" where
  "in_trailers_line_middle d buf dst src =
     (let src = src + scan_lf (drop src buf) in
      if src = length buf then (d, buf, dst, src, Exit (- 2))
      else (d\<lparr>cd_state := CHUNKED_IN_TRAILERS_LINE_HEAD\<rparr>, buf, dst, src + 1, Again))"

definition in_trailers_line_head :: "phr_chunked_decoder \<Rightarrow> string \<Rightarrow> nat \<Rightarrow> nat \<Rightarrow> chunk_pass" where
  "in_trailers_line_head d buf dst src =
     (let src = src + scan_cr (drop src buf) in
      if src = length buf then (d, buf, dst, src, Exit (- 2))
      else if buf ! src = LF then (d, buf, dst, src + 1, Exit (int (length buf - (src + 1))))
      else in_trailers_line_middle (d\<lparr>cd_state := CHUNKED_IN_TRAILERS_LINE_MIDDLE\<rparr>) buf dst (src + 1))"

definition chunk_switch :: "phr_chunked_decoder \<Rightarrow> string \<Rightarrow> nat \<Rightarrow> nat \<Rightarrow> chunk_pass" where
  "chunk_switch d =
     (case cd_state d of
        CHUNKED_IN_CHUNK_SIZE \<Rightarrow> in_chunk_size d
      | CHUNKED_IN_CHUNK_EXT \<Rightarrow> in_chunk_ext d
      | CHUNKED_IN_CHUNK_DATA \<Rightarrow> in_chunk_data d
      | CHUNKED_IN_CHUNK_CRLF \<Rightarrow> in_chunk_crlf d
      | CHUNKED_IN_TRAILERS_LINE_HEAD \<Rightarrow> in_trailers_line_head d
      | CHUNKED_IN_TRAILERS_LINE_MIDDLE \<Rightarrow> in_trailers_line_middle d)"

lemma scan_le: "scan_lf cs \<le> length cs" "scan_cr cs \<le> length cs"
  by (induction cs) auto

lemma scan_drop_le:
  "src \<le> length buf \<Longrightarrow> src + scan_lf (drop src buf) \<le> length buf"
  "src \<le> length buf \<Longrightarrow> src + scan_cr (drop src buf) \<le> length buf"
  using scan_le [of "drop src buf"] by auto

lemma length_memmove [simp]:
  "dst \<le> src \<Longrightarrow> src + n \<le> length buf \<Longrightarrow> length (memmove buf dst src n) = length buf"
  by (simp add: memmove_def)

lemma size_digits_le: "size_digits d cs = (d', n, r) \<Longrightarrow> n \<le> length cs"
  by (induction d cs arbitrary: d' n r rule: size_digits.induct)
    (fastforce simp: Let_def split: if_splits prod.splits)+

text \<open>A pass that loops has moved \<^verbatim>\<open>src\<close> forward, so the \<^verbatim>\<open>while (1)\<close> ends.\<close>

definition pass_forward :: "string \<Rightarrow> nat \<Rightarrow> nat \<Rightarrow> chunk_pass \<Rightarrow> bool" where
  "pass_forward buf dst src p =
     (case p of (d', buf', dst', src', fl) \<Rightarrow>
        length buf' = length buf \<and> dst' \<le> src' \<and> src \<le> src' \<and> src' \<le> length buf \<and>
        (fl = Again \<longrightarrow> src < src'))"

lemma in_chunk_crlf_forward:
  "dst \<le> src \<Longrightarrow> src \<le> length buf \<Longrightarrow> pass_forward buf dst src (in_chunk_crlf d buf dst src)"
  using scan_drop_le(2) [of src buf]
  by (auto simp: in_chunk_crlf_def pass_forward_def Let_def)

lemma in_chunk_data_forward:
  assumes "dst \<le> src" "src \<le> length buf"
  shows "pass_forward buf dst src (in_chunk_data d buf dst src)"
proof (cases "length buf - src < unat (bytes_left_in_chunk d)")
  case True
  with assms show ?thesis by (auto simp: in_chunk_data_def pass_forward_def)
next
  case False
  define n where "n = unat (bytes_left_in_chunk d)"
  define buf' where "buf' = (if dst \<noteq> src then memmove buf dst src n else buf)"
  have len: "length buf' = length buf" "src + n \<le> length buf"
    using False assms by (auto simp: n_def buf'_def)
  have eq: "in_chunk_data d buf dst src =
    in_chunk_crlf (d\<lparr>bytes_left_in_chunk := 0, cd_state := CHUNKED_IN_CHUNK_CRLF\<rparr>) buf' (dst + n) (src + n)"
    using False by (simp only: in_chunk_data_def Let_def n_def buf'_def if_False)
  have "pass_forward buf' (dst + n) (src + n) (in_chunk_data d buf dst src)"
    unfolding eq using len assms by (intro in_chunk_crlf_forward) auto
  then show ?thesis using len by (auto simp: pass_forward_def)
qed

lemma in_chunk_ext_forward:
  "dst \<le> src \<Longrightarrow> src \<le> length buf \<Longrightarrow> pass_forward buf dst src (in_chunk_ext d buf dst src)"
  using scan_drop_le(1) [of src buf]
    in_chunk_data_forward [of dst "Suc (src + scan_lf (drop src buf))" buf
      "d\<lparr>cd_state := CHUNKED_IN_CHUNK_DATA\<rparr>"]
  by (auto simp: in_chunk_ext_def pass_forward_def Let_def split: prod.splits)

lemma in_chunk_size_forward:
  assumes "dst \<le> src" "src \<le> length buf"
  shows "pass_forward buf dst src (in_chunk_size d buf dst src)"
proof -
  obtain d' n r where sd: "size_digits d (drop src buf) = (d', n, r)" by (metis prod_cases3)
  then have "src + n \<le> length buf" using size_digits_le [OF sd] assms by simp
  with assms in_chunk_ext_forward [of dst "src + n" buf "d'\<lparr>hex_count := 0, cd_state := CHUNKED_IN_CHUNK_EXT\<rparr>"]
  show ?thesis
    by (auto simp: in_chunk_size_def pass_forward_def Let_def sd split: option.splits prod.splits)
qed

lemma in_trailers_line_middle_forward:
  "dst \<le> src \<Longrightarrow> src \<le> length buf \<Longrightarrow> pass_forward buf dst src (in_trailers_line_middle d buf dst src)"
  using scan_drop_le(1) [of src buf]
  by (auto simp: in_trailers_line_middle_def pass_forward_def Let_def)

lemma in_trailers_line_head_forward:
  "dst \<le> src \<Longrightarrow> src \<le> length buf \<Longrightarrow> pass_forward buf dst src (in_trailers_line_head d buf dst src)"
  using scan_drop_le(2) [of src buf]
    in_trailers_line_middle_forward [of dst "Suc (src + scan_cr (drop src buf))" buf
      "d\<lparr>cd_state := CHUNKED_IN_TRAILERS_LINE_MIDDLE\<rparr>"]
  by (auto simp: in_trailers_line_head_def pass_forward_def Let_def split: prod.splits)

lemma chunk_switch_forward:
  "dst \<le> src \<Longrightarrow> src \<le> length buf \<Longrightarrow> pass_forward buf dst src (chunk_switch d buf dst src)"
  by (cases "cd_state d")
    (simp_all add: chunk_switch_def in_chunk_size_forward in_chunk_ext_forward in_chunk_data_forward
      in_chunk_crlf_forward in_trailers_line_head_forward in_trailers_line_middle_forward)

lemma chunk_switch_Again:
  "chunk_switch d buf dst src = (d', buf', dst', src', Again) \<Longrightarrow> dst \<le> src \<Longrightarrow> src \<le> length buf \<Longrightarrow>
     length buf' = length buf \<and> dst' \<le> src' \<and> src < src' \<and> src' \<le> length buf"
  using chunk_switch_forward [of dst src buf d] by (simp add: pass_forward_def)

function decode_loop ::
  "phr_chunked_decoder \<Rightarrow> string \<Rightarrow> nat \<Rightarrow> nat \<Rightarrow> phr_chunked_decoder \<times> string \<times> nat \<times> nat \<times> int" where
  "decode_loop d buf dst src =
     (case chunk_switch d buf dst src of
        (d', buf', dst', src', fl) \<Rightarrow>
          (case fl of
             Exit ret \<Rightarrow> (d', buf', dst', src', ret)
           | Again \<Rightarrow>
               if dst \<le> src \<and> src \<le> length buf then decode_loop d' buf' dst' src'
               else (d', buf', dst', src', - 1)))"
  by pat_completeness auto

termination decode_loop
  by (relation "measure (\<lambda>(d, buf, dst, src). length buf - src)")
    (auto dest: chunk_switch_Again [OF sym])

declare decode_loop.simps [simp del]

lemma decode_loop_code [code]:
  "decode_loop d buf dst src =
     (case chunk_switch d buf dst src of
        (d', buf', dst', src', fl) \<Rightarrow>
          (if fl = Again \<and> dst \<le> src \<and> src \<le> length buf then decode_loop d' buf' dst' src'
           else (d', buf', dst', src', case fl of Again \<Rightarrow> - 1 | Exit ret \<Rightarrow> ret)))"
  by (subst decode_loop.simps) (auto split: prod.splits chunk_flow.splits)

text \<open>
  Result: the decoder, the rewritten buffer, \<^verbatim>\<open>*_bufsz\<close> and the return value. (The guard in
  \<open>decode_loop\<close> holds on every call from here, by \<open>chunk_switch_forward\<close>.)
\<close>

definition phr_decode_chunked ::
  "phr_chunked_decoder \<Rightarrow> string \<Rightarrow> phr_chunked_decoder \<times> string \<times> nat \<times> int" where
  "phr_decode_chunked d buf =
     (let (d, buf', dst, src, ret) = decode_loop d buf 0 0 in
      (d, if dst \<noteq> src then memmove buf' dst src (length buf - src) else buf', dst, ret))"

definition phr_decode_chunked_is_in_data :: "phr_chunked_decoder \<Rightarrow> bool" where
  "phr_decode_chunked_is_in_data d \<longleftrightarrow> cd_state d = CHUNKED_IN_CHUNK_DATA"

section \<open>Specification: one byte at a time\<close>

datatype chunk_act = Emit phr_chunked_decoder string | Halt phr_chunked_decoder | Bad phr_chunked_decoder

definition ext_act :: "phr_chunked_decoder \<Rightarrow> char \<Rightarrow> chunk_act" where
  "ext_act d c =
     (if c \<noteq> LF then Emit d []
      else if bytes_left_in_chunk d = 0 then
        (if consume_trailer d then Emit (d\<lparr>cd_state := CHUNKED_IN_TRAILERS_LINE_HEAD\<rparr>) [] else Halt d)
      else Emit (d\<lparr>cd_state := CHUNKED_IN_CHUNK_DATA\<rparr>) [])"

definition chunk_act :: "phr_chunked_decoder \<Rightarrow> char \<Rightarrow> chunk_act" where
  "chunk_act d c =
     (case cd_state d of
        CHUNKED_IN_CHUNK_SIZE \<Rightarrow>
          if decode_hex c = - 1 then
            (if hex_count d = 0 then Bad d
             else ext_act (d\<lparr>hex_count := 0, cd_state := CHUNKED_IN_CHUNK_EXT\<rparr>) c)
          else if hex_count d = 16 then Bad d
          else Emit (d\<lparr>bytes_left_in_chunk := bytes_left_in_chunk d * 16 + of_int (decode_hex c),
                       hex_count := hex_count d + 1\<rparr>) []
      | CHUNKED_IN_CHUNK_EXT \<Rightarrow> ext_act d c
      | CHUNKED_IN_CHUNK_DATA \<Rightarrow>
          Emit (if bytes_left_in_chunk d = 1
                then d\<lparr>bytes_left_in_chunk := 0, cd_state := CHUNKED_IN_CHUNK_CRLF\<rparr>
                else d\<lparr>bytes_left_in_chunk := bytes_left_in_chunk d - 1\<rparr>) [c]
      | CHUNKED_IN_CHUNK_CRLF \<Rightarrow>
          if c = CR then Emit d []
          else if c = LF then Emit (d\<lparr>cd_state := CHUNKED_IN_CHUNK_SIZE\<rparr>) [] else Bad d
      | CHUNKED_IN_TRAILERS_LINE_HEAD \<Rightarrow>
          if c = CR then Emit d []
          else if c = LF then Halt d else Emit (d\<lparr>cd_state := CHUNKED_IN_TRAILERS_LINE_MIDDLE\<rparr>) []
      | CHUNKED_IN_TRAILERS_LINE_MIDDLE \<Rightarrow>
          if c = LF then Emit (d\<lparr>cd_state := CHUNKED_IN_TRAILERS_LINE_HEAD\<rparr>) [] else Emit d [])"

type_synonym chunk_result = "phr_chunked_decoder \<times> string \<times> string \<times> int"

definition emit :: "string \<Rightarrow> chunk_result \<Rightarrow> chunk_result" where
  "emit out r = (case r of (d, out', rest, ret) \<Rightarrow> (d, out @ out', rest, ret))"

text \<open>Final decoder, data, unread bytes and return value.\<close>

fun crun :: "phr_chunked_decoder \<Rightarrow> string \<Rightarrow> chunk_result" where
  "crun d [] = (d, [], [], - 2)"
| "crun d (c # cs) =
     (case chunk_act d c of
        Emit d' out \<Rightarrow> emit out (crun d' cs)
      | Halt d' \<Rightarrow> (d', [], cs, int (length cs))
      | Bad d' \<Rightarrow> (d', [], c # cs, - 1))"

lemma emit_simps [simp]: "emit [] r = r" "emit a (emit b r) = emit (a @ b) r"
  "emit a (d, b, c, r') = (d, a @ b, c, r')"
  by (simp_all add: emit_def split: prod.splits)

definition chunk_inv :: "phr_chunked_decoder \<Rightarrow> bool" where
  "chunk_inv d \<longleftrightarrow> (cd_state d = CHUNKED_IN_CHUNK_DATA \<longrightarrow> bytes_left_in_chunk d \<noteq> 0)"

section \<open>Refinement\<close>

lemma crun_skip:
  "\<forall>c \<in> set xs. chunk_act d c = Emit d [] \<Longrightarrow> crun d (xs @ ys) = crun d ys"
  by (induction xs) auto

lemma scan_lf_take: "\<forall>c \<in> set (take (scan_lf cs) cs). c \<noteq> LF"
  by (induction cs) auto

lemma scan_cr_take: "\<forall>c \<in> set (take (scan_cr cs) cs). c = CR"
  by (induction cs) auto

lemma scan_lf_hit: "scan_lf cs < length cs \<Longrightarrow> cs ! scan_lf cs = LF"
  by (induction cs) auto

lemma scan_cr_hit: "scan_cr cs < length cs \<Longrightarrow> cs ! scan_cr cs \<noteq> CR"
  by (induction cs) auto

lemma crun_scan_lf:
  assumes "cd_state d = CHUNKED_IN_CHUNK_EXT \<or> cd_state d = CHUNKED_IN_TRAILERS_LINE_MIDDLE"
  shows "crun d cs = crun d (drop (scan_lf cs) cs)"
proof -
  have "crun d (take (scan_lf cs) cs @ drop (scan_lf cs) cs) = crun d (drop (scan_lf cs) cs)"
  proof (rule crun_skip, rule ballI)
    fix c assume "c \<in> set (take (scan_lf cs) cs)"
    then have "c \<noteq> LF" using scan_lf_take by blast
    with assms show "chunk_act d c = Emit d []" by (elim disjE) (simp_all add: chunk_act_def ext_act_def)
  qed
  from this [unfolded append_take_drop_id] show ?thesis .
qed

lemma crun_scan_cr:
  assumes "cd_state d = CHUNKED_IN_CHUNK_CRLF \<or> cd_state d = CHUNKED_IN_TRAILERS_LINE_HEAD"
  shows "crun d cs = crun d (drop (scan_cr cs) cs)"
proof -
  have "crun d (take (scan_cr cs) cs @ drop (scan_cr cs) cs) = crun d (drop (scan_cr cs) cs)"
  proof (rule crun_skip, rule ballI)
    fix c assume "c \<in> set (take (scan_cr cs) cs)"
    then have "c = CR" using scan_cr_take by blast
    with assms show "chunk_act d c = Emit d []" by (elim disjE) (simp_all add: chunk_act_def)
  qed
  from this [unfolded append_take_drop_id] show ?thesis .
qed

lemma crun_size_digits:
  "size_digits d cs = (d', n, r) \<Longrightarrow> cd_state d = CHUNKED_IN_CHUNK_SIZE \<Longrightarrow>
     crun d cs = (case r of
        None \<Rightarrow> crun (d'\<lparr>hex_count := 0, cd_state := CHUNKED_IN_CHUNK_EXT\<rparr>) (drop n cs)
      | Some ret \<Rightarrow> (d', [], drop n cs, ret))"
proof (induction d cs arbitrary: d' n r rule: size_digits.induct)
  case (2 d c cs)
  then show ?case
    by (auto simp: chunk_act_def Let_def split: if_splits prod.splits option.splits)
qed simp

lemma crun_data_part:
  assumes "cd_state d = CHUNKED_IN_CHUNK_DATA" "length xs < unat (bytes_left_in_chunk d)"
  shows "crun d (xs @ ys) = emit xs (crun (d\<lparr>bytes_left_in_chunk := bytes_left_in_chunk d - of_nat (length xs)\<rparr>) ys)"
  using assms
proof (induction xs arbitrary: d)
  case (Cons x xs)
  have one: "bytes_left_in_chunk d \<noteq> 1" using Cons.prems by auto
  have "unat (bytes_left_in_chunk d - 1) = unat (bytes_left_in_chunk d) - 1"
    using Cons.prems by (intro unat_minus_one) auto
  with Cons.IH [of "d\<lparr>bytes_left_in_chunk := bytes_left_in_chunk d - 1\<rparr>"] Cons.prems one show ?case
    by (simp add: chunk_act_def algebra_simps)
qed simp

lemma crun_data_full:
  assumes "cd_state d = CHUNKED_IN_CHUNK_DATA" "length xs = unat (bytes_left_in_chunk d)" "xs \<noteq> []"
  shows "crun d (xs @ ys) =
    emit xs (crun (d\<lparr>bytes_left_in_chunk := 0, cd_state := CHUNKED_IN_CHUNK_CRLF\<rparr>) ys)"
proof -
  obtain zs z where xs: "xs = zs @ [z]" using assms(3) by (metis rev_exhaust)
  have "bytes_left_in_chunk d = of_nat (unat (bytes_left_in_chunk d))" by simp
  also have "unat (bytes_left_in_chunk d) = Suc (length zs)" using assms(2) xs by simp
  finally have "bytes_left_in_chunk d = of_nat (Suc (length zs))" .
  then have one: "bytes_left_in_chunk d - of_nat (length zs) = 1" by simp
  have "crun d (zs @ [z] @ ys) =
    emit zs (crun (d\<lparr>bytes_left_in_chunk := bytes_left_in_chunk d - of_nat (length zs)\<rparr>) ([z] @ ys))"
    using assms xs by (intro crun_data_part) auto
  then show ?thesis using assms(1) xs one by (simp add: chunk_act_def)
qed

text \<open>
  A pass simulates the automaton: what it appends at \<^verbatim>\<open>dst\<close> is what the automaton emits on
  the bytes between the two values of \<^verbatim>\<open>src\<close>.
\<close>

definition pass_sim :: "phr_chunked_decoder \<Rightarrow> string \<Rightarrow> nat \<Rightarrow> nat \<Rightarrow> chunk_pass \<Rightarrow> bool" where
  "pass_sim d buf dst src p =
     (case p of (d1, buf1, dst1, src1, fl) \<Rightarrow>
        \<exists>out. take dst1 buf1 = take dst buf @ out \<and> drop src1 buf1 = drop src1 buf \<and>
          (case fl of
             Again \<Rightarrow> chunk_inv d1 \<and> crun d (drop src buf) = emit out (crun d1 (drop src1 buf1))
           | Exit ret \<Rightarrow> crun d (drop src buf) = (d1, out, drop src1 buf1, ret)))"

lemma drop_at: "k < length buf \<Longrightarrow> drop k buf = buf ! k # drop (k + 1) buf"
  by (simp add: Cons_nth_drop_Suc)

lemma crlf_sim:
  assumes "src \<le> length buf" "cd_state d = CHUNKED_IN_CHUNK_CRLF"
  shows "pass_sim d buf dst src (in_chunk_crlf d buf dst src)"
proof -
  define k where "k = src + scan_cr (drop src buf)"
  have run: "crun d (drop src buf) = crun d (drop k buf)"
    using crun_scan_cr [of d "drop src buf"] assms(2) by (simp add: k_def add.commute)
  have k: "k \<le> length buf" using scan_drop_le(2) [OF assms(1)] by (simp add: k_def)
  have ncr: "buf ! k \<noteq> CR" if "k < length buf"
    using that scan_cr_hit [of "drop src buf"] assms(1) by (auto simp: k_def)
  show ?thesis
    using run k ncr assms(2)
    by (auto simp: pass_sim_def in_chunk_crlf_def Let_def k_def [symmetric] chunk_act_def chunk_inv_def
        drop_at)
qed

lemma data_sim:
  assumes "dst \<le> src" "src \<le> length buf" "cd_state d = CHUNKED_IN_CHUNK_DATA" "bytes_left_in_chunk d \<noteq> 0"
  shows "pass_sim d buf dst src (in_chunk_data d buf dst src)"
proof (cases "length buf - src < unat (bytes_left_in_chunk d)")
  case True
  with assms crun_data_part [of d "drop src buf" "[]"] show ?thesis
    by (auto simp: pass_sim_def in_chunk_data_def Let_def memmove_def)
next
  case False
  define n where "n = unat (bytes_left_in_chunk d)"
  define d' where "d' = d\<lparr>bytes_left_in_chunk := 0, cd_state := CHUNKED_IN_CHUNK_CRLF\<rparr>"
  define buf' where "buf' = (if dst \<noteq> src then memmove buf dst src n else buf)"
  have n: "src + n \<le> length buf" "0 < n" "length (take n (drop src buf)) = n"
    using False assms by (auto simp: n_def unat_gt_0)
  have eq: "in_chunk_data d buf dst src = in_chunk_crlf d' buf' (dst + n) (src + n)"
    using False by (simp only: in_chunk_data_def Let_def n_def buf'_def d'_def if_False)
  have b: "length buf' = length buf" "take (dst + n) buf' = take dst buf @ take n (drop src buf)"
    "drop (src + n) buf' = drop (src + n) buf"
    using n assms(1,2) by (auto simp: buf'_def memmove_def take_add)
  have sim: "pass_sim d' buf' (dst + n) (src + n) (in_chunk_crlf d' buf' (dst + n) (src + n))"
    using n b by (intro crlf_sim) (auto simp: d'_def)
  have "crun d (take n (drop src buf) @ drop (src + n) buf) =
    emit (take n (drop src buf)) (crun d' (drop (src + n) buf))"
    unfolding d'_def using assms n by (intro crun_data_full) (auto simp: n_def)
  moreover have "take n (drop src buf) @ drop (src + n) buf = drop src buf"
    by (metis append_take_drop_id drop_drop add.commute)
  ultimately have run: "crun d (drop src buf) = emit (take n (drop src buf)) (crun d' (drop (src + n) buf))"
    by simp
  have fw: "pass_forward buf' (dst + n) (src + n) (in_chunk_crlf d' buf' (dst + n) (src + n))"
    using n assms b by (intro in_chunk_crlf_forward) auto
  have dr: "drop k buf' = drop k buf" if "src + n \<le> k" for k
    using b(3) that by (metis drop_drop le_add_diff_inverse2)
  show ?thesis
    using sim fw run dr b unfolding eq
    by (fastforce simp: pass_sim_def pass_forward_def split: prod.splits chunk_flow.splits)
qed

lemma pass_sim_from:
  "crun d (drop src buf) = crun d' (drop k buf) \<Longrightarrow> pass_sim d' buf dst k p \<Longrightarrow> pass_sim d buf dst src p"
  by (auto simp: pass_sim_def split: prod.splits chunk_flow.splits)

lemma ext_sim:
  assumes "dst \<le> src" "src \<le> length buf" "cd_state d = CHUNKED_IN_CHUNK_EXT"
  shows "pass_sim d buf dst src (in_chunk_ext d buf dst src)"
proof -
  define k where "k = src + scan_lf (drop src buf)"
  have run: "crun d (drop src buf) = crun d (drop k buf)"
    using crun_scan_lf [of d "drop src buf"] assms(3) by (simp add: k_def add.commute)
  have k: "k \<le> length buf" "src \<le> k" using scan_drop_le(1) [OF assms(2)] by (auto simp: k_def)
  have lf: "buf ! k = LF" if "k < length buf"
    using that scan_lf_hit [of "drop src buf"] assms(2) by (auto simp: k_def)
  show ?thesis
  proof (cases "k < length buf \<and> bytes_left_in_chunk d \<noteq> 0")
    case True
    then have "pass_sim (d\<lparr>cd_state := CHUNKED_IN_CHUNK_DATA\<rparr>) buf dst (k + 1)
      (in_chunk_data (d\<lparr>cd_state := CHUNKED_IN_CHUNK_DATA\<rparr>) buf dst (k + 1))"
      using k assms by (intro data_sim) auto
    moreover have "crun d (drop src buf) = crun (d\<lparr>cd_state := CHUNKED_IN_CHUNK_DATA\<rparr>) (drop (k + 1) buf)"
      using run True lf assms(3) by (simp add: drop_at chunk_act_def ext_act_def)
    ultimately show ?thesis
      using True by (intro pass_sim_from [of d src buf _ "k + 1"]) (auto simp: in_chunk_ext_def Let_def k_def [symmetric])
  next
    case False
    then show ?thesis
      using run k lf assms(3)
      by (auto simp: pass_sim_def in_chunk_ext_def Let_def k_def [symmetric] chunk_act_def ext_act_def
          chunk_inv_def drop_at)
  qed
qed

lemma size_sim:
  assumes "dst \<le> src" "src \<le> length buf" "cd_state d = CHUNKED_IN_CHUNK_SIZE"
  shows "pass_sim d buf dst src (in_chunk_size d buf dst src)"
proof -
  obtain d' n r where sd: "size_digits d (drop src buf) = (d', n, r)" by (metis prod_cases3)
  have n: "src + n \<le> length buf" using size_digits_le [OF sd] assms by simp
  show ?thesis
  proof (cases r)
    case None
    have "pass_sim (d'\<lparr>hex_count := 0, cd_state := CHUNKED_IN_CHUNK_EXT\<rparr>) buf dst (src + n)
      (in_chunk_ext (d'\<lparr>hex_count := 0, cd_state := CHUNKED_IN_CHUNK_EXT\<rparr>) buf dst (src + n))"
      using n assms by (intro ext_sim) auto
    then show ?thesis
      using crun_size_digits [OF sd assms(3)] None
      by (intro pass_sim_from [of d src buf _ "src + n"]) (auto simp: in_chunk_size_def sd add.commute)
  next
    case (Some ret)
    then show ?thesis
      using crun_size_digits [OF sd assms(3)]
      by (auto simp: pass_sim_def in_chunk_size_def sd add.commute)
  qed
qed

lemma trailers_middle_sim:
  assumes "src \<le> length buf" "cd_state d = CHUNKED_IN_TRAILERS_LINE_MIDDLE"
  shows "pass_sim d buf dst src (in_trailers_line_middle d buf dst src)"
proof -
  define k where "k = src + scan_lf (drop src buf)"
  have run: "crun d (drop src buf) = crun d (drop k buf)"
    using crun_scan_lf [of d "drop src buf"] assms(2) by (simp add: k_def add.commute)
  have k: "k \<le> length buf" using scan_drop_le(1) [OF assms(1)] by (simp add: k_def)
  have lf: "buf ! k = LF" if "k < length buf"
    using that scan_lf_hit [of "drop src buf"] assms(1) by (auto simp: k_def)
  show ?thesis
    using run k lf assms(2)
    by (auto simp: pass_sim_def in_trailers_line_middle_def Let_def k_def [symmetric] chunk_act_def
        chunk_inv_def drop_at)
qed

lemma trailers_head_sim:
  assumes "src \<le> length buf" "cd_state d = CHUNKED_IN_TRAILERS_LINE_HEAD"
  shows "pass_sim d buf dst src (in_trailers_line_head d buf dst src)"
proof -
  define k where "k = src + scan_cr (drop src buf)"
  define d' where "d' = d\<lparr>cd_state := CHUNKED_IN_TRAILERS_LINE_MIDDLE\<rparr>"
  have run: "crun d (drop src buf) = crun d (drop k buf)"
    using crun_scan_cr [of d "drop src buf"] assms(2) by (simp add: k_def add.commute)
  have k: "k \<le> length buf" using scan_drop_le(2) [OF assms(1)] by (simp add: k_def)
  have ncr: "buf ! k \<noteq> CR" if "k < length buf"
    using that scan_cr_hit [of "drop src buf"] assms(1) by (auto simp: k_def)
  show ?thesis
  proof (cases "k < length buf \<and> buf ! k \<noteq> LF")
    case True
    then have "pass_sim d' buf dst (k + 1) (in_trailers_line_middle d' buf dst (k + 1))"
      by (intro trailers_middle_sim) (auto simp: d'_def)
    moreover have "crun d (drop src buf) = crun d' (drop (k + 1) buf)"
      using run True ncr assms(2) by (simp add: drop_at chunk_act_def d'_def)
    ultimately show ?thesis
      using True by (intro pass_sim_from [of d src buf d' "k + 1"])
        (auto simp: in_trailers_line_head_def Let_def k_def [symmetric] d'_def)
  next
    case False
    then show ?thesis
      using run k ncr assms(2)
      by (auto simp: pass_sim_def in_trailers_line_head_def Let_def k_def [symmetric] chunk_act_def drop_at)
  qed
qed

lemma switch_sim:
  assumes "dst \<le> src" "src \<le> length buf" "chunk_inv d"
  shows "pass_sim d buf dst src (chunk_switch d buf dst src)"
  using assms
  by (cases "cd_state d")
    (simp_all add: chunk_switch_def size_sim ext_sim data_sim crlf_sim trailers_head_sim
      trailers_middle_sim chunk_inv_def)

lemma decode_loop_sim:
  assumes "dst \<le> src" "src \<le> length buf" "chunk_inv d"
    and "decode_loop d buf dst src = (d1, buf1, dst1, src1, ret)"
  shows "length buf1 = length buf \<and> dst1 \<le> src1 \<and> src1 \<le> length buf \<and>
    (\<exists>out. take dst1 buf1 = take dst buf @ out \<and> crun d (drop src buf) = (d1, out, drop src1 buf1, ret))"
  using assms
proof (induction d buf dst src rule: decode_loop.induct)
  case (1 d buf dst src)
  obtain d' buf' dst' src' fl where p: "chunk_switch d buf dst src = (d', buf', dst', src', fl)"
    by (metis prod_cases5)
  have fw: "pass_forward buf dst src (d', buf', dst', src', fl)"
    and sim: "pass_sim d buf dst src (d', buf', dst', src', fl)"
    using chunk_switch_forward [of dst src buf d] switch_sim [of dst src buf d] "1.prems" p by auto
  show ?case
  proof (cases fl)
    case (Exit r)
    then have "decode_loop d buf dst src = (d', buf', dst', src', r)"
      by (subst decode_loop.simps) (simp add: p)
    with "1.prems" fw sim Exit show ?thesis by (auto simp: pass_forward_def pass_sim_def)
  next
    case Again
    then have eq: "decode_loop d buf dst src = decode_loop d' buf' dst' src'"
      using "1.prems" by (subst decode_loop.simps) (simp add: p)
    from sim Again obtain out where out: "take dst' buf' = take dst buf @ out" "chunk_inv d'"
      "crun d (drop src buf) = emit out (crun d' (drop src' buf'))"
      by (auto simp: pass_sim_def)
    have "length buf1 = length buf' \<and> dst1 \<le> src1 \<and> src1 \<le> length buf' \<and>
      (\<exists>out. take dst1 buf1 = take dst' buf' @ out \<and> crun d' (drop src' buf') = (d1, out, drop src1 buf1, ret))"
      using "1.IH" [OF p [symmetric] refl refl refl Again] "1.prems" fw out(2) eq Again
      by (simp add: pass_forward_def)
    with out fw show ?thesis by (auto simp: pass_forward_def)
  qed
qed

lemma phr_decode_chunked_crun:
  assumes "chunk_inv d"
  shows "\<exists>out rest junk. crun d buf = (fst (phr_decode_chunked d buf), out, rest, snd (snd (snd (phr_decode_chunked d buf)))) \<and>
     fst (snd (phr_decode_chunked d buf)) = out @ rest @ junk \<and>
     fst (snd (snd (phr_decode_chunked d buf))) = length out \<and> length (out @ rest @ junk) = length buf"
proof -
  obtain d1 buf1 dst1 src1 ret where l: "decode_loop d buf 0 0 = (d1, buf1, dst1, src1, ret)"
    by (metis prod_cases5)
  from decode_loop_sim [OF _ _ assms l] have b: "length buf1 = length buf" "dst1 \<le> src1" "src1 \<le> length buf"
    "crun d buf = (d1, take dst1 buf1, drop src1 buf1, ret)"
    by auto
  have "(if dst1 \<noteq> src1 then memmove buf1 dst1 src1 (length buf - src1) else buf1) =
     take dst1 buf1 @ drop src1 buf1 @ drop (dst1 + (length buf - src1)) buf1"
    using b by (auto simp: memmove_def)
  with b l show ?thesis by (fastforce simp: phr_decode_chunked_def)
qed

text \<open>(C16) Refinement: the in-place decoder computes what the byte-at-a-time automaton specifies. The
  first \<^verbatim>\<open>*_bufsz\<close> bytes of the rewritten buffer are the data, the unread bytes follow them, and
  decoder state and return value agree, for every buffer content.\<close>

theorem phr_decode_chunked_refines:
  assumes "chunk_inv d" "phr_decode_chunked d buf = (d', buf', n, ret)"
  shows "\<exists>rest. crun d buf = (d', take n buf', rest, ret) \<and>
    take (length rest) (drop n buf') = rest \<and> length buf' = length buf"
  using phr_decode_chunked_crun [OF assms(1), of buf] assms(2) by auto

definition chunk_init :: "bool \<Rightarrow> phr_chunked_decoder" where
  "chunk_init trailer =
     \<lparr>bytes_left_in_chunk = 0, consume_trailer = trailer, hex_count = 0, cd_state = CHUNKED_IN_CHUNK_SIZE\<rparr>"

theorem phr_decode_chunked_refines_witness:
  "\<exists>rest. crun (chunk_init False) (''3'' @ crlf @ ''abc'' @ crlf @ ''0'' @ crlf) =
     (chunk_init False\<lparr>cd_state := CHUNKED_IN_CHUNK_EXT\<rparr>, ''abc'', rest, 0)"
proof -
  have "phr_decode_chunked (chunk_init False) (''3'' @ crlf @ ''abc'' @ crlf @ ''0'' @ crlf) =
    (chunk_init False\<lparr>cd_state := CHUNKED_IN_CHUNK_EXT\<rparr>,
     fst (snd (phr_decode_chunked (chunk_init False) (''3'' @ crlf @ ''abc'' @ crlf @ ''0'' @ crlf))), 3, 0)"
    "take 3 (fst (snd (phr_decode_chunked (chunk_init False) (''3'' @ crlf @ ''abc'' @ crlf @ ''0'' @ crlf)))) = ''abc''"
    "chunk_inv (chunk_init False)"
    by code_simp+
  with phr_decode_chunked_refines [OF this(3,1)] show ?thesis by auto
qed

section \<open>Split input\<close>

lemma ext_act_inv: "cd_state d \<noteq> CHUNKED_IN_CHUNK_DATA \<Longrightarrow> ext_act d c = Emit d' out \<Longrightarrow> chunk_inv d'"
  by (auto simp: ext_act_def chunk_inv_def split: if_splits)

lemma chunk_act_inv: "chunk_inv d \<Longrightarrow> chunk_act d c = Emit d' out \<Longrightarrow> chunk_inv d'"
  by (auto simp: chunk_act_def chunk_inv_def ext_act_def split: chunk_state.splits if_splits)

lemma crun_append:
  "crun d (a @ b) =
     (case crun d a of (d1, out, rest, ret) \<Rightarrow>
        if ret = - 2 then emit out (crun d1 b)
        else if ret = - 1 then (d1, out, rest @ b, ret) else (d1, out, rest @ b, ret + int (length b)))"
  by (induction d a rule: crun.induct) (auto split: chunk_act.splits prod.splits)

lemma crun_inv: "chunk_inv d \<Longrightarrow> crun d a = (d1, out, rest, - 2) \<Longrightarrow> chunk_inv d1"
proof (induction d a arbitrary: out rule: crun.induct)
  case (2 d c cs)
  then show ?case
    by (auto simp: emit_def split: chunk_act.splits prod.splits dest: chunk_act_inv)
qed simp

text \<open>Incremental decoding: feeding the input in two calls, when the first one reports \<^verbatim>\<open>-2\<close>, gives
  the same data, decoder state and return value as one call on the whole input.\<close>

theorem phr_decode_chunked_split:
  assumes "chunk_inv d" "phr_decode_chunked d a = (d1, buf1, n1, - 2)"
    and "phr_decode_chunked d1 b = (d2, buf2, n2, ret2)"
    and "phr_decode_chunked d (a @ b) = (d3, buf3, n3, ret3)"
  shows "d3 = d2 \<and> take n3 buf3 = take n1 buf1 @ take n2 buf2 \<and> ret3 = ret2 \<and> n3 = n1 + n2"
proof -
  from phr_decode_chunked_crun [OF assms(1), of a] assms(2) obtain r1 where
    1: "crun d a = (d1, take n1 buf1, r1, - 2)" "n1 = length (take n1 buf1)" by auto
  have "chunk_inv d1" using crun_inv [OF assms(1) 1(1)] .
  from phr_decode_chunked_crun [OF this, of b] assms(3) obtain r2 where
    2: "crun d1 b = (d2, take n2 buf2, r2, ret2)" "n2 = length (take n2 buf2)" by auto
  from phr_decode_chunked_crun [OF assms(1), of "a @ b"] assms(4) obtain r3 where
    3: "crun d (a @ b) = (d3, take n3 buf3, r3, ret3)" "n3 = length (take n3 buf3)" by auto
  have "crun d (a @ b) = (d2, take n1 buf1 @ take n2 buf2, r2, ret2)"
    unfolding crun_append 1(1) by (simp add: 2(1))
  then have e: "d3 = d2" "take n3 buf3 = take n1 buf1 @ take n2 buf2" "ret3 = ret2" using 3(1) by auto
  have "n3 = n1 + n2" using 1(2) 2(2) 3(2) e(2) by (metis length_append)
  with e show ?thesis by simp
qed

theorem phr_decode_chunked_split_witness:
  "case phr_decode_chunked (chunk_init False) (''3'' @ crlf @ ''ab'') of (d1, buf1, n1, ret1) \<Rightarrow>
   case phr_decode_chunked d1 (''c'' @ crlf @ ''0'' @ crlf) of (d2, buf2, n2, ret2) \<Rightarrow>
   case phr_decode_chunked (chunk_init False) ((''3'' @ crlf @ ''ab'') @ ''c'' @ crlf @ ''0'' @ crlf) of
     (d3, buf3, n3, ret3) \<Rightarrow> take n3 buf3 = take n1 buf1 @ take n2 buf2"
proof -
  obtain d1 buf1 n1 ret1 where 1: "phr_decode_chunked (chunk_init False) (''3'' @ crlf @ ''ab'') = (d1, buf1, n1, ret1)"
    by (metis prod_cases4)
  have "snd (snd (snd (phr_decode_chunked (chunk_init False) (''3'' @ crlf @ ''ab'')))) = - 2" by code_simp
  with 1 have r: "ret1 = - 2" by simp
  obtain d2 buf2 n2 ret2 where 2: "phr_decode_chunked d1 (''c'' @ crlf @ ''0'' @ crlf) = (d2, buf2, n2, ret2)"
    by (metis prod_cases4)
  obtain d3 buf3 n3 ret3 where 3: "phr_decode_chunked (chunk_init False)
      ((''3'' @ crlf @ ''ab'') @ ''c'' @ crlf @ ''0'' @ crlf) = (d3, buf3, n3, ret3)"
    by (metis prod_cases4)
  have inv: "chunk_inv (chunk_init False)" by code_simp
  from phr_decode_chunked_split [OF inv 1 [unfolded r] 2 3]
  show ?thesis unfolding 1 prod.case 2 3 by blast
qed

section \<open>Chunk sizes do not wrap\<close>

lemma decode_hex_range: "decode_hex c = - 1 \<or> 0 \<le> decode_hex c \<and> decode_hex c \<le> 15"
  by (auto simp: decode_hex_def Let_def)

fun hex_value :: "nat \<Rightarrow> string \<Rightarrow> nat" where
  "hex_value acc [] = acc"
| "hex_value acc (c # cs) = hex_value (acc * 16 + nat (decode_hex c)) cs"

lemma size_digits_value:
  assumes "size_digits d cs = (d', n, r)" "hex_count d \<le> 16"
    and "unat (bytes_left_in_chunk d) < 16 ^ hex_count d"
  shows "unat (bytes_left_in_chunk d') = hex_value (unat (bytes_left_in_chunk d)) (take n cs) \<and>
    hex_count d' = hex_count d + n \<and> hex_count d' \<le> 16 \<and>
    unat (bytes_left_in_chunk d') < 16 ^ hex_count d'"
  using assms
proof (induction d cs arbitrary: d' n r rule: size_digits.induct)
  case (2 d c cs)
  show ?case
  proof (cases "decode_hex c = - 1 \<or> hex_count d = 16")
    case True
    with 2 show ?thesis by (auto simp: Let_def split: if_splits)
  next
    case False
    define v where "v = nat (decode_hex c)"
    have v: "v \<le> 15" "of_int (decode_hex c) = (of_nat v :: size_t)"
      using decode_hex_range [of c] False by (auto simp: v_def)
    let ?d = "d\<lparr>bytes_left_in_chunk := bytes_left_in_chunk d * 16 + of_int (decode_hex c), hex_count := hex_count d + 1\<rparr>"
    have k: "hex_count d + 1 \<le> 16" using False "2.prems"(2) by simp
    have lt: "unat (bytes_left_in_chunk d) * 16 + v < 16 ^ (hex_count d + 1)"
      using "2.prems"(3) v(1) by simp
    also have "\<dots> \<le> (16 :: nat) ^ 16" using k by (rule power_increasing) simp
    finally have ub: "unat (bytes_left_in_chunk d) * 16 + v < 2 ^ 64" by simp
    have "bytes_left_in_chunk ?d = of_nat (unat (bytes_left_in_chunk d) * 16 + v)"
      using v(2) by simp
    then have u: "unat (bytes_left_in_chunk ?d) = unat (bytes_left_in_chunk d) * 16 + v"
      using unat_size_t [OF ub] by (simp only:)
    obtain d2 n2 r2 where sd: "size_digits ?d cs = (d2, n2, r2)" by (metis prod_cases3)
    with "2.prems"(1) False have eq: "d' = d2" "n = Suc n2" by (auto simp: Let_def)
    have ih: "unat (bytes_left_in_chunk d2) = hex_value (unat (bytes_left_in_chunk ?d)) (take n2 cs) \<and>
      hex_count d2 = hex_count ?d + n2 \<and> hex_count d2 \<le> 16 \<and> unat (bytes_left_in_chunk d2) < 16 ^ hex_count d2"
      using False sd k lt u by (intro "2.IH") (auto simp: Let_def)
    then show ?thesis unfolding u eq v_def by auto
  qed
qed auto


text \<open>Chunk sizes are exact: after any digits the decoder accepts in a fresh chunk, the 64-bit counter
  holds the value of the digits, because a seventeenth digit is refused before it could wrap.\<close>

theorem size_digits_exact:
  assumes "size_digits (chunk_init t) cs = (d', n, r)"
  shows "unat (bytes_left_in_chunk d') = hex_value 0 (take n cs) \<and> hex_count d' = n \<and> n \<le> 16"
  using size_digits_value [OF assms] by (simp add: chunk_init_def)

theorem size_digits_exact_witness:
  "unat (bytes_left_in_chunk (fst (size_digits (chunk_init True) (''1aF;'')))) = hex_value 0 ''1aF''"
proof -
  have "size_digits (chunk_init True) (''1aF;'') = (fst (size_digits (chunk_init True) (''1aF;'')), 3, None)"
    by code_simp
  from size_digits_exact [OF this] show ?thesis by simp
qed

section \<open>The chunk writer\<close>

definition to_hex_digit :: "nat \<Rightarrow> char" where
  "to_hex_digit v = (if v < 10 then char_of (48 + v) else char_of (87 + v))"

fun to_hex_string :: "nat \<Rightarrow> string" where
  "to_hex_string n = (if n < 16 then [to_hex_digit n] else to_hex_string (n div 16) @ [to_hex_digit (n mod 16)])"

declare to_hex_string.simps [simp del]

definition last_chunk :: string where
  "last_chunk = ''0'' @ crlf"

definition to_chunked_buffers :: "string \<Rightarrow> bool \<Rightarrow> string" where
  "to_chunked_buffers chunk_data eof =
     (if 0 < length chunk_data then to_hex_string (length chunk_data) @ crlf @ chunk_data @ crlf else []) @
     (if eof then last_chunk @ crlf else [])"

lemma decode_hex_digit [simp]: "v < 16 \<Longrightarrow> decode_hex (to_hex_digit v) = int v"
  by (auto simp: decode_hex_def to_hex_digit_def uchar_def Let_def)

lemma length_to_hex_string: "n < 16 ^ k \<Longrightarrow> 0 < k \<Longrightarrow> length (to_hex_string n) \<le> k"
proof (induction n arbitrary: k rule: to_hex_string.induct)
  case (1 n)
  show ?case
  proof (cases "n < 16")
    case True
    then show ?thesis using "1.prems" by (subst to_hex_string.simps) simp
  next
    case False
    then obtain k' where k: "k = Suc k'" "0 < k'" using "1.prems" by (cases k; cases "k - 1") auto
    then have "n div 16 < 16 ^ k'" using "1.prems" by (simp add: less_mult_imp_div_less mult.commute)
    from "1.IH" [OF False this k(2)] False k show ?thesis by (subst to_hex_string.simps) simp
  qed
qed

lemma crun_hex_string:
  assumes "cd_state d = CHUNKED_IN_CHUNK_SIZE" "bytes_left_in_chunk d = 0" "hex_count d = 0"
    "length (to_hex_string n) \<le> 16"
  shows "crun d (to_hex_string n @ cs) =
    crun (d\<lparr>bytes_left_in_chunk := of_nat n, hex_count := length (to_hex_string n)\<rparr>) cs"
  using assms(4)
proof (induction n arbitrary: cs rule: to_hex_string.induct)
  case (1 n)
  show ?case
  proof (cases "n < 16")
    case True
    then show ?thesis using assms
      by (subst (1 2) to_hex_string.simps) (simp add: chunk_act_def)
  next
    case False
    then have eq: "to_hex_string n = to_hex_string (n div 16) @ [to_hex_digit (n mod 16)]"
      by (subst to_hex_string.simps) simp
    have n: "(of_nat (n div 16) * 16 + of_nat (n mod 16) :: size_t) = of_nat n"
      by (metis div_mult_mod_eq of_nat_add of_nat_mult of_nat_numeral)
    have "crun d (to_hex_string (n div 16) @ to_hex_digit (n mod 16) # cs) =
      crun (d\<lparr>bytes_left_in_chunk := of_nat (n div 16), hex_count := length (to_hex_string (n div 16))\<rparr>)
        (to_hex_digit (n mod 16) # cs)"
      using "1.prems" eq by (intro "1.IH" [OF False]) simp
    also have "\<dots> = crun (d\<lparr>bytes_left_in_chunk := of_nat n, hex_count := length (to_hex_string n)\<rparr>) cs"
      using "1.prems" eq n assms(1) by (simp add: chunk_act_def)
    finally show ?thesis by (simp add: eq)
  qed
qed

lemma crun_chunk:
  assumes "xs \<noteq> []" "length xs < 2 ^ 64"
  shows "crun (chunk_init t) (to_chunked_buffers xs False @ cs) = emit xs (crun (chunk_init t) cs)"
proof -
  have "length xs < 16 ^ 16" using assms(2) by simp
  from length_to_hex_string [OF this] have hx: "length (to_hex_string (length xs)) \<le> 16" by simp
  have pos: "0 < length (to_hex_string (length xs))" by (subst to_hex_string.simps) simp
  define dd where "dd = chunk_init t\<lparr>bytes_left_in_chunk := of_nat (length xs), cd_state := CHUNKED_IN_CHUNK_DATA\<rparr>"
  have nz: "(of_nat (length xs) :: size_t) \<noteq> 0"
    using assms unat_size_t [OF assms(2)] by (metis length_0_conv unat_0)
  have cr: "decode_hex CR = - 1" by (simp add: decode_hex_def uchar_def)
  have "crun (chunk_init t) (to_chunked_buffers xs False @ cs) =
    crun (chunk_init t) (to_hex_string (length xs) @ (crlf @ xs @ crlf @ cs))"
    using assms(1) by (simp add: to_chunked_buffers_def)
  also have "\<dots> = crun (chunk_init t\<lparr>bytes_left_in_chunk := of_nat (length xs),
      hex_count := length (to_hex_string (length xs))\<rparr>) (crlf @ xs @ crlf @ cs)"
    using hx by (intro crun_hex_string) (simp_all add: chunk_init_def)
  also have "\<dots> = crun dd (xs @ crlf @ cs)"
    using nz pos cr by (simp add: chunk_act_def ext_act_def dd_def chunk_init_def)
  also have "\<dots> = emit xs (crun (dd\<lparr>bytes_left_in_chunk := 0, cd_state := CHUNKED_IN_CHUNK_CRLF\<rparr>) (crlf @ cs))"
    using assms by (intro crun_data_full) (simp_all add: dd_def chunk_init_def unat_size_t)
  also have "\<dots> = emit xs (crun (chunk_init t) cs)"
    by (simp add: chunk_act_def dd_def chunk_init_def)
  finally show ?thesis .
qed

lemma crun_chunks:
  assumes "\<forall>xs \<in> set chunks. xs \<noteq> [] \<and> length xs < 2 ^ 64"
  shows "crun (chunk_init t) (concat (map (\<lambda>xs. to_chunked_buffers xs False) chunks) @ cs) =
    emit (concat chunks) (crun (chunk_init t) cs)"
  using assms by (induction chunks) (simp_all add: crun_chunk)

lemma crun_last_chunk:
  "\<exists>d. crun (chunk_init t) (to_chunked_buffers [] True @ cs) =
     (d, [], (if t then cs else crlf @ cs), int (length (if t then cs else crlf @ cs)))"
  by (auto simp: to_chunked_buffers_def last_chunk_def chunk_act_def ext_act_def chunk_init_def
      decode_hex_def uchar_def)

text \<open>(C17) Round trip with the chunk writer of the response: any sequence of non-empty chunks written by
  \<^verbatim>\<open>to_chunked_buffers\<close>, closed by its end-of-file call and followed by other bytes, is decoded in
  place to exactly the concatenated data. With \<open>consume_trailer\<close> set the bytes left over are the ones that follow; without it,
  as in a decoder filled with zeros, the empty line that closes the body is left over too.\<close>

theorem phr_decode_chunked_to_chunked_buffers:
  assumes "\<forall>xs \<in> set chunks. xs \<noteq> [] \<and> length xs < 2 ^ 64"
    and "phr_decode_chunked (chunk_init trailer)
      (concat (map (\<lambda>xs. to_chunked_buffers xs False) chunks) @ to_chunked_buffers [] True @ rest) =
      (d', buf', n, ret)"
    and "left = (if trailer then rest else crlf @ rest)"
  shows "take n buf' = concat chunks \<and> ret = int (length left) \<and> take (length left) (drop n buf') = left"
proof -
  have inv: "chunk_inv (chunk_init trailer)" by (simp add: chunk_inv_def chunk_init_def)
  show ?thesis
    using phr_decode_chunked_crun [OF inv, of "concat (map (\<lambda>xs. to_chunked_buffers xs False) chunks) @
        to_chunked_buffers [] True @ rest"] assms(2,3) crun_last_chunk [of trailer rest]
    unfolding crun_chunks [OF assms(1)] by auto
qed

theorem phr_decode_chunked_to_chunked_buffers_witness:
  "case phr_decode_chunked (chunk_init False)
     (concat (map (\<lambda>xs. to_chunked_buffers xs False) [''hello '', ''world'']) @ to_chunked_buffers [] True @ ''GET'')
   of (d', buf', n, ret) \<Rightarrow> take n buf' = ''hello world'' \<and> ret = 5 \<and> take (length (crlf @ ''GET'')) (drop n buf') = crlf @ ''GET''"
proof -
  obtain d' buf' n ret where e: "phr_decode_chunked (chunk_init False)
     (concat (map (\<lambda>xs. to_chunked_buffers xs False) [''hello '', ''world'']) @ to_chunked_buffers [] True @ ''GET'') =
     (d', buf', n, ret)" by (metis prod_cases4)
  from phr_decode_chunked_to_chunked_buffers [OF _ this refl] show ?thesis unfolding e by simp
qed

end
