(* ===== verification/Sha1.thy ===== *)
theory Sha1
  imports Netcore_Prelude
begin

text \<open>
  The SHA-1 of \<^verbatim>\<open>include/netcore/sha1.hpp\<close>, which the WebSocket handshake uses. The code keeps
  sixteen words of the message schedule and overwrites them as it goes, and renames its five
  working variables instead of moving them; \<^verbatim>\<open>update\<close> buffers at most one block. The reference
  is the text of FIPS 180-4: an eighty-word schedule, moving variables, padding of the whole
  message.
\<close>

section \<open>The code\<close>

definition rol :: "u32 \<Rightarrow> nat \<Rightarrow> u32" where
  "rol value bits = push_bit bits value OR drop_bit (32 - bits) value"

definition blk :: "u32 list \<Rightarrow> nat \<Rightarrow> u32" where
  "blk block i =
     rol (block ! ((i + 13) mod 16) XOR block ! ((i + 8) mod 16) XOR block ! ((i + 2) mod 16) XOR block ! i) 1"

text \<open>
  A round takes the block and \<^verbatim>\<open>v w x y z\<close>, and returns the block and the new values of its
  reference parameters \<^verbatim>\<open>w\<close> and \<^verbatim>\<open>z\<close>.
\<close>

type_synonym sha1_round = "u32 list \<Rightarrow> u32 \<Rightarrow> u32 \<Rightarrow> u32 \<Rightarrow> u32 \<Rightarrow> u32 \<Rightarrow> nat \<Rightarrow> u32 list \<times> u32 \<times> u32"

definition R0 :: sha1_round where
  "R0 block v w x y z i =
     (block, rol w 30, z + (((w AND (x XOR y)) XOR y) + block ! i + 0x5a827999 + rol v 5))"

definition R1 :: sha1_round where
  "R1 block v w x y z i =
     (let block = block[i := blk block i] in
      (block, rol w 30, z + (((w AND (x XOR y)) XOR y) + block ! i + 0x5a827999 + rol v 5)))"

definition R2 :: sha1_round where
  "R2 block v w x y z i =
     (let block = block[i := blk block i] in
      (block, rol w 30, z + ((w XOR x XOR y) + block ! i + 0x6ed9eba1 + rol v 5)))"

definition R3 :: sha1_round where
  "R3 block v w x y z i =
     (let block = block[i := blk block i] in
      (block, rol w 30, z + ((((w OR x) AND y) OR (w AND x)) + block ! i + 0x8f1bbcdc + rol v 5)))"

definition R4 :: sha1_round where
  "R4 block v w x y z i =
     (let block = block[i := blk block i] in
      (block, rol w 30, z + ((w XOR x XOR y) + block ! i + 0xca62c1d6 + rol v 5)))"

definition make_block :: "byte list \<Rightarrow> u32 list" where
  "make_block p =
     map (\<lambda>i. ucast (p ! (4 * i + 3)) OR push_bit 8 (ucast (p ! (4 * i + 2))) OR
              push_bit 16 (ucast (p ! (4 * i + 1))) OR push_bit 24 (ucast (p ! (4 * i))))
       [0 ..< 16]"

text \<open>
  The eighty calls of \<^verbatim>\<open>transform\<close>: the round, the working variable passed first (0 for \<^verbatim>\<open>a\<close>
  to 4 for \<^verbatim>\<open>e\<close>; the other four follow it cyclically) and the block index.
\<close>

definition transform_calls :: "(sha1_round \<times> nat \<times> nat) list" where
  "transform_calls =
     [(R0, 0, 0), (R0, 4, 1), (R0, 3, 2), (R0, 2, 3), (R0, 1, 4),
      (R0, 0, 5), (R0, 4, 6), (R0, 3, 7), (R0, 2, 8), (R0, 1, 9),
      (R0, 0, 10), (R0, 4, 11), (R0, 3, 12), (R0, 2, 13), (R0, 1, 14),
      (R0, 0, 15), (R1, 4, 0), (R1, 3, 1), (R1, 2, 2), (R1, 1, 3),
      (R2, 0, 4), (R2, 4, 5), (R2, 3, 6), (R2, 2, 7), (R2, 1, 8),
      (R2, 0, 9), (R2, 4, 10), (R2, 3, 11), (R2, 2, 12), (R2, 1, 13),
      (R2, 0, 14), (R2, 4, 15), (R2, 3, 0), (R2, 2, 1), (R2, 1, 2),
      (R2, 0, 3), (R2, 4, 4), (R2, 3, 5), (R2, 2, 6), (R2, 1, 7),
      (R3, 0, 8), (R3, 4, 9), (R3, 3, 10), (R3, 2, 11), (R3, 1, 12),
      (R3, 0, 13), (R3, 4, 14), (R3, 3, 15), (R3, 2, 0), (R3, 1, 1),
      (R3, 0, 2), (R3, 4, 3), (R3, 3, 4), (R3, 2, 5), (R3, 1, 6),
      (R3, 0, 7), (R3, 4, 8), (R3, 3, 9), (R3, 2, 10), (R3, 1, 11),
      (R4, 0, 12), (R4, 4, 13), (R4, 3, 14), (R4, 2, 15), (R4, 1, 0),
      (R4, 0, 1), (R4, 4, 2), (R4, 3, 3), (R4, 2, 4), (R4, 1, 5),
      (R4, 0, 6), (R4, 4, 7), (R4, 3, 8), (R4, 2, 9), (R4, 1, 10),
      (R4, 0, 11), (R4, 4, 12), (R4, 3, 13), (R4, 2, 14), (R4, 1, 15)]"

definition call_round :: "sha1_round \<times> nat \<times> nat \<Rightarrow> u32 list \<times> u32 list \<Rightarrow> u32 list \<times> u32 list" where
  "call_round c s =
     (case c of (R, r, i) \<Rightarrow>
      case s of (block, vars) \<Rightarrow>
        (let (block', w, z) = R block (vars ! r) (vars ! ((r + 1) mod 5)) (vars ! ((r + 2) mod 5))
               (vars ! ((r + 3) mod 5)) (vars ! ((r + 4) mod 5)) i
         in (block', vars[(r + 1) mod 5 := w, (r + 4) mod 5 := z])))"

definition transform :: "u32 list \<Rightarrow> u32 list \<Rightarrow> u32 list" where
  "transform digest block =
     (let (block', vars) = fold call_round transform_calls (block, digest) in
      map (\<lambda>i. digest ! i + vars ! i) [0 ..< 5])"

record sha1_context =
  ctx_buflen :: nat
  ctx_blocks :: size_t
  ctx_digest :: "u32 list"
  ctx_buf :: "byte list"

definition init :: "byte list \<Rightarrow> sha1_context" where
  "init uninitialised =
     \<lparr>ctx_buflen = 0, ctx_blocks = 0,
      ctx_digest = [0x67452301, 0xefcdab89, 0x98badcfe, 0x10325476, 0xc3d2e1f0],
      ctx_buf = uninitialised\<rparr>"

function update :: "sha1_context \<Rightarrow> byte list \<Rightarrow> sha1_context" where
  "update ctx p =
     (let n = min (length p) (64 - ctx_buflen ctx);
          buf = take (ctx_buflen ctx) (ctx_buf ctx) @ take n p @ drop (ctx_buflen ctx + n) (ctx_buf ctx);
          buflen = ctx_buflen ctx + n
      in if buflen \<noteq> 64 then ctx\<lparr>ctx_buf := buf, ctx_buflen := buflen\<rparr>
         else update (ctx\<lparr>ctx_buf := buf, ctx_buflen := 0,
                          ctx_digest := transform (ctx_digest ctx) (make_block buf),
                          ctx_blocks := ctx_blocks ctx + 1\<rparr>) (drop n p))"
  by pat_completeness auto
termination
  by (relation "measure (\<lambda>(ctx, p). 2 * length p + (if ctx_buflen ctx = 64 then 1 else 0))")
    (auto simp: min_def split: if_splits)

declare update.simps [simp del]

text \<open>The two pieces of \<^verbatim>\<open>finish\<close>: padding the buffered bytes, and storing the digest big endian.\<close>

definition pad_block :: "byte list \<Rightarrow> nat \<Rightarrow> byte list" where
  "pad_block buf buflen = take buflen buf @ [0x80] @ replicate (64 - (buflen + 1)) 0"

definition store_digest :: "u32 list \<Rightarrow> byte list" where
  "store_digest digest =
     concat (map (\<lambda>i. [ucast (drop_bit 24 (digest ! i)), ucast (drop_bit 16 (digest ! i)),
                       ucast (drop_bit 8 (digest ! i)), ucast (digest ! i)]) [0 ..< 5])"

definition finish :: "sha1_context \<Rightarrow> byte list" where
  "finish ctx =
     (let total_bits = (ctx_blocks ctx * 64 + of_nat (ctx_buflen ctx)) * 8;
          block = make_block (pad_block (ctx_buf ctx) (ctx_buflen ctx));
          (digest, block) =
            (if 56 < ctx_buflen ctx + 1
             then (transform (ctx_digest ctx) block, replicate 14 0 @ drop 14 block)
             else (ctx_digest ctx, block));
          block = block[15 := ucast (total_bits AND 0xffffffff), 14 := ucast (drop_bit 32 total_bits)]
      in store_digest (transform digest block))"

section \<open>The reference: FIPS 180-4\<close>

function sched :: "u32 list \<Rightarrow> nat \<Rightarrow> u32" where
  "sched M t =
     (if t < 16 then M ! t
      else word_rotl 1 (sched M (t - 3) XOR sched M (t - 8) XOR sched M (t - 14) XOR sched M (t - 16)))"
  by pat_completeness auto
termination
  by (relation "measure snd") auto

declare sched.simps [simp del]

definition fips_f :: "nat \<Rightarrow> u32 \<Rightarrow> u32 \<Rightarrow> u32 \<Rightarrow> u32" where
  "fips_f t x y z =
     (if t < 20 then (x AND y) XOR (NOT x AND z)
      else if t < 40 then x XOR y XOR z
      else if t < 60 then (x AND y) XOR (x AND z) XOR (y AND z)
      else x XOR y XOR z)"

definition fips_K :: "nat \<Rightarrow> u32" where
  "fips_K t = (if t < 20 then 0x5a827999 else if t < 40 then 0x6ed9eba1
     else if t < 60 then 0x8f1bbcdc else 0xca62c1d6)"

primrec fips_rounds :: "nat \<Rightarrow> u32 list \<Rightarrow> u32 \<times> u32 \<times> u32 \<times> u32 \<times> u32 \<Rightarrow> u32 \<times> u32 \<times> u32 \<times> u32 \<times> u32" where
  "fips_rounds 0 M s = s"
| "fips_rounds (Suc t) M s =
     (case fips_rounds t M s of (a, b, c, d, e) \<Rightarrow>
        (word_rotl 5 a + fips_f t b c d + e + fips_K t + sched M t, a, word_rotl 30 b, c, d))"

definition fips_compress :: "u32 list \<Rightarrow> u32 list \<Rightarrow> u32 list" where
  "fips_compress H M =
     (case fips_rounds 80 M (H ! 0, H ! 1, H ! 2, H ! 3, H ! 4) of
        (a, b, c, d, e) \<Rightarrow> [a + H ! 0, b + H ! 1, c + H ! 2, d + H ! 3, e + H ! 4])"

section \<open>The code follows the reference\<close>

lemma rol_word_rotl: "0 < n \<Longrightarrow> n < 32 \<Longrightarrow> rol v n = word_rotl n v"
proof (rule bit_word_eqI)
  fix k assume n: "0 < n" "n < 32" and "k < LENGTH(32)"
  then have k: "k < 32" by simp
  have l: "bit (rol v n) k \<longleftrightarrow> n \<le> k \<and> bit v (k - n) \<or> k < n \<and> bit v (32 - n + k)"
    using n k by (auto simp: rol_def bit_simps dest: bit_imp_le_length)
  have "(k + (32 - n)) mod 32 = (if n \<le> k then k - n else 32 - n + k)"
    using n k by (auto simp: mod_if)
  then have "bit (word_rotl n v) k \<longleftrightarrow> bit v (if n \<le> k then k - n else 32 - n + k)"
    using n k by (simp add: bit_word_rotl_iff)
  with l show "bit (rol v n) k = bit (word_rotl n v) k" by auto
qed

lemma ch_eq: "((w AND (x XOR y)) XOR y) = (w AND x) XOR (NOT w AND (y :: u32))"
  by (rule bit_word_eqI) (auto simp: bit_simps)

lemma maj_eq: "(((w OR x) AND y) OR (w AND x)) = (w AND x) XOR (w AND y) XOR (x AND (y :: u32))"
  by (rule bit_word_eqI) (auto simp: bit_simps)

definition round_of :: "nat \<Rightarrow> sha1_round" where
  "round_of t = (if t < 16 then R0 else if t < 20 then R1 else if t < 40 then R2 else if t < 60 then R3 else R4)"

lemma transform_calls_eq:
  "transform_calls = map (\<lambda>t. (round_of t, 4 * t mod 5, t mod 16)) [0 ..< 80]"
  by (simp add: transform_calls_def round_of_def upt_rec)

definition block_inv :: "u32 list \<Rightarrow> nat \<Rightarrow> u32 list \<Rightarrow> bool" where
  "block_inv M t block \<longleftrightarrow> length block = 16 \<and>
     (\<forall>k. k < max t 16 \<longrightarrow> max t 16 \<le> k + 16 \<longrightarrow> block ! (k mod 16) = sched M k)"

lemma block_inv_init: "length M = 16 \<Longrightarrow> block_inv M 0 M"
  by (auto simp: block_inv_def sched.simps)

lemma block_inv_current: "block_inv M t block \<Longrightarrow> t < 16 \<Longrightarrow> block ! t = sched M t \<and> block_inv M (Suc t) block"
  by (auto simp: block_inv_def max_def)

lemma blk_sched:
  assumes "block_inv M t block" "16 \<le> t"
  shows "blk block (t mod 16) = sched M t"
proof -
  have b: "block ! (k mod 16) = sched M k" if "k < t" "t \<le> k + 16" for k
    using assms that by (auto simp: block_inv_def max_def)
  obtain u where u: "t = u + 16" using assms(2) by (metis le_add_diff_inverse2)
  have m: "(t mod 16 + 13) mod 16 = (t - 3) mod 16" "(t mod 16 + 8) mod 16 = (t - 8) mod 16"
    "(t mod 16 + 2) mod 16 = (t - 14) mod 16" "t mod 16 = (t - 16) mod 16"
    by (simp_all add: u mod_simps add.commute)
  show ?thesis
    unfolding blk_def m(1-3) using assms(2) b [of "t - 3"] b [of "t - 8"] b [of "t - 14"] b [of "t - 16"] m(4)
    by (subst sched.simps) (simp add: rol_word_rotl)
qed

lemma block_inv_step:
  assumes "block_inv M t block" "16 \<le> t"
  shows "block_inv M (Suc t) (block[t mod 16 := blk block (t mod 16)])"
proof -
  have "block[t mod 16 := sched M t] ! (k mod 16) = sched M k" if "k < Suc t" "t < k + 16" for k
  proof (cases "k = t")
    case False
    with that have "k \<le> t" "\<not> 16 dvd t - k" by (auto dest: dvd_imp_le)
    then have "k mod 16 \<noteq> t mod 16" using mod_eq_dvd_iff_nat [of k t 16] by auto
    then show ?thesis using assms that False by (auto simp: block_inv_def max_def)
  qed (use assms in \<open>auto simp: block_inv_def\<close>)
  then show ?thesis
    using assms unfolding blk_sched [OF assms] by (auto simp: block_inv_def max_def)
qed

lemma round_of_correct:
  assumes "block_inv M t block" "t < 80"
  shows "\<exists>block'. round_of t block v w x y z (t mod 16) =
       (block', word_rotl 30 w, word_rotl 5 v + fips_f t w x y + z + fips_K t + sched M t) \<and>
     block_inv M (Suc t) block'"
proof (cases "t < 16")
  case True
  with block_inv_current [OF assms(1) True] show ?thesis
    by (auto simp: round_of_def R0_def fips_f_def fips_K_def rol_word_rotl ch_eq)
next
  case False
  let ?b = "block[t mod 16 := blk block (t mod 16)]"
  have inv: "block_inv M (Suc t) ?b" using assms(1) False by (intro block_inv_step) auto
  have "?b ! (t mod 16) = sched M t"
    using assms(1) False blk_sched [OF assms(1)] by (simp add: block_inv_def)
  with inv False assms(2) show ?thesis
    by (auto simp: round_of_def R1_def R2_def R3_def R4_def fips_f_def fips_K_def rol_word_rotl ch_eq maj_eq Let_def)
qed

definition vars_inv :: "nat \<Rightarrow> u32 list \<Rightarrow> u32 \<times> u32 \<times> u32 \<times> u32 \<times> u32 \<Rightarrow> bool" where
  "vars_inv t vars s \<longleftrightarrow> length vars = 5 \<and>
     s = (vars ! (4 * t mod 5), vars ! ((4 * t mod 5 + 1) mod 5), vars ! ((4 * t mod 5 + 2) mod 5),
          vars ! ((4 * t mod 5 + 3) mod 5), vars ! ((4 * t mod 5 + 4) mod 5))"

lemma mod5_cases: "(4 * t mod 5 = 0 \<and> 4 * Suc t mod 5 = 4) \<or> (4 * t mod 5 = 1 \<and> 4 * Suc t mod 5 = 0) \<or>
   (4 * t mod 5 = 2 \<and> 4 * Suc t mod 5 = 1) \<or> (4 * t mod 5 = 3 \<and> 4 * Suc t mod 5 = 2) \<or>
   (4 * t mod 5 = 4 \<and> 4 * Suc t mod 5 = (3::nat))"
  by presburger

lemma length_5E: "length xs = 5 \<Longrightarrow> \<exists>a b c d e. xs = [a, b, c, d, e]"
  by (auto simp: numeral_eq_Suc length_Suc_conv)

lemma vars_inv_step:
  assumes "vars_inv t vars (a, b, c, d, e)"
  shows "vars_inv (Suc t) (vars[(4 * t mod 5 + 1) mod 5 := b', (4 * t mod 5 + 4) mod 5 := e']) (e', a, b', c, d)"
proof -
  obtain v0 v1 v2 v3 v4 where vars: "vars = [v0, v1, v2, v3, v4]"
    using assms length_5E [of vars] unfolding vars_inv_def by blast
  show ?thesis
    using assms mod5_cases [of t] unfolding vars_inv_def vars
    by (elim disjE conjE) simp_all
qed

lemma fold_rounds:
  assumes "length M = 16" "length H = 5" "t \<le> 80"
  shows "\<exists>block vars. fold call_round (map (\<lambda>t. (round_of t, 4 * t mod 5, t mod 16)) [0 ..< t]) (M, H) = (block, vars) \<and>
     block_inv M t block \<and> vars_inv t vars (fips_rounds t M (H ! 0, H ! 1, H ! 2, H ! 3, H ! 4))"
  using assms(3)
proof (induction t)
  case 0
  then show ?case using assms by (simp add: block_inv_init vars_inv_def numeral_2_eq_2)
next
  case (Suc t)
  then obtain block vars where
    f: "fold call_round (map (\<lambda>t. (round_of t, 4 * t mod 5, t mod 16)) [0 ..< t]) (M, H) = (block, vars)"
    and b: "block_inv M t block"
    and v: "vars_inv t vars (fips_rounds t M (H ! 0, H ! 1, H ! 2, H ! 3, H ! 4))" by auto
  let ?r = "4 * t mod 5"
  obtain block' where r: "round_of t block (vars ! ?r) (vars ! ((?r + 1) mod 5)) (vars ! ((?r + 2) mod 5))
       (vars ! ((?r + 3) mod 5)) (vars ! ((?r + 4) mod 5)) (t mod 16) =
     (block', word_rotl 30 (vars ! ((?r + 1) mod 5)), word_rotl 5 (vars ! ?r) +
       fips_f t (vars ! ((?r + 1) mod 5)) (vars ! ((?r + 2) mod 5)) (vars ! ((?r + 3) mod 5)) +
       vars ! ((?r + 4) mod 5) + fips_K t + sched M t)" "block_inv M (Suc t) block'"
    using round_of_correct [OF b] Suc.prems by fastforce
  obtain a b c d e where s: "fips_rounds t M (H ! 0, H ! 1, H ! 2, H ! 3, H ! 4) = (a, b, c, d, e)"
    by (metis prod_cases5)
  have eqs: "a = vars ! ?r" "b = vars ! ((?r + 1) mod 5)" "c = vars ! ((?r + 2) mod 5)"
    "d = vars ! ((?r + 3) mod 5)" "e = vars ! ((?r + 4) mod 5)"
    using v unfolding s vars_inv_def by auto
  define e' where "e' = word_rotl 5 a + fips_f t b c d + e + fips_K t + sched M t"
  have "call_round (round_of t, ?r, t mod 16) (block, vars) =
     (block', vars[(?r + 1) mod 5 := word_rotl 30 b, (?r + 4) mod 5 := e'])"
    unfolding call_round_def prod.case r(1) by (simp add: eqs e'_def)
  then have "fold call_round (map (\<lambda>t. (round_of t, 4 * t mod 5, t mod 16)) [0 ..< Suc t]) (M, H) =
     (block', vars[(?r + 1) mod 5 := word_rotl 30 b, (?r + 4) mod 5 := e'])"
    using f by simp
  moreover have "fips_rounds (Suc t) M (H ! 0, H ! 1, H ! 2, H ! 3, H ! 4) = (e', a, word_rotl 30 b, c, d)"
    using s by (simp add: e'_def)
  ultimately show ?case
    using r(2) vars_inv_step [OF v [unfolded s]] by simp
qed

lemma transform_fips:
  assumes "length M = 16" "length H = 5"
  shows "transform H M = fips_compress H M"
proof -
  obtain block vars where "fold call_round transform_calls (M, H) = (block, vars)"
    and v: "vars_inv 80 vars (fips_rounds 80 M (H ! 0, H ! 1, H ! 2, H ! 3, H ! 4))"
    using fold_rounds [OF assms, of 80] unfolding transform_calls_eq by auto
  then have "fold call_round transform_calls (M, H) = (block, vars)"
    "fips_rounds 80 M (H ! 0, H ! 1, H ! 2, H ! 3, H ! 4) = (vars ! 0, vars ! 1, vars ! 2, vars ! 3, vars ! 4)"
    by (simp_all add: vars_inv_def numeral_2_eq_2)
  moreover have "[0 ..< 5] = [0, 1, 2, 3, 4 :: nat]" by (simp add: upt_rec)
  ultimately show ?thesis
    unfolding transform_def fips_compress_def by (simp add: add.commute)
qed

section \<open>Whole messages\<close>

definition fips_H0 :: "u32 list" where
  "fips_H0 = [0x67452301, 0xefcdab89, 0x98badcfe, 0x10325476, 0xc3d2e1f0]"

definition be64 :: "size_t \<Rightarrow> byte list" where
  "be64 w = [ucast (drop_bit 56 w), ucast (drop_bit 48 w), ucast (drop_bit 40 w), ucast (drop_bit 32 w),
     ucast (drop_bit 24 w), ucast (drop_bit 16 w), ucast (drop_bit 8 w), ucast w]"

definition fips_pad :: "byte list \<Rightarrow> byte list" where
  "fips_pad m = m @ [0x80] @ replicate ((119 - length m mod 64) mod 64) 0 @ be64 (of_nat (8 * length m))"

function hash_blocks :: "u32 list \<Rightarrow> byte list \<Rightarrow> u32 list" where
  "hash_blocks H xs =
     (if length xs < 64 then H else hash_blocks (fips_compress H (make_block (take 64 xs))) (drop 64 xs))"
  by pat_completeness auto
termination
  by (relation "measure (\<lambda>(H, xs). length xs)") auto

declare hash_blocks.simps [simp del]

definition sha1_ref :: "byte list \<Rightarrow> byte list" where
  "sha1_ref m = store_digest (hash_blocks fips_H0 (fips_pad m))"

lemma length_make_block [simp]: "length (make_block p) = 16"
  by (simp add: make_block_def)

lemma length_fips_compress [simp]: "length (fips_compress H M) = 5"
  by (auto simp: fips_compress_def split: prod.splits)

lemma hash_blocks_short [simp]: "length xs < 64 \<Longrightarrow> hash_blocks H xs = H"
  by (subst hash_blocks.simps) simp

lemma hash_blocks_one: "length xs = 64 \<Longrightarrow> hash_blocks H xs = fips_compress H (make_block xs)"
  by (subst hash_blocks.simps) simp

lemma hash_blocks_append:
  "length xs = 64 * k \<Longrightarrow> hash_blocks H (xs @ ys) = hash_blocks (hash_blocks H xs) ys"
proof (induction k arbitrary: H xs)
  case (Suc k)
  have split: "hash_blocks H (xs @ zs) = hash_blocks (fips_compress H (make_block (take 64 xs))) (drop 64 xs @ zs)" for zs
    using Suc.prems by (subst hash_blocks.simps) simp
  show ?case
    using split [of ys] split [of "[]"] Suc.IH [of "drop 64 xs" "fips_compress H (make_block (take 64 xs))"] Suc.prems
    by simp
qed simp

lemma length_hash_blocks: "length H = 5 \<Longrightarrow> length (hash_blocks H xs) = 5"
  by (induction H xs rule: hash_blocks.induct) (subst hash_blocks.simps, simp)

definition ctx_ok :: "sha1_context \<Rightarrow> byte list \<Rightarrow> bool" where
  "ctx_ok ctx m \<longleftrightarrow>
     (\<exists>full tl k. m = full @ tl \<and> length full = 64 * k \<and> length tl < 64 \<and>
        ctx_buflen ctx = length tl \<and> ctx_blocks ctx = of_nat k \<and> length (ctx_buf ctx) = 64 \<and>
        take (length tl) (ctx_buf ctx) = tl \<and> ctx_digest ctx = hash_blocks fips_H0 full)"

lemma length_H0 [simp]: "length fips_H0 = 5"
  by (simp add: fips_H0_def)

lemma init_ok: "length junk = 64 \<Longrightarrow> ctx_ok (init junk) []"
  by (simp add: ctx_ok_def init_def fips_H0_def)

lemma update_ok: "ctx_ok ctx m \<Longrightarrow> ctx_ok (update ctx p) (m @ p)"
proof (induction ctx p arbitrary: m rule: update.induct)
  case (1 ctx p)
  from "1.prems" obtain full tl k where m: "m = full @ tl" "length full = 64 * k" "length tl < 64"
    and c: "ctx_buflen ctx = length tl" "ctx_blocks ctx = of_nat k" "length (ctx_buf ctx) = 64"
      "take (length tl) (ctx_buf ctx) = tl" "ctx_digest ctx = hash_blocks fips_H0 full"
    unfolding ctx_ok_def by blast
  define n where "n = min (length p) (64 - length tl)"
  define buf where "buf = tl @ take n p @ drop (length tl + n) (ctx_buf ctx)"
  have n: "n \<le> length p" "length tl + n \<le> 64" using m by (auto simp: n_def)
  have len: "length buf = 64" using n m c by (simp add: buf_def)
  show ?case
  proof (cases "length tl + n = 64")
    case False
    then have np: "n = length p" using m by (simp add: n_def min_def split: if_splits)
    have u: "update ctx p = ctx\<lparr>ctx_buf := buf, ctx_buflen := length tl + n\<rparr>"
      using False by (subst update.simps) (simp add: c Let_def n_def [symmetric] buf_def)
    show ?thesis
      unfolding ctx_ok_def u using m c False n len np
      by (intro exI [of _ full] exI [of _ "tl @ p"] exI [of _ k]) (auto simp: buf_def)
  next
    case True
    let ?blk = "tl @ take n p"
    have blk: "buf = ?blk" "length ?blk = 64" using True n c by (auto simp: buf_def)
    let ?ctx = "ctx\<lparr>ctx_buf := buf, ctx_buflen := 0, ctx_digest := transform (ctx_digest ctx) (make_block buf),
       ctx_blocks := ctx_blocks ctx + 1\<rparr>"
    have u: "update ctx p = update ?ctx (drop n p)"
      using True by (subst update.simps) (simp add: c Let_def n_def [symmetric] buf_def)
    have "transform (ctx_digest ctx) (make_block buf) = hash_blocks fips_H0 (full @ ?blk)"
      using blk c m by (simp add: transform_fips length_hash_blocks hash_blocks_append [OF m(2)] hash_blocks_one)
    then have "ctx_ok ?ctx (full @ ?blk)"
      unfolding ctx_ok_def using m c len blk
      by (intro exI [of _ "full @ ?blk"] exI [of _ "[]"] exI [of _ "Suc k"]) auto
    from "1.IH" [OF _ _ _ _ this] have "ctx_ok (update ?ctx (drop n p)) ((full @ ?blk) @ drop n p)"
      using True c by (simp add: n_def [symmetric] buf_def)
    then show ?thesis using u m by simp
  qed
qed

section \<open>Padding\<close>

lemma be_word:
  "ucast (ucast b :: byte) OR push_bit 8 (ucast (ucast (drop_bit 8 b) :: byte)) OR
   push_bit 16 (ucast (ucast (drop_bit 16 b) :: byte)) OR push_bit 24 (ucast (ucast (drop_bit 24 b) :: byte)) =
   (ucast (b :: size_t) :: u32)"
proof (rule bit_word_eqI)
  fix n assume "n < LENGTH(32)"
  then have "n < 8 \<or> 8 \<le> n \<and> n < 16 \<or> 16 \<le> n \<and> n < 24 \<or> 24 \<le> n \<and> n < 32" by auto
  then show "bit (ucast (ucast b :: byte) OR push_bit 8 (ucast (ucast (drop_bit 8 b) :: byte)) OR
   push_bit 16 (ucast (ucast (drop_bit 16 b) :: byte)) OR push_bit 24 (ucast (ucast (drop_bit 24 b) :: byte)) :: u32) n =
   bit (ucast b :: u32) n"
    by (auto simp: bit_simps)
qed

lemma make_block_length_field:
  assumes "length xs = 56" "length zs = 8"
  shows "make_block (xs @ be64 w) =
     (make_block (xs @ zs))[15 := ucast (w AND 0xffffffff), 14 := ucast (drop_bit 32 w)]"
proof (rule nth_equalityI)
  fix i assume "i < length (make_block (xs @ be64 w))"
  then consider "i < 14" | "i = 14" | "i = 15" by fastforce
  then show "make_block (xs @ be64 w) ! i =
    (make_block (xs @ zs))[15 := ucast (w AND 0xffffffff), 14 := ucast (drop_bit 32 w)] ! i"
  proof cases
    case 1
    then show ?thesis using assms by (simp add: make_block_def nth_append)
  next
    case 2
    have "drop_bit 56 w = drop_bit 24 (drop_bit 32 w)" "drop_bit 48 w = drop_bit 16 (drop_bit 32 w)"
      "drop_bit 40 w = drop_bit 8 (drop_bit 32 w)" by simp_all
    then show ?thesis
      using 2 assms be_word [of "drop_bit 32 w"]
      by (simp add: make_block_def nth_append be64_def del: drop_bit_drop_bit)
  next
    case 3
    have m32: "(0xffffffff :: size_t) = mask 32" by (simp add: mask_eq_exp_minus_1)
    have "(ucast (w AND mask 32) :: u32) = ucast w"
      by (rule bit_word_eqI) (auto simp: bit_simps)
    then have "(ucast (w AND 0xffffffff) :: u32) = ucast w" unfolding m32 .
    then show ?thesis
      using 3 assms be_word [of w] by (simp add: make_block_def nth_append be64_def)
  qed
qed simp

lemma replicate_prefix: "replicate (a + b) x = replicate a x @ replicate b x"
  by (rule replicate_add)

lemma pad_block_split:
  assumes "length tail < 56" "take (length tail) buf = tail"
  shows "pad_block buf (length tail) = (tail @ [0x80] @ replicate (55 - length tail) 0) @ replicate 8 0"
proof -
  have "64 - (length tail + 1) = (55 - length tail) + 8" using assms by simp
  then show ?thesis using assms by (simp only: pad_block_def replicate_prefix append_assoc)
qed

lemma finish_ok:
  assumes "ctx_ok ctx m"
  shows "finish ctx = sha1_ref m"
proof -
  from assms obtain full tail k where m: "m = full @ tail" "length full = 64 * k" "length tail < 64"
    and c: "ctx_buflen ctx = length tail" "ctx_blocks ctx = of_nat k" "length (ctx_buf ctx) = 64"
      "take (length tail) (ctx_buf ctx) = tail" "ctx_digest ctx = hash_blocks fips_H0 full"
    unfolding ctx_ok_def by blast
  define w where "w = (of_nat (8 * length m) :: size_t)"
  define D where "D = hash_blocks fips_H0 full"
  have bits: "(ctx_blocks ctx * 64 + of_nat (ctx_buflen ctx)) * 8 = w"
    using m c by (simp add: w_def algebra_simps)
  have lenD: "length D = 5" by (simp add: D_def length_hash_blocks)
  have mm: "length m mod 64 = length tail" using m by simp
  define z where "z = (119 - length tail) mod 64"
  have "fips_pad m = full @ (tail @ [0x80] @ replicate z 0 @ be64 w)"
    unfolding fips_pad_def mm w_def z_def using m(1) by simp
  then have ref: "hash_blocks fips_H0 (fips_pad m) = hash_blocks D (tail @ [0x80] @ replicate z 0 @ be64 w)"
    by (simp add: hash_blocks_append [OF m(2)] D_def)
  let ?set = "\<lambda>b. b[15 := ucast (w AND 0xffffffff), 14 := ucast (drop_bit 32 w)]"
  have lb: "length (be64 w) = 8" by (simp add: be64_def)
  show ?thesis
  proof (cases "length tail < 56")
    case True
    then have z: "z = 55 - length tail" by (simp add: z_def mod_if)
    let ?xs = "tail @ [0x80] @ replicate z 0"
    have x: "length ?xs = 56" using True z by simp
    have "hash_blocks D (?xs @ be64 w) = fips_compress D (make_block (?xs @ be64 w))"
      using x lb by (intro hash_blocks_one) simp
    also have "\<dots> = transform D (?set (make_block (?xs @ replicate 8 0)))"
      using x lenD by (subst make_block_length_field [of _ "replicate 8 0"]) (simp_all add: transform_fips)
    finally have "hash_blocks D (?xs @ be64 w) = transform D (?set (make_block (pad_block (ctx_buf ctx) (length tail))))"
      using pad_block_split [OF True c(4)] z by simp
    then show ?thesis
      using True unfolding finish_def bits Let_def sha1_ref_def ref by (simp add: c(1,5) D_def)
  next
    case False
    then have z: "z = (63 - length tail) + 56" using m by (simp add: z_def)
    let ?b1 = "tail @ [0x80] @ replicate (63 - length tail) 0"
    have b1: "length ?b1 = 64" "pad_block (ctx_buf ctx) (length tail) = ?b1"
      using m(3) c(4) by (auto simp: pad_block_def)
    have "tail @ [0x80] @ replicate z 0 @ be64 w = ?b1 @ (replicate 56 0 @ be64 w)"
      by (simp add: z replicate_prefix)
    then have "hash_blocks D (tail @ [0x80] @ replicate z 0 @ be64 w) =
      hash_blocks (hash_blocks D ?b1) (replicate 56 0 @ be64 w)"
      using hash_blocks_append [of ?b1 1 D] b1(1) by simp
    also have "\<dots> = fips_compress (transform D (make_block ?b1)) (make_block (replicate 56 0 @ be64 w))"
      using b1 lb lenD by (simp add: hash_blocks_one transform_fips)
    also have "make_block (replicate 56 0 @ be64 w) =
      ?set (replicate 14 0 @ drop 14 (make_block ?b1))"
      by (subst make_block_length_field [of _ "replicate 8 0"])
        (auto simp: list_eq_iff_nth_eq nth_append nth_list_update make_block_def)
    also have "fips_compress (transform D (make_block ?b1)) (?set (replicate 14 0 @ drop 14 (make_block ?b1))) =
       transform (transform D (make_block ?b1)) (?set (replicate 14 0 @ drop 14 (make_block ?b1)))"
      using lenD by (simp add: transform_fips)
    finally show ?thesis
      using False unfolding finish_def bits Let_def sha1_ref_def ref by (simp add: c(1,5) D_def b1(2))
  qed
qed

section \<open>Incremental hashing\<close>

text \<open>
  What a client of an incremental hash relies on: the start states have seen nothing, feeding
  appends to what has been seen, closing returns the hash of it. How the input was cut into
  pieces is then invisible.
\<close>

locale incremental_digest =
  fixes is_start :: "'c \<Rightarrow> bool"
    and feed :: "'c \<Rightarrow> 'm list \<Rightarrow> 'c"
    and close :: "'c \<Rightarrow> 'd"
    and seen :: "'c \<Rightarrow> 'm list \<Rightarrow> bool"
    and hash :: "'m list \<Rightarrow> 'd"
  assumes start_seen: "is_start c \<Longrightarrow> seen c []"
    and feed_seen: "seen c m \<Longrightarrow> seen (feed c x) (m @ x)"
    and close_hash: "seen c m \<Longrightarrow> close c = hash m"
begin

lemma feed_all: "seen c m \<Longrightarrow> seen (foldl feed c xs) (m @ concat xs)"
proof (induction xs arbitrary: c m)
  case (Cons x xs)
  from Cons.IH [OF feed_seen [OF Cons.prems]] show ?case by simp
qed simp

lemma digest_of_parts: "is_start c \<Longrightarrow> close (foldl feed c xs) = hash (concat xs)"
  using feed_all [OF start_seen] close_hash by fastforce

end

interpretation sha1_inc: incremental_digest
  "\<lambda>c. \<exists>junk. length junk = 64 \<and> c = init junk" update finish ctx_ok sha1_ref
  by unfold_locales (auto intro: init_ok update_ok finish_ok)

text \<open>(C29) The context computes SHA-1 of the concatenated input: whatever the block buffer held before
  \<^verbatim>\<open>init\<close>, and however the message is cut into \<^verbatim>\<open>update\<close> calls, \<^verbatim>\<open>finish\<close> returns the digest that
  FIPS 180-4 defines for the whole message.\<close>

theorem sha1_incremental:
  "length junk = 64 \<Longrightarrow> finish (foldl update (init junk) parts) = sha1_ref (concat parts)"
  by (rule sha1_inc.digest_of_parts) blast

theorem sha1_incremental_witness:
  "finish (foldl update (init (replicate 64 0xAA)) [[0x61], [0x62, 0x63]]) = sha1_ref [0x61, 0x62, 0x63]"
  using sha1_incremental [of "replicate 64 0xAA" "[[0x61], [0x62, 0x63]]"] by simp

text \<open>The compression function, which keeps sixteen schedule words in place and rotates the roles of
  its variables over eighty calls, equals the compression function of FIPS 180-4.\<close>

theorem transform_is_fips:
  "length block = 16 \<Longrightarrow> length digest = 5 \<Longrightarrow> transform digest block = fips_compress digest block"
  by (rule transform_fips)

theorem transform_is_fips_witness:
  "transform fips_H0 (replicate 16 0) = fips_compress fips_H0 (replicate 16 0)"
  by (rule transform_is_fips) simp_all

end
