(* ===== verification/Base64.thy ===== *)
theory Base64
  imports Netcore_Prelude
begin

text \<open>
  The two Base64 coders of the repository: \<^verbatim>\<open>base64_encode\<close> of \<^verbatim>\<open>include/netcore/utils.hpp\<close>
  (taken from h2o; the WebSocket handshake uses it) and the class \<^verbatim>\<open>Base64\<close> of
  \<^verbatim>\<open>lib/base64.hpp\<close>. Both encoders agree, and the decoder inverts them.
\<close>

section \<open>The encoder of \<^verbatim>\<open>utils.hpp\<close>\<close>

definition MAP :: string where
  "MAP = ''ABCDEFGHIJKLMNOPQRSTUVWXYZ'' @ ''abcdefghijklmnopqrstuvwxyz'' @ ''0123456789+/''"

definition MAP_URL_ENCODED :: string where
  "MAP_URL_ENCODED = ''ABCDEFGHIJKLMNOPQRSTUVWXYZ'' @ ''abcdefghijklmnopqrstuvwxyz'' @ ''0123456789-_''"

definition map_at :: "string \<Rightarrow> u32 \<Rightarrow> char" where
  "map_at tab w = tab ! unat w"

fun base64_encode :: "byte list \<Rightarrow> bool \<Rightarrow> string" where
  "base64_encode (s0 # s1 # s2 # src) url_encoded =
     (let tab = (if url_encoded then MAP_URL_ENCODED else MAP);
          quad = push_bit 16 (ucast s0 :: u32) OR push_bit 8 (ucast s1) OR ucast s2
      in [map_at tab (drop_bit 18 quad), map_at tab (drop_bit 12 quad AND 63),
          map_at tab (drop_bit 6 quad AND 63), map_at tab (quad AND 63)] @ base64_encode src url_encoded)"
| "base64_encode [] url_encoded = []"
| "base64_encode [s0] url_encoded =
     (let tab = (if url_encoded then MAP_URL_ENCODED else MAP);
          quad = push_bit 16 (ucast s0 :: u32)
      in [map_at tab (drop_bit 18 quad), map_at tab (drop_bit 12 quad AND 63)] @
         (if \<not> url_encoded then ''=='' else []))"
| "base64_encode [s0, s1] url_encoded =
     (let tab = (if url_encoded then MAP_URL_ENCODED else MAP);
          quad = push_bit 16 (ucast s0 :: u32);
          quad' = quad OR push_bit 8 (ucast s1)
      in [map_at tab (drop_bit 18 quad), map_at tab (drop_bit 12 quad' AND 63),
          map_at tab (drop_bit 6 quad' AND 63)] @
         (if \<not> url_encoded then ''='' else []))"

section \<open>The class \<^verbatim>\<open>Base64\<close>\<close>

definition base64_table :: string where
  "base64_table = ''ABCDEFGHIJKLMNOPQRSTUVWXYZabcdefghijklmnopqrstuvwxyz0123456789+/''"

text \<open>\<^verbatim>\<open>current[k]\<close> is an unsigned char promoted to int. The lengths of both functions are of type \<^verbatim>\<open>int\<close>: the definitions stand for texts of less than \<open>2 ^ 31\<close> bytes.\<close>

fun Encode :: "byte list \<Rightarrow> string" where
  "Encode (c0 # c1 # c2 # rest) =
     [map_at base64_table (drop_bit 2 (ucast c0)),
      map_at base64_table (push_bit 4 (ucast c0 AND 3) + drop_bit 4 (ucast c1)),
      map_at base64_table (push_bit 2 (ucast c1 AND 0x0f) + drop_bit 6 (ucast c2)),
      map_at base64_table (ucast c2 AND 0x3f)] @ Encode rest"
| "Encode [] = []"
| "Encode [c0] =
     [map_at base64_table (drop_bit 2 (ucast c0)), map_at base64_table (push_bit 4 (ucast c0 AND 3))] @ ''==''"
| "Encode [c0, c1] =
     [map_at base64_table (drop_bit 2 (ucast c0)),
      map_at base64_table (push_bit 4 (ucast c0 AND 3) + drop_bit 4 (ucast c1)),
      map_at base64_table (push_bit 2 (ucast c1 AND 0x0f))] @ ''=''"

definition DecodeTable :: "int list" where
  "DecodeTable =
     [-2, -2, -2, -2, -2, -2, -2, -2, -2, -1, -1, -2, -2, -1, -2, -2,
      -2, -2, -2, -2, -2, -2, -2, -2, -2, -2, -2, -2, -2, -2, -2, -2,
      -1, -2, -2, -2, -2, -2, -2, -2, -2, -2, -2, 62, -2, -2, -2, 63,
      52, 53, 54, 55, 56, 57, 58, 59, 60, 61, -2, -2, -2, -2, -2, -2,
      -2, 0, 1, 2, 3, 4, 5, 6, 7, 8, 9, 10, 11, 12, 13, 14,
      15, 16, 17, 18, 19, 20, 21, 22, 23, 24, 25, -2, -2, -2, -2, -2,
      -2, 26, 27, 28, 29, 30, 31, 32, 33, 34, 35, 36, 37, 38, 39, 40,
      41, 42, 43, 44, 45, 46, 47, 48, 49, 50, 51, -2, -2, -2, -2, -2] @ replicate 128 (-2)"

text \<open>
  A plain \<^verbatim>\<open>char\<close> is signed where the server runs, so \<^verbatim>\<open>DecodeTable[ch]\<close> with a byte of 128 or
  more reads before the table (\<open>TableUnderrun\<close>); \<^verbatim>\<open>return NULL\<close> builds a \<^verbatim>\<open>std::string\<close> from a
  null pointer (\<open>NullString\<close>). The argument is the text before its terminating zero.
\<close>

datatype decode_error = TableUnderrun | NullString

definition next_char :: "string \<Rightarrow> char" where
  "next_char rest = (case rest of [] \<Rightarrow> CHR 0x00 | c # _ \<Rightarrow> c)"

definition put :: "nat \<Rightarrow> char" where
  "put bin = char_of (bin mod 256)"

fun Decode_loop :: "string \<Rightarrow> nat \<Rightarrow> nat \<Rightarrow> nat \<Rightarrow> string \<Rightarrow> decode_error + string" where
  "Decode_loop [] len i bin out = Inr out"
| "Decode_loop (ch # rest) len i bin out =
     (if ch = CHR 0x00 \<or> len = 0 then Inr out
      else if ch = CHR ''='' then
        (if next_char rest \<noteq> CHR ''='' \<and> i mod 4 = 1 then Inl NullString
         else Decode_loop rest (len - 1) i bin out)
      else if 128 \<le> uchar ch then Inl TableUnderrun
      else if DecodeTable ! uchar ch < 0 then Decode_loop rest (len - 1) i bin out
      else
        (let v = nat (DecodeTable ! uchar ch) in
         if i mod 4 = 0 then Decode_loop rest (len - 1) (i + 1) (push_bit 2 v) out
         else if i mod 4 = 1 then
           Decode_loop rest (len - 1) (i + 1) (push_bit 4 (v AND 0x0f)) (out @ [put (bin OR drop_bit 4 v)])
         else if i mod 4 = 2 then
           Decode_loop rest (len - 1) (i + 1) (push_bit 6 (v AND 0x03)) (out @ [put (bin OR drop_bit 2 v)])
         else Decode_loop rest (len - 1) (i + 1) (bin OR v) (out @ [put (bin OR v)])))"

definition Decode :: "string \<Rightarrow> nat \<Rightarrow> decode_error + string" where
  "Decode str len = Decode_loop str len 0 0 []"

section \<open>The encoders agree\<close>

lemma ucast_byte_bit: "bit (ucast (b :: byte) :: u32) n \<longleftrightarrow> bit b n"
  by (auto simp: bit_simps dest: bit_imp_le_length)

lemma and_small_masks: "(3 :: u32) = mask 2" "(0x0f :: u32) = mask 4" "(63 :: u32) = mask 6"
  by (simp_all add: mask_eq_exp_minus_1)

lemma quad_index:
  fixes s0 s1 s2 :: byte
  defines "quad \<equiv> push_bit 16 (ucast s0 :: u32) OR push_bit 8 (ucast s1) OR ucast s2"
  shows "drop_bit 18 quad = drop_bit 2 (ucast s0)"
    and "drop_bit 12 quad AND 63 = push_bit 4 (ucast s0 AND 3) + drop_bit 4 (ucast s1)"
    and "drop_bit 6 quad AND 63 = push_bit 2 (ucast s1 AND 0x0f) + drop_bit 6 (ucast s2)"
    and "quad AND 63 = ucast s2 AND 63"
proof -
  show "drop_bit 18 quad = drop_bit 2 (ucast s0)"
    unfolding quad_def by (rule bit_word_eqI) (auto simp: bit_simps dest: bit_imp_le_length)
  have "push_bit 4 (ucast s0 AND 3) AND drop_bit 4 (ucast s1) = (0 :: u32)"
    unfolding and_small_masks by (rule bit_word_eqI) (auto simp: bit_simps dest: bit_imp_le_length)
  then have a: "push_bit 4 (ucast s0 AND 3) + drop_bit 4 (ucast s1) =
      (push_bit 4 (ucast s0 AND 3) OR drop_bit 4 (ucast s1) :: u32)"
    by (rule disjunctive_add_eq_or)
  show "drop_bit 12 quad AND 63 = push_bit 4 (ucast s0 AND 3) + drop_bit 4 (ucast s1)"
    unfolding a unfolding quad_def and_small_masks
    by (rule bit_word_eqI) (auto simp: bit_simps dest: bit_imp_le_length)
  have "push_bit 2 (ucast s1 AND 0x0f) AND drop_bit 6 (ucast s2) = (0 :: u32)"
    unfolding and_small_masks by (rule bit_word_eqI) (auto simp: bit_simps dest: bit_imp_le_length)
  then have b: "push_bit 2 (ucast s1 AND 0x0f) + drop_bit 6 (ucast s2) =
      (push_bit 2 (ucast s1 AND 0x0f) OR drop_bit 6 (ucast s2) :: u32)"
    by (rule disjunctive_add_eq_or)
  show "drop_bit 6 quad AND 63 = push_bit 2 (ucast s1 AND 0x0f) + drop_bit 6 (ucast s2)"
    unfolding b unfolding quad_def and_small_masks
    by (rule bit_word_eqI) (auto simp: bit_simps dest: bit_imp_le_length)
  show "quad AND 63 = ucast s2 AND 63"
    unfolding quad_def and_small_masks
    by (rule bit_word_eqI) (auto simp: bit_simps dest: bit_imp_le_length)
qed

lemma base64_table_MAP: "base64_table = MAP"
  by (simp add: base64_table_def MAP_def)

lemma Encode_base64_encode: "Encode bs = base64_encode bs False"
proof (induction bs rule: Encode.induct)
  case (1 c0 c1 c2 rest)
  then show ?case
    unfolding Encode.simps base64_encode.simps Let_def quad_index by (simp add: base64_table_MAP)
next
  case (3 c0)
  show ?case
    using quad_index(1,2) [of c0 0 0]
    unfolding Encode.simps base64_encode.simps Let_def by (simp add: base64_table_MAP)
next
  case (4 c0 c1)
  show ?case
    using quad_index(1-3) [of c0 c1 0] quad_index(1) [of c0 0 0]
    unfolding Encode.simps base64_encode.simps Let_def by (simp add: base64_table_MAP)
qed simp

section \<open>Decoding inverts encoding\<close>

lemma unat_byte_mod: "unat (c :: byte) mod 4294967296 = unat c"
  by (rule mod_less, rule less_trans [OF unat_byte_less]) simp

lemma index_values:
  fixes c0 c1 c2 :: byte
  shows "unat (drop_bit 2 (ucast c0 :: u32)) = unat c0 div 4"
    and "unat (push_bit 4 (ucast c0 AND 3) + drop_bit 4 (ucast c1) :: u32) = (unat c0 mod 4) * 16 + unat c1 div 16"
    and "unat (push_bit 2 (ucast c1 AND 0x0f) + drop_bit 6 (ucast c2) :: u32) = (unat c1 mod 16) * 4 + unat c2 div 64"
    and "unat (ucast c2 AND 0x3f :: u32) = unat c2 mod 64"
  unfolding and_small_masks take_bit_eq_mask [symmetric]
  by (simp_all add: unsigned_drop_bit_eq unsigned_take_bit_eq unsigned_push_bit_eq unsigned_ucast_eq
     unat_word_ariths drop_bit_eq_div push_bit_eq_mult take_bit_eq_mod)
    (simp_all only: unat_byte_mod)

lemma index_values_short:
  "unat (push_bit 4 (ucast (c0 :: byte) AND 3) :: u32) = (unat c0 mod 4) * 16 + unat (0 :: byte) div 16"
  "unat (push_bit 2 (ucast (c1 :: byte) AND 0x0f) :: u32) = (unat c1 mod 16) * 4 + unat (0 :: byte) div 64"
  unfolding index_values(2,3) [symmetric] by simp_all

lemma or_shifted: "b < 2 ^ n \<Longrightarrow> push_bit n a OR b = a * 2 ^ n + (b :: nat)"
proof -
  assume "b < 2 ^ n"
  then have b: "take_bit n b = b" by (simp add: take_bit_nat_eq_self)
  have "push_bit n a AND take_bit n b = 0" by (rule bit_eqI) (auto simp: bit_simps)
  then have "push_bit n a + b = push_bit n a OR b" unfolding b by (rule disjunctive_add_eq_or)
  then show ?thesis by (simp add: push_bit_eq_mult)
qed

lemma and_small: "(v :: nat) AND 0x0f = v mod 16" "v AND 0x03 = v mod 4"
proof -
  have "(15 :: nat) = mask 4" "(3 :: nat) = mask 2" by (simp_all add: mask_eq_exp_minus_1)
  then show "v AND 0x0f = v mod 16" "v AND 0x03 = v mod 4"
    by (simp_all only: take_bit_eq_mask [symmetric]) (simp_all add: take_bit_eq_mod)
qed

lemma table_chars: "\<forall>c \<in> set base64_table. uchar c < 128 \<and> c \<noteq> CHR 0x00 \<and> c \<noteq> CHR ''=''"
  by (simp add: base64_table_def uchar_def)

lemma table_decode: "map (\<lambda>c. DecodeTable ! uchar c) base64_table = map int [0 ..< 64]"
  by code_simp

lemma table_inverse:
  assumes "k < 64"
  shows "uchar (base64_table ! k) < 128" "DecodeTable ! uchar (base64_table ! k) = int k"
     "base64_table ! k \<noteq> CHR 0x00" "base64_table ! k \<noteq> CHR ''=''"
proof -
  have len: "length base64_table = 64" by (simp add: base64_table_def)
  have "map (\<lambda>c. DecodeTable ! uchar c) base64_table ! k = map int [0 ..< 64] ! k"
    by (simp only: table_decode)
  then show "DecodeTable ! uchar (base64_table ! k) = int k" using assms len by simp
  show "uchar (base64_table ! k) < 128" "base64_table ! k \<noteq> CHR 0x00" "base64_table ! k \<noteq> CHR ''=''"
    using assms len table_chars nth_mem [of k base64_table] by auto
qed

lemma Decode_loop_digit:
  assumes "k < 64" "0 < len"
  shows "Decode_loop (base64_table ! k # rest) len i bin out =
     (if i mod 4 = 0 then Decode_loop rest (len - 1) (i + 1) (push_bit 2 k) out
      else if i mod 4 = 1 then
        Decode_loop rest (len - 1) (i + 1) (push_bit 4 (k AND 0x0f)) (out @ [put (bin OR drop_bit 4 k)])
      else if i mod 4 = 2 then
        Decode_loop rest (len - 1) (i + 1) (push_bit 6 (k AND 0x03)) (out @ [put (bin OR drop_bit 2 k)])
      else Decode_loop rest (len - 1) (i + 1) (bin OR k) (out @ [put (bin OR k)]))"
  using table_inverse [OF assms(1)] assms(2) by simp

declare Decode_loop.simps(2) [simp del]

lemma group_nats:
  fixes a b c :: nat
  assumes "a < 256" "b < 256" "c < 256"
  defines "k0 \<equiv> a div 4" and "k1 \<equiv> (a mod 4) * 16 + b div 16"
    and "k2 \<equiv> (b mod 16) * 4 + c div 64" and "k3 \<equiv> c mod 64"
  shows "k0 < 64" "k1 < 64" "k2 < 64" "k3 < 64"
    and "push_bit 2 k0 OR drop_bit 4 k1 = a"
    and "push_bit 4 (k1 AND 0x0f) OR drop_bit 2 k2 = b"
    and "push_bit 6 (k2 AND 0x03) OR k3 = c"
proof -
  have d: "drop_bit 4 k1 = k1 div 16" "drop_bit 2 k2 = k2 div 4" by (simp_all add: drop_bit_eq_div)
  have q: "b div 16 < 16" "c div 64 < 4" using assms by auto
  show k: "k0 < 64" "k1 < 64" "k2 < 64" "k3 < 64"
    using assms(1) q unfolding k0_def k1_def k2_def k3_def by auto
  show "push_bit 2 k0 OR drop_bit 4 k1 = a"
    unfolding d using k q by (subst or_shifted) (auto simp: k0_def k1_def)
  show "push_bit 4 (k1 AND 0x0f) OR drop_bit 2 k2 = b"
    unfolding d and_small using k q by (subst or_shifted) (auto simp: k1_def k2_def)
  show "push_bit 6 (k2 AND 0x03) OR k3 = c"
    unfolding and_small using k q by (subst or_shifted) (auto simp: k2_def k3_def)
qed

lemma put_unat: "put (unat b) = byte_char b"
  by (simp add: put_def byte_char_def)

lemma mod4_next:
  assumes "i mod 4 = (0 :: nat)"
  shows "(i + 1) mod 4 = 1" "(i + 1 + 1) mod 4 = 2" "(i + 1 + 1 + 1) mod 4 = 3" "(i + 1 + 1 + 1 + 1) mod 4 = 0"
  using assms by presburger+

lemma Decode_loop_two:
  assumes "i mod 4 = 0" "k0 < 64" "k1 < 64" "2 \<le> len"
  shows "Decode_loop (base64_table ! k0 # base64_table ! k1 # rest) len i bin out =
    Decode_loop rest (len - 2) (i + 1 + 1) (push_bit 4 (k1 AND 0x0f)) (out @ [put (push_bit 2 k0 OR drop_bit 4 k1)])"
  using assms mod4_next [OF assms(1)] by (simp add: Decode_loop_digit numeral_2_eq_2)

lemma Decode_loop_third:
  assumes "i mod 4 = 0" "k2 < 64" "1 \<le> len"
  shows "Decode_loop (base64_table ! k2 # rest) len (i + 1 + 1) bin out =
    Decode_loop rest (len - 1) (i + 1 + 1 + 1) (push_bit 6 (k2 AND 0x03)) (out @ [put (bin OR drop_bit 2 k2)])"
  using assms mod4_next [OF assms(1)] by (simp add: Decode_loop_digit)

lemma Decode_loop_fourth:
  assumes "i mod 4 = 0" "k3 < 64" "1 \<le> len"
  shows "Decode_loop (base64_table ! k3 # rest) len (i + 1 + 1 + 1) bin out =
    Decode_loop rest (len - 1) (i + 1 + 1 + 1 + 1) (bin OR k3) (out @ [put (bin OR k3)])"
  using assms mod4_next [OF assms(1)] by (simp add: Decode_loop_digit)

lemma Decode_loop_pad:
  assumes "i mod 4 = 0" "n \<le> len"
  shows "Decode_loop (replicate n CHR ''='') len (i + 1 + 1) bin out = Inr out"
    and "Decode_loop (replicate n CHR ''='') len (i + 1 + 1 + 1) bin out = Inr out"
  using assms(2) mod4_next [OF assms(1)] by (induction n arbitrary: len) (auto simp: Decode_loop.simps(2))

lemma Decode_loop_Encode:
  "i mod 4 = 0 \<Longrightarrow> length (Encode bs) \<le> len \<Longrightarrow>
     Decode_loop (Encode bs) len i bin out = Inr (out @ map byte_char bs)"
proof (induction bs arbitrary: len i bin out rule: Encode.induct)
  case (1 c0 c1 c2 rest)
  note g = group_nats [OF unat_byte_less [of c0] unat_byte_less [of c1] unat_byte_less [of c2]]
  have len: "2 \<le> len" "1 \<le> len - 2" "1 \<le> len - 2 - 1" "length (Encode rest) \<le> len - 2 - 1 - 1"
    using "1.prems"(2) by auto
  show ?case
    unfolding Encode.simps map_at_def index_values append.simps
      Decode_loop_two [OF "1.prems"(1) g(1,2) len(1)] Decode_loop_third [OF "1.prems"(1) g(3) len(2)]
      Decode_loop_fourth [OF "1.prems"(1) g(4) len(3)] g(5-7) put_unat
      "1.IH" [OF mod4_next(4) [OF "1.prems"(1)] len(4)]
    by simp
next
  case (3 c0)
  note g = group_nats [OF unat_byte_less [of c0] unat_byte_less [of 0] unat_byte_less [of 0]]
  have len: "2 \<le> len" "2 \<le> len - 2" using "3.prems"(2) by auto
  have pad: "''=='' = replicate 2 CHR ''=''" by (simp add: numeral_2_eq_2)
  show ?case
    unfolding Encode.simps map_at_def append.simps index_values(1) index_values_short pad
      Decode_loop_two [OF "3.prems"(1) g(1,2) len(1)] Decode_loop_pad(1) [OF "3.prems"(1) len(2)] g(5) put_unat
    by simp
next
  case (4 c0 c1)
  note g = group_nats [OF unat_byte_less [of c0] unat_byte_less [of c1] unat_byte_less [of 0]]
  have len: "2 \<le> len" "1 \<le> len - 2" "1 \<le> len - 2 - 1" using "4.prems"(2) by auto
  have pad: "''='' = replicate 1 CHR ''=''" by simp
  show ?case
    unfolding Encode.simps map_at_def append.simps index_values(1,2) index_values_short(2) pad
      Decode_loop_two [OF "4.prems"(1) g(1,2) len(1)] Decode_loop_third [OF "4.prems"(1) g(3) len(2)]
      Decode_loop_pad(2) [OF "4.prems"(1) len(3)] g(5,6) put_unat
    by simp
qed simp

text \<open>(C30) The two Base64 encoders of the repository produce the same text, and the decoder returns
  exactly the encoded bytes, for every byte sequence.\<close>

theorem base64_roundtrip:
  "Encode bs = base64_encode bs False \<and> Decode (Encode bs) (length (Encode bs)) = Inr (map byte_char bs)"
  by (simp add: Encode_base64_encode [symmetric] Decode_def Decode_loop_Encode)

text \<open>The decoder indexes its table with a signed \<^verbatim>\<open>char\<close>: a text whose first character is a byte of
  128 or more makes it read before the table instead of skipping the character, as the comment
  in the code says it does.\<close>

theorem Decode_high_byte:
  "128 \<le> uchar c \<Longrightarrow> 0 < len \<Longrightarrow> Decode (c # str) len = Inl TableUnderrun"
  by (auto simp: Decode_def Decode_loop.simps(2) uchar_def)

theorem Decode_high_byte_witness: "Decode (CHR 0xE4 # ''QUJD'') 5 = Inl TableUnderrun"
  by (rule Decode_high_byte) (simp_all add: uchar_def)

end
