(* ===== verification/Utf8.thy ===== *)
theory Utf8
  imports Netcore_Prelude
begin

text \<open>
  The UTF-8 check \<^verbatim>\<open>is_valid_utf8\<close> of \<^verbatim>\<open>include/netcore/utils.hpp\<close>, which the server applies to
  WebSocket text. The code tests four bytes at once where it can; the specification is the
  definition of UTF-8: a concatenation of encodings of Unicode scalar values.
\<close>

section \<open>The code\<close>

definition load_u32 :: "byte list \<Rightarrow> u32" where
  "load_u32 s = ucast (s ! 0) OR push_bit 8 (ucast (s ! 1)) OR push_bit 16 (ucast (s ! 2)) OR push_bit 24 (ucast (s ! 3))"

text \<open>The inner \<^verbatim>\<open>while\<close>: \<open>None\<close> is its \<^verbatim>\<open>return true\<close> at the end of the text.\<close>

fun skip_ascii :: "byte list \<Rightarrow> byte list option" where
  "skip_ascii [] = None"
| "skip_ascii (b # s) = (if b AND 0x80 = 0 then skip_ascii s else Some (b # s))"

lemma skip_ascii_length: "skip_ascii s = Some t \<Longrightarrow> length t \<le> length s \<and> t \<noteq> [] \<and> t ! 0 AND 0x80 \<noteq> 0"
  by (induction s) (auto split: if_splits)

function is_valid_utf8 :: "byte list \<Rightarrow> bool" where
  "is_valid_utf8 s =
     (if s = [] then True
      else if 4 \<le> length s \<and> load_u32 s AND 0x80808080 = 0 then is_valid_utf8 (drop 4 s)
      else
        (case skip_ascii s of
           None \<Rightarrow> True
         | Some s \<Rightarrow>
             if s ! 0 AND 0x60 = 0x40 then
               (if length s \<le> 1 \<or> s ! 1 AND 0xc0 \<noteq> 0x80 \<or> s ! 0 AND 0xfe = 0xc0 then False
                else is_valid_utf8 (drop 2 s))
             else if s ! 0 AND 0xf0 = 0xe0 then
               (if length s \<le> 2 \<or> s ! 1 AND 0xc0 \<noteq> 0x80 \<or> s ! 2 AND 0xc0 \<noteq> 0x80 \<or>
                   (s ! 0 = 0xe0 \<and> s ! 1 AND 0xe0 = 0x80) \<or> (s ! 0 = 0xed \<and> s ! 1 AND 0xe0 = 0xa0) then False
                else is_valid_utf8 (drop 3 s))
             else if s ! 0 AND 0xf8 = 0xf0 then
               (if length s \<le> 3 \<or> s ! 1 AND 0xc0 \<noteq> 0x80 \<or> s ! 2 AND 0xc0 \<noteq> 0x80 \<or> s ! 3 AND 0xc0 \<noteq> 0x80 \<or>
                   (s ! 0 = 0xf0 \<and> s ! 1 AND 0xf0 = 0x80) \<or> (s ! 0 = 0xf4 \<and> 0x8f < s ! 1) \<or> 0xf4 < s ! 0 then False
                else is_valid_utf8 (drop 4 s))
             else False))"
  by pat_completeness auto
termination
  by (relation "measure length") (auto dest!: skip_ascii_length)

declare is_valid_utf8.simps [simp del]

section \<open>The definition of UTF-8\<close>

definition scalar_value :: "nat \<Rightarrow> bool" where
  "scalar_value c \<longleftrightarrow> c < 0x110000 \<and> \<not> (0xD800 \<le> c \<and> c < 0xE000)"

definition utf8_encode :: "nat \<Rightarrow> nat list" where
  "utf8_encode c =
     (if c < 0x80 then [c]
      else if c < 0x800 then [0xC0 + c div 64, 0x80 + c mod 64]
      else if c < 0x10000 then [0xE0 + c div 4096, 0x80 + c div 64 mod 64, 0x80 + c mod 64]
      else [0xF0 + c div 262144, 0x80 + c div 4096 mod 64, 0x80 + c div 64 mod 64, 0x80 + c mod 64])"

text \<open>Well-formed byte sequences by their ranges (Unicode, table 3-7).\<close>

definition tail_byte :: "nat \<Rightarrow> bool" where
  "tail_byte b \<longleftrightarrow> 0x80 \<le> b \<and> b \<le> 0xBF"

fun utf8_wf :: "nat list \<Rightarrow> bool" where
  "utf8_wf [] = True"
| "utf8_wf (a # r) =
     (if a < 0x80 then utf8_wf r
      else if 0xC2 \<le> a \<and> a \<le> 0xDF then (case r of b # r' \<Rightarrow> tail_byte b \<and> utf8_wf r' | _ \<Rightarrow> False)
      else if 0xE0 \<le> a \<and> a \<le> 0xEF then
        (case r of b # c # r' \<Rightarrow>
           tail_byte b \<and> tail_byte c \<and> (a = 0xE0 \<longrightarrow> 0xA0 \<le> b) \<and> (a = 0xED \<longrightarrow> b \<le> 0x9F) \<and> utf8_wf r'
         | _ \<Rightarrow> False)
      else if 0xF0 \<le> a \<and> a \<le> 0xF4 then
        (case r of b # c # d # r' \<Rightarrow>
           tail_byte b \<and> tail_byte c \<and> tail_byte d \<and> (a = 0xF0 \<longrightarrow> 0x90 \<le> b) \<and> (a = 0xF4 \<longrightarrow> b \<le> 0x8F) \<and> utf8_wf r'
         | _ \<Rightarrow> False)
      else False)"

section \<open>Byte tests as ranges\<close>

lemma and_unat:
  assumes "m < 256" "c < 256"
  shows "(b :: byte) AND of_nat m = of_nat c \<longleftrightarrow> unat b AND m = c"
proof -
  have u: "unat (of_nat m :: byte) = m" "unat (of_nat c :: byte) = c" using assms by (simp_all add: unat_of_nat)
  have "unat (b AND of_nat m) = unat b AND m" unfolding unsigned_and_eq u ..
  then show ?thesis using u by (metis unsigned_word_eqI)
qed

lemma and_field: "(n :: nat) AND push_bit k (mask j) = (n div 2 ^ k mod 2 ^ j) * 2 ^ k"
proof -
  have "n AND push_bit k (mask j) = push_bit k (take_bit j (drop_bit k n))"
    by (rule bit_eqI) (auto simp: bit_simps)
  then show ?thesis by (simp add: push_bit_eq_mult take_bit_eq_mod drop_bit_eq_div)
qed

lemma div_eq_range: "0 < K \<Longrightarrow> n div K = c \<longleftrightarrow> c * K \<le> n \<and> n < Suc c * (K :: nat)"
  using less_eq_div_iff_mult_less_eq [of K c n] div_less_iff_less_mult [of K n "Suc c"] by auto

lemma field_range:
  assumes "n < K * J" "0 < K"
  shows "n div K mod J * K = c * K \<longleftrightarrow> c * K \<le> n \<and> n < Suc c * (K :: nat)"
proof -
  have "n div K < J" using assms by (simp add: less_mult_imp_div_less mult.commute)
  then show ?thesis using assms(2) div_eq_range [of K n c] by simp
qed

lemma and_fields:
  fixes n :: nat
  assumes "n < 256"
  shows "n AND 0x80 = 0 \<longleftrightarrow> n < 128" "n AND 0x60 = 0x40 \<longleftrightarrow> 64 \<le> n mod 128 \<and> n mod 128 < 96"
    "n AND 0xf0 = 0xe0 \<longleftrightarrow> 224 \<le> n \<and> n < 240" "n AND 0xf8 = 0xf0 \<longleftrightarrow> 240 \<le> n \<and> n < 248"
    "n AND 0xc0 = 0x80 \<longleftrightarrow> 128 \<le> n \<and> n < 192" "n AND 0xfe = 0xc0 \<longleftrightarrow> 192 \<le> n \<and> n < 194"
    "n AND 0xe0 = 0x80 \<longleftrightarrow> 128 \<le> n \<and> n < 160" "n AND 0xe0 = 0xa0 \<longleftrightarrow> 160 \<le> n \<and> n < 192"
    "n AND 0xf0 = 0x80 \<longleftrightarrow> 128 \<le> n \<and> n < 144"
proof -
  have f: "n AND 0x80 = n div 128 mod 2 * 128" "n AND 0x60 = n div 32 mod 4 * 32" "n AND 0xf0 = n div 16 mod 16 * 16"
    "n AND 0xf8 = n div 8 mod 32 * 8" "n AND 0xc0 = n div 64 mod 4 * 64" "n AND 0xfe = n div 2 mod 128 * 2"
    "n AND 0xe0 = n div 32 mod 8 * 32"
    using and_field [of n 7 1] and_field [of n 5 2] and_field [of n 4 4] and_field [of n 3 5]
      and_field [of n 6 2] and_field [of n 1 7] and_field [of n 5 3]
    by (simp_all add: mask_eq_exp_minus_1 push_bit_eq_mult)
  show "n AND 0x80 = 0 \<longleftrightarrow> n < 128"
    "n AND 0xf0 = 0xe0 \<longleftrightarrow> 224 \<le> n \<and> n < 240" "n AND 0xf8 = 0xf0 \<longleftrightarrow> 240 \<le> n \<and> n < 248"
    "n AND 0xc0 = 0x80 \<longleftrightarrow> 128 \<le> n \<and> n < 192" "n AND 0xfe = 0xc0 \<longleftrightarrow> 192 \<le> n \<and> n < 194"
    "n AND 0xe0 = 0x80 \<longleftrightarrow> 128 \<le> n \<and> n < 160" "n AND 0xe0 = 0xa0 \<longleftrightarrow> 160 \<le> n \<and> n < 192"
    "n AND 0xf0 = 0x80 \<longleftrightarrow> 128 \<le> n \<and> n < 144"
    unfolding f using assms field_range [of n 128 2 0] field_range [of n 16 16 14] field_range [of n 8 32 30]
      field_range [of n 64 4 2] field_range [of n 2 128 96] field_range [of n 32 8 4] field_range [of n 32 8 5]
      field_range [of n 16 16 8]
    by simp_all
  have "n mod 128 < 32 * 4" by simp
  from field_range [OF this, of 2] have r: "(n mod 128) div 32 mod 4 * 32 = 64 \<longleftrightarrow> 64 \<le> n mod 128 \<and> n mod 128 < 96"
    by simp
  have "n mod (32 * 4) = 32 * (n div 32 mod 4) + n mod 32" by (rule mod_mult2_eq)
  then have "(n mod 128) div 32 mod 4 = n div 32 mod 4" by simp
  with r show "n AND 0x60 = 0x40 \<longleftrightarrow> 64 \<le> n mod 128 \<and> n mod 128 < 96" unfolding f by simp
qed

lemma byte_tests:
  fixes b :: byte
  shows "b AND 0x80 = 0 \<longleftrightarrow> unat b < 128"
    and "b AND 0x60 = 0x40 \<longleftrightarrow> 64 \<le> unat b mod 128 \<and> unat b mod 128 < 96"
    and "b AND 0xf0 = 0xe0 \<longleftrightarrow> 224 \<le> unat b \<and> unat b < 240"
    and "b AND 0xf8 = 0xf0 \<longleftrightarrow> 240 \<le> unat b \<and> unat b < 248"
    and "b AND 0xc0 = 0x80 \<longleftrightarrow> 128 \<le> unat b \<and> unat b < 192"
    and "b AND 0xfe = 0xc0 \<longleftrightarrow> 192 \<le> unat b \<and> unat b < 194"
    and "b AND 0xe0 = 0x80 \<longleftrightarrow> 128 \<le> unat b \<and> unat b < 160"
    and "b AND 0xe0 = 0xa0 \<longleftrightarrow> 160 \<le> unat b \<and> unat b < 192"
    and "b AND 0xf0 = 0x80 \<longleftrightarrow> 128 \<le> unat b \<and> unat b < 144"
  using and_unat [of "0x80" 0 b] and_unat [of "0x60" "0x40" b] and_unat [of "0xf0" "0xe0" b]
    and_unat [of "0xf8" "0xf0" b] and_unat [of "0xc0" "0x80" b] and_unat [of "0xfe" "0xc0" b]
    and_unat [of "0xe0" "0x80" b] and_unat [of "0xe0" "0xa0" b] and_unat [of "0xf0" "0x80" b]
    and_fields [OF unat_byte_less [of b]]
  by simp_all

lemma load_u32_bits:
  "bit (load_u32 [a, b, c, d]) n \<longleftrightarrow>
     (if n < 8 then bit a n else if n < 16 then bit b (n - 8) else if n < 24 then bit c (n - 16)
      else n < 32 \<and> bit d (n - 24))"
proof -
  have "n < 8 \<or> 8 \<le> n \<and> n < 16 \<or> 16 \<le> n \<and> n < 24 \<or> 24 \<le> n \<and> n < 32 \<or> 32 \<le> n" by linarith
  then show ?thesis
    unfolding load_u32_def
    by (elim disjE conjE) (auto simp: bit_simps dest: bit_imp_le_length)
qed

lemma load_u32_and:
  "load_u32 [a, b, c, d] AND load_u32 [m, m, m, m] = load_u32 [a AND m, b AND m, c AND m, d AND m]"
  by (rule bit_word_eqI) (simp add: bit_and_iff load_u32_bits)

lemma load_u32_zero: "load_u32 [a, b, c, d] = 0 \<longleftrightarrow> a = 0 \<and> b = 0 \<and> c = 0 \<and> d = 0"
proof
  assume z: "load_u32 [a, b, c, d] = 0"
  have "\<not> bit a n \<and> \<not> bit b n \<and> \<not> bit c n \<and> \<not> bit d n" for n
  proof (cases "n < 8")
    case True
    then show ?thesis
      using load_u32_bits [of a b c d n] load_u32_bits [of a b c d "n + 8"]
        load_u32_bits [of a b c d "n + 16"] load_u32_bits [of a b c d "n + 24"] z by simp
  qed (auto dest: bit_imp_le_length)
  then show "a = 0 \<and> b = 0 \<and> c = 0 \<and> d = 0" by (auto simp: bit_eq_iff)
qed (simp add: load_u32_def)

lemma load_u32_ascii:
  assumes "4 \<le> length s"
  shows "load_u32 s AND 0x80808080 = 0 \<longleftrightarrow> (\<forall>b \<in> set (take 4 s). b AND 0x80 = 0)"
proof -
  obtain a b c d r where s: "s = a # b # c # d # r"
    using assms by (auto simp: numeral_eq_Suc Suc_le_length_iff)
  have m: "(0x80808080 :: u32) = load_u32 [0x80, 0x80, 0x80, 0x80]" by (simp add: load_u32_def)
  have l: "load_u32 s = load_u32 [a, b, c, d]" by (simp add: load_u32_def s)
  show ?thesis unfolding l m load_u32_and load_u32_zero by (simp add: s)
qed

section \<open>The code checks the ranges\<close>

lemma utf8_wf_ascii: "\<forall>b \<in> set xs. b AND 0x80 = (0 :: byte) \<Longrightarrow> utf8_wf (map unat xs @ r) = utf8_wf r"
  by (induction xs) (auto simp: byte_tests)

lemma skip_ascii_wf:
  "utf8_wf (map unat s) = (case skip_ascii s of None \<Rightarrow> True | Some t \<Rightarrow> utf8_wf (map unat t))"
  by (induction s) (auto simp: byte_tests)

lemma byte_eq_unat: "n < 256 \<Longrightarrow> (b :: byte) = of_nat n \<longleftrightarrow> unat b = n"
  by (auto simp: unat_of_nat)

lemma byte_consts:
  fixes b :: byte
  shows "b = 0xe0 \<longleftrightarrow> unat b = 0xe0" "b = 0xed \<longleftrightarrow> unat b = 0xed" "b = 0xf0 \<longleftrightarrow> unat b = 0xf0"
    "b = 0xf4 \<longleftrightarrow> unat b = 0xf4" "0x8f < b \<longleftrightarrow> 0x8f < unat b" "0xf4 < b \<longleftrightarrow> 0xf4 < unat b"
  using byte_eq_unat [of "0xe0" b] byte_eq_unat [of "0xed" b] byte_eq_unat [of "0xf0" b] byte_eq_unat [of "0xf4" b]
  by (simp_all add: word_less_nat_alt)

text \<open>The branch of the loop body for a byte with the top bit set, with its loop call abstracted.\<close>

definition high_step :: "(byte list \<Rightarrow> bool) \<Rightarrow> byte list \<Rightarrow> bool" where
  "high_step k s =
     (if s ! 0 AND 0x60 = 0x40 then
        (if length s \<le> 1 \<or> s ! 1 AND 0xc0 \<noteq> 0x80 \<or> s ! 0 AND 0xfe = 0xc0 then False else k (drop 2 s))
      else if s ! 0 AND 0xf0 = 0xe0 then
        (if length s \<le> 2 \<or> s ! 1 AND 0xc0 \<noteq> 0x80 \<or> s ! 2 AND 0xc0 \<noteq> 0x80 \<or>
            (s ! 0 = 0xe0 \<and> s ! 1 AND 0xe0 = 0x80) \<or> (s ! 0 = 0xed \<and> s ! 1 AND 0xe0 = 0xa0) then False
         else k (drop 3 s))
      else if s ! 0 AND 0xf8 = 0xf0 then
        (if length s \<le> 3 \<or> s ! 1 AND 0xc0 \<noteq> 0x80 \<or> s ! 2 AND 0xc0 \<noteq> 0x80 \<or> s ! 3 AND 0xc0 \<noteq> 0x80 \<or>
            (s ! 0 = 0xf0 \<and> s ! 1 AND 0xf0 = 0x80) \<or> (s ! 0 = 0xf4 \<and> 0x8f < s ! 1) \<or> 0xf4 < s ! 0 then False
         else k (drop 4 s))
      else False)"

lemma mod_128: "128 \<le> n \<Longrightarrow> n < 256 \<Longrightarrow> n mod 128 = n - (128 :: nat)"
  by (simp add: le_mod_geq)

lemma high_step_wf:
  assumes "128 \<le> unat a"
  shows "high_step (\<lambda>s. utf8_wf (map unat s)) (a # r) = utf8_wf (map unat (a # r))"
proof -
  note m = mod_128 [OF assms unat_byte_less]
  consider "unat a < 192 \<or> 248 \<le> unat a" | "192 \<le> unat a" "unat a < 224"
    | "224 \<le> unat a" "unat a < 240" | "240 \<le> unat a" "unat a < 248" by linarith
  then show ?thesis
  proof cases
    case 1
    then have t: "\<not> (a AND 0x60 = 0x40)" "\<not> (a AND 0xf0 = 0xe0)" "\<not> (a AND 0xf8 = 0xf0)"
      using assms m by (auto simp: byte_tests)
    have "\<not> utf8_wf (map unat (a # r))" using 1 assms by (elim disjE) simp_all
    with t show ?thesis by (simp add: high_step_def)
  next
    case 2
    then have "a AND 0x60 = 0x40" unfolding byte_tests m by auto
    with 2 show ?thesis by (cases r) (auto simp: high_step_def byte_tests(5,6) tail_byte_def)
  next
    case 3
    then have t: "\<not> (a AND 0x60 = 0x40)" "a AND 0xf0 = 0xe0" using m by (auto simp: byte_tests)
    consider "r = []" | b where "r = [b]" | b c r' where "r = b # c # r'" by (metis neq_Nil_conv)
    then show ?thesis
    proof cases
      case 3
      with t \<open>224 \<le> unat a\<close> \<open>unat a < 240\<close> show ?thesis
        by (simp add: high_step_def byte_tests(5,7,8) byte_consts tail_byte_def) linarith
    qed (use 3 t in \<open>simp_all add: high_step_def\<close>)
  next
    case 4
    then have t: "\<not> (a AND 0x60 = 0x40)" "\<not> (a AND 0xf0 = 0xe0)" "a AND 0xf8 = 0xf0"
      using m by (auto simp: byte_tests)
    consider "r = []" | b where "r = [b]" | b c where "r = [b, c]" | b c d r' where "r = b # c # d # r'"
      by (metis neq_Nil_conv)
    then show ?thesis
    proof cases
      case 4
      with t \<open>240 \<le> unat a\<close> \<open>unat a < 248\<close> show ?thesis
        by (simp add: high_step_def byte_tests(5,9) byte_consts tail_byte_def) linarith
    qed (use 4 t in \<open>simp_all add: high_step_def\<close>)
  qed
qed

lemma is_valid_utf8_wf: "is_valid_utf8 s = utf8_wf (map unat s)"
proof (induction s rule: is_valid_utf8.induct)
  case (1 s)
  show ?case
  proof (cases "s = [] \<or> 4 \<le> length s \<and> load_u32 s AND 0x80808080 = 0")
    case True
    then consider "s = []" | "4 \<le> length s" "load_u32 s AND 0x80808080 = 0" "s \<noteq> []" by auto
    then show ?thesis
    proof cases
      case 2
      then have "is_valid_utf8 s = utf8_wf (map unat (drop 4 s))"
        using "1.IH"(1) by (subst is_valid_utf8.simps) simp
      also have "\<dots> = utf8_wf (map unat (take 4 s) @ map unat (drop 4 s))"
        using 2 load_u32_ascii [of s] by (simp add: utf8_wf_ascii)
      also have "\<dots> = utf8_wf (map unat s)" by (metis append_take_drop_id map_append)
      finally show ?thesis .
    qed (simp add: is_valid_utf8.simps)
  next
    case False
    show ?thesis
    proof (cases "skip_ascii s")
      case None
      then show ?thesis using False by (subst is_valid_utf8.simps) (auto simp: skip_ascii_wf [of s])
    next
      case (Some t)
      then obtain a r where t: "t = a # r" and a: "a AND 0x80 \<noteq> 0"
        using skip_ascii_length [OF Some] by (cases t) auto
      then have a128: "128 \<le> unat a" by (simp add: byte_tests)
      have nf: "s \<noteq> []" "\<not> (4 \<le> length s \<and> load_u32 s AND 0x80808080 = 0)" using False by auto
      have "is_valid_utf8 s = high_step is_valid_utf8 t"
        by (subst is_valid_utf8.simps) (simp only: nf if_False Some option.case high_step_def)
      also have "\<dots> = high_step (\<lambda>s. utf8_wf (map unat s)) t"
        using "1.IH"(2-4) [OF nf Some] unfolding high_step_def by (intro if_cong) auto
      finally have eq: "is_valid_utf8 s = high_step (\<lambda>s. utf8_wf (map unat s)) t" .
      show ?thesis
        unfolding eq skip_ascii_wf [of s] Some t using high_step_wf [OF a128] by simp
    qed
  qed
qed

section \<open>The ranges are the encodings\<close>

lemma mod64_le [simp]: "(c :: nat) mod 64 \<le> 63"
  using mod_less_divisor [of 64 c] by linarith

lemma middle_bits: "c div 64 mod 64 = (c - c div 4096 * 4096) div (64 :: nat)"
  "c div 4096 mod 64 = (c - c div 262144 * 262144) div (4096 :: nat)"
proof -
  have "c mod (64 * 64) = 64 * (c div 64 mod 64) + c mod 64" by (rule mod_mult2_eq)
  then show "c div 64 mod 64 = (c - c div 4096 * 4096) div (64 :: nat)"
    by (simp add: minus_div_mult_eq_mod)
  have "c mod (4096 * 64) = 4096 * (c div 4096 mod 64) + c mod 4096" by (rule mod_mult2_eq)
  then show "c div 4096 mod 64 = (c - c div 262144 * 262144) div (4096 :: nat)"
    by (simp add: minus_div_mult_eq_mod)
qed

lemma utf8_wf_encode: "scalar_value c \<Longrightarrow> utf8_wf (utf8_encode c @ r) = utf8_wf r"
proof -
  assume s: "scalar_value c"
  have m: "c mod 64 < 64" "c div 64 mod 64 < 64" "c div 4096 mod 64 < 64" by simp_all
  consider "c < 0x80" | "0x80 \<le> c" "c < 0x800" | "0x800 \<le> c" "c < 0x10000" | "0x10000 \<le> c" "c < 0x110000"
    using s unfolding scalar_value_def by linarith
  then show ?thesis
  proof cases
    case 1
    then show ?thesis by (simp add: utf8_encode_def)
  next
    case 2
    then have "2 \<le> c div 64" "c div 64 \<le> 31" by auto
    with 2 m show ?thesis by (simp add: utf8_encode_def tail_byte_def)
  next
    case 3
    then have d: "c div 4096 \<le> 15" by auto
    have lo: "c div 4096 = 0 \<Longrightarrow> 32 \<le> c div 64 mod 64" using 3 unfolding middle_bits by simp
    have hi: "c div 64 mod 64 \<le> 31" if "c div 4096 = 13"
    proof -
      have "13 * 4096 \<le> c \<and> c < Suc 13 * 4096" using that div_eq_range [of 4096 c 13] by simp
      then show ?thesis using s that unfolding middle_bits scalar_value_def by simp
    qed
    from 3 m d lo hi show ?thesis by (auto simp: utf8_encode_def tail_byte_def)
  next
    case 4
    then have d: "c div 262144 \<le> 4" by auto
    have lo: "c div 262144 = 0 \<Longrightarrow> 16 \<le> c div 4096 mod 64" using 4 unfolding middle_bits by simp
    have hi: "c div 262144 = 4 \<Longrightarrow> c div 4096 mod 64 \<le> 15" using 4 unfolding middle_bits by simp
    from 4 m d lo hi show ?thesis by (auto simp: utf8_encode_def tail_byte_def)
  qed
qed

lemma utf8_wf_concat: "\<forall>c \<in> set cs. scalar_value c \<Longrightarrow> utf8_wf (concat (map utf8_encode cs))"
  by (induction cs) (auto simp: utf8_wf_encode)

lemma split2: "y < 64 \<Longrightarrow> (q * 64 + y) div 64 = (q :: nat) \<and> (q * 64 + y) mod 64 = y"
  by simp

lemma split3:
  assumes "x < 64" "y < 64"
  shows "(h * 4096 + x * 64 + y) div 4096 = (h :: nat)" "(h * 4096 + x * 64 + y) div 64 mod 64 = x"
    "(h * 4096 + x * 64 + y) mod 64 = y"
proof -
  have e: "h * 4096 + x * 64 + y = (h * 64 + x) * 64 + y" by simp
  have "(h * 4096 + x * 64 + y) div 4096 = (h * 4096 + x * 64 + y) div 64 div 64" by (simp add: div_mult2_eq [symmetric])
  then show "(h * 4096 + x * 64 + y) div 4096 = h" "(h * 4096 + x * 64 + y) div 64 mod 64 = x"
    "(h * 4096 + x * 64 + y) mod 64 = y"
    unfolding e using split2 [OF assms(2), of "h * 64 + x"] split2 [OF assms(1), of h] by simp_all
qed

lemma split4:
  assumes "w < 64" "x < 64" "y < 64"
  shows "(h * 262144 + w * 4096 + x * 64 + y) div 262144 = (h :: nat)"
    "(h * 262144 + w * 4096 + x * 64 + y) div 4096 mod 64 = w"
    "(h * 262144 + w * 4096 + x * 64 + y) div 64 mod 64 = x" "(h * 262144 + w * 4096 + x * 64 + y) mod 64 = y"
proof -
  have e: "h * 262144 + w * 4096 + x * 64 + y = (h * 64 + w) * 4096 + x * 64 + y" by simp
  have "n div 262144 = n div 4096 div 64" for n :: nat by (simp add: div_mult2_eq [symmetric])
  then show "(h * 262144 + w * 4096 + x * 64 + y) div 262144 = h"
    "(h * 262144 + w * 4096 + x * 64 + y) div 4096 mod 64 = w"
    "(h * 262144 + w * 4096 + x * 64 + y) div 64 mod 64 = x" "(h * 262144 + w * 4096 + x * 64 + y) mod 64 = y"
    unfolding e using split3 [OF assms(2,3), of "h * 64 + w"] split2 [OF assms(1), of h] by simp_all
qed

definition decodes :: "nat list \<Rightarrow> bool" where
  "decodes ns \<longleftrightarrow> (\<exists>cs. (\<forall>c \<in> set cs. scalar_value c) \<and> ns = concat (map utf8_encode cs))"

lemma decodes_Cons: "scalar_value c \<Longrightarrow> ns = utf8_encode c @ r \<Longrightarrow> decodes r \<Longrightarrow> decodes ns"
  unfolding decodes_def by (elim exE conjE, rule_tac x = "c # cs" in exI) simp

lemma decode2:
  assumes "0xC2 \<le> a" "a \<le> 0xDF" "tail_byte b"
  shows "\<exists>C. scalar_value C \<and> utf8_encode C = [a, b]"
proof -
  obtain h x where hx: "a = 0xC0 + h" "b = 0x80 + x" "2 \<le> h" "h < 32" "x < 64"
    using assms by (auto simp: tail_byte_def le_iff_add)
  define C where "C = h * 64 + x"
  have "0x80 \<le> C" "C < 0x800" "C div 64 = h" "C mod 64 = x" using hx by (auto simp: C_def)
  then have "scalar_value C" "utf8_encode C = [a, b]"
    using hx(1,2) by (simp_all add: utf8_encode_def scalar_value_def)
  then show ?thesis by blast
qed

lemma decode3:
  assumes "0xE0 \<le> a" "a \<le> 0xEF" "tail_byte b" "tail_byte c" "a = 0xE0 \<longrightarrow> 0xA0 \<le> b" "a = 0xED \<longrightarrow> b \<le> 0x9F"
  shows "\<exists>C. scalar_value C \<and> utf8_encode C = [a, b, c]"
proof -
  obtain h x y where hx: "a = 0xE0 + h" "b = 0x80 + x" "c = 0x80 + y" "h < 16" "x < 64" "y < 64"
    using assms(1-4) by (auto simp: tail_byte_def le_iff_add)
  define C where "C = h * 4096 + x * 64 + y"
  have lo: "0x800 \<le> C" using hx assms(5) unfolding C_def by (cases "h = 0") auto
  have hi: "C < 0x10000" using hx(4-6) unfolding C_def by linarith
  have "C < 0xD800 \<or> 0xE000 \<le> C"
  proof (cases "h = 13")
    case True
    then have "x < 32" using assms(6) hx by auto
    then show ?thesis using True hx(6) unfolding C_def by linarith
  next
    case False
    then have "h \<le> 12 \<or> 14 \<le> h" by auto
    then show ?thesis using hx(5,6) unfolding C_def by linarith
  qed
  with hi have "scalar_value C" unfolding scalar_value_def by linarith
  moreover have "C div 4096 = h" "C div 64 mod 64 = x" "C mod 64 = y"
    using split3 [OF hx(5,6), of h] by (simp_all only: C_def)
  then have "utf8_encode C = [a, b, c]" using lo hi hx(1-3) by (simp add: utf8_encode_def)
  ultimately show ?thesis by blast
qed

lemma decode4:
  assumes "0xF0 \<le> a" "a \<le> 0xF4" "tail_byte b" "tail_byte c" "tail_byte d"
    "a = 0xF0 \<longrightarrow> 0x90 \<le> b" "a = 0xF4 \<longrightarrow> b \<le> 0x8F"
  shows "\<exists>C. scalar_value C \<and> utf8_encode C = [a, b, c, d]"
proof -
  obtain h w x y where hx: "a = 0xF0 + h" "b = 0x80 + w" "c = 0x80 + x" "d = 0x80 + y" "h < 5" "w < 64" "x < 64" "y < 64"
    using assms(1-5) by (auto simp: tail_byte_def le_iff_add)
  define C where "C = h * 262144 + w * 4096 + x * 64 + y"
  have lo: "0x10000 \<le> C" using hx assms(6) unfolding C_def by (cases "h = 0") auto
  have hi: "C < 0x110000"
  proof (cases "h = 4")
    case True
    then have "w < 16" using assms(7) hx by auto
    then show ?thesis using True hx(7,8) unfolding C_def by linarith
  next
    case False
    then show ?thesis using hx(5-8) unfolding C_def by linarith
  qed
  have "scalar_value C" using lo hi unfolding scalar_value_def by linarith
  moreover have "C div 262144 = h" "C div 4096 mod 64 = w" "C div 64 mod 64 = x" "C mod 64 = y"
    using split4 [OF hx(6-8), of h] by (simp_all only: C_def)
  then have "utf8_encode C = [a, b, c, d]" using lo hi hx(1-4) by (simp add: utf8_encode_def)
  ultimately show ?thesis by blast
qed

lemma utf8_wf_decodes: "utf8_wf ns \<Longrightarrow> decodes ns"
proof (induction ns rule: utf8_wf.induct)
  case 1
  then show ?case by (auto simp: decodes_def intro: exI [of _ "[]"])
next
  case (2 a r)
  consider "a < 0x80" | "0xC2 \<le> a" "a \<le> 0xDF" | "0xE0 \<le> a" "a \<le> 0xEF" | "0xF0 \<le> a" "a \<le> 0xF4"
    using "2.prems" by (auto split: if_splits)
  then show ?case
  proof cases
    case 1
    then show ?thesis
      using "2.IH"(1) [OF 1] "2.prems" by (intro decodes_Cons [of a "a # r" r]) (simp_all add: utf8_encode_def scalar_value_def)
  next
    case 2
    with "2.prems" obtain b r' where r: "r = b # r'" "tail_byte b" "utf8_wf r'" by (auto split: list.splits)
    have "decodes r'" using 2 by (intro "2.IH"(2) [OF _ _ r(1) r(3)]) auto
    with decode2 [OF 2 r(2)] r(1) show ?thesis by (auto intro: decodes_Cons)
  next
    case 3
    with "2.prems" obtain b c r' where r: "r = b # c # r'" "tail_byte b" "tail_byte c" "utf8_wf r'"
      "a = 0xE0 \<longrightarrow> 0xA0 \<le> b" "a = 0xED \<longrightarrow> b \<le> 0x9F" by (auto split: list.splits)
    have "decodes r'" using 3 by (intro "2.IH"(3) [OF _ _ _ r(1) refl r(4)]) auto
    with decode3 [OF 3 r(2,3,5,6)] r(1) show ?thesis by (auto intro: decodes_Cons)
  next
    case 4
    with "2.prems" obtain b c d r' where r: "r = b # c # d # r'" "tail_byte b" "tail_byte c" "tail_byte d" "utf8_wf r'"
      "a = 0xF0 \<longrightarrow> 0x90 \<le> b" "a = 0xF4 \<longrightarrow> b \<le> 0x8F" by (auto split: list.splits)
    have "decodes r'" using 4 by (intro "2.IH"(4) [OF _ _ _ _ r(1) refl refl r(5)]) auto
    with decode4 [OF 4 r(2-4,6,7)] r(1) show ?thesis by (auto intro: decodes_Cons)
  qed
qed

text \<open>(C31) \<^verbatim>\<open>is_valid_utf8\<close> accepts exactly the UTF-8 encodings of sequences of Unicode scalar values:
  no overlong form, surrogate, value past U+10FFFF or truncated sequence is accepted, and no
  encoded text is refused.\<close>

theorem is_valid_utf8_iff_encoding:
  "is_valid_utf8 s \<longleftrightarrow>
     (\<exists>cs. list_all scalar_value cs \<and> map unat s = concat (map utf8_encode cs))"
  using utf8_wf_concat utf8_wf_decodes
  unfolding is_valid_utf8_wf decodes_def list_all_iff by metis
end
