(* ===== verification/Url_Codec.thy ===== *)
theory Url_Codec
  imports Netcore_Prelude
begin

text \<open>
  Percent encoding: \<^verbatim>\<open>url_encode\<close> and \<^verbatim>\<open>url_decode\<close> of \<^verbatim>\<open>include/netcore/url_encode_decode.hpp\<close>,
  and \<^verbatim>\<open>quote\<close> and \<^verbatim>\<open>quote_plus\<close> of \<^verbatim>\<open>include/netcore/utils.hpp\<close>. What \<^verbatim>\<open>strtol\<close> does with base
  16 is written out. The three encoders are instances of one interface, a percent encoder
  that leaves some characters alone, and the decoder inverts all of them.
\<close>

section \<open>\<^verbatim>\<open>strtol\<close> with base 16\<close>

definition xdigit :: "char \<Rightarrow> nat option" where
  "xdigit c =
     (let n = uchar c in
      if 48 \<le> n \<and> n \<le> 57 then Some (n - 48)
      else if 65 \<le> n \<and> n \<le> 70 then Some (n - 55)
      else if 97 \<le> n \<and> n \<le> 102 then Some (n - 87)
      else None)"

fun xdigits_value :: "nat \<Rightarrow> string \<Rightarrow> nat" where
  "xdigits_value acc [] = acc"
| "xdigits_value acc (c # cs) =
     (case xdigit c of None \<Rightarrow> acc | Some v \<Rightarrow> xdigits_value (acc * 16 + v) cs)"

definition is_space :: "char \<Rightarrow> bool" where
  "is_space c \<longleftrightarrow> c = SP \<or> 9 \<le> uchar c \<and> uchar c \<le> 13"

fun strip_0x :: "string \<Rightarrow> string" where
  "strip_0x (a # b # c # cs) =
     (if a = CHR ''0'' \<and> (b = CHR ''x'' \<or> b = CHR ''X'') \<and> xdigit c \<noteq> None then c # cs else a # b # c # cs)"
| "strip_0x cs = cs"

definition strtol16 :: "string \<Rightarrow> int" where
  "strtol16 s =
     (let t = dropWhile is_space s;
          neg = (t \<noteq> [] \<and> hd t = CHR ''-'');
          u = (if t \<noteq> [] \<and> (hd t = CHR ''-'' \<or> hd t = CHR ''+'') then tl t else t);
          n = int (xdigits_value 0 (strip_0x u))
      in if neg then max (- (2 ^ 63)) (- n) else min (2 ^ 63 - 1) n)"

text \<open>\<^verbatim>\<open>hex_to_int\<close> passes \<^verbatim>\<open>s.data()\<close>, so \<^verbatim>\<open>strtoll\<close> goes on into the bytes after the view (\<open>after\<close>).\<close>

definition hex_to_int :: "string \<Rightarrow> string \<Rightarrow> int" where
  "hex_to_int s after =
     (if s = [] then - 1
      else (let n = strtol16 (s @ after) in if n = 0 \<and> hd s \<noteq> CHR ''0'' then - 1 else n))"

section \<open>The code\<close>

definition hex_chars :: string where
  "hex_chars = ''0123456789ABCDEF''"

definition pct :: "char \<Rightarrow> string" where
  "pct c = [CHR ''%'', hex_chars ! (uchar c div 16), hex_chars ! (uchar c mod 16)]"

definition url_unreserved :: "char \<Rightarrow> bool" where
  "url_unreserved c \<longleftrightarrow>
     (48 \<le> uchar c \<and> uchar c \<le> 57) \<or> (65 \<le> uchar c \<and> uchar c \<le> 90) \<or> (97 \<le> uchar c \<and> uchar c \<le> 122) \<or>
     c = CHR ''-'' \<or> c = CHR ''.'' \<or> c = CHR ''_'' \<or> c = CHR ''~''"

definition url_encode :: "string \<Rightarrow> string" where
  "url_encode v = concat (map (\<lambda>c. if \<not> url_unreserved c then pct c else [c]) v)"

fun url_decode :: "string \<Rightarrow> string" where
  "url_decode [] = []"
| "url_decode (c # cs) =
     (if c = CHR ''%'' \<and> 2 \<le> length cs
      then char_of (nat (strtol16 (take 2 cs) mod 256)) # url_decode (drop 2 cs)
      else if c = CHR ''+'' then SP # url_decode cs
      else c # url_decode cs)"

definition get_string_by_urldecode :: "string \<Rightarrow> string" where
  "get_string_by_urldecode content = url_decode content"

definition is_url_encode :: "string \<Rightarrow> bool" where
  "is_url_encode str \<longleftrightarrow> CHR ''%'' \<in> set str \<or> CHR ''+'' \<in> set str"

definition is_form_url_encode :: "string \<Rightarrow> bool" where
  "is_form_url_encode str \<longleftrightarrow> CHR ''%'' \<in> set str \<or> CHR ''+'' \<in> set str"

definition valid_chr :: "bool list" where
  "valid_chr =
     map (\<lambda>n. n \<noteq> (0 :: nat))
     [0, 0, 0, 0, 0, 0, 0, 0, 0, 0, 0, 0, 0, 0, 0, 0,
      0, 0, 0, 0, 0, 0, 0, 0, 0, 0, 0, 0, 0, 0, 0, 0,
      0, 0, 0, 0, 0, 0, 0, 0, 0, 0, 0, 0, 0, 1, 1, 0,
      1, 1, 1, 1, 1, 1, 1, 1, 1, 1, 0, 0, 0, 0, 0, 0,
      0, 1, 1, 1, 1, 1, 1, 1, 1, 1, 1, 1, 1, 1, 1, 1,
      1, 1, 1, 1, 1, 1, 1, 1, 1, 1, 1, 0, 0, 0, 0, 1,
      0, 1, 1, 1, 1, 1, 1, 1, 1, 1, 1, 1, 1, 1, 1, 1,
      1, 1, 1, 1, 1, 1, 1, 1, 1, 1, 1, 0, 0, 0, 0, 0]"

definition quote_impl :: "string \<Rightarrow> string \<Rightarrow> string" where
  "quote_impl str safe =
     concat (map (\<lambda>c. if (127 < uchar c \<or> \<not> valid_chr ! uchar c) \<and> c \<notin> set safe then pct c else [c]) str)"

definition quote :: "string \<Rightarrow> string" where
  "quote str = quote_impl str ''/''"

definition quote_plus :: "string \<Rightarrow> string" where
  "quote_plus str =
     (if SP \<notin> set str then quote str
      else map (\<lambda>c. if c = SP then CHR ''+'' else c) (quote_impl str '' ''))"

section \<open>Percent encoders\<close>

lemma hex_chars_xdigit: "n < 16 \<Longrightarrow> xdigit (hex_chars ! n) = Some n"
proof -
  assume "n < 16"
  then have "n \<in> set [0 ..< 16]" by simp
  moreover have "list_all (\<lambda>n. xdigit (hex_chars ! n) = Some n) [0 ..< 16]" by code_simp
  ultimately show ?thesis by (simp only: list_all_iff)
qed

lemma xdigit_not_special: "xdigit c = Some n \<Longrightarrow> \<not> is_space c \<and> c \<noteq> CHR ''-'' \<and> c \<noteq> CHR ''+''"
  by (auto simp: xdigit_def is_space_def uchar_def Let_def split: if_splits)

lemma strtol16_two_digits:
  assumes "xdigit a = Some m" "xdigit b = Some n" "m < 16" "n < 16"
  shows "strtol16 [a, b] = int (m * 16 + n)"
  using assms xdigit_not_special [OF assms(1)] by (simp add: strtol16_def Let_def)

lemma url_decode_pct [codec]: "url_decode (pct c @ cs) = c # url_decode cs"
proof -
  have d: "xdigit (hex_chars ! (uchar c div 16)) = Some (uchar c div 16)"
    "xdigit (hex_chars ! (uchar c mod 16)) = Some (uchar c mod 16)"
    using uchar_less [of c] by (auto intro!: hex_chars_xdigit simp del: uchar_less)
  have "strtol16 [hex_chars ! (uchar c div 16), hex_chars ! (uchar c mod 16)] = int (uchar c)"
    using strtol16_two_digits [OF d] uchar_less [of c] by (simp del: uchar_less)
  then show ?thesis by (simp add: pct_def numeral_2_eq_2)
qed

text \<open>
  A percent encoder: it writes a safe character as one character (\<open>out\<close>, which the decoder
  reads back) and every other as its code.
\<close>

locale percent_encoder =
  fixes safe :: "char \<Rightarrow> bool" and out :: "char \<Rightarrow> char" and enc :: "string \<Rightarrow> string"
  assumes enc_def': "enc s = concat (map (\<lambda>c. if safe c then [out c] else pct c) s)"
    and out_not_pct: "safe c \<Longrightarrow> out c \<noteq> CHR ''%''"
    and out_read: "safe c \<Longrightarrow> (if out c = CHR ''+'' then SP else out c) = c"
begin

lemma decode_safe: "safe c \<Longrightarrow> url_decode (out c # cs) = c # url_decode cs"
  using out_not_pct [of c] out_read [of c] by auto

lemma decode_enc: "url_decode (enc s) = s"
  unfolding enc_def' by (induction s) (simp_all add: decode_safe url_decode_pct del: url_decode.simps(2))

lemma enc_inj: "enc s = enc t \<Longrightarrow> s = t"
  using decode_enc by metis

end

interpretation url: percent_encoder url_unreserved "\<lambda>c. c" url_encode
proof
  show "url_encode s = concat (map (\<lambda>c. if url_unreserved c then [c] else pct c) s)" for s
    unfolding url_encode_def by (rule arg_cong [where f = concat], rule map_cong) auto
qed (auto simp: url_unreserved_def uchar_def)

lemma valid_chr_special: "\<not> valid_chr ! 37" "\<not> valid_chr ! 43" "\<not> valid_chr ! 32"
  by code_simp+

interpretation quote_codec: percent_encoder
  "\<lambda>c. \<not> ((127 < uchar c \<or> \<not> valid_chr ! uchar c) \<and> c \<notin> set ''/'')" "\<lambda>c. c" quote
proof
  show "quote s = concat (map (\<lambda>c. if \<not> ((127 < uchar c \<or> \<not> valid_chr ! uchar c) \<and> c \<notin> set ''/'') then [c] else pct c) s)" for s
    unfolding quote_def quote_impl_def by (rule arg_cong [where f = concat], rule map_cong) auto
qed (auto simp: valid_chr_special uchar_def)

definition plus_for_blank :: "char \<Rightarrow> char" where
  "plus_for_blank c = (if c = SP then CHR ''+'' else c)"

lemma hex_chars_no_blank: "n < 16 \<Longrightarrow> hex_chars ! n \<noteq> SP"
  using xdigit_not_special [OF hex_chars_xdigit, of n] by (auto simp: is_space_def)

lemma plus_for_blank_pct: "map plus_for_blank (pct c) = pct c"
  using hex_chars_no_blank [of "uchar c div 16"] hex_chars_no_blank [of "uchar c mod 16"] uchar_less [of c]
  by (simp add: pct_def plus_for_blank_def del: uchar_less)

interpretation quote_plus_codec: percent_encoder
  "\<lambda>c. \<not> ((127 < uchar c \<or> \<not> valid_chr ! uchar c) \<and> c \<notin> set '' '')" plus_for_blank
  "\<lambda>s. map plus_for_blank (quote_impl s '' '')"
proof
  show "map plus_for_blank (quote_impl s '' '') = concat (map (\<lambda>c.
      if \<not> ((127 < uchar c \<or> \<not> valid_chr ! uchar c) \<and> c \<notin> set '' '') then [plus_for_blank c] else pct c) s)" for s
    unfolding quote_impl_def map_concat map_map
    by (rule arg_cong [where f = concat], rule map_cong) (auto simp: plus_for_blank_pct)
qed (auto simp: valid_chr_special uchar_def plus_for_blank_def split: if_splits)

text \<open>(C32) \<^verbatim>\<open>url_decode\<close> inverts all three percent encoders of the repository, on every string: what
  \<^verbatim>\<open>url_encode\<close>, \<^verbatim>\<open>quote\<close> or \<^verbatim>\<open>quote_plus\<close> wrote is read back unchanged, so none of them maps two
  strings to the same text.\<close>

theorem url_decode_encoders:
  "url_decode (url_encode s) = s \<and> url_decode (quote s) = s \<and> url_decode (quote_plus s) = s"
proof (intro conjI)
  show "url_decode (url_encode s) = s" by (rule url.decode_enc)
  show q: "url_decode (quote s) = s" by (rule quote_codec.decode_enc)
  show "url_decode (quote_plus s) = s"
    using q quote_plus_codec.decode_enc [of s]
    unfolding quote_plus_def plus_for_blank_def [symmetric] by simp
qed

end
