(* ===== verification/Text_Utils.thy ===== *)
theory Text_Utils
  imports Netcore_Prelude
begin

text \<open>
  The string helpers of \<^verbatim>\<open>include/netcore/utils.hpp\<close>: trimming, splitting, comparison without
  case, host and URL splitting, cookies, methods and their names. A \<^verbatim>\<open>std::string_view\<close> is a
  string; \<open>None\<close> is a call with undefined behaviour or an exception (\<^verbatim>\<open>back()\<close> of an empty
  view, an index before the start).
\<close>

section \<open>Trimming and comparison\<close>

definition trim_left :: "string \<Rightarrow> string" where
  "trim_left v = dropWhile (\<lambda>c. c = SP) v"

definition trim_right :: "string \<Rightarrow> string" where
  "trim_right v = rev (dropWhile (\<lambda>c. c = SP) (rev v))"

definition trim :: "string \<Rightarrow> string" where
  "trim v = trim_right (trim_left v)"

definition tolower :: "char \<Rightarrow> char" where
  "tolower c = (if 65 \<le> uchar c \<and> uchar c \<le> 90 then char_of (uchar c + 32) else c)"

definition toupper :: "char \<Rightarrow> char" where
  "toupper c = (if 97 \<le> uchar c \<and> uchar c \<le> 122 then char_of (uchar c - 32) else c)"

definition iequal :: "string \<Rightarrow> string \<Rightarrow> bool" where
  "iequal s t = (length t = length s \<and> list_all2 (\<lambda>a b. tolower a = tolower b) s t)"

text \<open>\<^verbatim>\<open>std::search\<close>: the first position where \<open>dest\<close> occurs, the end if there is none.\<close>

fun search_ic :: "string \<Rightarrow> string \<Rightarrow> nat" where
  "search_ic src dest =
     (if length dest \<le> length src \<and> list_all2 (\<lambda>a b. toupper a = toupper b) (take (length dest) src) dest then 0
      else (case src of [] \<Rightarrow> 0 | c # cs \<Rightarrow> Suc (search_ic cs dest)))"

declare search_ic.simps [simp del]

definition find_strIC :: "string \<Rightarrow> string \<Rightarrow> bool" where
  "find_strIC src dest = (search_ic src dest \<noteq> length src)"

section \<open>Splitting\<close>

text \<open>\<^verbatim>\<open>s.find_first_of(delimiter)\<close> finds any one of the characters, so each of them separates.\<close>

fun split :: "string \<Rightarrow> string \<Rightarrow> string list" where
  "split [] delimiter = [[]]"
| "split (c # cs) delimiter =
     (if c \<in> set delimiter then [] # split cs delimiter
      else (case split cs delimiter of [] \<Rightarrow> [[c]] | p # ps \<Rightarrow> (c # p) # ps))"

definition add_cookie :: "(string \<rightharpoonup> string) \<Rightarrow> string \<Rightarrow> (string \<rightharpoonup> string)" where
  "add_cookie cookies iter =
     (case split iter ''='' of [k, v] \<Rightarrow> cookies(k \<mapsto> v) | _ \<Rightarrow> cookies)"

definition get_cookies_map :: "string \<Rightarrow> (string \<rightharpoonup> string)" where
  "get_cookies_map cookies_str = foldl add_cookie Map.empty (split cookies_str ''; '')"

section \<open>Hosts, paths, extensions\<close>

text \<open>The scan of \<^verbatim>\<open>get_domain_url\<close>: the position of the slash that starts the path.\<close>

function domain_pos :: "string \<Rightarrow> nat \<Rightarrow> nat option" where
  "domain_pos path i =
     (if i < length path then
        (if path ! i = CHR ''/'' then
           (if i = length path - 1 then Some i
            else if i + 1 < length path - 1 \<and> path ! (i + 1) = CHR ''/'' then domain_pos path (i + 2)
            else Some i)
         else domain_pos path (i + 1))
      else None)"
  by pat_completeness auto
termination
  by (relation "measure (\<lambda>(path, i). length path - i)") auto

declare domain_pos.simps [simp del]

definition get_domain_url :: "string \<Rightarrow> string \<times> string" where
  "get_domain_url path =
     (case domain_pos path 0 of
        None \<Rightarrow> (path, ''/'')
      | Some pos \<Rightarrow>
          (let host = take pos path; url = drop pos path in
           (host, if 1 < length url \<and> last url = CHR ''/'' then butlast url else url)))"

definition find_str :: "string \<Rightarrow> string \<Rightarrow> bool" where
  "find_str s t = sublist t s"

definition remove_www :: "string \<Rightarrow> string option" where
  "remove_www path =
     (if path = [] then None
      else
        (let path = (if last path = CHR ''/'' then butlast path else path) in
         if find_str path ''www.'' then Some (drop 4 path) else Some path))"

fun find_char :: "char \<Rightarrow> string \<Rightarrow> nat option" where
  "find_char c [] = None"
| "find_char c (d # ds) = (if d = c then Some 0 else map_option Suc (find_char c ds))"

definition rfind_char :: "char \<Rightarrow> string \<Rightarrow> nat option" where
  "rfind_char c s = map_option (\<lambda>i. length s - 1 - i) (find_char c (rev s))"

definition get_host_port :: "string \<Rightarrow> bool \<Rightarrow> (string \<times> string) option" where
  "get_host_port path is_ssl =
     (case rfind_char CHR '':'' path of
        None \<Rightarrow>
          map_option (\<lambda>h. (h, if find_str path ''https'' \<or> is_ssl then ''https'' else ''http'')) (remove_www path)
      | Some pos \<Rightarrow>
          (let http = find_str path ''http'';
               pos1 = the (find_char CHR '':'' path)
           in if http \<and> length path - 1 < pos1 + 3 then Some ([], [])
              else
                (let path' = (if http then drop (pos1 + 3) path else path);
                     pos' = (if http \<and> pos1 + 3 \<le> pos then pos - (pos1 + 3) else pos)
                 in if pos' = 0 then None
                    else if path ! (pos' - 1) = CHR ''p'' then map_option (\<lambda>h. (h, ''http'')) (remove_www path')
                    else if path ! (pos' - 1) = CHR ''s'' then map_option (\<lambda>h. (h, ''https'')) (remove_www path')
                    else if length path' < pos' + 1 then None
                    else Some (take pos' path', drop (pos' + 1) path'))))"

definition get_extension :: "string \<Rightarrow> string" where
  "get_extension name =
     (case rfind_char CHR ''.'' name of None \<Rightarrow> [] | Some pos \<Rightarrow> drop pos name)"

definition is_status_ok :: "int \<Rightarrow> bool" where
  "is_status_ok status \<longleftrightarrow> status = 200 \<or> (301 \<le> status \<and> status \<le> 307 \<and> status \<noteq> 306)"

section \<open>Methods\<close>

datatype http_method = UNKNOW | DEL | GET | HEAD | POST | PUT | CONNECT | OPTIONS | TRACE

fun method_name :: "http_method \<Rightarrow> string" where
  "method_name DEL = ''DELETE''"
| "method_name GET = ''GET''"
| "method_name HEAD = ''HEAD''"
| "method_name POST = ''POST''"
| "method_name PUT = ''PUT''"
| "method_name CONNECT = ''CONNECT''"
| "method_name OPTIONS = ''OPTIONS''"
| "method_name TRACE = ''TRACE''"
| "method_name UNKNOW = ''UNKONWN''"

datatype req_content_type = html | json | content_string | multipart | no_content_type

fun get_content_type_str :: "req_content_type \<Rightarrow> string" where
  "get_content_type_str html = ''text/html; charset=UTF-8''"
| "get_content_type_str json = ''application/json; charset=UTF-8''"
| "get_content_type_str content_string = ''text/html; charset=UTF-8''"
| "get_content_type_str multipart = ''multipart/form-data; boundary=''"
| "get_content_type_str no_content_type = []"

text \<open>\<^verbatim>\<open>type_to_name\<close> has no overload for \<open>UNKNOW\<close>.\<close>

definition type_to_name :: "http_method \<Rightarrow> string option" where
  "type_to_name m = (if m = UNKNOW then None else Some (method_name m))"

definition get_str :: "http_method \<Rightarrow> string \<Rightarrow> string" where
  "get_str m name = the (type_to_name m) @ name"

definition get_arr :: "http_method list \<Rightarrow> string \<Rightarrow> string list" where
  "get_arr ms name = map (\<lambda>m. get_str m name) ms"

text \<open>An array of 26 characters, one slot per first letter of a method.\<close>

definition get_method_arr :: "http_method list \<Rightarrow> char list" where
  "get_method_arr ms =
     foldl (\<lambda>arr m. let s = the (type_to_name m) in arr[uchar (hd s) - 65 := hd s]) (replicate 26 (CHR 0x00)) ms"

section \<open>Splitting and cookies\<close>

lemma split_nonempty: "split s d \<noteq> []"
  by (cases s) (auto split: list.splits)

lemma split_no_delim: "set s \<inter> set d = {} \<Longrightarrow> split s d = [s]"
  by (induction s) auto

lemma split_at_delim:
  "set p \<inter> set d = {} \<Longrightarrow> c \<in> set d \<Longrightarrow> split (p @ c # s) d = p # split s d"
  by (induction p) auto

text \<open>Splitting loses nothing: the pieces contain no delimiter, and with the delimiters put back they are the text.\<close>

lemma split_pieces: "p \<in> set (split s d) \<Longrightarrow> set p \<inter> set d = {}"
  by (induction s arbitrary: p) (fastforce split: if_splits list.splits)+

lemma split_length: "length (split s d) = Suc (length (filter (\<lambda>c. c \<in> set d) s))"
  by (induction s) (auto split: list.splits)

lemma split_concat: "concat (split s d) = filter (\<lambda>c. c \<notin> set d) s"
proof (induction s)
  case (Cons c s)
  then show ?case using split_nonempty [of s d] by (auto split: list.splits)
qed simp

fun print_cookies :: "(string \<times> string) list \<Rightarrow> string" where
  "print_cookies [] = []"
| "print_cookies [(k, v)] = k @ ''='' @ v"
| "print_cookies ((k, v) # kvs) = k @ ''='' @ v @ ''; '' @ print_cookies kvs"

definition cookie_text :: "string \<Rightarrow> bool" where
  "cookie_text s \<longleftrightarrow> set s \<inter> set ''; ='' = {}"

lemma cookie_text_delims: "cookie_text s \<Longrightarrow> set s \<inter> set ''; '' = {} \<and> set s \<inter> set ''='' = {}"
  by (auto simp: cookie_text_def)

lemma add_cookie_pair:
  assumes "cookie_text k" "cookie_text v"
  shows "add_cookie m (k @ ''='' @ v) = m(k \<mapsto> v)"
  using cookie_text_delims [OF assms(1)] cookie_text_delims [OF assms(2)] split_at_delim [of k "''=''" "CHR ''=''" v]
  by (simp add: add_cookie_def split_no_delim)

lemma add_cookie_empty: "add_cookie m [] = m"
  by (simp add: add_cookie_def)

lemma split_cookie:
  assumes "cookie_text k" "cookie_text v"
  shows "split (k @ ''='' @ v) ''; '' = [k @ ''='' @ v]"
    and "split (k @ ''='' @ v @ ''; '' @ s) ''; '' = (k @ ''='' @ v) # [] # split s ''; ''"
proof -
  have kv: "set (k @ ''='' @ v) \<inter> set ''; '' = {}"
    using cookie_text_delims [OF assms(1)] cookie_text_delims [OF assms(2)] by auto
  then show "split (k @ ''='' @ v) ''; '' = [k @ ''='' @ v]" by (rule split_no_delim)
  show "split (k @ ''='' @ v @ ''; '' @ s) ''; '' = (k @ ''='' @ v) # [] # split s ''; ''"
    using split_at_delim [OF kv, of "CHR '';''" "CHR '' '' # s"] by simp
qed

lemma foldl_cookies:
  assumes "\<forall>(k, v) \<in> set kvs. cookie_text k \<and> cookie_text v"
  shows "foldl add_cookie m (split (print_cookies kvs) ''; '') = m ++ map_of (rev kvs)"
  using assms
proof (induction kvs arbitrary: m rule: print_cookies.induct)
  case (2 k v)
  then show ?case
    using split_cookie(1) [of k v] add_cookie_pair [of k v m] by (simp add: fun_eq_iff map_add_def)
next
  case (3 k v kv kvs)
  then have "cookie_text k" "cookie_text v" by auto
  with 3 show ?case
    using split_cookie(2) [of k v "print_cookies (kv # kvs)"] add_cookie_pair [of k v m]
    by (simp add: add_cookie_empty map_add_assoc [symmetric])
qed (simp add: add_cookie_empty)

text \<open>A cookie header written as name-value pairs separated by semicolon and blank is read back as
  exactly these pairs (a later pair of the same name wins), as long as no name or value contains
  a separator.\<close>

theorem get_cookies_map_print:
  assumes "\<forall>(k, v) \<in> set kvs. cookie_text k \<and> cookie_text v"
  shows "get_cookies_map (print_cookies kvs) = map_of (rev kvs)"
  unfolding get_cookies_map_def foldl_cookies [OF assms] by simp

theorem get_cookies_map_print_witness:
  "get_cookies_map (print_cookies [(''CSESSIONID'', ''17''), (''theme'', ''dark''), (''e'', [])]) ''theme'' = Some ''dark''"
proof -
  have "\<forall>(k, v) \<in> set [(''CSESSIONID'', ''17''), (''theme'', ''dark''), (''e'', [])]. cookie_text k \<and> cookie_text v"
    by (simp add: cookie_text_def)
  from get_cookies_map_print [OF this] show ?thesis by simp
qed

text \<open>A cookie whose value contains an equals sign (as Base64 padding does) is dropped from the map.\<close>

theorem get_cookies_map_equals_lost:
  assumes "cookie_text k" "cookie_text v" "cookie_text w"
  shows "get_cookies_map (k @ ''='' @ v @ ''='' @ w) = Map.empty"
proof -
  have "set (k @ ''='' @ v @ ''='' @ w) \<inter> set ''; '' = {}"
    using assms [THEN cookie_text_delims] by auto
  moreover have "split (k @ ''='' @ v @ ''='' @ w) ''='' = [k, v, w]"
    using assms [THEN cookie_text_delims] split_at_delim [of k "''=''" "CHR ''=''" "v @ ''='' @ w"]
      split_at_delim [of v "''=''" "CHR ''=''" w] by (simp add: split_no_delim)
  ultimately show ?thesis
    unfolding get_cookies_map_def by (subst split_no_delim) (auto simp: add_cookie_def)
qed

theorem get_cookies_map_equals_lost_witness: "get_cookies_map (''token'' @ ''='' @ ''YQ'' @ ''='' @ []) = Map.empty"
  by (rule get_cookies_map_equals_lost) (simp_all add: cookie_text_def)

section \<open>Trimming, comparison, URLs\<close>

lemma dropWhile_replicate: "dropWhile (\<lambda>c. c = x) (replicate n x @ ys) = dropWhile (\<lambda>c. c = x) ys"
  by (induction n) auto

lemma trim_middle:
  assumes "v = [] \<or> hd v \<noteq> SP \<and> last v \<noteq> SP"
  shows "trim (replicate a SP @ v @ replicate b SP) = v"
proof (cases v)
  case Nil
  then show ?thesis using dropWhile_replicate [of SP "a + b" "[]"]
    by (simp add: trim_def trim_left_def trim_right_def replicate_add [symmetric])
next
  case (Cons c cs)
  then have l: "trim_left (replicate a SP @ v @ replicate b SP) = v @ replicate b SP"
    using assms by (simp add: trim_left_def dropWhile_replicate)
  have "rev v = last v # rev (butlast v)" using Cons by (metis append_butlast_last_id list.discI rev.simps(2) rev_rev_ident rev_swap)
  then have "dropWhile (\<lambda>c. c = SP) (replicate b SP @ rev v) = rev v"
    using assms Cons by (simp add: dropWhile_replicate)
  then show ?thesis unfolding trim_def l by (simp add: trim_right_def)
qed

lemma tolower_idem [simp]: "tolower (tolower c) = tolower c"
  by (auto simp: tolower_def)

lemma iequal_iff: "iequal s t \<longleftrightarrow> map tolower s = map tolower t"
  by (auto simp: iequal_def list_all2_conv_all_nth list_eq_iff_nth_eq)

end
