(* ===== verification/Websocket.thy ===== *)
theory Websocket
  imports Sha1 Base64 Utf8 Text_Utils
begin

text \<open>
  The WebSocket framing of \<^verbatim>\<open>include/netcore/websocket.hpp\<close>: the upgrade test and the accept key
  of the handshake, the incremental frame header parser, unmasking, frame writing and close
  payloads. The host is little endian, as where the server runs.

  A frame arrives in the connection's receive buffer; \<open>inp\<close> is the storage from the start of
  the frame to the end of that buffer and \<open>received\<close> the number of bytes that have arrived, so a read at or
  past \<open>received\<close> sees stale bytes and a read past the storage is the result \<open>None\<close>.
\<close>

section \<open>Definitions of the protocol\<close>

datatype opcode = cont | text_op | binary | rsv3 | rsv4 | rsv5 | rsv6 | rsv7
  | close_op | ping | pong | crsvb | crsvc | crsvd | crsve | crsvf

fun opcode_byte :: "opcode \<Rightarrow> byte" where
  "opcode_byte cont = 0"
| "opcode_byte text_op = 1"
| "opcode_byte binary = 2"
| "opcode_byte rsv3 = 3"
| "opcode_byte rsv4 = 4"
| "opcode_byte rsv5 = 5"
| "opcode_byte rsv6 = 6"
| "opcode_byte rsv7 = 7"
| "opcode_byte close_op = 8"
| "opcode_byte ping = 9"
| "opcode_byte pong = 10"
| "opcode_byte crsvb = 11"
| "opcode_byte crsvc = 12"
| "opcode_byte crsvd = 13"
| "opcode_byte crsve = 14"
| "opcode_byte crsvf = 15"

text \<open>The close status codes of \<^verbatim>\<open>ws_define.h\<close>.\<close>

datatype close_code = normal | going_away | protocol_error | unknown_data | bad_payload | policy_error | too_big | needs_extension | internal_error
  | service_restart | try_again_later | none_code | reserved1 | no_status | abnormal | reserved2 | reserved3

fun close_code_value :: "close_code \<Rightarrow> u16" where
  "close_code_value normal = 1000"
| "close_code_value going_away = 1001"
| "close_code_value protocol_error = 1002"
| "close_code_value unknown_data = 1003"
| "close_code_value bad_payload = 1007"
| "close_code_value policy_error = 1008"
| "close_code_value too_big = 1009"
| "close_code_value needs_extension = 1010"
| "close_code_value internal_error = 1011"
| "close_code_value service_restart = 1012"
| "close_code_value try_again_later = 1013"
| "close_code_value none_code = 0"
| "close_code_value reserved1 = 1004"
| "close_code_value no_status = 1005"
| "close_code_value abnormal = 1006"
| "close_code_value reserved2 = 1014"
| "close_code_value reserved3 = 1015"

datatype ws_frame_type = WS_ERROR_FRAME | WS_INCOMPLETE_FRAME | WS_OPENING_FRAME | WS_CLOSING_FRAME
  | WS_INCOMPLETE_TEXT_FRAME | WS_INCOMPLETE_BINARY_FRAME | WS_TEXT_FRAME | WS_BINARY_FRAME
  | WS_RSV3_FRAME | WS_RSV4_FRAME | WS_RSV5_FRAME | WS_RSV6_FRAME | WS_RSV7_FRAME
  | WS_CLOSE_FRAME | WS_PING_FRAME | WS_PONG_FRAME

definition SHORT_HEADER :: nat where "SHORT_HEADER = 6"
definition MEDIUM_HEADER :: nat where "MEDIUM_HEADER = 8"
definition LONG_HEADER :: nat where "LONG_HEADER = 14"

definition ws_guid :: string where
  "ws_guid = ''258EAFA5-E914-47DA-95CA-C5AB0DC85B11''"

record websocket =
  ws_key :: string
  ws_payload_length :: size_t
  ws_left_header_len :: nat
  ws_mask :: u32
  ws_opcode :: byte
  ws_fin :: bool

definition websocket_init :: websocket where
  "websocket_init = \<lparr>ws_key = [], ws_payload_length = 0, ws_left_header_len = 0, ws_mask = 0,
     ws_opcode = 0, ws_fin = False\<rparr>"

section \<open>The handshake\<close>

text \<open>The request is given by its method and its header lookup (an absent header is empty).\<close>

definition is_upgrade :: "string \<Rightarrow> (string \<Rightarrow> string) \<Rightarrow> websocket \<Rightarrow> bool \<times> websocket" where
  "is_upgrade req_method header ws =
     (if req_method \<noteq> ''GET'' then (False, ws)
      else if header ''connection'' = [] then (False, ws)
      else if header ''upgrade'' = [] then (False, ws)
      else if \<not> find_strIC (header ''connection'') ''upgrade'' then (False, ws)
      else if \<not> iequal (header ''upgrade'') ''websocket'' then (False, ws)
      else
        (let key = header ''sec-websocket-key''; ws = ws\<lparr>ws_key := key\<rparr> in
         (\<not> (key = [] \<or> length key \<noteq> 24), ws)))"

definition SHA1 :: "byte list \<Rightarrow> byte list" where
  "SHA1 key_src = finish (update (init (replicate 64 0)) key_src)"

definition accept_key :: "websocket \<Rightarrow> string" where
  "accept_key ws = take 28 (base64_encode (SHA1 (map char_byte (take 24 (ws_key ws) @ ws_guid))) False)"

text \<open>The headers the response gets, in order.\<close>

definition upgrade_to_websocket :: "websocket \<Rightarrow> (string \<Rightarrow> string) \<Rightarrow> (string \<times> string) list" where
  "upgrade_to_websocket ws header =
     [(''Upgrade'', ''WebSocket''), (''Connection'', ''Upgrade''),
      (''Sec-WebSocket-Accept'', accept_key ws)] @
     (if header ''sec-websocket-protocol'' \<noteq> []
      then [(''Sec-WebSocket-Protocol'', header ''sec-websocket-protocol'')] else [])"

section \<open>Reading frames\<close>

definition be16_at :: "byte list \<Rightarrow> nat \<Rightarrow> size_t" where
  "be16_at inp i = push_bit 8 (ucast (inp ! i)) OR ucast (inp ! (i + 1))"

definition be64_at :: "byte list \<Rightarrow> nat \<Rightarrow> size_t" where
  "be64_at inp i =
     push_bit 56 (ucast (inp ! i)) OR push_bit 48 (ucast (inp ! (i + 1))) OR push_bit 40 (ucast (inp ! (i + 2))) OR
     push_bit 32 (ucast (inp ! (i + 3))) OR push_bit 24 (ucast (inp ! (i + 4))) OR push_bit 16 (ucast (inp ! (i + 5))) OR
     push_bit 8 (ucast (inp ! (i + 6))) OR ucast (inp ! (i + 7))"

text \<open>The length field: payload length, position after it, missing header bytes, full header length.\<close>

definition header_length :: "byte list \<Rightarrow> nat \<Rightarrow> nat \<Rightarrow> (size_t \<times> nat \<times> nat \<times> nat) option" where
  "header_length inp received length_field =
     (if length_field \<le> 125 then Some (of_nat length_field, 2, 0, SHORT_HEADER)
      else if length_field = 126 then
        (if length inp < 4 then None
         else Some (be16_at inp 2, 4, if MEDIUM_HEADER \<le> received then 0 else MEDIUM_HEADER - received, MEDIUM_HEADER))
      else
        (if length inp < 10 then None
         else Some (be64_at inp 2, 10, if LONG_HEADER \<le> received then 0 else LONG_HEADER - received, LONG_HEADER)))"

definition parse_header :: "websocket \<Rightarrow> byte list \<Rightarrow> nat \<Rightarrow> (websocket \<times> int) option" where
  "parse_header ws inp received =
     (if received < SHORT_HEADER then Some (ws, - 2)
      else if length inp < 2 then None
      else
        (let opcode = inp ! 0 AND 0x0F;
             fin = (drop_bit 7 (inp ! 0) AND 0x01 \<noteq> 0);
             msg_masked = (drop_bit 7 (inp ! 1) AND 0x01 \<noteq> 0)
         in case header_length inp received (unat (inp ! 1 AND 0x7F)) of
              None \<Rightarrow> None
            | Some (payload, pos, left, header_len) \<Rightarrow>
                if msg_masked \<and> length inp < pos + 4 then None
                else
                  (let ws = ws\<lparr>ws_opcode := opcode, ws_fin := fin, ws_payload_length := payload,
                               ws_left_header_len := left,
                               ws_mask := (if msg_masked then load_u32 (drop pos inp) else ws_mask ws)\<rparr>;
                       header_len = (if msg_masked then header_len else header_len - 4)
                   in Some (ws, if left = 0 then int header_len else - 2))))"

text \<open>\<^verbatim>\<open>((unsigned char*)(&mask_))[k]\<close>\<close>

definition mask_byte :: "u32 \<Rightarrow> nat \<Rightarrow> byte" where
  "mask_byte m k = ucast (drop_bit (8 * k) m)"

definition frame_type :: "websocket \<Rightarrow> ws_frame_type" where
  "frame_type ws =
     (if ws_opcode ws = 0 then (if ws_fin ws then WS_TEXT_FRAME else WS_INCOMPLETE_TEXT_FRAME)
      else if ws_opcode ws = 1 then (if ws_fin ws then WS_TEXT_FRAME else WS_INCOMPLETE_TEXT_FRAME)
      else if ws_opcode ws = 2 then (if ws_fin ws then WS_BINARY_FRAME else WS_INCOMPLETE_BINARY_FRAME)
      else if ws_opcode ws = 8 then WS_CLOSE_FRAME
      else if ws_opcode ws = 9 then WS_PING_FRAME
      else if ws_opcode ws = 10 then WS_PONG_FRAME
      else WS_BINARY_FRAME)"

definition resize :: "byte list \<Rightarrow> nat \<Rightarrow> byte list" where
  "resize xs n = take n xs @ replicate (n - length xs) 0"

definition parse_payload :: "websocket \<Rightarrow> byte list \<Rightarrow> byte list \<Rightarrow> ws_frame_type \<times> byte list" where
  "parse_payload ws inp outbuf =
     (let n = unat (ws_payload_length ws) in
      if length inp < n then (WS_INCOMPLETE_FRAME, outbuf)
      else
        (let outbuf = (if length outbuf < n then resize outbuf n else outbuf);
             outbuf = (if ws_mask ws \<noteq> 0
               then map (\<lambda>i. inp ! i XOR mask_byte (ws_mask ws) (i mod 4)) [0 ..< n] @ drop n outbuf
               else outbuf)
         in (frame_type ws, outbuf)))"

section \<open>Writing frames\<close>

definition be16 :: "u16 \<Rightarrow> byte list" where
  "be16 w = [ucast (drop_bit 8 w), ucast w]"

definition encode_header :: "size_t \<Rightarrow> opcode \<Rightarrow> byte list" where
  "encode_header len code =
     (128 OR opcode_byte code) #
     (if len < 126 then [ucast len]
      else if len \<le> 65535 then 126 # be16 (ucast len)
      else 127 # be64 len)"

definition format_header :: "size_t \<Rightarrow> opcode \<Rightarrow> byte list" where
  "format_header len code = encode_header len code"

definition format_message :: "byte list \<Rightarrow> opcode \<Rightarrow> byte list" where
  "format_message src code = encode_header (of_nat (length src)) code @ src"

section \<open>Close payloads\<close>

text \<open>An empty \<^verbatim>\<open>close_frame\<close> has code 0 and no message.\<close>

definition parse_close_payload :: "byte list \<Rightarrow> u16 \<times> byte list" where
  "parse_close_payload src =
     (if 2 \<le> length src then
        (let code = (push_bit 8 (ucast (src ! 0)) OR ucast (src ! 1) :: u16); message = drop 2 src in
         if code < 1000 \<or> 4999 < code \<or> (1011 < code \<and> code < 4000) \<or> (1004 \<le> code \<and> code \<le> 1006) \<or>
            \<not> is_valid_utf8 message
         then (0, [])
         else (code, message))
      else (0, []))"

definition format_close_payload :: "u16 \<Rightarrow> byte list \<Rightarrow> byte list" where
  "format_close_payload code message = (if code \<noteq> 0 then be16 code @ message else [])"

section \<open>Byte arithmetic\<close>

lemma unat_of_nat_byte: "n < 256 \<Longrightarrow> unat (of_nat n :: byte) = n"
  by (simp add: unat_of_nat)

lemma top_bit: "drop_bit 7 b AND 1 \<noteq> 0 \<longleftrightarrow> 128 \<le> unat (b :: byte)"
proof -
  have "drop_bit 7 b AND 1 \<noteq> 0 \<longleftrightarrow> odd (drop_bit 7 b)" by (simp add: and_one_eq odd_iff_mod_2_eq_one del: drop_bit_numeral_bit1)
  also have "\<dots> \<longleftrightarrow> bit (unat b) 7" by (simp add: bit_iff_odd_drop_bit [symmetric] bit_unsigned_iff del: drop_bit_numeral_bit1)
  also have "\<dots> \<longleftrightarrow> odd (unat b div 128)" by (simp add: bit_iff_odd)
  also have "\<dots> \<longleftrightarrow> 128 \<le> unat b"
  proof -
    have "unat b div 128 < 2" using unat_byte_less [of b] by (simp add: less_mult_imp_div_less del: unat_byte_less)
    then have "odd (unat b div 128) \<longleftrightarrow> unat b div 128 = 1" by (auto simp: less_2_cases_iff)
    also have "\<dots> \<longleftrightarrow> 128 \<le> unat b" using div_eq_range [of 128 "unat b" 1] unat_byte_less [of b] by auto
    finally show ?thesis .
  qed
  finally show ?thesis .
qed

lemma add_high: "op < 16 \<Longrightarrow> (128 + op) mod 16 = (op :: nat)" "l < 128 \<Longrightarrow> (128 + l) mod 128 = (l :: nat)"
  using mod_mult_self2 [of op 16 8] mod_mult_self2 [of l 128 1] by (simp_all add: add.commute)

lemma first_byte:
  assumes "op < 16"
  shows "(of_nat ((if fin then 128 else 0) + op) :: byte) AND 0x0F = of_nat op"
    and "drop_bit 7 (of_nat ((if fin then 128 else 0) + op) :: byte) AND 1 \<noteq> 0 \<longleftrightarrow> fin"
proof -
  let ?n = "(if fin then 128 else 0) + op"
  have n: "?n < 256" using assms by simp
  have "?n AND 15 = op"
    using and_field [of ?n 0 4] assms by (simp add: mask_eq_exp_minus_1 add_high)
  then show "(of_nat ?n :: byte) AND 0x0F = of_nat op"
    using and_unat [of 15 op "of_nat ?n"] n assms by (simp add: unat_of_nat_byte del: of_nat_add)
  show "drop_bit 7 (of_nat ?n :: byte) AND 1 \<noteq> 0 \<longleftrightarrow> fin"
    unfolding top_bit unat_of_nat_byte [OF n] using assms by simp
qed

lemma second_byte:
  assumes "l < 128"
  shows "unat ((of_nat ((if masked then 128 else 0) + l) :: byte) AND 0x7F) = l"
    and "drop_bit 7 (of_nat ((if masked then 128 else 0) + l) :: byte) AND 1 \<noteq> 0 \<longleftrightarrow> masked"
proof -
  let ?n = "(if masked then 128 else 0) + l"
  have n: "?n < 256" using assms by simp
  have "?n AND 127 = l"
    using and_field [of ?n 0 7] assms by (simp add: mask_eq_exp_minus_1 add_high)
  then show "unat ((of_nat ?n :: byte) AND 0x7F) = l"
    using n by (simp add: unsigned_and_eq unat_of_nat_byte del: of_nat_add)
  show "drop_bit 7 (of_nat ?n :: byte) AND 1 \<noteq> 0 \<longleftrightarrow> masked"
    unfolding top_bit unat_of_nat_byte [OF n] using assms by simp
qed

lemma unat_ucast_drop: "unat (ucast (drop_bit k (w :: size_t)) :: byte) = unat w div 2 ^ k mod 256"
proof -
  have "unat w < 2 ^ 64" by (rule order_less_le_trans [OF unsigned_less]) simp
  then show ?thesis
    unfolding unsigned_ucast_eq unsigned_drop_bit_eq by (simp add: drop_bit_eq_div take_bit_eq_mod)
qed

definition be_value :: "byte list \<Rightarrow> nat" where
  "be_value bs = foldl (\<lambda>a b. a * 256 + unat b) 0 bs"

lemma be_value_be64: "be_value (be64 w) = unat w"
proof -
  define n where "n = unat w"
  have d: "n div 2 ^ k = n div 2 ^ (k + 8) * 256 + n div 2 ^ k mod 256" for k
    using div_mult_mod_eq [of "n div 2 ^ k" 256] by (simp add: power_add div_mult2_eq)
  have "n < 2 ^ 64" unfolding n_def using unsigned_less [of w] by simp
  then have t: "n div 2 ^ 56 mod 256 = n div 2 ^ 56" by (simp add: less_mult_imp_div_less)
  have "unat (ucast w :: byte) = n mod 256" by (simp add: unsigned_ucast_eq take_bit_eq_mod n_def)
  then have "be_value (be64 w) = ((((((n div 2 ^ 56 mod 256 * 256 + n div 2 ^ 48 mod 256) * 256 + n div 2 ^ 40 mod 256) * 256 +
     n div 2 ^ 32 mod 256) * 256 + n div 2 ^ 24 mod 256) * 256 + n div 2 ^ 16 mod 256) * 256 + n div 2 ^ 8 mod 256) * 256 + n mod 256"
    unfolding be_value_def be64_def by (simp add: unat_ucast_drop n_def [symmetric])
  also have "\<dots> = n"
    unfolding t using d [of 48] d [of 40] d [of 32] d [of 24] d [of 16] d [of 8] d [of 0] by simp
  finally show ?thesis by (simp add: n_def)
qed

lemma be_value_be16: "be_value (be16 w) = unat w"
proof -
  have "unat w < 2 ^ 16" by (rule order_less_le_trans [OF unsigned_less]) simp
  then have "unat w div 256 mod 256 = unat w div 256" by (simp add: less_mult_imp_div_less)
  moreover have "unat (ucast (drop_bit 8 w) :: byte) = unat w div 256 mod 256"
    using \<open>unat w < 2 ^ 16\<close> unfolding unsigned_ucast_eq unsigned_drop_bit_eq by (simp add: drop_bit_eq_div take_bit_eq_mod)
  moreover have "unat (ucast w :: byte) = unat w mod 256" by (simp add: unsigned_ucast_eq take_bit_eq_mod)
  ultimately show ?thesis unfolding be_value_def be16_def by (simp del: unsigned_ucast_eq)
qed

lemma be64_be64_at:
  assumes "i + 8 \<le> length inp"
  shows "be64 (be64_at inp i) = take 8 (drop i inp)"
proof -
  have l: "take 8 (drop i inp) = map (\<lambda>k. inp ! (i + k)) [0 ..< 8]"
    using assms by (intro nth_equalityI) auto
  have b: "ucast (drop_bit (56 - 8 * k) (be64_at inp i)) = inp ! (i + k)" if "k < 8" for k
  proof (rule bit_word_eqI)
    fix n assume "n < LENGTH(8)"
    have "k \<in> {0, 1, 2, 3, 4, 5, 6, 7}" using that by auto
    then show "bit (ucast (drop_bit (56 - 8 * k) (be64_at inp i)) :: byte) n = bit (inp ! (i + k)) n"
      using \<open>n < LENGTH(8)\<close> unfolding be64_at_def
      by (elim insertE emptyE) (auto simp: bit_simps dest: bit_imp_le_length)
  qed
  have u: "[0 ..< 8] = [0, 1, 2, 3, 4, 5, 6, 7]" by (simp add: upt_rec)
  show ?thesis unfolding l u be64_def using b [of 0] b [of 1] b [of 2] b [of 3] b [of 4] b [of 5] b [of 6] b [of 7]
    by simp
qed

lemma unat_be64_at: "i + 8 \<le> length inp \<Longrightarrow> unat (be64_at inp i) = be_value (take 8 (drop i inp))"
  by (metis be64_be64_at be_value_be64)

lemma unat_ucast_byte: "unat (ucast (b :: byte) :: size_t) = unat b"
proof -
  have "unat b < 2 ^ 64" by (rule order_less_le_trans [OF unat_byte_less]) simp
  then show ?thesis by (simp add: unsigned_ucast_eq take_bit_nat_eq_self)
qed

lemma unat_be16_at:
  assumes "i + 2 \<le> length inp"
  shows "unat (be16_at inp i) = be_value (take 2 (drop i inp))"
proof -
  have l: "take 2 (drop i inp) = [inp ! i, inp ! (i + 1)]"
    using assms by (intro nth_equalityI) (auto simp: less_2_cases_iff)
  have a: "unat (inp ! i) * 256 < 2 ^ 64"
    using unat_byte_less [of "inp ! i"] by (simp del: unat_byte_less)
  have "unat (be16_at inp i) = push_bit 8 (unat (inp ! i)) OR unat (inp ! (i + 1))"
    unfolding be16_at_def unsigned_or_eq unsigned_push_bit_eq unat_ucast_byte using a
    by (simp add: push_bit_eq_mult take_bit_eq_mod)
  then show ?thesis unfolding l be_value_def by (simp add: or_shifted)
qed

lemma mask_byte_load:
  assumes "4 \<le> length key" "k < 4"
  shows "mask_byte (load_u32 key) k = key ! k"
proof -
  obtain a b c d r where key: "key = a # b # c # d # r"
    using assms(1) by (auto simp: numeral_eq_Suc Suc_le_length_iff)
  have "load_u32 key = load_u32 [a, b, c, d]" by (simp add: key load_u32_def)
  moreover have "k = 0 \<or> k = 1 \<or> k = 2 \<or> k = 3" using assms(2) by linarith
  ultimately show ?thesis
    by (intro bit_word_eqI) (auto simp: mask_byte_def bit_simps load_u32_bits key dest: bit_imp_le_length)
qed

section \<open>Reference: the frame format of RFC 6455\<close>

definition rfc_unmask :: "byte list \<Rightarrow> byte list \<Rightarrow> byte list" where
  "rfc_unmask key bs = (if key = [] then bs else map (\<lambda>i. bs ! i XOR key ! (i mod 4)) [0 ..< length bs])"

text \<open>FIN bit, opcode, masking key (empty for an unmasked frame), payload, and the bytes after the frame.\<close>

definition rfc_decode :: "byte list \<Rightarrow> (bool \<times> nat \<times> byte list \<times> byte list \<times> byte list) option" where
  "rfc_decode bs =
     (if length bs < 2 then None
      else
        (let len7 = unat (bs ! 1) mod 128;
             ext = (if len7 = 126 then 2 else if len7 = 127 then 8 else 0);
             klen = (if 128 \<le> unat (bs ! 1) then 4 else 0);
             n = (if ext = 0 then len7 else be_value (take ext (drop 2 bs)));
             hl = 2 + ext + klen;
             key = take klen (drop (2 + ext) bs)
         in if length bs < hl + n then None
            else Some (128 \<le> unat (bs ! 0), unat (bs ! 0) mod 16, key, rfc_unmask key (take n (drop hl bs)),
                       drop (hl + n) bs)))"

section \<open>Frames sent\<close>

lemma opcode_byte_first: "unat (128 OR opcode_byte code) = 128 + unat (opcode_byte code)" "unat (opcode_byte code) < 16"
  by (cases code; simp)+

lemma drop_header: "drop (numeral k + n) xs = drop n (drop (numeral k) xs)"
  by (simp add: add.commute)

lemma format_message_cases:
  fixes payload :: "byte list"
  assumes "length payload < 2 ^ 64"
  defines "n \<equiv> length payload"
  obtains (short) "n < 126" "format_message payload code = [128 OR opcode_byte code, of_nat n] @ payload"
  | (medium) "126 \<le> n" "n < 2 ^ 16" "format_message payload code = [128 OR opcode_byte code, 126] @ be16 (of_nat n) @ payload"
  | (long) "2 ^ 16 \<le> n" "format_message payload code = [128 OR opcode_byte code, 127] @ be64 (of_nat n) @ payload"
proof -
  have u: "unat (of_nat n :: size_t) = n" unfolding n_def by (rule unat_size_t) (use assms in simp)
  have c: "ucast (of_nat n :: size_t) = (of_nat n :: byte)" "ucast (of_nat n :: size_t) = (of_nat n :: u16)"
    by (rule bit_word_eqI, simp add: bit_simps)+
  have lt: "(of_nat n :: size_t) < 126 \<longleftrightarrow> n < 126" "(of_nat n :: size_t) \<le> 65535 \<longleftrightarrow> n \<le> 65535"
    by (simp_all add: word_less_nat_alt word_le_nat_alt u)
  show thesis
    using short medium long unfolding format_message_def encode_header_def n_def [symmetric] lt c
    by (cases "n < 126"; cases "n \<le> 65535") auto
qed

lemma format_message_decodes:
  assumes "length payload < 2 ^ 64"
  shows "rfc_decode (format_message payload code @ rest) = Some (True, unat (opcode_byte code), [], payload, rest)"
  using assms
proof (cases rule: format_message_cases [where code = code])
  case short
  then show ?thesis
    by (simp add: rfc_decode_def Let_def unat_of_nat_byte rfc_unmask_def opcode_byte_first add_high)
next
  case medium
  have "be_value (be16 (of_nat (length payload))) = length payload"
    using medium by (simp add: be_value_be16 unat_of_nat)
  then show ?thesis
    using medium by (simp add: rfc_decode_def Let_def rfc_unmask_def opcode_byte_first add_high be16_def drop_header)
next
  case long
  have "be_value (be64 (of_nat (length payload))) = length payload"
    using assms by (simp add: be_value_be64 unat_of_nat)
  then show ?thesis
    using long by (simp add: rfc_decode_def Let_def rfc_unmask_def opcode_byte_first add_high be64_def drop_header)
qed

text \<open>
  (C27) Every frame the server writes with \<open>format_message\<close> is, read with the reference decoder of RFC 6455, one
  final unmasked frame with the given opcode and payload, and the bytes that follow it are untouched. The length
  field has 7, 16 or 64 bits as the payload requires.
\<close>

theorem format_message_rfc:
  assumes "length payload < 2 ^ 64"
  shows "rfc_decode (format_message payload code @ rest) = Some (True, unat (opcode_byte code), [], payload, rest)"
  by (rule format_message_decodes [OF assms])

theorem format_message_rfc_witness:
  "rfc_decode (format_message (replicate 200 7) binary @ [1]) = Some (True, 2, [], replicate 200 7, [1])"
  using format_message_rfc [of "replicate 200 7" binary "[1]"] by simp

section \<open>Frames received\<close>

lemma second_byte_fields:
  "unat ((b :: byte) AND 0x7F) = unat b mod 128" "unat (b AND 0x0F) = unat b mod 16"
proof -
  show "unat (b AND 0x7F) = unat b mod 128" "unat (b AND 0x0F) = unat b mod 16"
    using and_field [of "unat b" 0 7] and_field [of "unat b" 0 4] by (simp_all add: unsigned_and_eq mask_eq_exp_minus_1)
qed

lemma rfc_decode_masked:
  assumes "rfc_decode inp = Some (fin, op, key, payload, rest)" "key \<noteq> []"
  obtains ext n where
    "ext = (if unat (inp ! 1) mod 128 = 126 then 2 else if unat (inp ! 1) mod 128 = 127 then 8 else 0)"
    "n = (if ext = 0 then unat (inp ! 1) mod 128 else be_value (take ext (drop 2 inp)))"
    "128 \<le> unat (inp ! 1)" "6 + ext + n \<le> length inp" "key = take 4 (drop (2 + ext) inp)" "length key = 4"
    "fin = (128 \<le> unat (inp ! 0))" "op = unat (inp ! 0) mod 16" "length payload = n"
    "payload = rfc_unmask key (take n (drop (6 + ext) inp))" "rest = drop (6 + ext + n) inp"
proof -
  define ext where "ext = (if unat (inp ! 1) mod 128 = 126 then 2 else if unat (inp ! 1) mod 128 = 127 then 8 else (0 :: nat))"
  define n where "n = (if ext = 0 then unat (inp ! 1) mod 128 else be_value (take ext (drop 2 inp)))"
  have m: "128 \<le> unat (inp ! 1)"
  proof (rule ccontr)
    assume "\<not> 128 \<le> unat (inp ! 1)"
    then have "key = []"
      using assms(1) unfolding rfc_decode_def Let_def ext_def [symmetric] n_def [symmetric] by (simp split: if_splits)
    then show False using assms(2) by simp
  qed
  then have s: "\<not> length inp < 2" "\<not> length inp < 2 + ext + 4 + n" "fin = (128 \<le> unat (inp ! 0))"
    "op = unat (inp ! 0) mod 16" "key = take 4 (drop (2 + ext) inp)"
    "payload = rfc_unmask key (take n (drop (2 + ext + 4) inp))" "rest = drop (2 + ext + 4 + n) inp"
    using assms(1) unfolding rfc_decode_def Let_def ext_def [symmetric] n_def [symmetric] by (auto split: if_splits)
  show thesis
  proof (rule that [OF ext_def n_def m])
    show "length payload = n" unfolding s(6) using s(2) assms(2) by (simp add: rfc_unmask_def)
  qed (use s in \<open>simp_all add: ac_simps\<close>)
qed

lemma frame_storage:
  assumes "i + k \<le> length (inp :: 'a list)"
  shows "take k (drop i (inp @ stale)) = take k (drop i inp)"
  using assms by simp

lemma parse_header_rfc:
  assumes "rfc_decode inp = Some (fin, op, key, payload, rest)" "key \<noteq> []" "length payload < 2 ^ 64"
  obtains hl where
    "parse_header ws (inp @ stale) (length inp) =
       Some (ws\<lparr>ws_opcode := of_nat op, ws_fin := fin, ws_payload_length := of_nat (length payload),
                ws_left_header_len := 0, ws_mask := load_u32 key\<rparr>, int hl)"
    "hl + length payload \<le> length inp" "length key = 4"
    "payload = rfc_unmask key (take (length payload) (drop hl inp))" "rest = drop (hl + length payload) inp"
proof -
  obtain ext n where d: "ext = (if unat (inp ! 1) mod 128 = 126 then 2 else if unat (inp ! 1) mod 128 = 127 then 8 else 0)"
    "n = (if ext = 0 then unat (inp ! 1) mod 128 else be_value (take ext (drop 2 inp)))"
    "128 \<le> unat (inp ! 1)" "6 + ext + n \<le> length inp" "key = take 4 (drop (2 + ext) inp)" "length key = 4"
    "fin = (128 \<le> unat (inp ! 0))" "op = unat (inp ! 0) mod 16" "length payload = n"
    "payload = rfc_unmask key (take n (drop (6 + ext) inp))" "rest = drop (6 + ext + n) inp"
    by (rule rfc_decode_masked [OF assms(1,2)])
  let ?s = "inp @ stale"
  have nth: "?s ! 0 = inp ! 0" "?s ! 1 = inp ! 1" using d(4) by (auto simp: nth_append)
  have "of_nat (unat (inp ! 0 AND 0x0F)) = inp ! 0 AND 0x0F" by (simp only: of_nat_unat ucast_id)
  then have op: "?s ! 0 AND 0x0F = of_nat op" by (simp only: second_byte_fields nth d(8))
  have len7: "unat (inp ! 1) mod 128 < 128" by simp
  have h: "header_length ?s (length inp) (unat (inp ! 1) mod 128) = Some (of_nat n, 2 + ext, 0, 6 + ext)"
  proof -
    have "take 2 (drop 2 ?s) = take 2 (drop 2 inp)" if "ext = 2" using d(4) that by simp
    moreover have "take 8 (drop 2 ?s) = take 8 (drop 2 inp)" if "ext = 8" using d(4) that by simp
    moreover have "of_nat (unat (be16_at ?s 2)) = be16_at ?s 2" "of_nat (unat (be64_at ?s 2)) = be64_at ?s 2" by simp_all
    ultimately have "be16_at ?s 2 = of_nat n" if "ext = 2" using that d(2,4) unat_be16_at [of 2 ?s] by simp
    moreover have "be64_at ?s 2 = of_nat n" if "ext = 8"
      using that d(2,4) unat_be64_at [of 2 ?s] \<open>of_nat (unat (be64_at ?s 2)) = _\<close> by simp
    ultimately show ?thesis
      using d(1,2,4) len7 unfolding header_length_def SHORT_HEADER_def MEDIUM_HEADER_def LONG_HEADER_def
      by (auto split: if_splits)
  qed
  have "load_u32 (drop (2 + ext) ?s) = load_u32 key"
    using d(4) unfolding d(5) load_u32_def by (simp add: nth_append)
  then have "parse_header ws ?s (length inp) =
       Some (ws\<lparr>ws_opcode := of_nat op, ws_fin := fin, ws_payload_length := of_nat (length payload),
                ws_left_header_len := 0, ws_mask := load_u32 key\<rparr>, int (6 + ext))"
    unfolding parse_header_def SHORT_HEADER_def Let_def second_byte_fields nth op [unfolded nth] h top_bit d(9)
    using d(3,4,7) by simp
  then show thesis by (rule that [OF _ d(4) [folded d(9)] d(6) d(10) [folded d(9)] d(11) [folded d(9)]])
qed

lemma load_u32_nonzero:
  assumes "length key = 4"
  shows "load_u32 key = 0 \<longleftrightarrow> key = [0, 0, 0, 0]"
proof -
  obtain a b c d where "key = [a, b, c, d]"
    using assms by (auto simp: numeral_eq_Suc length_Suc_conv)
  then show ?thesis by (simp add: load_u32_zero)
qed

lemma parse_payload_mask:
  assumes "unat (ws_payload_length ws) \<le> length inp" "ws_mask ws = load_u32 key" "length key = 4"
  shows "parse_payload ws inp [] =
    (frame_type ws, if key = [0, 0, 0, 0] then replicate (unat (ws_payload_length ws)) 0
                    else rfc_unmask key (take (unat (ws_payload_length ws)) inp))"
proof -
  have "inp ! i XOR mask_byte (ws_mask ws) (i mod 4) = take (unat (ws_payload_length ws)) inp ! i XOR key ! (i mod 4)"
    if "i < unat (ws_payload_length ws)" for i
    using that assms(2,3) by (simp add: mask_byte_load)
  then show ?thesis
    using assms unfolding parse_payload_def Let_def
    by (auto simp: rfc_unmask_def load_u32_nonzero resize_def)
qed

lemma receive_frame:
  assumes "rfc_decode inp = Some (fin, op, key, payload, rest)" "key \<noteq> []" "key \<noteq> [0, 0, 0, 0]"
    "length payload < 2 ^ 64"
  shows "\<exists>ws' hl. parse_header ws (inp @ stale) (length inp) = Some (ws', int hl) \<and>
    ws_fin ws' = fin \<and> ws_opcode ws' = of_nat op \<and>
    parse_payload ws' (drop hl inp) [] = (frame_type ws', payload) \<and> drop (hl + length payload) inp = rest"
proof -
  obtain hl where h: "parse_header ws (inp @ stale) (length inp) =
       Some (ws\<lparr>ws_opcode := of_nat op, ws_fin := fin, ws_payload_length := of_nat (length payload),
                ws_left_header_len := 0, ws_mask := load_u32 key\<rparr>, int hl)"
    "hl + length payload \<le> length inp" "length key = 4"
    "payload = rfc_unmask key (take (length payload) (drop hl inp))" "rest = drop (hl + length payload) inp"
    by (rule parse_header_rfc [OF assms(1,2,4)])
  have "parse_payload (ws\<lparr>ws_opcode := of_nat op, ws_fin := fin, ws_payload_length := of_nat (length payload),
                ws_left_header_len := 0, ws_mask := load_u32 key\<rparr>) (drop hl inp) [] =
    (frame_type (ws\<lparr>ws_opcode := of_nat op, ws_fin := fin, ws_payload_length := of_nat (length payload),
                ws_left_header_len := 0, ws_mask := load_u32 key\<rparr>), payload)"
    using parse_payload_mask [of _ "drop hl inp" key] h(2,3) h(4) [symmetric] assms(3,4) by (simp add: unat_size_t)
  then show ?thesis using h(1,5) by auto
qed

text \<open>
  (C26) A masked client frame that RFC 6455 decodes is read by \<open>parse_header\<close> and \<open>parse_payload\<close> to the same
  FIN bit, opcode, payload and following bytes, whatever the previous state of the object, and whatever stale bytes
  the receive buffer holds behind the received ones - provided the masking key is not four zero bytes.
\<close>

theorem receive_frame_rfc:
  assumes "rfc_decode inp = Some (fin, op, key, payload, rest)" "key \<noteq> []" "key \<noteq> [0, 0, 0, 0]"
    "length payload < 2 ^ 64"
  shows "\<exists>ws' hl. parse_header ws (inp @ stale) (length inp) = Some (ws', int hl) \<and>
    ws_fin ws' = fin \<and> ws_opcode ws' = of_nat op \<and>
    parse_payload ws' (drop hl inp) [] = (frame_type ws', payload) \<and> drop (hl + length payload) inp = rest"
  by (rule receive_frame [OF assms])

theorem receive_frame_rfc_witness:
  "\<exists>ws' hl. parse_header websocket_init [0x81, 0x82, 1, 2, 3, 4, 0x49, 0x6B, 9]
      (length [0x81 :: byte, 0x82, 1, 2, 3, 4, 0x49, 0x6B]) = Some (ws', int hl) \<and>
    ws_fin ws' = True \<and> ws_opcode ws' = of_nat 1 \<and>
    parse_payload ws' (drop hl [0x81, 0x82, 1, 2, 3, 4, 0x49, 0x6B]) [] = (frame_type ws', [0x48, 0x69]) \<and>
    drop (hl + length [0x48 :: byte, 0x69]) [0x81 :: byte, 0x82, 1, 2, 3, 4, 0x49, 0x6B] = []"
proof -
  have "rfc_decode [0x81, 0x82, 1, 2, 3, 4, 0x49, 0x6B] = Some (True, 1, [1, 2, 3, 4], [0x48, 0x69], [])"
    by code_simp
  from receive_frame_rfc [OF this, of websocket_init "[9]"] show ?thesis by simp
qed

text \<open>
  The restriction on the key is needed: for a frame masked with the key 0, which RFC 6455 allows,
  \<open>parse_payload\<close> skips the copy together with the unmasking, so the message delivered is as many zero bytes as
  the payload has, whatever was sent.
\<close>

theorem receive_zero_key:
  assumes "rfc_decode inp = Some (fin, op, [0, 0, 0, 0], payload, rest)" "length payload < 2 ^ 64"
  shows "\<exists>ws' hl. parse_header ws (inp @ stale) (length inp) = Some (ws', int hl) \<and>
    snd (parse_payload ws' (drop hl inp) []) = replicate (length payload) 0"
proof -
  let ?ws = "ws\<lparr>ws_opcode := of_nat op, ws_fin := fin, ws_payload_length := of_nat (length payload),
                ws_left_header_len := 0, ws_mask := load_u32 [0, 0, 0, 0]\<rparr>"
  obtain hl where h: "parse_header ws (inp @ stale) (length inp) = Some (?ws, int hl)"
    "hl + length payload \<le> length inp"
    by (rule parse_header_rfc [OF assms(1) _ assms(2)]) simp_all
  have "snd (parse_payload ?ws (drop hl inp) []) = replicate (length payload) 0"
    using parse_payload_mask [of ?ws "drop hl inp" "[0, 0, 0, 0]"] h(2) assms(2) by (simp add: unat_size_t)
  then show ?thesis using h(1) by auto
qed

theorem receive_zero_key_witness:
  "\<exists>ws' hl. parse_header websocket_init [0x81, 0x82, 0, 0, 0, 0, 0x48, 0x69]
      (length [0x81 :: byte, 0x82, 0, 0, 0, 0, 0x48, 0x69]) = Some (ws', int hl) \<and>
    snd (parse_payload ws' (drop hl [0x81, 0x82, 0, 0, 0, 0, 0x48, 0x69]) []) = [0, 0]"
proof -
  have "rfc_decode [0x81, 0x82, 0, 0, 0, 0, 0x48, 0x69] = Some (True, 1, [0, 0, 0, 0], [0x48, 0x69], [])"
    by code_simp
  from receive_zero_key [OF this, of websocket_init "[]"] show ?thesis by simp
qed

section \<open>Partial headers\<close>

lemma header_length_total:
  assumes "14 \<le> length inp" "6 \<le> received" "l < 128"
  obtains payload pos left header_len where "header_length inp received l = Some (payload, pos, left, header_len)"
    "pos + 4 = header_len" "header_len \<le> 14" "6 \<le> header_len" "left = header_len - received"
  using assms unfolding header_length_def SHORT_HEADER_def MEDIUM_HEADER_def LONG_HEADER_def
  by (cases "l \<le> 125"; cases "l = 126") auto

lemma header_length_stable:
  assumes "header_length inp received l = Some (payload, pos, 0, header_len)" "6 \<le> received" "received \<le> length inp"
    "take received inp' = take received inp" "received \<le> length inp'"
  shows "header_length inp' received l = Some (payload, pos, 0, header_len)" "pos + 4 \<le> received"
proof -
  have nth: "inp' ! i = inp ! i" if "i < received" for i
    using assms(4) that by (metis nth_take)
  then have "header_length inp' received l = Some (payload, pos, 0, header_len) \<and> pos + 4 \<le> received"
    using assms unfolding header_length_def SHORT_HEADER_def MEDIUM_HEADER_def LONG_HEADER_def
    by (auto simp: be16_at_def be64_at_def split: if_splits)
  then show "header_length inp' received l = Some (payload, pos, 0, header_len)" "pos + 4 \<le> received" by auto
qed

text \<open>
  (C28) With at least 14 bytes of storage behind the start of a frame, \<open>parse_header\<close> never reads outside the
  storage; it answers \<open>-2\<close> (more bytes needed) or a header length that lies inside the received bytes, and in the
  second case the answer and the new state do not depend on the stale bytes of the buffer.
\<close>

theorem parse_header_sound:
  assumes "14 \<le> length inp" "received \<le> length inp"
  shows "\<exists>ws' r. parse_header ws inp received = Some (ws', r) \<and>
    (r = - 2 \<or> 2 \<le> r \<and> r \<le> int received \<and> r \<le> 14 \<and>
       (\<forall>inp'. length inp' = length inp \<and> take received inp' = take received inp \<longrightarrow>
          parse_header ws inp' received = Some (ws', r)))"
proof (cases "received < 6")
  case True
  then show ?thesis by (simp add: parse_header_def SHORT_HEADER_def)
next
  case False
  define l where "l = unat (inp ! 1 AND 0x7F)"
  have "l < 128" by (simp add: l_def second_byte_fields)
  then obtain payload pos left header_len where h: "header_length inp received l = Some (payload, pos, left, header_len)"
    "pos + 4 = header_len" "header_len \<le> 14" "6 \<le> header_len" "left = header_len - received"
    using header_length_total [OF assms(1)] False by (metis not_less)
  show ?thesis
  proof (cases "left = 0")
    case True
    have "parse_header ws inp' received = parse_header ws inp received"
      if "length inp' = length inp" "take received inp' = take received inp" for inp'
    proof -
      have nth: "inp' ! i = inp ! i" if "i < received" for i
        using \<open>take received inp' = _\<close> that by (metis nth_take)
      have hs: "header_length inp' received l = Some (payload, pos, 0, header_len)" "pos + 4 \<le> received"
        using header_length_stable [of inp received l payload pos header_len inp'] h(1) True False assms(2) that by auto
      have "load_u32 (drop pos inp') = load_u32 (drop pos inp)"
        using hs(2) assms(2) that(1) nth by (simp add: load_u32_def)
      then show ?thesis
        using False hs h(1) True nth [of 0] nth [of 1] that(1) assms
        unfolding parse_header_def SHORT_HEADER_def Let_def l_def by simp
    qed
    then show ?thesis
      using False h True assms unfolding parse_header_def SHORT_HEADER_def Let_def l_def [symmetric]
      by (auto simp: of_nat_diff)
  next
    case False
    then show ?thesis
      using \<open>\<not> received < 6\<close> h assms unfolding parse_header_def SHORT_HEADER_def Let_def l_def [symmetric] by auto
  qed
qed

theorem parse_header_sound_witness:
  "\<exists>ws' r. parse_header websocket_init ([0x81, 0xFE, 0, 200, 1, 2, 3, 4] @ replicate 200 7) 9 = Some (ws', r) \<and>
    (r = - 2 \<or> 2 \<le> r \<and> r \<le> int 9 \<and> r \<le> 14)"
  using parse_header_sound [of "[0x81, 0xFE, 0, 200, 1, 2, 3, 4] @ replicate 200 7" 9 websocket_init] by auto

section \<open>The accept key\<close>

lemma SHA1_ref: "SHA1 m = sha1_ref m"
proof -
  have "finish (foldl update (init (replicate 64 0)) [m]) = sha1_ref (concat [m])"
    by (rule sha1_inc.digest_of_parts) (metis length_replicate)
  then show ?thesis by (simp add: SHA1_def)
qed

lemma length_store_digest: "length (store_digest H) = 20"
  by (simp add: store_digest_def upt_rec)

lemma length_Encode: "length (Encode bs) = 4 * ((length bs + 2) div 3)"
proof (induction bs rule: Encode.induct)
  case (1 c0 c1 c2 rest)
  have "(length (c0 # c1 # c2 # rest) + 2) div 3 = (length rest + 2) div 3 + 1"
    using div_add_self1 [of 3 "length rest + 2"] by (simp add: add.commute)
  then show ?case using 1 by simp
qed simp_all

text \<open>
  For every request that \<open>is_upgrade\<close> accepts, the accept value sent back is the Base64 text of the
  FIPS 180-4 SHA-1 digest of the request's key followed by the GUID of RFC 6455, in full: it has exactly the 28
  characters that are copied out of the 29-byte buffer.
\<close>

theorem accept_key_rfc:
  assumes "fst (is_upgrade req_method header ws)"
  shows "accept_key (snd (is_upgrade req_method header ws)) =
      Encode (sha1_ref (map char_byte (header ''sec-websocket-key'' @ ws_guid))) \<and>
    length (accept_key (snd (is_upgrade req_method header ws))) = 28"
proof -
  have k: "ws_key (snd (is_upgrade req_method header ws)) = header ''sec-websocket-key''" "length (header ''sec-websocket-key'') = 24"
    using assms by (auto simp: is_upgrade_def Let_def split: if_splits)
  have "length (Encode (sha1_ref m)) = 28" for m by (simp add: length_Encode sha1_ref_def length_store_digest)
  then show ?thesis using k by (simp add: accept_key_def SHA1_ref Encode_base64_encode [symmetric])
qed

definition sample_header :: "string \<Rightarrow> string" where
  "sample_header n = (if n = ''connection'' then ''keep-alive, Upgrade'' else if n = ''upgrade'' then ''WebSocket''
     else if n = ''sec-websocket-key'' then ''dGhlIHNhbXBsZSBub25jZQ=='' else [])"

theorem accept_key_rfc_witness:
  "accept_key (snd (is_upgrade ''GET'' sample_header websocket_init)) =
      Encode (sha1_ref (map char_byte (sample_header ''sec-websocket-key'' @ ws_guid))) \<and>
    length (accept_key (snd (is_upgrade ''GET'' sample_header websocket_init))) = 28"
proof (rule accept_key_rfc)
  show "fst (is_upgrade ''GET'' sample_header websocket_init)" by code_simp
qed

section \<open>Close frames\<close>

lemma be16_word: "push_bit 8 (ucast (ucast (drop_bit 8 c) :: byte)) OR ucast (ucast c :: byte) = (c :: u16)"
  by (rule bit_word_eqI) (auto simp: bit_simps dest: bit_imp_le_length)

text \<open>The close codes that RFC 6455 lets an endpoint put on the wire and that were assigned when it was written:
  1000 to 1003, 1007 to 1011, and the private range from 4000 on.\<close>

definition wire_code :: "u16 \<Rightarrow> bool" where
  "wire_code c \<longleftrightarrow> 1000 \<le> c \<and> c \<le> 1003 \<or> 1007 \<le> c \<and> c \<le> 1011 \<or> 4000 \<le> c \<and> c \<le> 4999"

lemma wire_code_test:
  "c < 1000 \<or> 4999 < c \<or> 1011 < c \<and> c < 4000 \<or> 1004 \<le> c \<and> c \<le> 1006 \<longleftrightarrow> \<not> wire_code c"
  unfolding wire_code_def word_less_nat_alt word_le_nat_alt by auto

lemma parse_close_payload_alt:
  "parse_close_payload src =
     (let code = push_bit 8 (ucast (src ! 0)) OR ucast (src ! 1) in
      if 2 \<le> length src \<and> wire_code code \<and> is_valid_utf8 (drop 2 src) then (code, drop 2 src) else (0, []))"
  unfolding parse_close_payload_def Let_def
  by (simp only: disj_assoc [symmetric] wire_code_test [unfolded disj_assoc [symmetric]]) auto

lemma be16_bytes: "be16 (push_bit 8 (ucast a) OR ucast b) = [a, b]"
proof -
  have "ucast (drop_bit 8 (push_bit 8 (ucast a) OR ucast b :: u16)) = a" "ucast (push_bit 8 (ucast a) OR ucast b :: u16) = b"
    by (rule bit_word_eqI, auto simp: bit_simps dest: bit_imp_le_length)+
  then show ?thesis by (simp add: be16_def)
qed

text \<open>
  \<open>parse_close_payload\<close> reports the code \<open>c\<close> and the reason \<open>m\<close> exactly for the payload that
  \<open>format_close_payload\<close> writes for them, and only if the code is one for the wire and the reason is UTF-8; every
  other payload gives the empty close frame.
\<close>

theorem close_payload_codec:
  "(parse_close_payload src = (c, m) \<and> c \<noteq> 0 \<longleftrightarrow> wire_code c \<and> is_valid_utf8 m \<and> src = format_close_payload c m) \<and>
   (fst (parse_close_payload src) = 0 \<longleftrightarrow> parse_close_payload src = (0, []))"
proof
  have nz: "\<not> wire_code 0" by (simp add: wire_code_def)
  have enc: "parse_close_payload (format_close_payload c m) = (c, m)" if "wire_code c" "is_valid_utf8 m"
  proof -
    have "format_close_payload c m = be16 c @ m" using that nz unfolding format_close_payload_def by auto
    then show ?thesis using that by (simp add: parse_close_payload_alt be16_def be16_word Let_def)
  qed
  have dec: "wire_code c \<and> is_valid_utf8 m \<and> src = format_close_payload c m" if p: "parse_close_payload src = (c, m)" "c \<noteq> 0"
  proof -
    have c: "2 \<le> length src" "wire_code c" "is_valid_utf8 m" "c = push_bit 8 (ucast (src ! 0)) OR ucast (src ! 1)" "m = drop 2 src"
      using p unfolding parse_close_payload_alt Let_def by (auto split: if_splits)
    obtain a b r where "src = a # b # r" using c(1) by (auto simp: numeral_eq_Suc Suc_le_length_iff)
    then show ?thesis using c p(2) unfolding format_close_payload_def by (simp add: be16_bytes)
  qed
  show "parse_close_payload src = (c, m) \<and> c \<noteq> 0 \<longleftrightarrow> wire_code c \<and> is_valid_utf8 m \<and> src = format_close_payload c m"
    using enc dec nz by blast
  show "fst (parse_close_payload src) = 0 \<longleftrightarrow> parse_close_payload src = (0, [])"
    using nz unfolding parse_close_payload_alt Let_def by auto
qed

text \<open>
  Of the codes the header file lists as legal on the wire, \<open>parse_close_payload\<close> rejects 1012 and 1013: a peer
  that announces a restart or overload is read as having sent no code and no reason.
\<close>

theorem close_code_lost:
  "parse_close_payload (format_close_payload (close_code_value service_restart) message) = (close_code_value none_code, []) \<and>
   parse_close_payload (format_close_payload (close_code_value try_again_later) message) = (close_code_value none_code, [])"
  by (simp add: format_close_payload_def parse_close_payload_alt be16_def be16_word Let_def wire_code_def)

end
