(* ===== verification/Fifo.thy ===== *)
theory Fifo imports Netcore_Prelude begin

text \<open>
  The contract of the queues of the program, stated once: what is put in comes out in order, exactly once.
  The growing I/O buffer (\<^verbatim>\<open>lib/buffer.cpp\<close>), the blocking deque (\<^verbatim>\<open>lib/blockqueue.h\<close>), the ring buffer
  (\<^verbatim>\<open>lib/lockfree_queue.hpp\<close>) and the intrusive task queue (\<^verbatim>\<open>include/netcore/basic.hpp\<close>) provide it.
\<close>

datatype 'a fifo_op = Put "'a list" | Take nat

text \<open>
  Run a sequence of operations and collect what is taken out. \<open>None\<close> is a failed assertion, a full or an empty queue: an
  operation that does not return normally.
\<close>

primrec fifo_run ::
  "('s \<Rightarrow> 'a list \<Rightarrow> 's option) \<Rightarrow> ('s \<Rightarrow> nat \<Rightarrow> ('a list \<times> 's) option) \<Rightarrow> 's \<Rightarrow> 'a fifo_op list \<Rightarrow> ('a list \<times> 's) option"
where
  "fifo_run put get s [] = Some ([], s)"
| "fifo_run put get s (x # ops) =
     (case x of
        Put xs \<Rightarrow> (case put s xs of None \<Rightarrow> None | Some s' \<Rightarrow> fifo_run put get s' ops)
      | Take n \<Rightarrow>
          (case get s n of
             None \<Rightarrow> None
           | Some (ys, s') \<Rightarrow>
               (case fifo_run put get s' ops of None \<Rightarrow> None | Some (zs, s'') \<Rightarrow> Some (ys @ zs, s''))))"

fun puts :: "'a fifo_op list \<Rightarrow> 'a list" where
  "puts [] = []"
| "puts (Put xs # ops) = xs @ puts ops"
| "puts (Take n # ops) = puts ops"

text \<open>No operation of the sequence takes more than there is, starting with \<open>n\<close> elements.\<close>

fun takes_fit :: "nat \<Rightarrow> 'a fifo_op list \<Rightarrow> bool" where
  "takes_fit n [] \<longleftrightarrow> True"
| "takes_fit n (Put xs # ops) \<longleftrightarrow> takes_fit (n + length xs) ops"
| "takes_fit n (Take k # ops) \<longleftrightarrow> k \<le> n \<and> takes_fit (n - k) ops"

locale fifo =
  fixes valid :: "'s \<Rightarrow> bool"
    and content :: "'s \<Rightarrow> 'a list"
    and put :: "'s \<Rightarrow> 'a list \<Rightarrow> 's option"
    and get :: "'s \<Rightarrow> nat \<Rightarrow> ('a list \<times> 's) option"
  assumes put_content: "valid s \<Longrightarrow> put s xs = Some s' \<Longrightarrow> valid s' \<and> content s' = content s @ xs"
    and get_content: "valid s \<Longrightarrow> get s n = Some (ys, s') \<Longrightarrow> valid s' \<and> ys @ content s' = content s"
begin

lemma fifo_stream:
  "valid s \<Longrightarrow> fifo_run put get s ops = Some (out, s') \<Longrightarrow> valid s' \<and> content s @ puts ops = out @ content s'"
proof (induction ops arbitrary: s out)
  case (Cons x ops)
  show ?case
  proof (cases x)
    case (Put xs)
    then obtain s1 where s1: "put s xs = Some s1" "fifo_run put get s1 ops = Some (out, s')"
      using Cons.prems(2) by (auto split: option.splits)
    then show ?thesis using Cons.IH [of s1 out] put_content [OF Cons.prems(1)] Put by auto
  next
    case (Take n)
    then obtain ys s1 zs where s1: "get s n = Some (ys, s1)" "fifo_run put get s1 ops = Some (zs, s')" "out = ys @ zs"
      using Cons.prems(2) by (auto split: option.splits)
    note g = get_content [OF Cons.prems(1) s1(1)]
    have "content s @ puts (x # ops) = ys @ (content s1 @ puts ops)" using g Take by auto
    then show ?thesis using Cons.IH [of s1 zs] g s1 by auto
  qed
qed simp

end

text \<open>A queue that always accepts, and gives whenever it has enough.\<close>

locale total_fifo = fifo +
  assumes put_total: "valid s \<Longrightarrow> \<exists>s'. put s xs = Some s'"
    and get_total: "valid s \<Longrightarrow> n \<le> length (content s) \<Longrightarrow> \<exists>ys s'. get s n = Some (ys, s') \<and> length ys = n"
begin

lemma fifo_run_total:
  "valid s \<Longrightarrow> takes_fit (length (content s)) ops \<Longrightarrow> \<exists>out s'. fifo_run put get s ops = Some (out, s')"
proof (induction ops arbitrary: s)
  case (Cons x ops)
  show ?case
  proof (cases x)
    case (Put xs)
    obtain s1 where s1: "put s xs = Some s1" using put_total [OF Cons.prems(1)] by blast
    have "\<exists>out s'. fifo_run put get s1 ops = Some (out, s')"
      using Cons.IH [of s1] put_content [OF Cons.prems(1) s1] Cons.prems(2) Put by simp
    then show ?thesis by (simp add: Put s1)
  next
    case (Take n)
    obtain ys s1 where s1: "get s n = Some (ys, s1)" "length ys = n"
      using get_total [OF Cons.prems(1), of n] Cons.prems(2) Take by auto
    have "ys @ content s1 = content s" "valid s1" using get_content [OF Cons.prems(1) s1(1)] by auto
    then have "takes_fit (length (content s1)) ops"
      using Cons.prems(2) Take s1(2) by (metis add_diff_cancel_left' length_append takes_fit.simps(3))
    then obtain zs s' where "fifo_run put get s1 ops = Some (zs, s')" using Cons.IH \<open>valid s1\<close> by blast
    then show ?thesis by (simp add: Take s1)
  qed
qed simp

end

end
