(* ===== verification/Buffer.thy ===== *)
theory Buffer
  imports Fifo
begin

text \<open>
  The growing I/O buffer of \<^verbatim>\<open>lib/buffer.cpp\<close>: a vector with a read and a write position. Positions and sizes are
  natural numbers (a \<^verbatim>\<open>std::vector\<close> cannot reach the width of \<^verbatim>\<open>size_t\<close>); a failed \<^verbatim>\<open>assert\<close> and a write outside
  the vector are the result \<open>None\<close>. \<^verbatim>\<open>readv\<close> and \<^verbatim>\<open>write\<close> are given by their results.
\<close>

section \<open>The model\<close>

record Buffer =
  buffer_vec :: "char list"
  readPos :: nat
  writePos :: nat

definition Buffer_new :: "nat \<Rightarrow> Buffer" where
  "Buffer_new initBuffSize = \<lparr>buffer_vec = replicate initBuffSize (CHR 0x00), readPos = 0, writePos = 0\<rparr>"

definition ReadableBytes :: "Buffer \<Rightarrow> nat" where
  "ReadableBytes b = writePos b - readPos b"

definition WritableBytes :: "Buffer \<Rightarrow> nat" where
  "WritableBytes b = length (buffer_vec b) - writePos b"

definition PrependableBytes :: "Buffer \<Rightarrow> nat" where
  "PrependableBytes b = readPos b"

text \<open>Pointers into the vector are offsets.\<close>

definition Peek :: "Buffer \<Rightarrow> nat" where
  "Peek b = readPos b"

definition BeginWrite :: "Buffer \<Rightarrow> nat" where
  "BeginWrite b = writePos b"

definition Retrieve :: "nat \<Rightarrow> Buffer \<Rightarrow> Buffer option" where
  "Retrieve len b = (if len \<le> ReadableBytes b then Some (b\<lparr>readPos := readPos b + len\<rparr>) else None)"

definition RetrieveUntil :: "nat \<Rightarrow> Buffer \<Rightarrow> Buffer option" where
  "RetrieveUntil end_ptr b = (if Peek b \<le> end_ptr then Retrieve (end_ptr - Peek b) b else None)"

definition RetrieveAll :: "Buffer \<Rightarrow> Buffer" where
  "RetrieveAll b = \<lparr>buffer_vec = replicate (length (buffer_vec b)) (CHR 0x00), readPos = 0, writePos = 0\<rparr>"

definition RetrieveAllToStr :: "Buffer \<Rightarrow> string \<times> Buffer" where
  "RetrieveAllToStr b = (take (ReadableBytes b) (drop (Peek b) (buffer_vec b)), RetrieveAll b)"

definition HasWritten :: "nat \<Rightarrow> Buffer \<Rightarrow> Buffer" where
  "HasWritten len b = b\<lparr>writePos := writePos b + len\<rparr>"

definition MakeSpace :: "nat \<Rightarrow> Buffer \<Rightarrow> Buffer option" where
  "MakeSpace len b =
     (if WritableBytes b + PrependableBytes b < len
      then Some (b\<lparr>buffer_vec := take (writePos b + len + 1) (buffer_vec b) @
                     replicate (writePos b + len + 1 - length (buffer_vec b)) (CHR 0x00)\<rparr>)
      else
        (let readable = ReadableBytes b;
             moved = take readable (drop (readPos b) (buffer_vec b));
             b' = b\<lparr>buffer_vec := moved @ drop (length moved) (buffer_vec b), readPos := 0, writePos := readable\<rparr>
         in if readable = ReadableBytes b' then Some b' else None))"

definition EnsureWriteable :: "nat \<Rightarrow> Buffer \<Rightarrow> Buffer option" where
  "EnsureWriteable len b =
     (case (if WritableBytes b < len then MakeSpace len b else Some b) of
        None \<Rightarrow> None
      | Some b \<Rightarrow> if len \<le> WritableBytes b then Some b else None)"

text \<open>\<^verbatim>\<open>std::copy\<close> to the write position.\<close>

definition write_at :: "nat \<Rightarrow> char list \<Rightarrow> char list \<Rightarrow> char list option" where
  "write_at p xs vec = (if p + length xs \<le> length vec then Some (take p vec @ xs @ drop (p + length xs) vec) else None)"

definition Append :: "string \<Rightarrow> Buffer \<Rightarrow> Buffer option" where
  "Append str b =
     (case EnsureWriteable (length str) b of
        None \<Rightarrow> None
      | Some b \<Rightarrow>
          (case write_at (BeginWrite b) str (buffer_vec b) of
             None \<Rightarrow> None
           | Some vec \<Rightarrow> Some (HasWritten (length str) (b\<lparr>buffer_vec := vec\<rparr>))))"

definition Append_Buffer :: "Buffer \<Rightarrow> Buffer \<Rightarrow> Buffer option" where
  "Append_Buffer src b = Append (take (ReadableBytes src) (drop (Peek src) (buffer_vec src))) b"

text \<open>
  The result of \<^verbatim>\<open>readv\<close> is an error number or the bytes received, the first of them stored in the vector and the
  rest in the 65535-byte array on the stack; \<open>None\<close> if the kernel returned more than both hold.
\<close>

definition ReadFd :: "int + string \<Rightarrow> Buffer \<Rightarrow> ((int + nat) \<times> Buffer) option" where
  "ReadFd received b =
     (case received of
        Inl errno \<Rightarrow> Some (Inl errno, b)
      | Inr data \<Rightarrow>
          (let writable = WritableBytes b; len = length data in
           if writable + 65535 < len then None
           else
             (case write_at (writePos b) (take writable data) (buffer_vec b) of
                None \<Rightarrow> None
              | Some vec \<Rightarrow>
                  (let b = b\<lparr>buffer_vec := vec\<rparr> in
                   if len \<le> writable then Some (Inr len, b\<lparr>writePos := writePos b + len\<rparr>)
                   else
                     (case Append (drop writable data) (b\<lparr>writePos := length (buffer_vec b)\<rparr>) of
                        None \<Rightarrow> None
                      | Some b \<Rightarrow> Some (Inr len, b))))))"

text \<open>\<^verbatim>\<open>write\<close> returned an error number or the number of bytes it took.\<close>

definition WriteFd :: "int + nat \<Rightarrow> Buffer \<Rightarrow> (int + nat) \<times> Buffer" where
  "WriteFd written b =
     (case written of
        Inl errno \<Rightarrow> (Inl errno, b)
      | Inr len \<Rightarrow> (Inr len, b\<lparr>readPos := readPos b + len\<rparr>))"

section \<open>Invariant and contents\<close>

definition buffer_ok :: "Buffer \<Rightarrow> bool" where
  "buffer_ok b \<longleftrightarrow> readPos b \<le> writePos b \<and> writePos b \<le> length (buffer_vec b)"

definition readable :: "Buffer \<Rightarrow> string" where
  "readable b = take (ReadableBytes b) (drop (Peek b) (buffer_vec b))"

lemmas sizes = ReadableBytes_def WritableBytes_def PrependableBytes_def Peek_def BeginWrite_def

lemma length_readable: "buffer_ok b \<Longrightarrow> length (readable b) = ReadableBytes b"
  by (auto simp: buffer_ok_def readable_def sizes)

lemma Buffer_new_ok: "buffer_ok (Buffer_new n)" "readable (Buffer_new n) = []"
  by (simp_all add: buffer_ok_def Buffer_new_def readable_def sizes)

lemma MakeSpace_ok:
  assumes "buffer_ok b" "WritableBytes b < len"
  obtains b' where "MakeSpace len b = Some b'" "buffer_ok b'" "readable b' = readable b" "len \<le> WritableBytes b'"
proof (cases "WritableBytes b + PrependableBytes b < len")
  case True
  then show thesis
    using that assms by (simp add: MakeSpace_def buffer_ok_def readable_def sizes)
next
  case False
  let ?b = "b\<lparr>buffer_vec := readable b @ drop (length (readable b)) (buffer_vec b), readPos := 0, writePos := ReadableBytes b\<rparr>"
  have "MakeSpace len b = Some ?b"
    using False unfolding MakeSpace_def readable_def [symmetric] Let_def by (simp add: readable_def sizes)
  moreover have "buffer_ok ?b" "len \<le> WritableBytes ?b"
    using False assms length_readable [OF assms(1)] by (simp_all add: buffer_ok_def sizes)
  moreover have "readable ?b = readable b"
    unfolding readable_def [of ?b] using length_readable [OF assms(1)] by (simp add: Peek_def ReadableBytes_def)
  ultimately show thesis using that by blast
qed

lemma EnsureWriteable_ok:
  assumes "buffer_ok b"
  obtains b' where "EnsureWriteable len b = Some b'" "buffer_ok b'" "readable b' = readable b" "len \<le> WritableBytes b'"
proof (cases "WritableBytes b < len")
  case True
  obtain b' where "MakeSpace len b = Some b'" "buffer_ok b'" "readable b' = readable b" "len \<le> WritableBytes b'"
    by (rule MakeSpace_ok [OF assms True])
  then show thesis using that True by (simp add: EnsureWriteable_def)
qed (use that assms in \<open>simp add: EnsureWriteable_def\<close>)

lemma readable_written:
  assumes "buffer_ok b" "writePos b + length xs \<le> length (buffer_vec b)"
  shows "write_at (writePos b) xs (buffer_vec b) = Some (take (writePos b) (buffer_vec b) @ xs @ drop (writePos b + length xs) (buffer_vec b))"
    and "buffer_ok (b\<lparr>buffer_vec := take (writePos b) (buffer_vec b) @ xs @ drop (writePos b + length xs) (buffer_vec b),
                     writePos := writePos b + length xs\<rparr>)"
    and "readable (b\<lparr>buffer_vec := take (writePos b) (buffer_vec b) @ xs @ drop (writePos b + length xs) (buffer_vec b),
                     writePos := writePos b + length xs\<rparr>) = readable b @ xs"
proof -
  have e: "min (length (buffer_vec b) - readPos b) (writePos b - readPos b) = writePos b - readPos b" "readPos b + (writePos b - readPos b) = writePos b"
    using assms by (auto simp: buffer_ok_def)
  show "write_at (writePos b) xs (buffer_vec b) = Some (take (writePos b) (buffer_vec b) @ xs @ drop (writePos b + length xs) (buffer_vec b))"
    using assms(2) by (simp add: write_at_def)
  show "buffer_ok (b\<lparr>buffer_vec := take (writePos b) (buffer_vec b) @ xs @ drop (writePos b + length xs) (buffer_vec b),
                     writePos := writePos b + length xs\<rparr>)"
    using assms by (auto simp: buffer_ok_def)
  show "readable (b\<lparr>buffer_vec := take (writePos b) (buffer_vec b) @ xs @ drop (writePos b + length xs) (buffer_vec b),
                     writePos := writePos b + length xs\<rparr>) = readable b @ xs"
    using assms(1) by (simp add: readable_def sizes drop_take e buffer_ok_def)
qed

lemma Append_ok:
  assumes "buffer_ok b"
  obtains b' where "Append str b = Some b'" "buffer_ok b'" "readable b' = readable b @ str"
proof -
  obtain b1 where b1: "EnsureWriteable (length str) b = Some b1" "buffer_ok b1" "readable b1 = readable b"
    "length str \<le> WritableBytes b1"
    by (rule EnsureWriteable_ok [OF assms])
  have "writePos b1 + length str \<le> length (buffer_vec b1)" using b1(2,4) by (auto simp: buffer_ok_def sizes)
  note w = readable_written [OF b1(2) this]
  show thesis
    by (rule that [OF _ w(2)]) (use w b1 in \<open>simp_all add: Append_def HasWritten_def BeginWrite_def\<close>)
qed

lemma Retrieve_ok:
  assumes "buffer_ok b"
  shows "Retrieve n b = (if n \<le> length (readable b) then Some (b\<lparr>readPos := readPos b + n\<rparr>) else None)"
    and "n \<le> length (readable b) \<Longrightarrow> buffer_ok (b\<lparr>readPos := readPos b + n\<rparr>)"
    and "n \<le> length (readable b) \<Longrightarrow> readable (b\<lparr>readPos := readPos b + n\<rparr>) = drop n (readable b)"
  using assms unfolding length_readable [OF assms]
  by (auto simp: Retrieve_def buffer_ok_def readable_def sizes drop_take add.commute)

text \<open>A read through the buffer: look at the readable bytes, then retire them.\<close>

definition read_bytes :: "Buffer \<Rightarrow> nat \<Rightarrow> (string \<times> Buffer) option" where
  "read_bytes b n =
     (case Retrieve n b of None \<Rightarrow> None | Some b' \<Rightarrow> Some (take n (drop (Peek b) (buffer_vec b)), b'))"

lemma read_bytes_eq:
  assumes "buffer_ok b"
  shows "read_bytes b n = (if n \<le> length (readable b) then Some (take n (readable b), b\<lparr>readPos := readPos b + n\<rparr>) else None)"
  using assms by (auto simp: read_bytes_def Retrieve_ok(1) length_readable readable_def min_def)

interpretation buffer: total_fifo buffer_ok readable "\<lambda>b xs. Append xs b" read_bytes
proof (unfold_locales, goal_cases)
  case (1 b xs b')
  then show ?case using Append_ok [OF 1(1), of xs] by (metis option.inject)
next
  case (2 b n ys b')
  then show ?case using Retrieve_ok [OF 2(1), of n] by (auto simp: read_bytes_eq split: if_splits)
next
  case (3 b xs)
  then show ?case using Append_ok [OF 3, of xs] by metis
next
  case (4 b n)
  then show ?case by (auto simp: read_bytes_eq)
qed

text \<open>
  A buffer is a byte stream: for every initial size and every sequence of appends and reads in which no read asks for
  more than is there, no assertion fails and no write leaves the vector - whether the data is moved to the front or the
  vector grows - and the bytes read followed by the bytes still readable are exactly the bytes appended.
\<close>

theorem buffer_stream:
  assumes "takes_fit 0 ops"
  shows "\<exists>out b. fifo_run (\<lambda>b xs. Append xs b) read_bytes (Buffer_new n) ops = Some (out, b) \<and>
           buffer_ok b \<and> out @ readable b = puts ops"
proof -
  obtain out b where r: "fifo_run (\<lambda>b xs. Append xs b) read_bytes (Buffer_new n) ops = Some (out, b)"
    using buffer.fifo_run_total [OF Buffer_new_ok(1), of n ops] assms by (auto simp: Buffer_new_ok(2))
  then show ?thesis using buffer.fifo_stream [OF Buffer_new_ok(1) r] by (simp add: Buffer_new_ok(2))
qed

theorem buffer_stream_witness:
  "\<exists>out b. fifo_run (\<lambda>b xs. Append xs b) read_bytes (Buffer_new 4) [Put ''abc'', Take 2, Put ''def'', Put ''ghi'', Take 5] = Some (out, b) \<and>
     buffer_ok b \<and> out @ readable b = ''abcdefghi''"
  using buffer_stream [of "[Put ''abc'', Take 2, Put ''def'', Put ''ghi'', Take 5]" 4] by simp

section \<open>System calls\<close>

lemma ReadFd_ok:
  assumes "buffer_ok b" "length data \<le> WritableBytes b + 65535"
  obtains b' where "ReadFd (Inr data) b = Some (Inr (length data), b')" "buffer_ok b'" "readable b' = readable b @ data"
proof (cases "length data \<le> WritableBytes b")
  case True
  have "writePos b + length data \<le> length (buffer_vec b)" using True assms(1) by (auto simp: buffer_ok_def sizes)
  note w = readable_written [OF assms(1) this]
  show thesis by (rule that [OF _ w(2,3)]) (use w(1) True in \<open>simp add: ReadFd_def Let_def\<close>)
next
  case False
  let ?n = "WritableBytes b"
  have len: "length (take ?n data) = ?n" using False by simp
  have "writePos b + length (take ?n data) \<le> length (buffer_vec b)" using assms(1) by (auto simp: buffer_ok_def sizes)
  note w = readable_written [OF assms(1) this]
  have "writePos b + ?n = length (buffer_vec b)" using assms(1) by (simp add: buffer_ok_def sizes)
  obtain b' where "Append (drop ?n data) (b\<lparr>buffer_vec := take (writePos b) (buffer_vec b) @ take ?n data @
      drop (writePos b + length (take ?n data)) (buffer_vec b), writePos := writePos b + length (take ?n data)\<rparr>) = Some b'"
    "buffer_ok b'" "readable b' = (readable b @ take ?n data) @ drop ?n data"
    using Append_ok [OF w(2), of "drop ?n data"] w(3) by metis
  then show thesis
    using that False assms(2) w(1) len \<open>writePos b + ?n = _\<close> by (simp add: ReadFd_def Let_def)
qed

text \<open>
  Scatter reading loses nothing: whatever number of bytes the kernel delivers into the vector and the stack array,
  \<open>ReadFd\<close> appends exactly those bytes to the readable ones and keeps the invariant; on an error it changes nothing.
  \<open>WriteFd\<close> retires exactly the bytes the kernel took.
\<close>

theorem buffer_syscalls:
  assumes "buffer_ok b" "length data \<le> WritableBytes b + 65535" "k \<le> ReadableBytes b"
  shows "(\<exists>b'. ReadFd (Inr data) b = Some (Inr (length data), b') \<and> buffer_ok b' \<and> readable b' = readable b @ data) \<and>
    ReadFd (Inl errno) b = Some (Inl errno, b) \<and>
    (let (r, b') = WriteFd (Inr k) b in r = Inr k \<and> buffer_ok b' \<and> readable b' = drop k (readable b))"
proof (intro conjI)
  show "\<exists>b'. ReadFd (Inr data) b = Some (Inr (length data), b') \<and> buffer_ok b' \<and> readable b' = readable b @ data"
    using ReadFd_ok [OF assms(1,2)] by metis
  show "ReadFd (Inl errno) b = Some (Inl errno, b)" by (simp add: ReadFd_def)
  show "let (r, b') = WriteFd (Inr k) b in r = Inr k \<and> buffer_ok b' \<and> readable b' = drop k (readable b)"
    using Retrieve_ok(2,3) [OF assms(1), of k] assms(3) by (simp add: WriteFd_def length_readable [OF assms(1)])
qed

theorem buffer_syscalls_witness:
  "(\<exists>b'. ReadFd (Inr ''hello'') (Buffer_new 2) = Some (Inr (length ''hello''), b') \<and> buffer_ok b' \<and>
      readable b' = readable (Buffer_new 2) @ ''hello'') \<and>
    ReadFd (Inl 11) (Buffer_new 2) = Some (Inl 11, Buffer_new 2) \<and>
    (let (r, b') = WriteFd (Inr 0) (Buffer_new 2) in r = Inr 0 \<and> buffer_ok b' \<and> readable b' = drop 0 (readable (Buffer_new 2)))"
  by (rule buffer_syscalls [of "Buffer_new 2" "''hello''" 0 11]) (simp_all add: Buffer_new_ok)

end
