(* ===== verification/Block_Queue.thy ===== *)
theory Block_Queue
  imports Fifo
begin

text \<open>
  The two bounded queues between threads: the blocking deque of \<^verbatim>\<open>lib/blockqueue.h\<close> and the circular array of
  \<^verbatim>\<open>lib/lockfree_queue.hpp\<close>.

  Every method of the deque holds its mutex, so a method is one atomic step up to a \<^verbatim>\<open>wait\<close>; a call that waits is
  the outcome \<open>None\<close> or \<open>Waits\<close>, and what it does when it is woken is a definition of its own. The circular array has
  no lock: next to its methods as a single thread runs them, they are given as sequences of atomic actions that may
  interleave.
\<close>

section \<open>The blocking deque\<close>

record 'a BlockDeque =
  deq :: "'a list"
  deq_capacity :: nat
  isClose :: bool

definition BlockDeque_new :: "nat \<Rightarrow> 'a BlockDeque option" where
  "BlockDeque_new MaxCapacity =
     (if 0 < MaxCapacity then Some \<lparr>deq = [], deq_capacity = MaxCapacity, isClose = False\<rparr> else None)"

definition Close :: "'a BlockDeque \<Rightarrow> 'a BlockDeque" where
  "Close d = d\<lparr>deq := [], isClose := True\<rparr>"

definition clear :: "'a BlockDeque \<Rightarrow> 'a BlockDeque" where
  "clear d = d\<lparr>deq := []\<rparr>"

text \<open>\<^verbatim>\<open>front\<close> and \<^verbatim>\<open>back\<close> of an empty deque are undefined behaviour.\<close>

definition deque_front :: "'a BlockDeque \<Rightarrow> 'a option" where
  "deque_front d = (if deq d = [] then None else Some (hd (deq d)))"

definition deque_back :: "'a BlockDeque \<Rightarrow> 'a option" where
  "deque_back d = (if deq d = [] then None else Some (last (deq d)))"

definition deque_size :: "'a BlockDeque \<Rightarrow> nat" where
  "deque_size d = length (deq d)"

definition capacity :: "'a BlockDeque \<Rightarrow> nat" where
  "capacity d = deq_capacity d"

definition deque_empty :: "'a BlockDeque \<Rightarrow> bool" where
  "deque_empty d \<longleftrightarrow> deq d = []"

definition full :: "'a BlockDeque \<Rightarrow> bool" where
  "full d \<longleftrightarrow> deq_capacity d \<le> length (deq d)"

text \<open>\<open>None\<close>: the producer waits; when woken it makes the same test again.\<close>

definition push_back :: "'a \<Rightarrow> 'a BlockDeque \<Rightarrow> 'a BlockDeque option" where
  "push_back item d = (if deq_capacity d \<le> length (deq d) then None else Some (d\<lparr>deq := deq d @ [item]\<rparr>))"

definition push_front :: "'a \<Rightarrow> 'a BlockDeque \<Rightarrow> 'a BlockDeque option" where
  "push_front item d = (if deq_capacity d \<le> length (deq d) then None else Some (d\<lparr>deq := item # deq d\<rparr>))"

datatype 'a pop_outcome = Waits | Closed | Popped 'a "'a BlockDeque"

definition pop :: "'a BlockDeque \<Rightarrow> 'a pop_outcome" where
  "pop d = (case deq d of [] \<Rightarrow> Waits | item # rest \<Rightarrow> Popped item (d\<lparr>deq := rest\<rparr>))"

definition pop_woken :: "'a BlockDeque \<Rightarrow> 'a pop_outcome" where
  "pop_woken d = (if isClose d then Closed else pop d)"

definition pop_timeout :: "bool \<Rightarrow> 'a BlockDeque \<Rightarrow> 'a pop_outcome" where
  "pop_timeout timed_out d = (if timed_out then Closed else pop_woken d)"

section \<open>The circular array\<close>

record 'a lockFreeQueue =
  q_arr :: "'a list"
  q_head :: nat
  q_tail :: nat
  readableCnt :: int
  writeableCnt :: int

definition lockFreeQueue_new :: "'a list \<Rightarrow> 'a lockFreeQueue" where
  "lockFreeQueue_new storage =
     \<lparr>q_arr = storage, q_head = 0, q_tail = 0, readableCnt = 0, writeableCnt = int (length storage)\<rparr>"

definition wrap_add :: "nat \<Rightarrow> nat \<Rightarrow> nat \<times> nat" where
  "wrap_add n k = (let k = (if k = n then 0 else k) in (k mod n, k + 1))"

definition queue :: "'a \<Rightarrow> 'a lockFreeQueue \<Rightarrow> bool \<times> 'a lockFreeQueue" where
  "queue node d =
     (if writeableCnt d \<le> 0 then (False, d)
      else
        (let (pos, t) = wrap_add (length (q_arr d)) (q_tail d) in
         (True, d\<lparr>writeableCnt := writeableCnt d - 1, q_tail := t, q_arr := (q_arr d)[pos := node],
                  readableCnt := readableCnt d + 1\<rparr>)))"

definition deque :: "'a lockFreeQueue \<Rightarrow> 'a option \<times> 'a lockFreeQueue" where
  "deque d =
     (if readableCnt d \<le> 0 then (None, d)
      else
        (let (pos, h) = wrap_add (length (q_arr d)) (q_head d) in
         (Some (q_arr d ! pos), d\<lparr>readableCnt := readableCnt d - 1, q_head := h, writeableCnt := writeableCnt d + 1\<rparr>)))"

text \<open>The same methods as the atomic actions of a thread, in the order of the code.\<close>

datatype 'a lf_pc = Q_reserve 'a | Q_undo | Q_wrap 'a | Q_claim 'a | Q_store nat 'a | Q_publish
  | D_reserve | D_undo | D_wrap | D_claim | D_load nat | D_release 'a | Returned "'a option" bool

fun lf_step :: "'a lf_pc \<Rightarrow> 'a lockFreeQueue \<Rightarrow> 'a lf_pc \<times> 'a lockFreeQueue" where
  "lf_step (Q_reserve node) d =
     (if writeableCnt d \<le> 0 then Q_undo else Q_wrap node, d\<lparr>writeableCnt := writeableCnt d - 1\<rparr>)"
| "lf_step Q_undo d = (Returned None False, d\<lparr>writeableCnt := writeableCnt d + 1\<rparr>)"
| "lf_step (Q_wrap node) d = (Q_claim node, if q_tail d = length (q_arr d) then d\<lparr>q_tail := 0\<rparr> else d)"
| "lf_step (Q_claim node) d = (Q_store (q_tail d mod length (q_arr d)) node, d\<lparr>q_tail := q_tail d + 1\<rparr>)"
| "lf_step (Q_store pos node) d = (Q_publish, d\<lparr>q_arr := (q_arr d)[pos := node]\<rparr>)"
| "lf_step Q_publish d = (Returned None True, d\<lparr>readableCnt := readableCnt d + 1\<rparr>)"
| "lf_step D_reserve d =
     (if readableCnt d \<le> 0 then D_undo else D_wrap, d\<lparr>readableCnt := readableCnt d - 1\<rparr>)"
| "lf_step D_undo d = (Returned None False, d\<lparr>readableCnt := readableCnt d + 1\<rparr>)"
| "lf_step D_wrap d = (D_claim, if q_head d = length (q_arr d) then d\<lparr>q_head := 0\<rparr> else d)"
| "lf_step D_claim d = (D_load (q_head d mod length (q_arr d)), d\<lparr>q_head := q_head d + 1\<rparr>)"
| "lf_step (D_load pos) d = (D_release (q_arr d ! pos), d)"
| "lf_step (D_release node) d = (Returned (Some node) True, d\<lparr>writeableCnt := writeableCnt d + 1\<rparr>)"
| "lf_step (Returned r ok) d = (Returned r ok, d)"

text \<open>A schedule names, step by step, the thread that performs its next action.\<close>

fun lf_run :: "'a lf_pc list \<Rightarrow> 'a lockFreeQueue \<Rightarrow> nat list \<Rightarrow> 'a lf_pc list \<times> 'a lockFreeQueue" where
  "lf_run ts d [] = (ts, d)"
| "lf_run ts d (k # ks) = (let (pc, d') = lf_step (ts ! k) d in lf_run (ts[k := pc]) d' ks)"

section \<open>Contract of the deque\<close>

definition deque_ok :: "'a BlockDeque \<Rightarrow> bool" where
  "deque_ok d \<longleftrightarrow> 0 < deq_capacity d \<and> length (deq d) \<le> deq_capacity d"

fun push_all :: "'a BlockDeque \<Rightarrow> 'a list \<Rightarrow> 'a BlockDeque option" where
  "push_all d [] = Some d"
| "push_all d (x # xs) = (case push_back x d of None \<Rightarrow> None | Some d' \<Rightarrow> push_all d' xs)"

fun pop_n :: "'a BlockDeque \<Rightarrow> nat \<Rightarrow> ('a list \<times> 'a BlockDeque) option" where
  "pop_n d 0 = Some ([], d)"
| "pop_n d (Suc n) =
     (case pop d of
        Popped x d' \<Rightarrow> (case pop_n d' n of None \<Rightarrow> None | Some (xs, d'') \<Rightarrow> Some (x # xs, d''))
      | _ \<Rightarrow> None)"

lemma push_all_ok: "deque_ok d \<Longrightarrow> push_all d xs = Some d' \<Longrightarrow> deque_ok d' \<and> deq_capacity d' = deq_capacity d \<and> deq d' = deq d @ xs"
proof (induction xs arbitrary: d)
  case (Cons x xs)
  then obtain d1 where d1: "push_back x d = Some d1" "push_all d1 xs = Some d'" by (auto split: option.splits)
  then have "deque_ok d1" "deq_capacity d1 = deq_capacity d" "deq d1 = deq d @ [x]" using Cons.prems(1) by (auto simp: push_back_def deque_ok_def split: if_splits)
  then show ?case using Cons.IH [OF _ d1(2)] by simp
qed simp

lemma pop_n_ok: "deque_ok d \<Longrightarrow> pop_n d n = Some (ys, d') \<Longrightarrow> deque_ok d' \<and> deq_capacity d' = deq_capacity d \<and> ys @ deq d' = deq d"
proof (induction n arbitrary: d ys)
  case (Suc n)
  then obtain x d1 xs where d1: "pop d = Popped x d1" "pop_n d1 n = Some (xs, d')" "ys = x # xs"
    by (auto split: pop_outcome.splits option.splits)
  then have "deque_ok d1" "deq_capacity d1 = deq_capacity d" "x # deq d1 = deq d" using Suc.prems(1) by (auto simp: pop_def deque_ok_def split: list.splits)
  then show ?case using Suc.IH [OF _ d1(2)] d1(3) by auto
qed simp

interpretation block_deque: fifo "\<lambda>d. deque_ok d \<and> deq_capacity d = n" deq push_all pop_n for n
  by unfold_locales (use push_all_ok pop_n_ok in blast)+

section \<open>Contract of the circular array run by one thread\<close>

definition lf_content :: "'a lockFreeQueue \<Rightarrow> 'a list" where
  "lf_content d = map (\<lambda>i. q_arr d ! ((q_head d + i) mod length (q_arr d))) [0 ..< nat (readableCnt d)]"

definition lf_ok :: "'a lockFreeQueue \<Rightarrow> bool" where
  "lf_ok d \<longleftrightarrow> 0 < length (q_arr d) \<and> 0 \<le> readableCnt d \<and> readableCnt d + writeableCnt d = int (length (q_arr d)) \<and>
     0 \<le> writeableCnt d \<and> q_head d \<le> length (q_arr d) \<and> q_tail d \<le> length (q_arr d) \<and>
     q_tail d mod length (q_arr d) = (q_head d + nat (readableCnt d)) mod length (q_arr d)"

fun queue_all :: "'a lockFreeQueue \<Rightarrow> 'a list \<Rightarrow> 'a lockFreeQueue option" where
  "queue_all d [] = Some d"
| "queue_all d (x # xs) = (case queue x d of (True, d') \<Rightarrow> queue_all d' xs | (False, _) \<Rightarrow> None)"

fun deque_n :: "'a lockFreeQueue \<Rightarrow> nat \<Rightarrow> ('a list \<times> 'a lockFreeQueue) option" where
  "deque_n d 0 = Some ([], d)"
| "deque_n d (Suc n) =
     (case deque d of
        (Some x, d') \<Rightarrow> (case deque_n d' n of None \<Rightarrow> None | Some (xs, d'') \<Rightarrow> Some (x # xs, d''))
      | (None, _) \<Rightarrow> None)"

lemma wrap_add_props:
  assumes "0 < n" "k \<le> n" "wrap_add n k = (pos, k')"
  shows "pos = k mod n" "k' \<le> n" "k' mod n = (k + 1) mod n"
  using assms by (auto simp: wrap_add_def Let_def mod_Suc split: if_splits)

lemma mod_shift_neq:
  assumes "i < r" "r < (n :: nat)"
  shows "(h + i) mod n \<noteq> (h + r) mod n"
proof
  assume "(h + i) mod n = (h + r) mod n"
  then have "n dvd h + r - (h + i)" by (metis mod_eq_dvd_iff_nat add_le_cancel_left assms(1) less_imp_le)
  then have "n dvd r - i" by simp
  then show False using assms by (metis dvd_imp_le less_le_trans less_imp_diff_less nat_less_le not_le zero_less_diff)
qed

lemma queue_ok:
  assumes "lf_ok d" "queue x d = (True, d')"
  shows "lf_ok d' \<and> length (q_arr d') = length (q_arr d) \<and> lf_content d' = lf_content d @ [x]"
proof -
  let ?n = "length (q_arr d)"
  have room: "0 < writeableCnt d" using assms(2) by (auto simp: queue_def split: if_splits)
  obtain pos t where w: "wrap_add ?n (q_tail d) = (pos, t)" by (cases "wrap_add ?n (q_tail d)")
  then have d': "d' = d\<lparr>writeableCnt := writeableCnt d - 1, q_tail := t, q_arr := (q_arr d)[pos := x],
                  readableCnt := readableCnt d + 1\<rparr>"
    using assms(2) room by (auto simp: queue_def)
  have p: "pos = (q_head d + nat (readableCnt d)) mod ?n" "t \<le> ?n" "t mod ?n = (q_tail d + 1) mod ?n"
    using wrap_add_props [OF _ _ w] assms(1) by (auto simp: lf_ok_def)
  have r: "nat (readableCnt d) < ?n" "nat (readableCnt d + 1) = Suc (nat (readableCnt d))"
    using assms(1) room by (auto simp: lf_ok_def)
  have "(q_arr d)[pos := x] ! ((q_head d + i) mod ?n) = q_arr d ! ((q_head d + i) mod ?n)" if "i < nat (readableCnt d)" for i
    using mod_shift_neq [OF that r(1), of "q_head d"] p(1) by simp
  moreover have "(q_arr d)[pos := x] ! ((q_head d + nat (readableCnt d)) mod ?n) = x"
    using p(1) assms(1) by (simp add: lf_ok_def)
  ultimately have "lf_content d' = lf_content d @ [x]"
    by (simp add: lf_content_def d' r(2))
  moreover have "t mod ?n = (q_head d + nat (readableCnt d + 1)) mod ?n"
    unfolding p(3) r(2) using assms(1) by (metis (no_types) lf_ok_def add_Suc_right mod_add_left_eq Suc_eq_plus1)
  then have "lf_ok d'"
    using assms(1) room p(2) by (auto simp: lf_ok_def d')
  ultimately show ?thesis by (simp add: d')
qed

lemma deque_step_ok:
  assumes "lf_ok d" "deque d = (Some x, d')"
  shows "lf_ok d' \<and> length (q_arr d') = length (q_arr d) \<and> x # lf_content d' = lf_content d"
proof -
  let ?n = "length (q_arr d)"
  have some: "0 < readableCnt d" using assms(2) by (auto simp: deque_def split: if_splits)
  obtain pos h where w: "wrap_add ?n (q_head d) = (pos, h)" by (cases "wrap_add ?n (q_head d)")
  then have d': "d' = d\<lparr>readableCnt := readableCnt d - 1, q_head := h, writeableCnt := writeableCnt d + 1\<rparr>" "x = q_arr d ! pos"
    using assms(2) some by (auto simp: deque_def)
  have p: "pos = q_head d mod ?n" "h \<le> ?n" "h mod ?n = (q_head d + 1) mod ?n"
    using wrap_add_props [OF _ _ w] assms(1) by (auto simp: lf_ok_def)
  have r: "nat (readableCnt d) = Suc (nat (readableCnt d - 1))" using some by simp
  have sh: "(h + i) mod ?n = (q_head d + Suc i) mod ?n" for i
    using p(3) by (metis add_Suc_right add_Suc Suc_eq_plus1 mod_add_left_eq)
  have "[0 ..< nat (readableCnt d)] = 0 # map Suc [0 ..< nat (readableCnt d - 1)]"
    unfolding r by (simp add: upt_conv_Cons map_Suc_upt)
  then have "x # lf_content d' = lf_content d"
    unfolding lf_content_def by (simp add: d' p(1) sh o_def)
  moreover have "lf_ok d'"
    using assms(1) some p(2) sh [of "nat (readableCnt d - 1)"] r by (auto simp: lf_ok_def d')
  ultimately show ?thesis by (simp add: d')
qed

lemma queue_all_ok: "lf_ok d \<Longrightarrow> queue_all d xs = Some d' \<Longrightarrow> lf_ok d' \<and> length (q_arr d') = length (q_arr d) \<and> lf_content d' = lf_content d @ xs"
proof (induction xs arbitrary: d)
  case (Cons x xs)
  then obtain d1 where d1: "queue x d = (True, d1)" "queue_all d1 xs = Some d'" by (auto split: prod.splits bool.splits)
  then show ?case using Cons.IH [OF _ d1(2)] queue_ok [OF Cons.prems(1) d1(1)] by simp
qed simp

lemma deque_n_ok: "lf_ok d \<Longrightarrow> deque_n d n = Some (ys, d') \<Longrightarrow> lf_ok d' \<and> length (q_arr d') = length (q_arr d) \<and> ys @ lf_content d' = lf_content d"
proof (induction n arbitrary: d ys)
  case (Suc n)
  then obtain x d1 xs where d1: "deque d = (Some x, d1)" "deque_n d1 n = Some (xs, d')" "ys = x # xs"
    by (auto split: prod.splits option.splits)
  then show ?case using Suc.IH [OF _ d1(2)] deque_step_ok [OF Suc.prems(1) d1(1)] by auto
qed simp

interpretation lock_free: fifo "\<lambda>d. lf_ok d \<and> length (q_arr d) = n" lf_content queue_all deque_n for n
  by unfold_locales (use queue_all_ok deque_n_ok in blast)+

lemma lockFreeQueue_new_ok:
  "0 < length storage \<Longrightarrow> lf_ok (lockFreeQueue_new storage) \<and> length (q_arr (lockFreeQueue_new storage)) = length storage \<and>
     lf_content (lockFreeQueue_new storage) = []"
  by (simp add: lf_ok_def lockFreeQueue_new_def lf_content_def)

lemma lf_content_bound: "lf_ok d \<Longrightarrow> length (lf_content d) \<le> length (q_arr d)"
  by (auto simp: lf_ok_def lf_content_def)

text \<open>
  (C37) Both bounded queues, used by one thread at a time, deliver in order and lose nothing. For every sequence of \<^verbatim>\<open>push_back\<close> and \<^verbatim>\<open>pop\<close> on the blocking queue that does not block,
  and of \<^verbatim>\<open>queue\<close> and \<^verbatim>\<open>deque\<close> on the circular array that does not wait, the items taken out followed by the items still inside are the items put in, and never more items are inside than
  the capacity the queue was made with; for the circular array this includes every wrap-around of its two positions. Not covered are the other operations of the blocking
  queue, and several threads on the array, where \<open>lock_free_race\<close> shows that it fails.
\<close>

theorem bounded_queues_fifo:
  assumes "0 < n" "length storage = n"
  shows "(\<forall>d out d'. BlockDeque_new n = Some d \<and> fifo_run push_all pop_n d ops = Some (out, d') \<longrightarrow>
      out @ deq d' = puts ops \<and> deque_size d' \<le> n) \<and>
    (\<forall>out d'. fifo_run queue_all deque_n (lockFreeQueue_new storage) ops = Some (out, d') \<longrightarrow>
      out @ lf_content d' = puts ops \<and> length (lf_content d') \<le> n)"
proof (intro conjI allI impI, goal_cases)
  case (1 d out d')
  have "deque_ok d \<and> deq_capacity d = n" "deq d = []"
    using 1 assms(1) by (auto simp: BlockDeque_new_def deque_ok_def)
  then show ?case using block_deque.fifo_stream [of d n ops out d'] 1 by (simp add: deque_size_def deque_ok_def)
next
  case (2 d out d')
  have "deque_ok d \<and> deq_capacity d = n" "deq d = []"
    using 2 assms(1) by (auto simp: BlockDeque_new_def deque_ok_def)
  then show ?case using block_deque.fifo_stream [of d n ops out d'] 2 by (auto simp: deque_size_def deque_ok_def)
next
  case (3 out d')
  then show ?case using lock_free.fifo_stream [of "lockFreeQueue_new storage" n ops out d'] lockFreeQueue_new_ok [of storage] assms by auto
next
  case (4 out d')
  then show ?case using lock_free.fifo_stream [of "lockFreeQueue_new storage" n ops out d'] lockFreeQueue_new_ok [of storage] assms lf_content_bound [of d'] by auto
qed

theorem bounded_queues_fifo_witness:
  "\<exists>out d'. fifo_run queue_all deque_n (lockFreeQueue_new [0, 0]) [Put [1, 2], Take 1, Put [3 :: nat]] = Some (out, d') \<and>
     out @ lf_content d' = [1, 2, 3] \<and> length (lf_content d') \<le> 2"
proof -
  obtain out d' where r: "fifo_run queue_all deque_n (lockFreeQueue_new [0, 0]) [Put [1, 2], Take 1, Put [3 :: nat]] = Some (out, d')"
    by (simp add: lockFreeQueue_new_def queue_def deque_def wrap_add_def numeral_eq_Suc)
  then show ?thesis using bounded_queues_fifo [of 2 "[0, 0]" "[Put [1, 2], Take 1, Put [3 :: nat]]"] by simp
qed

text \<open>
  The circular array is not safe for two producers: a slot is claimed before it is filled, and the count of readable
  slots does not say which ones. Whatever the array holds, two calls of \<open>queue\<close> and one of \<open>deque\<close> can interleave so that
  \<open>deque\<close> reports success and returns the old content of slot 0, which nobody queued.
\<close>

theorem lock_free_race:
  assumes "2 \<le> length storage"
  shows "\<exists>schedule ts d. lf_run [Q_reserve a, Q_reserve b, D_reserve] (lockFreeQueue_new storage) schedule = (ts, d) \<and>
    ts ! 2 = Returned (Some (storage ! 0)) True"
proof -
  obtain x y rest where s: "storage = x # y # rest" using assms by (auto simp: numeral_eq_Suc Suc_le_length_iff)
  show ?thesis
    by (rule exI [of _ "[0, 0, 0, 1, 1, 1, 1, 1, 2, 2, 2, 2, 2]"]) (simp add: s lockFreeQueue_new_def)
qed

theorem lock_free_race_witness:
  "\<exists>schedule ts d. lf_run [Q_reserve 7, Q_reserve 8, D_reserve] (lockFreeQueue_new [0, 0 :: nat]) schedule = (ts, d) \<and>
    ts ! 2 = Returned (Some 0) True"
  using lock_free_race [of "[0, 0 :: nat]" 7 8] by simp

text \<open>A consumer that calls \<open>pop\<close> after \<open>Close\<close> waits although nobody will wake it, and a producer still adds items.\<close>

lemma closed_deque_waits:
  "pop (Close d) = Waits" "pop_woken (Close d) = Closed"
  "0 < deq_capacity d \<Longrightarrow> push_back x (Close d) = Some (Close d\<lparr>deq := [x]\<rparr>)"
  by (simp_all add: pop_def pop_woken_def Close_def push_back_def)

end
