(* ===== verification/Io_Queue.thy ===== *)
theory Io_Queue
  imports Fifo
begin

text \<open>
  The intrusive task queue of \<^verbatim>\<open>include/netcore/basic.hpp\<close> (\<^verbatim>\<open>struct Queue\<close>) over an explicit heap, and the task part of
  the event loop \<^verbatim>\<open>IoContext::run\<close> of \<^verbatim>\<open>include/netcore/core.hpp\<close>.

  A node address is a natural number, a pointer an address option with \<open>None\<close> for \<^verbatim>\<open>nullptr\<close>, and the heap gives the
  \<^verbatim>\<open>m_next\<close> field of every node. Dereferencing \<^verbatim>\<open>nullptr\<close> and not terminating are the result \<open>None\<close>.
\<close>

type_synonym addr = nat
type_synonym node_heap = "addr \<Rightarrow> addr option"

section \<open>The queue\<close>

record Queue =
  before_head :: "addr option"
  m_tail :: "addr option"
  queue_size :: int

definition Queue_new :: Queue where
  "Queue_new = \<lparr>before_head = None, m_tail = None, queue_size = 0\<rparr>"

partial_function (option) count_from :: "node_heap \<Rightarrow> addr option \<Rightarrow> nat \<Rightarrow> nat option" where
  [code]: "count_from h p n = (case p of None \<Rightarrow> Some n | Some a \<Rightarrow> count_from h (h a) (n + 1))"

definition count :: "node_heap \<times> Queue \<Rightarrow> nat option" where
  "count hq = count_from (fst hq) (before_head (snd hq)) 0"

definition queue_clear :: "node_heap \<times> Queue \<Rightarrow> node_heap \<times> Queue" where
  "queue_clear hq = (fst hq, (snd hq)\<lparr>before_head := None, m_tail := None\<rparr>)"

definition push :: "addr \<Rightarrow> node_heap \<times> Queue \<Rightarrow> node_heap \<times> Queue" where
  "push node hq =
     (let (h, q) = hq; h = h(node := None);
          (h, q) = (case m_tail q of
                      None \<Rightarrow> (h, q\<lparr>before_head := Some node\<rparr>)
                    | Some t \<Rightarrow> (h(t := Some node), q))
      in (h, q\<lparr>m_tail := Some node, queue_size := queue_size q + 1\<rparr>))"

definition pop :: "node_heap \<times> Queue \<Rightarrow> addr option \<times> node_heap \<times> Queue" where
  "pop hq =
     (let (h, q) = hq in
      case before_head q of
        None \<Rightarrow> (None, h, q)
      | Some head \<Rightarrow>
          (let new_head = h head; q = q\<lparr>before_head := new_head\<rparr>;
               q = (if new_head = None then q\<lparr>m_tail := None\<rparr> else q)
           in (Some head, h, q\<lparr>queue_size := queue_size q - 1\<rparr>)))"

definition pop_nocheck :: "node_heap \<times> Queue \<Rightarrow> (addr \<times> bool \<times> node_heap \<times> Queue) option" where
  "pop_nocheck hq =
     (let (h, q) = hq in
      case before_head q of
        None \<Rightarrow> None
      | Some head \<Rightarrow>
          (let new_head = h head; q = q\<lparr>before_head := new_head\<rparr>; is_empty = (new_head = None);
               q = (if is_empty then q\<lparr>m_tail := None\<rparr> else q)
           in Some (head, is_empty, h, q\<lparr>queue_size := queue_size q - 1\<rparr>)))"

section \<open>The task loop\<close>

text \<open>
  \<open>env\<close> is the rest of the program's state and \<open>ran\<close> the tasks called so far. A callback can change the queue only through
  \<open>post_task\<close>, so it is given by the tasks it posts, in order, and its effect on the rest; an exception it throws is
  caught by the loop and ends it early with what it has done.
\<close>

record 'e io =
  io_queue :: "node_heap \<times> Queue"
  io_env :: 'e
  io_ran :: "addr list"

definition post_task :: "addr \<Rightarrow> 'e io \<Rightarrow> 'e io" where
  "post_task a st = st\<lparr>io_queue := push a (io_queue st)\<rparr>"

definition call_task :: "(addr \<Rightarrow> 'e \<Rightarrow> addr list \<times> 'e) \<Rightarrow> addr \<Rightarrow> 'e io \<Rightarrow> 'e io" where
  "call_task cb a st =
     (let (posts, e) = cb a (io_env st)
      in fold post_task posts (st\<lparr>io_env := e, io_ran := io_ran st @ [a]\<rparr>))"

definition pop_task :: "'e io \<Rightarrow> addr option \<times> 'e io" where
  "pop_task st = (let (node, hq) = pop (io_queue st) in (node, st\<lparr>io_queue := hq\<rparr>))"

partial_function (option) task_loop ::
  "(addr \<Rightarrow> 'e \<Rightarrow> addr list \<times> 'e) \<Rightarrow> addr option \<Rightarrow> addr option \<Rightarrow> 'e io \<Rightarrow> 'e io option"
where
  [code]: "task_loop cb end_ptr node_ptr st =
     (if node_ptr = end_ptr then Some st
      else
        (case node_ptr of
           None \<Rightarrow> None
         | Some a \<Rightarrow> (let (node_ptr, st) = pop_task (call_task cb a st) in task_loop cb end_ptr node_ptr st)))"

definition run_tasks :: "(addr \<Rightarrow> 'e \<Rightarrow> addr list \<times> 'e) \<Rightarrow> 'e io \<Rightarrow> 'e io option" where
  "run_tasks cb st =
     (let end_ptr = m_tail (snd (io_queue st)); (node_ptr, st) = pop_task st in
      case task_loop cb end_ptr node_ptr st of
        None \<Rightarrow> None
      | Some st \<Rightarrow> (case end_ptr of None \<Rightarrow> Some st | Some a \<Rightarrow> Some (call_task cb a st)))"

text \<open>One turn of \<^verbatim>\<open>for(;;)\<close>: the tasks, then the callbacks of the events \<^verbatim>\<open>epoll_wait\<close> returned.\<close>

definition call_event :: "('ev \<Rightarrow> 'e \<Rightarrow> addr list \<times> 'e) \<Rightarrow> 'ev \<Rightarrow> 'e io \<Rightarrow> 'e io" where
  "call_event on_event ev st =
     (let (posts, e) = on_event ev (io_env st) in fold post_task posts (st\<lparr>io_env := e\<rparr>))"

definition run_turn ::
  "(addr \<Rightarrow> 'e \<Rightarrow> addr list \<times> 'e) \<Rightarrow> ('ev \<Rightarrow> 'e \<Rightarrow> addr list \<times> 'e) \<Rightarrow> 'ev list \<Rightarrow> 'e io \<Rightarrow> 'e io option"
where
  "run_turn cb on_event events st =
     (case run_tasks cb st of None \<Rightarrow> None | Some st \<Rightarrow> Some (fold (call_event on_event) events st))"

section \<open>Representation of a list of nodes\<close>

fun path :: "node_heap \<Rightarrow> addr option \<Rightarrow> addr list \<Rightarrow> bool" where
  "path h p [] \<longleftrightarrow> p = None"
| "path h p (a # as) \<longleftrightarrow> p = Some a \<and> path h (h a) as"

definition queue_rep :: "node_heap \<times> Queue \<Rightarrow> addr list \<Rightarrow> bool" where
  "queue_rep hq xs \<longleftrightarrow> path (fst hq) (before_head (snd hq)) xs \<and> distinct xs \<and>
     m_tail (snd hq) = (if xs = [] then None else Some (last xs)) \<and> queue_size (snd hq) = int (length xs)"

lemma path_upd_other [simp]: "a \<notin> set xs \<Longrightarrow> path (h(a := v)) p xs = path h p xs"
  by (induction xs arbitrary: p) auto

lemma path_snoc:
  "path h p xs \<Longrightarrow> xs \<noteq> [] \<Longrightarrow> distinct xs \<Longrightarrow> a \<notin> set xs \<Longrightarrow> h a = None \<Longrightarrow> path (h(last xs := Some a)) p (xs @ [a])"
proof (induction xs arbitrary: p)
  case (Cons x xs)
  show ?case
  proof (cases "xs = []")
    case False
    then have "last xs \<noteq> x" using Cons.prems(3) by auto
    then show ?thesis using Cons False by auto
  qed (use Cons.prems in auto)
qed simp

lemma Queue_new_rep: "queue_rep (h, Queue_new) []"
  by (simp add: queue_rep_def Queue_new_def)

lemma push_rep:
  assumes "queue_rep hq xs" "a \<notin> set xs"
  shows "queue_rep (push a hq) (xs @ [a])"
proof (cases "xs = []")
  case True
  then show ?thesis using assms by (cases hq) (simp add: queue_rep_def push_def)
next
  case False
  have "path ((fst hq)(a := None)) (before_head (snd hq)) xs" using assms by (simp add: queue_rep_def)
  from path_snoc [OF this False] have "path ((fst hq)(a := None, last xs := Some a)) (before_head (snd hq)) (xs @ [a])"
    using assms by (simp add: queue_rep_def)
  then show ?thesis using assms False by (cases hq) (simp add: queue_rep_def push_def)
qed

lemma pop_rep:
  assumes "queue_rep hq (a # xs)"
  obtains hq' where "pop hq = (Some a, hq')" "queue_rep hq' xs"
  using assms by (cases hq) (cases xs; auto simp: queue_rep_def pop_def)

lemma pop_empty: "queue_rep hq [] \<Longrightarrow> pop hq = (None, hq)"
  by (cases hq) (simp add: queue_rep_def pop_def)

lemma pop_nocheck_pop:
  "pop_nocheck hq = (case pop hq of (None, _) \<Rightarrow> None | (Some a, hq') \<Rightarrow> Some (a, before_head (snd hq') = None, hq'))"
  by (cases hq) (auto simp: pop_def pop_nocheck_def Let_def split: option.splits)

lemma count_from_path: "path h p xs \<Longrightarrow> count_from h p n = Some (n + length xs)"
proof (induction xs arbitrary: p n)
  case Nil
  then show ?case by (subst count_from.simps) simp
next
  case (Cons a xs)
  then show ?case by (subst count_from.simps) simp
qed

lemma push_all_rep: "queue_rep hq xs \<Longrightarrow> distinct as \<Longrightarrow> set as \<inter> set xs = {} \<Longrightarrow> queue_rep (fold push as hq) (xs @ as)"
proof (induction as arbitrary: hq xs)
  case (Cons a as)
  from Cons.IH [OF push_rep [OF Cons.prems(1), of a]] Cons.prems(2,3) show ?case by simp
qed simp

text \<open>The contract of a queue, with the list that the heap represents as ghost state.\<close>

definition ghost_push :: "(node_heap \<times> Queue) \<times> addr list \<Rightarrow> addr list \<Rightarrow> ((node_heap \<times> Queue) \<times> addr list) option" where
  "ghost_push s as =
     (if distinct as \<and> set as \<inter> set (snd s) = {} then Some (fold push as (fst s), snd s @ as) else None)"

fun ghost_pop :: "(node_heap \<times> Queue) \<times> addr list \<Rightarrow> nat \<Rightarrow> (addr list \<times> (node_heap \<times> Queue) \<times> addr list) option" where
  "ghost_pop s 0 = Some ([], s)"
| "ghost_pop s (Suc n) =
     (case pop (fst s) of
        (None, _) \<Rightarrow> None
      | (Some a, hq) \<Rightarrow> (case ghost_pop (hq, List.tl (snd s)) n of None \<Rightarrow> None | Some (as, s') \<Rightarrow> Some (a # as, s')))"

lemma ghost_pop_ok:
  "queue_rep (fst s) (snd s) \<Longrightarrow> ghost_pop s n = Some (ys, s') \<Longrightarrow> queue_rep (fst s') (snd s') \<and> ys @ snd s' = snd s"
proof (induction n arbitrary: s ys)
  case (Suc n)
  show ?case
  proof (cases "snd s")
    case Nil
    then show ?thesis using Suc.prems pop_empty [of "fst s"] by simp
  next
    case (Cons a xs)
    obtain hq where hq: "pop (fst s) = (Some a, hq)" "queue_rep hq xs"
      using Suc.prems(1) unfolding Cons by (rule pop_rep)
    then obtain as where "ghost_pop (hq, xs) n = Some (as, s')" "ys = a # as"
      using Suc.prems(2) Cons by (auto split: option.splits)
    then show ?thesis using Suc.IH [of "(hq, xs)" as] hq(2) Cons by simp
  qed
qed simp

interpretation task_queue: fifo "\<lambda>s. queue_rep (fst s) (snd s)" snd ghost_push ghost_pop
proof (unfold_locales, goal_cases)
  case (1 s xs s')
  then show ?case using push_all_rep [of "fst s" "snd s" xs] by (auto simp: ghost_push_def split: if_splits)
next
  case (2 s n ys s')
  then show ?case by (rule ghost_pop_ok)
qed

text \<open>
  (C23) The pointer operations of \<open>Queue\<close> implement a list of nodes. If a heap and a queue represent the distinct nodes
  \<open>xs\<close>, then pushing a node that is not queued represents \<open>xs\<close> with it at the end, \<open>pop\<close> returns the first node and
  represents the rest (\<^verbatim>\<open>nullptr\<close> when there is none), and \<open>count\<close> terminates with the length; \<open>queue_size\<close> stays exact.
\<close>

theorem queue_refines_list:
  assumes "queue_rep hq xs" "a \<notin> set xs"
  shows "queue_rep (push a hq) (xs @ [a]) \<and> count hq = Some (length xs) \<and> queue_size (snd hq) = int (length xs) \<and>
    (case xs of [] \<Rightarrow> pop hq = (None, hq) \<and> pop_nocheck hq = None
     | x # ys \<Rightarrow> \<exists>hq'. pop hq = (Some x, hq') \<and> pop_nocheck hq = Some (x, ys = [], hq') \<and> queue_rep hq' ys)"
proof (intro conjI)
  show "queue_rep (push a hq) (xs @ [a])" by (rule push_rep [OF assms])
  show "count hq = Some (length xs)" using assms(1) by (auto simp: count_def queue_rep_def count_from_path)
  show "queue_size (snd hq) = int (length xs)" using assms(1) by (simp add: queue_rep_def)
  show "case xs of [] \<Rightarrow> pop hq = (None, hq) \<and> pop_nocheck hq = None
     | x # ys \<Rightarrow> \<exists>hq'. pop hq = (Some x, hq') \<and> pop_nocheck hq = Some (x, ys = [], hq') \<and> queue_rep hq' ys"
  proof (cases xs)
    case Nil
    then show ?thesis using assms(1) pop_empty [of hq] by (simp add: pop_nocheck_pop)
  next
    case (Cons x ys)
    obtain hq' where "pop hq = (Some x, hq')" "queue_rep hq' ys"
      using assms(1) unfolding Cons by (rule pop_rep)
    moreover have "before_head (snd hq') = None \<longleftrightarrow> ys = []"
      using \<open>queue_rep hq' ys\<close> by (cases ys) (simp_all add: queue_rep_def)
    ultimately show ?thesis by (simp add: Cons pop_nocheck_pop)
  qed
qed

theorem queue_refines_list_witness:
  "\<exists>hq'. pop (push 7 (push 3 (\<lambda>a. None, Queue_new))) = (Some 3, hq') \<and> queue_rep hq' [7]"
proof -
  have "queue_rep (push 3 (\<lambda>a. None, Queue_new)) [3]"
    using push_rep [OF Queue_new_rep, of 3 "\<lambda>a. None"] by simp
  then have r: "queue_rep (push 7 (push 3 (\<lambda>a. None, Queue_new))) [3, 7]"
    using push_rep [of "push 3 (\<lambda>a. None, Queue_new)" "[3]" 7] by simp
  show ?thesis using queue_refines_list [OF r, of 9] by auto
qed

section \<open>One round of tasks\<close>

text \<open>
  The specification: call the tasks of the list in order, each once, and collect what they post. \<open>None\<close> if a callback posts
  a node that is queued, which \<open>push\<close> does not allow (\<^verbatim>\<open>consume a dangling node\<close>).
\<close>

fun spec_round :: "(addr \<Rightarrow> 'e \<Rightarrow> addr list \<times> 'e) \<Rightarrow> addr list \<Rightarrow> addr list \<Rightarrow> 'e \<Rightarrow> (addr list \<times> 'e) option" where
  "spec_round cb [] ys e = Some (ys, e)"
| "spec_round cb (x # xs) ys e =
     (let (ps, e') = cb x e in
      if distinct ps \<and> set ps \<inter> (set xs \<union> set ys) = {} then spec_round cb xs (ys @ ps) e' else None)"

lemma fold_post_task:
  "fold post_task ps st = st\<lparr>io_queue := fold push ps (io_queue st)\<rparr>"
  by (induction ps arbitrary: st) (simp_all add: post_task_def)

lemma call_task_rep:
  assumes "queue_rep (io_queue st) zs" "cb a (io_env st) = (ps, e)" "distinct ps" "set ps \<inter> set zs = {}"
  shows "queue_rep (io_queue (call_task cb a st)) (zs @ ps)" "io_env (call_task cb a st) = e"
    "io_ran (call_task cb a st) = io_ran st @ [a]"
  using assms push_all_rep [OF assms(1,3,4)] by (simp_all add: call_task_def fold_post_task)

lemma pop_task_rep:
  assumes "queue_rep (io_queue st) (a # zs)"
  obtains st' where "pop_task st = (Some a, st')" "queue_rep (io_queue st') zs" "io_env st' = io_env st" "io_ran st' = io_ran st"
proof -
  obtain hq where "pop (io_queue st) = (Some a, hq)" "queue_rep hq zs" by (rule pop_rep [OF assms])
  then show thesis using that [of "st\<lparr>io_queue := hq\<rparr>"] by (simp add: pop_task_def)
qed

lemma task_loop_rep:
  assumes "queue_rep (io_queue st) (xs @ ys)" "distinct (a # xs)" "spec_round cb (a # xs) ys (io_env st) = Some (zs, e)"
  shows "\<exists>st'. task_loop cb (Some (last (a # xs))) (Some a) st = Some st' \<and>
    queue_rep (io_queue (call_task cb (last (a # xs)) st')) zs \<and> io_env (call_task cb (last (a # xs)) st') = e \<and>
    io_ran (call_task cb (last (a # xs)) st') = io_ran st @ a # xs"
  using assms
proof (induction xs arbitrary: a ys st)
  case Nil
  obtain ps e' where c: "cb a (io_env st) = (ps, e')" by force
  have p: "distinct ps" "set ps \<inter> set ys = {}" "zs = ys @ ps" "e = e'"
    using Nil.prems(3) c by (auto split: if_splits)
  show ?case
    using call_task_rep [of st ys cb a ps e'] Nil.prems(1) c p by (subst task_loop.simps) simp
next
  case (Cons b xs)
  obtain ps e' where c: "cb a (io_env st) = (ps, e')" by force
  have p: "distinct ps" "set ps \<inter> set ((b # xs) @ ys) = {}" "spec_round cb (b # xs) (ys @ ps) e' = Some (zs, e)"
    using Cons.prems(3) c by (auto split: if_splits simp del: spec_round.simps(2) simp: spec_round.simps(2) [of cb a])
  note r = call_task_rep [of st "(b # xs) @ ys" cb a ps e', OF Cons.prems(1) c p(1,2)]
  obtain st1 where st1: "pop_task (call_task cb a st) = (Some b, st1)" "queue_rep (io_queue st1) (xs @ (ys @ ps))"
    "io_env st1 = e'" "io_ran st1 = io_ran st @ [a]"
    using pop_task_rep [of "call_task cb a st" b "xs @ ys @ ps"] r by auto
  have "a \<noteq> last (b # xs)" using Cons.prems(2) by (metis distinct.simps(2) last_in_set list.distinct(1))
  then have "task_loop cb (Some (last (b # xs))) (Some a) st = task_loop cb (Some (last (b # xs))) (Some b) st1"
    by (subst task_loop.simps) (simp add: st1(1) del: last.simps)
  then show ?case
    using Cons.IH [OF st1(2), of b] Cons.prems(2) p(3) st1(3,4) by simp
qed

lemma run_tasks_rep:
  assumes "queue_rep (io_queue st) xs" "spec_round cb xs [] (io_env st) = Some (zs, e)"
  shows "\<exists>st'. run_tasks cb st = Some st' \<and> queue_rep (io_queue st') zs \<and> io_env st' = e \<and> io_ran st' = io_ran st @ xs"
proof (cases xs)
  case Nil
  have "pop (io_queue st) = (None, io_queue st)" using pop_empty assms(1) Nil by simp
  moreover have "m_tail (snd (io_queue st)) = None" using assms(1) Nil by (simp add: queue_rep_def)
  ultimately show ?thesis using assms Nil by (simp add: run_tasks_def pop_task_def task_loop.simps)
next
  case (Cons a rest)
  obtain st1 where st1: "pop_task st = (Some a, st1)" "queue_rep (io_queue st1) (rest @ [])" "io_env st1 = io_env st" "io_ran st1 = io_ran st"
    using pop_task_rep [of st a rest] assms(1) Cons by auto
  have t: "m_tail (snd (io_queue st)) = Some (last (a # rest))" "distinct (a # rest)"
    using assms(1) Cons by (auto simp: queue_rep_def)
  have "spec_round cb (a # rest) [] (io_env st1) = Some (zs, e)" using assms(2) Cons st1(3) by simp
  from task_loop_rep [OF st1(2) t(2) this] show ?thesis
    by (auto simp: run_tasks_def t(1) st1(1,4) Cons simp del: last.simps)
qed

text \<open>
  (C20) A round of the event loop ends and is fair: as long as callbacks post only nodes that are not queued - a callback may
  post its own task again - the loop returns without dereferencing \<^verbatim>\<open>nullptr\<close>, it has called exactly the tasks that were
  queued when the round began, each once and in order, and the queue holds exactly what they posted.
\<close>

theorem run_tasks_round:
  assumes "queue_rep (io_queue st) xs" "spec_round cb xs [] (io_env st) = Some (zs, e)"
  shows "\<exists>st'. run_tasks cb st = Some st' \<and> queue_rep (io_queue st') zs \<and> io_env st' = e \<and> io_ran st' = io_ran st @ xs"
  by (rule run_tasks_rep [OF assms])

theorem run_tasks_round_witness:
  "\<exists>st'. run_tasks (\<lambda>a e. ([a], e)) \<lparr>io_queue = push 7 (push 3 (\<lambda>a. None, Queue_new)), io_env = (), io_ran = []\<rparr> = Some st' \<and>
     queue_rep (io_queue st') [3, 7] \<and> io_env st' = () \<and> io_ran st' = [3, 7]"
proof -
  have "queue_rep (push 7 (push 3 (\<lambda>a. None, Queue_new))) [3, 7]"
    using push_all_rep [OF Queue_new_rep, of "[3, 7]" "\<lambda>a. None"] by simp
  then show ?thesis
    using run_tasks_round [of "\<lparr>io_queue = push 7 (push 3 (\<lambda>a. None, Queue_new)), io_env = (), io_ran = []\<rparr>" "[3, 7]"
        "\<lambda>a e. ([a], e)" "[3, 7]" "()"] by simp
qed

section \<open>Deadlines of waiting coroutines\<close>

text \<open>
  Every suspended read or write has a \<^verbatim>\<open>PostTask\<close> whose callback \<open>check_deley\<close> runs once per round. \<open>tasks\<close> holds the
  \<^verbatim>\<open>PostTask\<close> objects that are allocated, \<open>timed_out\<close> the ones whose coroutine was resumed with \<^verbatim>\<open>IoTimeOut\<close>, and \<open>fault\<close>
  is set when a callback runs on a deleted object.
\<close>

record PostTask =
  m_ref_count :: int
  m_callback_set :: bool
  m_end_time :: int

record loop_env =
  tasks :: "addr \<rightharpoonup> PostTask"
  clock :: int
  timed_out :: "addr list"
  fault :: bool

definition invalid :: "PostTask \<Rightarrow> bool" where
  "invalid t \<longleftrightarrow> \<not> m_callback_set t \<or> m_ref_count t \<le> 0"

definition expired :: "int \<Rightarrow> PostTask \<Rightarrow> bool" where
  "expired now t \<longleftrightarrow> m_end_time t < now"

text \<open>\<open>resume\<close> is the coroutine, from its resumption to its next suspension.\<close>

definition check_deley :: "(addr \<Rightarrow> loop_env \<Rightarrow> addr list \<times> loop_env) \<Rightarrow> addr \<Rightarrow> loop_env \<Rightarrow> addr list \<times> loop_env" where
  "check_deley resume task_ptr e =
     (case tasks e task_ptr of
        None \<Rightarrow> ([], e\<lparr>fault := True\<rparr>)
      | Some t \<Rightarrow>
          if invalid t then ([], e\<lparr>tasks := (tasks e)(task_ptr := None)\<rparr>)
          else if expired (clock e) t then resume task_ptr (e\<lparr>timed_out := timed_out e @ [task_ptr]\<rparr>)
          else ([task_ptr], e))"

text \<open>
  What is relied on of the coroutine: the tasks it posts belong to new awaiters (\<^verbatim>\<open>new PostTask\<close>), and it leaves the
  awaiters of other coroutines alone; its own awaiter is destroyed, which resets the reference count of its task.
\<close>

definition resume_ok :: "(addr \<Rightarrow> loop_env \<Rightarrow> addr list \<times> loop_env) \<Rightarrow> bool" where
  "resume_ok resume \<longleftrightarrow> (\<forall>a e. let (ps, e') = resume a e in
     distinct ps \<and> (\<forall>p \<in> set ps. tasks e p = None \<and> tasks e' p \<noteq> None) \<and>
     (\<forall>b. b \<noteq> a \<and> tasks e b \<noteq> None \<longrightarrow> tasks e' b = tasks e b) \<and>
     (\<forall>t. tasks e a = Some t \<longrightarrow> tasks e' a = Some (t\<lparr>m_ref_count := 0\<rparr>)) \<and>
     clock e' = clock e \<and> timed_out e' = timed_out e \<and> fault e' = fault e)"

definition due :: "loop_env \<Rightarrow> addr \<Rightarrow> bool" where
  "due e a \<longleftrightarrow> (case tasks e a of None \<Rightarrow> False | Some t \<Rightarrow> \<not> invalid t \<and> expired (clock e) t)"

definition pending :: "loop_env \<Rightarrow> addr \<Rightarrow> bool" where
  "pending e a \<longleftrightarrow> (case tasks e a of None \<Rightarrow> False | Some t \<Rightarrow> \<not> invalid t \<and> \<not> expired (clock e) t)"

lemma check_deley_step:
  assumes "resume_ok resume" "tasks e a \<noteq> None" "a \<notin> set zs" "\<forall>b \<in> set zs. tasks e b \<noteq> None" "distinct zs"
    "check_deley resume a e = (ps, e')"
  shows "distinct ps" "set ps \<inter> set zs = {}" "\<forall>b \<in> set zs. tasks e' b = tasks e b" "\<forall>b \<in> set ps. tasks e' b \<noteq> None"
    "clock e' = clock e" "fault e' = fault e" "timed_out e' = timed_out e @ (if due e a then [a] else [])"
    "pending e a \<Longrightarrow> ps = [a]"
proof -
  obtain t where t: "tasks e a = Some t" using assms(2) by blast
  consider (inv) "invalid t" | (exp) "\<not> invalid t" "expired (clock e) t" | (wait) "\<not> invalid t" "\<not> expired (clock e) t" by blast
  then have "distinct ps \<and> set ps \<inter> set zs = {} \<and> (\<forall>b \<in> set zs. tasks e' b = tasks e b) \<and> (\<forall>b \<in> set ps. tasks e' b \<noteq> None) \<and>
    clock e' = clock e \<and> fault e' = fault e \<and> timed_out e' = timed_out e @ (if due e a then [a] else []) \<and> (pending e a \<longrightarrow> ps = [a])"
  proof cases
    case exp
    let ?e = "e\<lparr>timed_out := timed_out e @ [a]\<rparr>"
    have r: "resume a ?e = (ps, e')" using assms(6) t exp by (simp add: check_deley_def)
    have k: "distinct ps" "\<forall>p \<in> set ps. tasks e p = None \<and> tasks e' p \<noteq> None" "\<forall>b. b \<noteq> a \<and> tasks e b \<noteq> None \<longrightarrow> tasks e' b = tasks e b"
      "clock e' = clock e" "timed_out e' = timed_out e @ [a]" "fault e' = fault e"
      using assms(1) [unfolded resume_ok_def, rule_format, of a ?e] r by simp_all
    then show ?thesis using exp t assms(3,4) by (auto simp: due_def pending_def)
  next
    case inv
    then show ?thesis using assms(3,6) t by (auto simp: check_deley_def due_def pending_def)
  next
    case wait
    then show ?thesis using assms(2,3,6) t by (auto simp: check_deley_def due_def pending_def)
  qed
  then show "distinct ps" "set ps \<inter> set zs = {}" "\<forall>b \<in> set zs. tasks e' b = tasks e b" "\<forall>b \<in> set ps. tasks e' b \<noteq> None"
    "clock e' = clock e" "fault e' = fault e" "timed_out e' = timed_out e @ (if due e a then [a] else [])"
    "pending e a \<Longrightarrow> ps = [a]" by auto
qed

lemma check_deley_round:
  assumes "resume_ok resume" "distinct (xs @ ys)" "\<forall>a \<in> set (xs @ ys). tasks e a \<noteq> None"
  shows "\<exists>zs e'. spec_round (check_deley resume) xs ys e = Some (zs, e') \<and> distinct zs \<and>
    (\<forall>a \<in> set zs. tasks e' a \<noteq> None) \<and> fault e' = fault e \<and>
    timed_out e' = timed_out e @ filter (due e) xs \<and> set ys \<union> set (filter (pending e) xs) \<subseteq> set zs"
  using assms(2,3)
proof (induction xs arbitrary: ys e)
  case (Cons x xs)
  obtain ps e1 where c: "check_deley resume x e = (ps, e1)" by force
  have d: "x \<notin> set (xs @ ys)" "distinct (xs @ ys)" "tasks e x \<noteq> None" "\<forall>b \<in> set (xs @ ys). tasks e b \<noteq> None"
    using Cons.prems by auto
  note s = check_deley_step [OF assms(1) d(3,1,4,2) c]
  have same: "filter (due e1) xs = filter (due e) xs" "filter (pending e1) xs = filter (pending e) xs"
    using s(3,5) by (auto intro!: filter_cong simp: due_def pending_def split: option.splits)
  have "distinct (xs @ (ys @ ps))" "\<forall>a \<in> set (xs @ (ys @ ps)). tasks e1 a \<noteq> None"
    using d s(1,2,3,4) by auto
  from Cons.IH [OF this] show ?case
    using c s(1,2,6,7,8) d(1) unfolding same by (auto simp: Un_commute)
qed auto

text \<open>
  (C21) No waiting coroutine is forgotten and none is woken early. If the queue holds the tasks of the live awaiters, a round
  resumes exactly those whose deadline has passed, in queue order and each once; the others stay queued for the next
  round; no callback runs on a deleted task; and the queue again holds allocated tasks only, so the next round may follow.
\<close>

theorem check_deley_timeouts:
  assumes "resume_ok resume" "queue_rep (io_queue st) xs" "\<forall>a \<in> set xs. tasks (io_env st) a \<noteq> None"
  shows "\<exists>st' zs. run_tasks (check_deley resume) st = Some st' \<and> queue_rep (io_queue st') zs \<and>
    timed_out (io_env st') = timed_out (io_env st) @ filter (due (io_env st)) xs \<and>
    set (filter (pending (io_env st)) xs) \<subseteq> set zs \<and> fault (io_env st') = fault (io_env st) \<and>
    (\<forall>a \<in> set zs. tasks (io_env st') a \<noteq> None)"
proof -
  have "distinct (xs @ [])" "\<forall>a \<in> set (xs @ []). tasks (io_env st) a \<noteq> None" using assms(2,3) by (auto simp: queue_rep_def)
  from check_deley_round [OF assms(1) this] obtain zs e' where r: "spec_round (check_deley resume) xs [] (io_env st) = Some (zs, e')"
    "\<forall>a \<in> set zs. tasks e' a \<noteq> None" "fault e' = fault (io_env st)"
    "timed_out e' = timed_out (io_env st) @ filter (due (io_env st)) xs" "set (filter (pending (io_env st)) xs) \<subseteq> set zs"
    by auto
  from run_tasks_rep [OF assms(2) r(1)] show ?thesis using r(2-5) by auto
qed

definition sample_resume :: "addr \<Rightarrow> loop_env \<Rightarrow> addr list \<times> loop_env" where
  "sample_resume a e =
     ([], e\<lparr>tasks := (tasks e)(a := (case tasks e a of None \<Rightarrow> None | Some t \<Rightarrow> Some (t\<lparr>m_ref_count := 0\<rparr>)))\<rparr>)"

definition sample_env :: loop_env where
  "sample_env = \<lparr>tasks = [3 \<mapsto> \<lparr>m_ref_count = 1, m_callback_set = True, m_end_time = 10\<rparr>,
                          7 \<mapsto> \<lparr>m_ref_count = 1, m_callback_set = True, m_end_time = 30\<rparr>],
                clock = 20, timed_out = [], fault = False\<rparr>"

theorem check_deley_timeouts_witness:
  "\<exists>st' zs. run_tasks (check_deley sample_resume)
      \<lparr>io_queue = push 7 (push 3 (\<lambda>a. None, Queue_new)), io_env = sample_env, io_ran = []\<rparr> = Some st' \<and>
    queue_rep (io_queue st') zs \<and> timed_out (io_env st') = [3] \<and> {7} \<subseteq> set zs"
proof -
  have q: "queue_rep (push 7 (push 3 (\<lambda>a. None, Queue_new))) [3, 7]"
    using push_all_rep [OF Queue_new_rep, of "[3, 7]" "\<lambda>a. None"] by simp
  have ok: "resume_ok sample_resume" by (simp add: resume_ok_def sample_resume_def)
  have "filter (due sample_env) [3, 7] = [3]" "filter (pending sample_env) [3, 7] = [7]"
    by (simp_all add: due_def pending_def sample_env_def invalid_def expired_def)
  then show ?thesis
    using check_deley_timeouts [OF ok, of "\<lparr>io_queue = push 7 (push 3 (\<lambda>a. None, Queue_new)), io_env = sample_env, io_ran = []\<rparr>" "[3, 7]"] q
    by (auto simp: sample_env_def)
qed

text \<open>After a timeout the task is neither posted again nor deleted: the object is lost.\<close>

lemma timed_out_task_leaks:
  assumes "resume_ok resume" "due e a" "check_deley resume a e = (ps, e')" "\<forall>b. b \<noteq> a \<longrightarrow> tasks e b = None"
  shows "a \<notin> set ps" "tasks e' a \<noteq> None"
proof -
  obtain t where t: "tasks e a = Some t" "\<not> invalid t" "expired (clock e) t" using assms(2) by (auto simp: due_def split: option.splits)
  have r: "resume a (e\<lparr>timed_out := timed_out e @ [a]\<rparr>) = (ps, e')" using assms(3) t by (simp add: check_deley_def)
  show "a \<notin> set ps" "tasks e' a \<noteq> None"
    using assms(1) [unfolded resume_ok_def, rule_format, of a "e\<lparr>timed_out := timed_out e @ [a]\<rparr>"] r t by auto
qed

end
