(* ===== verification/Io_Socket.thy ===== *)
theory Io_Socket
  imports Io_Queue
begin

text \<open>
  Socket input and output of \<^verbatim>\<open>include/netcore/core.hpp\<close>: the read and write loops over a non-blocking socket, the
  awaiters, the event callback of a connection and the acceptor.

  The kernel is a parameter: every call consumes the next answer of a list, and running out of answers (the model
  cannot go on) is \<open>None\<close>. Bytes the kernel takes are recorded, so that what is on the wire can be compared with what
  was to be sent. Dereferencing \<^verbatim>\<open>nullptr\<close> is \<open>NullDeref\<close>.
\<close>

datatype io_error = RecvError string | SendError string | IoTimeOut | NullDeref | CannotAccept | EpollError

section \<open>The loops\<close>

text \<open>\<open>Data xs\<close>: the bytes \<open>xs\<close> have arrived; a call takes as many as it has room for.\<close>

datatype recv_answer = Data string | Eof | Recv_again | Recv_errno string

text \<open>The value returned (or the exception), the bytes stored in the buffer, and the answers not used. A call with no space left returns 0 at once; only a buffer of size 0 leads to one.\<close>

fun recv :: "recv_answer list \<Rightarrow> nat \<Rightarrow> string \<Rightarrow> ((io_error + nat) \<times> string \<times> recv_answer list) option" where
  "recv [] buff_size got = None"
| "recv (Recv_again # ks) buff_size got = Some (Inr (length got), got, ks)"
| "recv (Recv_errno msg # ks) buff_size got = Some (Inl (RecvError msg), got, ks)"
| "recv (Eof # ks) buff_size got = Some (Inr 0, got, ks)"
| "recv (Data xs # ks) buff_size got =
     (let space = buff_size - length got; got' = got @ take space xs in
      if space = 0 then Some (Inr 0, got, Data xs # ks)
      else if buff_size \<le> length got' then Some (Inl (RecvError ''buffer not enough space''), got', Data (drop space xs) # ks)
      else recv ks buff_size got')"

text \<open>\<open>Took n\<close>: the kernel has room for \<open>n\<close> bytes and takes as many of the offered ones as fit.\<close>

datatype send_answer = Took nat | Send_again | Send_errno string

text \<open>\<open>buf\<close> is the data left, \<open>sent\<close> the number of bytes sent before and \<open>wire\<close> what the kernel has taken.\<close>

fun send :: "send_answer list \<Rightarrow> string \<Rightarrow> nat \<Rightarrow> string \<Rightarrow> ((io_error + nat) \<times> string \<times> send_answer list) option" where
  "send ks [] sent wire = Some (Inr sent, wire, ks)"
| "send [] (b # buf) sent wire = None"
| "send (Send_again # ks) (b # buf) sent wire = Some (Inr sent, wire, ks)"
| "send (Send_errno msg # ks) (b # buf) sent wire = Some (Inl (SendError msg), wire, ks)"
| "send (Took n # ks) (b # buf) sent wire =
     send ks (drop n (b # buf)) (sent + min n (length (b # buf))) (wire @ take n (b # buf))"

section \<open>Connections\<close>

record read_awaiter =
  ra_buff_size :: nat
  ra_buff :: string
  ra_tranfer :: nat

record send_awaiter =
  sa_id :: nat
  sa_buff :: string
  sa_tranfer :: nat

record RawConnection =
  m_read_awaiter :: "read_awaiter option"
  m_send_awaiter :: "send_awaiter option"
  m_except :: "io_error option"
  m_send_at_awaiter :: bool
  m_recv_at_awaiter :: bool
  rx :: "recv_answer list"
  tx :: "send_answer list"
  tx_wire :: string

definition RawConnection_new :: "recv_answer list \<Rightarrow> send_answer list \<Rightarrow> RawConnection" where
  "RawConnection_new arriving room =
     \<lparr>m_read_awaiter = None, m_send_awaiter = None, m_except = None, m_send_at_awaiter = False,
      m_recv_at_awaiter = False, rx = arriving, tx = room, tx_wire = []\<rparr>"

definition finised :: "send_awaiter \<Rightarrow> bool" where
  "finised w \<longleftrightarrow> length (sa_buff w) \<le> sa_tranfer w"

text \<open>The \<^verbatim>\<open>try\<close> block around \<open>recv\<close>, for the awaiter \<open>w\<close>.\<close>

definition try_recv :: "RawConnection \<Rightarrow> read_awaiter \<Rightarrow> (RawConnection \<times> read_awaiter) option" where
  "try_recv c w =
     (case recv (rx c) (ra_buff_size w) [] of
        None \<Rightarrow> None
      | Some (r, got, ks) \<Rightarrow>
          (case r of
             Inl err \<Rightarrow> Some (c\<lparr>rx := ks, m_except := Some err\<rparr>, w\<lparr>ra_buff := got\<rparr>)
           | Inr n \<Rightarrow> Some (c\<lparr>rx := ks\<rparr>, w\<lparr>ra_buff := got, ra_tranfer := n\<rparr>)))"

text \<open>The \<^verbatim>\<open>try\<close> block around \<open>send\<close>: the data left is written, then the count is updated; whether it threw.\<close>

definition try_send :: "RawConnection \<Rightarrow> send_awaiter \<Rightarrow> (bool \<times> RawConnection \<times> send_awaiter) option" where
  "try_send c w =
     (case send (tx c) (drop (sa_tranfer w) (sa_buff w)) 0 (tx_wire c) of
        None \<Rightarrow> None
      | Some (r, wire, ks) \<Rightarrow>
          (case r of
             Inl err \<Rightarrow> Some (True, c\<lparr>tx := ks, tx_wire := wire, m_except := Some err\<rparr>, w)
           | Inr n \<Rightarrow> Some (False, c\<lparr>tx := ks, tx_wire := wire\<rparr>, w\<lparr>sa_tranfer := sa_tranfer w + n\<rparr>)))"

text \<open>\<^verbatim>\<open>await_suspend\<close>: the new state and whether the coroutine is suspended.\<close>

definition read_await_suspend :: "nat \<Rightarrow> RawConnection \<Rightarrow> (RawConnection \<times> bool) option" where
  "read_await_suspend buff_size c =
     (let w = \<lparr>ra_buff_size = buff_size, ra_buff = [], ra_tranfer = 0\<rparr> in
      if m_recv_at_awaiter c
      then (case try_recv c w of None \<Rightarrow> None | Some (c, w) \<Rightarrow> Some (c\<lparr>m_read_awaiter := Some w\<rparr>, False))
      else Some (c\<lparr>m_read_awaiter := Some w\<rparr>, True))"

definition send_await_suspend :: "nat \<Rightarrow> string \<Rightarrow> RawConnection \<Rightarrow> (RawConnection \<times> bool) option" where
  "send_await_suspend awaiter buff c =
     (let w = \<lparr>sa_id = awaiter, sa_buff = buff, sa_tranfer = 0\<rparr> in
      if m_send_at_awaiter c
      then (case try_send c w of
              None \<Rightarrow> None
            | Some (threw, c, w) \<Rightarrow> Some (c\<lparr>m_send_awaiter := Some w\<rparr>, \<not> threw \<and> \<not> finised w))
      else Some (c\<lparr>m_send_awaiter := Some w\<rparr>, True))"

text \<open>\<^verbatim>\<open>await_resume\<close>: the exception rethrown or the number of bytes.\<close>

definition read_await_resume :: "RawConnection \<Rightarrow> (io_error + nat) \<times> RawConnection" where
  "read_await_resume c =
     (case m_read_awaiter c of
        None \<Rightarrow> (Inl NullDeref, c)
      | Some w \<Rightarrow>
          (case m_except c of None \<Rightarrow> Inr (ra_tranfer w) | Some err \<Rightarrow> Inl err, c\<lparr>m_read_awaiter := None\<rparr>))"

definition send_await_resume :: "RawConnection \<Rightarrow> (io_error + nat) \<times> RawConnection" where
  "send_await_resume c =
     (case m_send_awaiter c of
        None \<Rightarrow> (Inl NullDeref, c)
      | Some w \<Rightarrow>
          (case m_except c of None \<Rightarrow> Inr (sa_tranfer w) | Some err \<Rightarrow> Inl err, c\<lparr>m_send_awaiter := None\<rparr>))"

text \<open>
  The event callback. \<open>resume_read\<close> and \<open>resume_send\<close> are the coroutines from their resumption to their next suspension.
  The pointers to both awaiters are read before the first coroutine runs; \<open>NullDeref\<close> also stands for the use of a send
  awaiter that is no longer the registered one.
\<close>

definition on_callback ::
  "bool \<Rightarrow> bool \<Rightarrow> (RawConnection \<Rightarrow> RawConnection) \<Rightarrow> (RawConnection \<Rightarrow> RawConnection) \<Rightarrow> RawConnection \<Rightarrow>
     (io_error + RawConnection) option"
where
  "on_callback epollin epollout resume_read resume_send c =
     (let c = (if epollin then c\<lparr>m_recv_at_awaiter := True\<rparr> else c);
          c = (if epollout then c\<lparr>m_send_at_awaiter := True\<rparr> else c);
          recv_awaiter = m_read_awaiter c; send_awaiter = m_send_awaiter c
      in case (if epollin then
                 (case recv_awaiter of
                    None \<Rightarrow> Some (Inl NullDeref)
                  | Some w \<Rightarrow>
                      (case try_recv (c\<lparr>m_recv_at_awaiter := False\<rparr>) w of
                         None \<Rightarrow> None
                       | Some (c, w) \<Rightarrow> Some (Inr (resume_read (c\<lparr>m_read_awaiter := Some w\<rparr>)))))
               else Some (Inr c)) of
           None \<Rightarrow> None
         | Some (Inl err) \<Rightarrow> Some (Inl err)
         | Some (Inr c) \<Rightarrow>
             (case m_send_awaiter c of
                None \<Rightarrow> Some (Inr c)
              | Some current \<Rightarrow>
                  if \<not> epollout then Some (Inr c)
                  else
                    (case send_awaiter of
                       None \<Rightarrow> Some (Inl NullDeref)
                     | Some w \<Rightarrow>
                         if sa_id w \<noteq> sa_id current then Some (Inl NullDeref)
                         else
                           (case try_send (c\<lparr>m_send_at_awaiter := False\<rparr>) w of
                              None \<Rightarrow> None
                            | Some (threw, c, w) \<Rightarrow>
                                (let c = c\<lparr>m_send_awaiter := Some w\<rparr>
                                 in Some (Inr (if finised w then resume_send c else c)))))))"

definition close_connection ::
  "(RawConnection \<Rightarrow> RawConnection) \<Rightarrow> (RawConnection \<Rightarrow> RawConnection) \<Rightarrow> RawConnection \<Rightarrow> RawConnection"
where
  "close_connection resume_read resume_send c =
     (let c = c\<lparr>m_recv_at_awaiter := False, m_send_at_awaiter := False\<rparr>;
          c = (case m_read_awaiter c of
                 None \<Rightarrow> c
               | Some w \<Rightarrow> resume_read (c\<lparr>m_read_awaiter := Some (w\<lparr>ra_tranfer := 0\<rparr>)\<rparr>))
      in case m_send_awaiter c of
           None \<Rightarrow> c
         | Some w \<Rightarrow> resume_send (c\<lparr>m_send_awaiter := Some (w\<lparr>sa_tranfer := 0\<rparr>)\<rparr>))"

section \<open>The acceptor\<close>

record Acceptor =
  m_awaiter_que :: "node_heap \<times> Queue"
  m_added_to_event_pool :: bool

datatype accept_answer = Accepted int | Accept_again | Accept_errno

definition Acceptor_new :: "node_heap \<Rightarrow> Acceptor" where
  "Acceptor_new h = \<lparr>m_awaiter_que = (h, Queue_new), m_added_to_event_pool = False\<rparr>"

text \<open>\<open>epoll_ctl_ok\<close>: the kernel accepts the registration of the listening socket.\<close>

definition accept_await_suspend :: "bool \<Rightarrow> addr \<Rightarrow> Acceptor \<Rightarrow> io_error + Acceptor" where
  "accept_await_suspend epoll_ctl_ok node a =
     (let a = a\<lparr>m_awaiter_que := push node (m_awaiter_que a)\<rparr> in
      if m_added_to_event_pool a then Inr a
      else if \<not> epoll_ctl_ok then Inl EpollError
      else Inr (a\<lparr>m_added_to_event_pool := True\<rparr>))"

text \<open>The awaiter that is resumed and the socket it is given (\<open>-1\<close> after an error), if any.\<close>

definition accept_on_callback :: "accept_answer \<Rightarrow> Acceptor \<Rightarrow> (addr \<times> int) option \<times> Acceptor" where
  "accept_on_callback answer a =
     (case pop (m_awaiter_que a) of
        (None, hq) \<Rightarrow> (None, a\<lparr>m_awaiter_que := hq\<rparr>)
      | (Some node, hq) \<Rightarrow>
          (let a = a\<lparr>m_awaiter_que := hq\<rparr> in
           case answer of
             Accepted conn_sock \<Rightarrow> (Some (node, conn_sock), a)
           | Accept_again \<Rightarrow> (None, a)
           | Accept_errno \<Rightarrow> (Some (node, - 1), a)))"

definition accept_await_resume :: "int \<Rightarrow> io_error + int" where
  "accept_await_resume conn_sock = (if conn_sock = - 1 then Inl CannotAccept else Inr conn_sock)"

section \<open>Reading\<close>

lemma recv_chunks:
  "length got + length (concat chunks) < buff_size \<Longrightarrow>
     recv (map Data chunks @ ks) buff_size got = recv ks buff_size (got @ concat chunks)"
  by (induction chunks arbitrary: got) (auto simp: Let_def)

text \<open>
  If the peer's bytes arrive in any pieces and leave room in the buffer, \<open>recv\<close> collects all of them in order and
  returns their number; if they fill the buffer it throws. If the peer closes after sending, the value returned is 0,
  as for an empty connection: the bytes are in the buffer but the caller is told there are none.
\<close>

theorem recv_outcomes:
  assumes "length (concat chunks) < buff_size"
  shows "recv (map Data chunks @ Recv_again # ks) buff_size [] = Some (Inr (length (concat chunks)), concat chunks, ks) \<and>
    recv (map Data chunks @ Recv_errno msg # ks) buff_size [] = Some (Inl (RecvError msg), concat chunks, ks) \<and>
    recv (map Data chunks @ Eof # ks) buff_size [] = Some (Inr 0, concat chunks, ks) \<and>
    (buff_size \<le> length (concat chunks @ xs) \<longrightarrow>
       recv (map Data chunks @ Data xs # ks) buff_size [] =
         Some (Inl (RecvError ''buffer not enough space''), take buff_size (concat chunks @ xs), Data (drop (buff_size - length (concat chunks)) xs) # ks))"
  using recv_chunks [of "[]" chunks buff_size] assms by (auto simp: Let_def)

theorem recv_outcomes_witness:
  "recv (map Data [''ab'', ''c''] @ Eof # []) 8 [] = Some (Inr 0, ''abc'', [])"
  using recv_outcomes [of "[''ab'', ''c'']" 8 "[]"] by simp

section \<open>Writing\<close>

lemma send_prefix:
  assumes "send ks buf sent wire = Some (r, wire', ks')"
  shows "\<exists>k \<le> length buf. wire' = wire @ take k buf \<and> (r = Inr (sent + k) \<or> (\<exists>err. r = Inl err))"
  using assms
proof (induction ks buf sent wire rule: send.induct)
  case (5 n ks b buf sent wire)
  let ?b = "b # buf" let ?m = "min n (length (b # buf))"
  obtain k where k: "k \<le> length (drop n ?b)" "wire' = (wire @ take n ?b) @ take k (drop n ?b)"
    "r = Inr (sent + ?m + k) \<or> (\<exists>err. r = Inl err)"
    using 5 by auto
  have "wire' = wire @ take (?m + k) ?b"
    using k(1,2) by (cases "n \<le> length ?b") (auto simp: take_add min_def)
  then show ?case using k(1,3) by (intro exI [of _ "?m + k"]) (auto simp: min_def)
qed auto

text \<open>
  A write in progress: either it failed, or the wire holds what was there before and the first bytes of the buffer, as many
  as the awaiter has counted; the coroutine waits only while bytes are left, and has gone on when all are on the wire.
\<close>

definition tx_inv :: "string \<Rightarrow> string \<Rightarrow> RawConnection \<Rightarrow> bool" where
  "tx_inv before buff c \<longleftrightarrow> m_except c \<noteq> None \<or>
     (case m_send_awaiter c of
        None \<Rightarrow> tx_wire c = before @ buff
      | Some w \<Rightarrow> sa_buff w = buff \<and> sa_tranfer w < length buff \<and> tx_wire c = before @ take (sa_tranfer w) buff)"

lemma try_send_inv:
  assumes "sa_buff w = buff" "sa_tranfer w \<le> length buff" "tx_wire c = before @ take (sa_tranfer w) buff"
    "try_send c w = Some (threw, c', w')"
  shows "threw \<and> m_except c' \<noteq> None \<or>
    \<not> threw \<and> sa_buff w' = buff \<and> sa_tranfer w' \<le> length buff \<and> tx_wire c' = before @ take (sa_tranfer w') buff"
proof -
  obtain r wire ks where s: "send (tx c) (drop (sa_tranfer w) buff) 0 (tx_wire c) = Some (r, wire, ks)"
    using assms(1,4) by (auto simp: try_send_def split: option.splits)
  obtain k where k: "k \<le> length (drop (sa_tranfer w) buff)" "wire = tx_wire c @ take k (drop (sa_tranfer w) buff)"
    "r = Inr (0 + k) \<or> (\<exists>err. r = Inl err)"
    using send_prefix [OF s] by blast
  have "wire = before @ take (sa_tranfer w + k) buff" using k(2) assms(3) by (simp add: take_add)
  then show ?thesis using assms k(1,3) s by (auto simp: try_send_def)
qed

lemma send_await_resume_except [simp]: "m_except (snd (send_await_resume c)) = m_except c"
  "tx_wire (snd (send_await_resume c)) = tx_wire c"
  "m_send_awaiter (snd (send_await_resume c)) = None"
  by (simp_all add: send_await_resume_def split: option.splits)

lemma send_await_suspend_inv:
  assumes "m_except c = None" "buff \<noteq> []" "send_await_suspend awaiter buff c = Some (c1, suspended)"
  shows "tx_inv (tx_wire c) buff (if suspended then c1 else snd (send_await_resume c1))"
proof (cases "m_send_at_awaiter c")
  case True
  let ?w = "\<lparr>sa_id = awaiter, sa_buff = buff, sa_tranfer = 0\<rparr>"
  obtain threw c' w' where s: "try_send c ?w = Some (threw, c', w')" "c1 = c'\<lparr>m_send_awaiter := Some w'\<rparr>"
    "suspended = (\<not> threw \<and> \<not> finised w')"
    using assms(3) True by (auto simp: send_await_suspend_def split: option.splits)
  from try_send_inv [OF _ _ _ s(1), of buff "tx_wire c"] show ?thesis
    by (auto simp: tx_inv_def s(2,3) finised_def)
next
  case False
  then show ?thesis using assms by (auto simp: send_await_suspend_def tx_inv_def)
qed

lemma write_event_inv:
  assumes "tx_inv before buff c" "on_callback False True r (\<lambda>c. snd (send_await_resume c)) c = Some x"
  shows "\<exists>d. x = Inr d \<and> tx_inv before buff d"
proof (cases "m_send_awaiter c")
  case None
  then have "x = Inr (c\<lparr>m_send_at_awaiter := True\<rparr>)" using assms(2) by (simp add: on_callback_def)
  then show ?thesis using assms(1) None by (simp add: tx_inv_def)
next
  case (Some w)
  obtain threw c' w' where s: "try_send (c\<lparr>m_send_at_awaiter := False\<rparr>) w = Some (threw, c', w')"
    "x = Inr (if finised w' then snd (send_await_resume (c'\<lparr>m_send_awaiter := Some w'\<rparr>)) else c'\<lparr>m_send_awaiter := Some w'\<rparr>)"
    using assms(2) Some by (auto simp: on_callback_def Let_def split: option.splits)
  show ?thesis
  proof (cases "m_except c = None")
    case True
    then have w: "sa_buff w = buff" "sa_tranfer w \<le> length buff" "tx_wire (c\<lparr>m_send_at_awaiter := False\<rparr>) = before @ take (sa_tranfer w) buff"
      using assms(1) Some by (auto simp: tx_inv_def)
    from try_send_inv [OF w s(1)] show ?thesis by (auto simp: s(2) tx_inv_def finised_def)
  next
    case False
    have "m_except c' \<noteq> None"
      using s(1) False by (auto simp: try_send_def split: option.splits sum.splits)
    then show ?thesis by (auto simp: s(2) tx_inv_def)
  qed
qed

text \<open>\<open>n\<close> write events, until the answers of the kernel run out.\<close>

primrec write_events :: "nat \<Rightarrow> RawConnection \<Rightarrow> (io_error + RawConnection) option" where
  "write_events 0 c = Some (Inr c)"
| "write_events (Suc n) c =
     (case on_callback False True id (\<lambda>c. snd (send_await_resume c)) c of
        Some (Inr c) \<Rightarrow> write_events n c
      | r \<Rightarrow> r)"

lemma write_events_inv: "tx_inv before buff c \<Longrightarrow> write_events n c = Some x \<Longrightarrow> \<exists>d. x = Inr d \<and> tx_inv before buff d"
proof (induction n arbitrary: c)
  case (Suc n)
  obtain y where y: "on_callback False True id (\<lambda>c. snd (send_await_resume c)) c = Some y"
    using Suc.prems(2) by (auto split: option.splits)
  obtain d where d: "y = Inr d" "tx_inv before buff d" using write_event_inv [OF Suc.prems(1) y] by blast
  show ?case using Suc.IH [OF d(2)] Suc.prems(2) y d(1) by simp
qed auto

text \<open>
  (C22) Partial writes neither lose nor repeat bytes. After a send was started and any number of write events was served,
  whatever amounts the kernel took, no null pointer was used and, as long as no error was raised, the wire holds exactly
  the bytes before the call and a prefix of the buffer; the sending coroutine has gone on exactly when the whole buffer
  is on the wire.
\<close>

theorem send_stream:
  assumes "m_except c = None" "buff \<noteq> []" "send_await_suspend awaiter buff c = Some (c1, suspended)"
    "write_events n (if suspended then c1 else snd (send_await_resume c1)) = Some x"
  shows "\<exists>d. x = Inr d \<and> tx_inv (tx_wire c) buff d"
  by (rule write_events_inv [OF send_await_suspend_inv [OF assms(1-3)] assms(4)])

theorem send_stream_witness:
  "\<exists>d. write_events 2 (RawConnection_new [] [Took 2, Send_again, Took 9]
        \<lparr>m_send_awaiter := Some \<lparr>sa_id = 1, sa_buff = ''hello'', sa_tranfer = 0\<rparr>\<rparr>) = Some (Inr d) \<and> tx_inv [] ''hello'' d"
proof -
  let ?c = "RawConnection_new [] [Took 2, Send_again, Took 9]"
  let ?c1 = "?c\<lparr>m_send_awaiter := Some \<lparr>sa_id = 1, sa_buff = ''hello'', sa_tranfer = 0\<rparr>\<rparr>"
  have s: "send_await_suspend 1 ''hello'' ?c = Some (?c1, True)"
    by (simp add: send_await_suspend_def RawConnection_new_def)
  obtain x where x: "write_events 2 (if True then ?c1 else snd (send_await_resume ?c1)) = Some x"
    by (simp add: numeral_eq_Suc on_callback_def RawConnection_new_def try_send_def finised_def send_await_resume_def)
  show ?thesis using send_stream [OF _ _ s x] x by (auto simp: RawConnection_new_def)
qed

text \<open>
  The callback tests the wrong pointer before it reads: when bytes arrive while no coroutine waits for them it
  dereferences \<^verbatim>\<open>nullptr\<close>. It also keeps the pointer to the send awaiter across the resumption of the reader: if one
  event reports both directions, nothing was being sent, and the reader starts a send that the kernel takes only in part,
  it dereferences \<^verbatim>\<open>nullptr\<close> again.
\<close>

theorem on_callback_null:
  "(m_read_awaiter c = None \<longrightarrow> on_callback True epollout r s c = Some (Inl NullDeref)) \<and>
   (m_read_awaiter c = Some w \<and> m_send_awaiter c = None \<and> rx c = Recv_again # ks \<and> m_send_awaiter (r d) \<noteq> None \<and>
      d = c\<lparr>m_send_at_awaiter := True, m_recv_at_awaiter := False, rx := ks, m_read_awaiter := Some (w\<lparr>ra_buff := [], ra_tranfer := 0\<rparr>)\<rparr> \<longrightarrow>
      on_callback True True r s c = Some (Inl NullDeref))"
proof (intro conjI impI; (elim conjE)?)
  show "on_callback True epollout r s c = Some (Inl NullDeref)" if "m_read_awaiter c = None"
    using that by (cases epollout) (simp_all add: on_callback_def)
  show "on_callback True True r s c = Some (Inl NullDeref)"
    if "m_read_awaiter c = Some w" "m_send_awaiter c = None" "rx c = Recv_again # ks" "m_send_awaiter (r d) \<noteq> None"
      "d = c\<lparr>m_send_at_awaiter := True, m_recv_at_awaiter := False, rx := ks, m_read_awaiter := Some (w\<lparr>ra_buff := [], ra_tranfer := 0\<rparr>)\<rparr>"
    using that by (auto simp: on_callback_def try_recv_def)
qed

definition sample_reader :: "RawConnection \<Rightarrow> RawConnection" where
  "sample_reader c = (case send_await_suspend 1 ''hello'' (snd (read_await_resume c)) of None \<Rightarrow> c | Some (c, _) \<Rightarrow> c)"

theorem on_callback_null_witness:
  "on_callback True True sample_reader id
     (RawConnection_new [Recv_again] [Took 2, Send_again]\<lparr>m_read_awaiter := Some \<lparr>ra_buff_size = 8, ra_buff = [], ra_tranfer = 0\<rparr>\<rparr>) =
     Some (Inl NullDeref)"
proof -
  let ?w = "\<lparr>ra_buff_size = 8, ra_buff = [], ra_tranfer = 0\<rparr>"
  let ?c = "RawConnection_new [Recv_again] [Took 2, Send_again]\<lparr>m_read_awaiter := Some ?w\<rparr>"
  have "m_send_awaiter (sample_reader (?c\<lparr>m_send_at_awaiter := True, m_recv_at_awaiter := False, rx := [], m_read_awaiter := Some (?w\<lparr>ra_buff := [], ra_tranfer := 0\<rparr>)\<rparr>)) \<noteq> None"
    by (simp add: sample_reader_def send_await_suspend_def RawConnection_new_def read_await_resume_def try_send_def)
  then show ?thesis
    using on_callback_null [of ?c True sample_reader id ?w "[]"] by (simp add: RawConnection_new_def)
qed

text \<open>An accept that would block takes the waiting awaiter out of the queue and does not resume it.\<close>

lemma accept_again_loses_awaiter:
  assumes "queue_rep (m_awaiter_que a) (node # rest)"
  shows "\<exists>a'. accept_on_callback Accept_again a = (None, a') \<and> queue_rep (m_awaiter_que a') rest"
proof -
  obtain hq where "pop (m_awaiter_que a) = (Some node, hq)" "queue_rep hq rest" by (rule pop_rep [OF assms])
  then show ?thesis by (simp add: accept_on_callback_def)
qed

end
