(* ===== verification/Heap_Timer.thy ===== *)
theory Heap_Timer
  imports Netcore_Prelude "HOL-Library.Multiset"
begin

text \<open>
  The timer heap of \<^verbatim>\<open>core/heaptimer.cpp\<close>: a binary min-heap of deadlines in a vector, with the position of every id
  in a map. Deadlines are in the clock's unit (\<open>ms\<close> units per millisecond) and the clock is a parameter. Callbacks are
  values; what \<open>tick\<close> and \<open>doWork\<close> call is returned. A failed assertion and a read outside the vector are \<open>None\<close>.
\<close>

record 'c TimerNode =
  tn_id :: int
  expires :: int
  tn_cb :: 'c

record 'c HeapTimer =
  heap :: "'c TimerNode list"
  ref :: "int \<rightharpoonup> nat"

definition HeapTimer_new :: "'c HeapTimer" where
  "HeapTimer_new = \<lparr>heap = [], ref = Map.empty\<rparr>"

section \<open>Operations\<close>

definition SwapNode :: "nat \<Rightarrow> nat \<Rightarrow> 'c HeapTimer \<Rightarrow> 'c HeapTimer option" where
  "SwapNode i j t =
     (if i < length (heap t) \<and> j < length (heap t) then
        (let h = (heap t)[i := heap t ! j, j := heap t ! i]
         in Some \<lparr>heap = h, ref = (ref t)(tn_id (h ! i) \<mapsto> i, tn_id (h ! j) \<mapsto> j)\<rparr>)
      else None)"

text \<open>\<^verbatim>\<open>(i - 1) / 2\<close> on \<^verbatim>\<open>size_t\<close>: for the root it is \<open>2 ^ 63 - 1\<close>.\<close>

definition parent :: "nat \<Rightarrow> nat" where
  "parent i = unat ((of_nat i - 1 :: size_t) div 2)"

text \<open>The condition \<^verbatim>\<open>j >= 0\<close> of the loop always holds.\<close>

partial_function (option) siftup_loop :: "nat \<Rightarrow> 'c HeapTimer \<Rightarrow> 'c HeapTimer option" where
  [code]: "siftup_loop i t =
     (let j = parent i in
      if length (heap t) \<le> j then None
      else if expires (heap t ! j) < expires (heap t ! i) then Some t
      else (case SwapNode i j t of None \<Rightarrow> None | Some t \<Rightarrow> siftup_loop j t))"

definition siftup :: "nat \<Rightarrow> 'c HeapTimer \<Rightarrow> 'c HeapTimer option" where
  "siftup i t = (if length (heap t) \<le> i then None else if i = 0 then Some t else siftup_loop i t)"

definition min_child :: "nat \<Rightarrow> nat \<Rightarrow> 'c HeapTimer \<Rightarrow> nat" where
  "min_child i n t =
     (let j = i * 2 + 1 in if j + 1 < n \<and> expires (heap t ! (j + 1)) < expires (heap t ! j) then j + 1 else j)"

function siftdown_loop :: "nat \<Rightarrow> nat \<Rightarrow> 'c HeapTimer \<Rightarrow> (nat \<times> 'c HeapTimer) option" where
  "siftdown_loop i n t =
     (if i * 2 + 1 < n then
        (let j = min_child i n t in
         if expires (heap t ! i) < expires (heap t ! j) then Some (i, t)
         else (case SwapNode i j t of None \<Rightarrow> None | Some t \<Rightarrow> siftdown_loop j n t))
      else Some (i, t))"
  by pat_completeness auto
termination
  by (relation "measure (\<lambda>(i, n, t). n - i)") (auto simp: min_child_def Let_def split: if_splits)

declare siftdown_loop.simps [simp del]

definition siftdown :: "nat \<Rightarrow> nat \<Rightarrow> 'c HeapTimer \<Rightarrow> (bool \<times> 'c HeapTimer) option" where
  "siftdown index n t =
     (if length (heap t) \<le> index \<or> length (heap t) < n then None
      else (case siftdown_loop index n t of None \<Rightarrow> None | Some (i, t) \<Rightarrow> Some (index < i, t)))"

text \<open>\<^verbatim>\<open>if(!siftdown_(i, n)) siftup_(i);\<close>\<close>

definition resift :: "nat \<Rightarrow> nat \<Rightarrow> 'c HeapTimer \<Rightarrow> 'c HeapTimer option" where
  "resift i n t =
     (case siftdown i n t of None \<Rightarrow> None | Some (moved, t) \<Rightarrow> if moved then Some t else siftup i t)"

text \<open>\<open>deadline\<close> is \<^verbatim>\<open>Clock::now() + MS(timeout)\<close>.\<close>

definition add :: "int \<Rightarrow> int \<Rightarrow> 'c \<Rightarrow> 'c HeapTimer \<Rightarrow> 'c HeapTimer option" where
  "add key deadline cb t =
     (if key < 0 then None
      else
        (case ref t key of
           None \<Rightarrow>
             (let i = length (heap t)
              in siftup i \<lparr>heap = heap t @ [\<lparr>tn_id = key, expires = deadline, tn_cb = cb\<rparr>], ref = (ref t)(key \<mapsto> i)\<rparr>)
         | Some i \<Rightarrow>
             if length (heap t) \<le> i then None
             else resift i (length (heap t)) (t\<lparr>heap := (heap t)[i := (heap t ! i)\<lparr>expires := deadline, tn_cb := cb\<rparr>]\<rparr>)))"

definition del :: "nat \<Rightarrow> 'c HeapTimer \<Rightarrow> 'c HeapTimer option" where
  "del index t =
     (if length (heap t) \<le> index then None
      else
        (let n = length (heap t) - 1 in
         case (if index < n
               then (case SwapNode index n t of None \<Rightarrow> None | Some t \<Rightarrow> resift index n t)
               else Some t) of
           None \<Rightarrow> None
         | Some t \<Rightarrow> Some \<lparr>heap = butlast (heap t), ref = (ref t)(tn_id (last (heap t)) := None)\<rparr>))"

definition doWork :: "int \<Rightarrow> 'c HeapTimer \<Rightarrow> ('c list \<times> 'c HeapTimer) option" where
  "doWork key t =
     (if heap t = [] then Some ([], t)
      else
        (case ref t key of
           None \<Rightarrow> Some ([], t)
         | Some i \<Rightarrow>
             if length (heap t) \<le> i then None
             else (case del i t of None \<Rightarrow> None | Some t' \<Rightarrow> Some ([tn_cb (heap t ! i)], t'))))"

definition adjust :: "int \<Rightarrow> int \<Rightarrow> 'c HeapTimer \<Rightarrow> 'c HeapTimer option" where
  "adjust key deadline t =
     (case ref t key of
        None \<Rightarrow> None
      | Some i \<Rightarrow>
          if length (heap t) \<le> i then None
          else
            (case siftdown i (length (heap t)) (t\<lparr>heap := (heap t)[i := (heap t ! i)\<lparr>expires := deadline\<rparr>]\<rparr>) of
               None \<Rightarrow> None
             | Some (_, t) \<Rightarrow> Some t))"

definition pop_timer :: "'c HeapTimer \<Rightarrow> 'c HeapTimer option" where
  "pop_timer t = (if heap t = [] then None else del 0 t)"

text \<open>
  \<^verbatim>\<open>duration_cast<MS>(d).count() > 0\<close> is \<open>ms \<le> d\<close>. The clock is read once for every node looked at: \<open>now k\<close> is the
  \<open>k\<close>-th reading.
\<close>

partial_function (option) tick_loop :: "int \<Rightarrow> (nat \<Rightarrow> int) \<Rightarrow> nat \<Rightarrow> 'c TimerNode list \<Rightarrow> 'c HeapTimer \<Rightarrow> ('c TimerNode list \<times> 'c HeapTimer) option" where
  [code]: "tick_loop ms now k fired t =
     (if heap t = [] then Some (fired, t)
      else if ms \<le> expires (heap t ! 0) - now k then Some (fired, t)
      else (case pop_timer t of None \<Rightarrow> None | Some t' \<Rightarrow> tick_loop ms now (k + 1) (fired @ [heap t ! 0]) t'))"

definition tick :: "int \<Rightarrow> (nat \<Rightarrow> int) \<Rightarrow> 'c HeapTimer \<Rightarrow> ('c TimerNode list \<times> 'c HeapTimer) option" where
  "tick ms now t = tick_loop ms now 0 [] t"

definition clear_timer :: "'c HeapTimer \<Rightarrow> 'c HeapTimer" where
  "clear_timer t = \<lparr>heap = [], ref = Map.empty\<rparr>"

definition duration_cast_ms :: "int \<Rightarrow> int \<Rightarrow> int" where
  "duration_cast_ms ms d = (if d < 0 then - ((- d) div ms) else d div ms)"

text \<open>\<open>res\<close> has type \<^verbatim>\<open>size_t\<close>, so \<^verbatim>\<open>res < 0\<close> never holds; the result is converted to a 32-bit \<^verbatim>\<open>int\<close>.\<close>

definition GetNextTick :: "int \<Rightarrow> (nat \<Rightarrow> int) \<Rightarrow> int \<Rightarrow> 'c HeapTimer \<Rightarrow> (int \<times> 'c TimerNode list \<times> 'c HeapTimer) option" where
  "GetNextTick ms now later t =
     (case tick ms now t of
        None \<Rightarrow> None
      | Some (fired, t) \<Rightarrow>
          Some (sint (of_int (if heap t = [] then - 1 else duration_cast_ms ms (expires (heap t ! 0) - later)) :: 32 word), fired, t))"

section \<open>Invariant\<close>

text \<open>The map holds exactly the positions of the ids.\<close>

definition ref_ok :: "'c HeapTimer \<Rightarrow> bool" where
  "ref_ok t \<longleftrightarrow> (\<forall>i < length (heap t). ref t (tn_id (heap t ! i)) = Some i) \<and>
     (\<forall>d i. ref t d = Some i \<longrightarrow> i < length (heap t) \<and> tn_id (heap t ! i) = d)"

definition up :: "nat \<Rightarrow> nat" where
  "up k = (k - 1) div 2"

definition ordered :: "nat \<Rightarrow> 'c HeapTimer \<Rightarrow> bool" where
  "ordered n t \<longleftrightarrow> (\<forall>k. 0 < k \<and> k < n \<longrightarrow> expires (heap t ! up k) \<le> expires (heap t ! k))"

definition timer_ok :: "'c HeapTimer \<Rightarrow> bool" where
  "timer_ok t \<longleftrightarrow> ref_ok t \<and> ordered (length (heap t)) t \<and> length (heap t) < 2 ^ 63"

lemma up_less: "0 < k \<Longrightarrow> up k < k"
  by (simp add: up_def)

lemma up_eq: "0 < k \<Longrightarrow> up k = i \<longleftrightarrow> k = 2 * i + 1 \<or> k = 2 * i + 2"
  by (auto simp: up_def)

lemma parent_up: "0 < i \<Longrightarrow> i < 2 ^ 63 \<Longrightarrow> parent i = up i"
proof -
  assume i: "0 < i" "i < 2 ^ 63"
  have "of_nat i - 1 = (of_nat (i - 1) :: size_t)" using i(1) by (simp add: of_nat_diff)
  moreover have "unat (of_nat (i - 1) :: size_t) = i - 1" using i(2) by (intro unat_size_t) simp
  ultimately show ?thesis by (simp add: parent_def up_def unat_div)
qed

lemma parent_root: "parent 0 = 2 ^ 63 - 1"
  by (simp add: parent_def)

lemma ordered_root: "ordered n t \<Longrightarrow> k < n \<Longrightarrow> expires (heap t ! 0) \<le> expires (heap t ! k)"
proof (induction k rule: less_induct)
  case (less k)
  show ?case
  proof (cases "k = 0")
    case False
    then have "expires (heap t ! 0) \<le> expires (heap t ! up k)" using less up_less [of k] by simp
    also have "\<dots> \<le> expires (heap t ! k)" using less.prems False by (simp add: ordered_def)
    finally show ?thesis .
  qed simp
qed

lemma SwapNode_ok:
  assumes "ref_ok t" "i < length (heap t)" "j < length (heap t)" "i \<noteq> j"
  obtains t' where "SwapNode i j t = Some t'" "heap t' = (heap t)[i := heap t ! j, j := heap t ! i]" "ref_ok t'"
proof -
  let ?h = "(heap t)[i := heap t ! j, j := heap t ! i]"
  let ?t = "\<lparr>heap = ?h, ref = (ref t)(tn_id (?h ! i) \<mapsto> i, tn_id (?h ! j) \<mapsto> j)\<rparr>"
  have inj: "tn_id (heap t ! k) = tn_id (heap t ! l) \<longleftrightarrow> k = l" if "k < length (heap t)" "l < length (heap t)" for k l
    using assms(1) that unfolding ref_ok_def by (metis option.inject)
  have h: "?h ! k = (if k = i then heap t ! j else if k = j then heap t ! i else heap t ! k)" if "k < length (heap t)" for k
    using that assms by (simp add: nth_list_update)
  have "ref_ok ?t"
    unfolding ref_ok_def
  proof (intro conjI allI impI)
    fix k assume "k < length (heap ?t)"
    then have k: "k < length (heap t)" by simp
    have e: "?h ! i = heap t ! j" "?h ! j = heap t ! i" using h assms by auto
    consider "k = i" | "k = j" | "k \<noteq> i" "k \<noteq> j" by blast
    then show "ref ?t (tn_id (heap ?t ! k)) = Some k"
    proof cases
      case 3
      then have "ref t (tn_id (heap t ! k)) = Some k" using assms(1) k by (simp add: ref_ok_def)
      then show ?thesis using 3 k inj [OF k assms(2)] inj [OF k assms(3)] by (simp add: e h [OF k])
    qed (use e inj [OF assms(2,3)] assms(4) in simp_all)
  next
    fix d k assume d: "ref ?t d = Some k"
    have "k < length (heap t) \<and> tn_id (?h ! k) = d"
    proof (cases "d = tn_id (?h ! j) \<or> d = tn_id (?h ! i)")
      case True
      then show ?thesis using d assms(2,3) by (cases "d = tn_id (?h ! j)") simp_all
    next
      case False
      then have "ref t d = Some k" using d by simp
      then have k: "k < length (heap t)" "tn_id (heap t ! k) = d" using assms(1) by (auto simp: ref_ok_def)
      then have "k \<noteq> i" "k \<noteq> j" using False h assms(2,3) by auto
      then show ?thesis using k h [OF k(1)] by simp
    qed
    then show "k < length (heap ?t)" "tn_id (heap ?t ! k) = d" by simp_all
  qed
  then show thesis using that [of ?t] assms by (simp add: SwapNode_def Let_def)
qed

section \<open>Sifting\<close>

text \<open>The order holds except between \<open>i\<close> and its children; everything below \<open>i\<close> is above what is over \<open>i\<close>.\<close>

definition hole_down :: "nat \<Rightarrow> nat \<Rightarrow> 'c HeapTimer \<Rightarrow> bool" where
  "hole_down n i t \<longleftrightarrow>
     (\<forall>k. 0 < k \<and> k < n \<and> up k \<noteq> i \<longrightarrow> expires (heap t ! up k) \<le> expires (heap t ! k)) \<and>
     (\<forall>k. 0 < k \<and> k < n \<and> up k = i \<and> 0 < i \<longrightarrow> expires (heap t ! up i) \<le> expires (heap t ! k))"

text \<open>The order holds except between \<open>i\<close> and its parent.\<close>

definition hole_up :: "nat \<Rightarrow> nat \<Rightarrow> 'c HeapTimer \<Rightarrow> bool" where
  "hole_up n i t \<longleftrightarrow>
     (\<forall>k. 0 < k \<and> k < n \<and> k \<noteq> i \<longrightarrow> expires (heap t ! up k) \<le> expires (heap t ! k)) \<and>
     (\<forall>k. 0 < k \<and> k < n \<and> up k = i \<and> 0 < i \<longrightarrow> expires (heap t ! up i) \<le> expires (heap t ! k))"

lemma min_child_props:
  assumes "2 * i + 1 < n"
  shows "min_child i n t < n" "i < min_child i n t" "up (min_child i n t) = i" "0 < min_child i n t"
    "0 < k \<Longrightarrow> k < n \<Longrightarrow> up k = i \<Longrightarrow> expires (heap t ! min_child i n t) \<le> expires (heap t ! k)"
  using assms up_eq [of k i] by (auto simp: min_child_def Let_def up_def mult.commute)

lemma swap_nth:
  assumes "i < length xs" "j < length xs" "i \<noteq> j"
  shows "xs[i := xs ! j, j := xs ! i] ! k = (if k = i then xs ! j else if k = j then xs ! i else xs ! k)"
  using assms by (cases "k < length xs") (auto simp: nth_list_update)

lemma mset_swap_nodes: "i < length xs \<Longrightarrow> j < length xs \<Longrightarrow> mset (xs[i := xs ! j, j := xs ! i]) = mset xs"
  by (rule mset_swap)

lemma hole_down_step:
  assumes "hole_down n i t" "2 * i + 1 < n" "n \<le> length (heap t)" "j = min_child i n t"
    "expires (heap t ! j) \<le> expires (heap t ! i)" "heap t' = (heap t)[i := heap t ! j, j := heap t ! i]"
  shows "hole_down n j t'"
proof -
  note m = min_child_props [OF assms(2), where t = t, folded assms(4)]
  have s: "heap t' ! k = (if k = i then heap t ! j else if k = j then heap t ! i else heap t ! k)" for k
    unfolding assms(6) using m assms(3) by (intro swap_nth) auto
  have "expires (heap t' ! up k) \<le> expires (heap t' ! k)" if k: "0 < k" "k < n" "up k \<noteq> j" for k
  proof (cases "up k = i")
    case True
    have "k \<noteq> i" using up_less [OF k(1)] True by simp
    then show ?thesis using True m(2,5) k assms(5) by (simp add: s)
  next
    case False
    then have "k \<noteq> j" using m(3) by auto
    moreover have "expires (heap t ! up k) \<le> expires (heap t ! k)" using assms(1) k False by (simp add: hole_down_def)
    moreover have "expires (heap t ! up i) \<le> expires (heap t ! j)" if "k = i"
      using assms(1) m that k by (simp add: hole_down_def)
    ultimately show ?thesis using False k by (auto simp: s)
  qed
  moreover have "expires (heap t' ! up j) \<le> expires (heap t' ! k)" if k: "0 < k" "k < n" "up k = j" for k
  proof -
    have "k \<noteq> i" "k \<noteq> j" using up_less [OF k(1)] k(3) m(2) by auto
    moreover have "expires (heap t ! j) \<le> expires (heap t ! k)" using assms(1) k m(2) by (force simp: hole_down_def)
    ultimately show ?thesis using m(2,3) by (simp add: s)
  qed
  ultimately show ?thesis by (auto simp: hole_down_def)
qed

lemma siftdown_loop_ok:
  assumes "ref_ok t" "n \<le> length (heap t)" "hole_down n i t"
  shows "\<exists>i' t'. siftdown_loop i n t = Some (i', t') \<and> i \<le> i' \<and> ref_ok t' \<and> ordered n t' \<and>
    length (heap t') = length (heap t) \<and> mset (heap t') = mset (heap t) \<and> (\<forall>k \<ge> n. heap t' ! k = heap t ! k)"
  using assms
proof (induction i n t rule: siftdown_loop.induct)
  case (1 i n t)
  show ?case
  proof (cases "i * 2 + 1 < n")
    case False
    then have "ordered n t" using 1(4) up_eq by (auto simp: ordered_def hole_down_def)
    then show ?thesis using 1(2) False by (simp add: siftdown_loop.simps)
  next
    case True
    then have c: "2 * i + 1 < n" by simp
    define j where "j = min_child i n t"
    note m = min_child_props [OF c, where t = t, folded j_def]
    show ?thesis
    proof (cases "expires (heap t ! i) < expires (heap t ! j)")
      case less: True
      have "expires (heap t ! up k) \<le> expires (heap t ! k)" if k: "0 < k" "k < n" for k
        using less 1(4) m(5) [OF k] k by (cases "up k = i") (simp_all add: hole_down_def)
      then have "ordered n t" by (simp add: ordered_def)
      then show ?thesis using 1(2) True less by (simp add: siftdown_loop.simps j_def)
    next
      case False
      obtain t1 where t1: "SwapNode i j t = Some t1" "heap t1 = (heap t)[i := heap t ! j, j := heap t ! i]" "ref_ok t1"
        using SwapNode_ok [OF 1(2), of i j] m(1,2) 1(3) by (metis less_le_trans less_trans nat_neq_iff)
      have "hole_down n j t1" by (rule hole_down_step [OF 1(4) c 1(3) j_def _ t1(2)]) (use False in simp)
      moreover have "n \<le> length (heap t1)" using 1(3) t1(2) by simp
      ultimately obtain i' t' where r: "siftdown_loop j n t1 = Some (i', t')" "j \<le> i'" "ref_ok t'" "ordered n t'"
        "length (heap t') = length (heap t1)" "mset (heap t') = mset (heap t1)" "\<forall>k \<ge> n. heap t' ! k = heap t1 ! k"
        using 1(1) [OF True j_def False t1(1)] t1(3) by blast
      have "siftdown_loop i n t = Some (i', t')"
        using True False t1(1) r(1) by (subst siftdown_loop.simps) (simp add: j_def)
      moreover have "mset (heap t1) = mset (heap t)" unfolding t1(2) using m 1(3) by (intro mset_swap_nodes) auto
      moreover have "\<forall>k \<ge> n. heap t1 ! k = heap t ! k" using m t1(2) by auto
      ultimately show ?thesis using r m(2) t1(2) by auto
    qed
  qed
qed

lemma hole_up_step:
  assumes "hole_up n i t" "0 < i" "i < n" "n \<le> length (heap t)" "expires (heap t ! i) \<le> expires (heap t ! up i)"
    "heap t' = (heap t)[i := heap t ! up i, up i := heap t ! i]"
  shows "hole_up n (up i) t'"
proof -
  have p: "up i < i" using assms(2) by (rule up_less)
  have s: "heap t' ! k = (if k = i then heap t ! up i else if k = up i then heap t ! i else heap t ! k)" for k
    unfolding assms(6) using p assms(3,4) by (intro swap_nth) auto
  have o: "expires (heap t ! up k) \<le> expires (heap t ! k)" if "0 < k" "k < n" "k \<noteq> i" for k
    using assms(1) that by (simp add: hole_up_def)
  have c: "expires (heap t ! up i) \<le> expires (heap t ! k)" if "0 < k" "k < n" "up k = i" for k
    using assms(1,2) that by (simp add: hole_up_def)
  have "expires (heap t' ! up k) \<le> expires (heap t' ! k)" if k: "0 < k" "k < n" "k \<noteq> up i" for k
  proof -
    have "up k \<noteq> k" using up_less [OF k(1)] by simp
    consider "k = i" | "k \<noteq> i" "up k = up i" | "k \<noteq> i" "up k = i" | "k \<noteq> i" "up k \<noteq> up i" "up k \<noteq> i" by blast
    then show ?thesis
    proof cases
      case 2
      have "expires (heap t ! i) \<le> expires (heap t ! k)" using o [OF k(1,2) 2(1)] 2(2) assms(5) by simp
      then show ?thesis using 2 k(3) p by (simp add: s)
    qed (use p assms(5) o [OF k(1,2)] c [OF k(1,2)] k(3) in \<open>simp_all add: s\<close>)
  qed
  moreover have "expires (heap t' ! up (up i)) \<le> expires (heap t' ! k)" if k: "0 < k" "k < n" "up k = up i" "0 < up i" for k
  proof -
    have u: "up (up i) < up i" using k(4) by (rule up_less)
    have "expires (heap t ! up (up i)) \<le> expires (heap t ! up i)" using o [OF k(4)] p assms(3) by simp
    moreover have "expires (heap t ! up i) \<le> expires (heap t ! k)" if "k \<noteq> i" using o [OF k(1,2) that] k(3) by simp
    moreover have "k \<noteq> up i" using up_less [OF k(1)] k(3) by auto
    ultimately show ?thesis using u p by (auto simp: s)
  qed
  ultimately show ?thesis by (auto simp: hole_up_def)
qed

text \<open>A root strictly earlier than the node is what stops the way up; without it the loop leaves the vector.\<close>

lemma siftup_loop_spec:
  assumes "ref_ok t" "0 < i" "i < length (heap t)" "hole_up (length (heap t)) i t" "length (heap t) < 2 ^ 63"
  shows "if expires (heap t ! 0) < expires (heap t ! i)
    then \<exists>t'. siftup_loop i t = Some t' \<and> ref_ok t' \<and> ordered (length (heap t')) t' \<and> mset (heap t') = mset (heap t)
    else siftup_loop i t = None"
  using assms
proof (induction i arbitrary: t rule: less_induct)
  case (less i)
  let ?n = "length (heap t)"
  have p: "parent i = up i" "up i < i" using parent_up less.prems up_less by auto
  show ?case
  proof (cases "expires (heap t ! up i) < expires (heap t ! i)")
    case True
    then have o: "ordered ?n t" using less.prems(4) by (force simp: ordered_def hole_up_def)
    have "siftup_loop i t = Some t" using True p less.prems(3) by (subst siftup_loop.simps) (simp add: Let_def)
    moreover have "expires (heap t ! 0) < expires (heap t ! i)"
      using ordered_root [OF o, of "up i"] True p(2) less.prems(3) by simp
    ultimately show ?thesis using o less.prems(1) by simp
  next
    case False
    obtain t1 where t1: "SwapNode i (up i) t = Some t1" "heap t1 = (heap t)[i := heap t ! up i, up i := heap t ! i]" "ref_ok t1"
      using SwapNode_ok [OF less.prems(1,3), of "up i"] p(2) less.prems(3) by (metis less_trans nat_neq_iff)
    have step: "siftup_loop i t = siftup_loop (up i) t1"
      using False p less.prems(3) t1(1) by (subst siftup_loop.simps) (simp add: Let_def)
    have s: "heap t1 ! k = (if k = i then heap t ! up i else if k = up i then heap t ! i else heap t ! k)" for k
      unfolding t1(2) using p(2) less.prems(3) by (intro swap_nth) auto
    have m: "mset (heap t1) = mset (heap t)" "length (heap t1) = ?n"
      unfolding t1(2) using p(2) less.prems(3) mset_swap_nodes [of i "heap t" "up i"] by auto
    show ?thesis
    proof (cases "up i = 0")
      case True
      have "siftup_loop (up i) t1 = None"
        using True less.prems(5) m(2) by (subst siftup_loop.simps) (simp add: Let_def parent_root)
      then show ?thesis using False True step by simp
    next
      case j: False
      have h: "hole_up (length (heap t1)) (up i) t1"
        unfolding m(2) by (rule hole_up_step [OF less.prems(4,2,3) order_refl _ t1(2)]) (use False in simp)
      have z: "heap t1 ! 0 = heap t ! 0" "heap t1 ! up i = heap t ! i" using j less.prems(2) p(2) by (simp_all add: s)
      have "0 < up i" "up i < length (heap t1)" "length (heap t1) < 2 ^ 63" using j p(2) less.prems(3,5) m(2) by auto
      from less.IH [OF p(2) t1(3) this(1,2) h this(3)] show ?thesis unfolding z step m(1) .
    qed
  qed
qed

lemma siftup_new:
  assumes "timer_ok t" "ref t (tn_id x) = None" "length (heap t) + 1 < 2 ^ 63"
  defines "t1 \<equiv> \<lparr>heap = heap t @ [x], ref = (ref t)(tn_id x \<mapsto> length (heap t))\<rparr>"
  shows "ref_ok t1" "hole_up (length (heap t1)) (length (heap t)) t1"
proof -
  have r: "ref t (tn_id (heap t ! k)) = Some k" if "k < length (heap t)" for k
    using assms(1) that by (simp add: timer_ok_def ref_ok_def)
  have r': "k < length (heap t) \<and> tn_id (heap t ! k) = d" if "ref t d = Some k" for d k
    using assms(1) that by (simp add: timer_ok_def ref_ok_def)
  show "ref_ok t1"
    unfolding ref_ok_def
  proof (intro conjI allI impI)
    fix k assume "k < length (heap t1)"
    then have "k < length (heap t) \<or> k = length (heap t)" by (auto simp: t1_def)
    then show "ref t1 (tn_id (heap t1 ! k)) = Some k"
      using r [of k] assms(2) by (auto simp: t1_def nth_append)
  next
    fix d k assume "ref t1 d = Some k"
    then show "k < length (heap t1)" "tn_id (heap t1 ! k) = d"
      using r' [of d k] by (cases "d = tn_id x"; simp add: t1_def nth_append)+
  qed
  have o: "expires (heap t ! up k) \<le> expires (heap t ! k)" if "0 < k" "k < length (heap t)" for k
    using assms(1) that by (simp add: timer_ok_def ordered_def)
  have "up k < length (heap t)" if "0 < k" "k \<le> length (heap t)" for k using up_less [OF that(1)] that(2) by simp
  moreover from this have "up k \<noteq> length (heap t)" if "0 < k" "k \<le> length (heap t)" for k using that by (metis less_irrefl)
  ultimately show "hole_up (length (heap t1)) (length (heap t)) t1"
    unfolding hole_up_def using o by (auto simp: t1_def nth_append less_Suc_eq)
qed

lemma ref_ok_butlast:
  assumes "ref_ok t" "heap t \<noteq> []"
  shows "ref_ok \<lparr>heap = butlast (heap t), ref = (ref t)(tn_id (last (heap t)) := None)\<rparr>"
proof -
  let ?n = "length (heap t) - 1"
  have l: "last (heap t) = heap t ! ?n" using assms(2) by (rule last_conv_nth)
  have r: "ref t (tn_id (heap t ! k)) = Some k" if "k \<le> ?n" for k
  proof -
    have "k < length (heap t)" using that assms(2) by (cases "heap t") auto
    then show ?thesis using assms(1) by (simp add: ref_ok_def)
  qed
  have ne: "tn_id (heap t ! k) \<noteq> tn_id (last (heap t))" if "k < ?n" for k
    using r [of k] r [of ?n] that l by auto
  show ?thesis
    unfolding ref_ok_def
  proof (intro conjI allI impI)
    fix k assume "k < length (heap \<lparr>heap = butlast (heap t), ref = (ref t)(tn_id (last (heap t)) := None)\<rparr>)"
    then show "ref \<lparr>heap = butlast (heap t), ref = (ref t)(tn_id (last (heap t)) := None)\<rparr>
        (tn_id (heap \<lparr>heap = butlast (heap t), ref = (ref t)(tn_id (last (heap t)) := None)\<rparr> ! k)) = Some k"
      using r [of k] ne [of k] by (simp add: nth_butlast)
  next
    fix d k assume "ref \<lparr>heap = butlast (heap t), ref = (ref t)(tn_id (last (heap t)) := None)\<rparr> d = Some k"
    then have d: "ref t d = Some k" "d \<noteq> tn_id (last (heap t))" by (auto split: if_splits)
    then have "k < length (heap t)" "tn_id (heap t ! k) = d" using assms(1) by (auto simp: ref_ok_def)
    moreover from this have "k \<noteq> ?n" using d(2) l by auto
    ultimately have "k < ?n" "tn_id (heap t ! k) = d" by auto
    then show "k < length (heap \<lparr>heap = butlast (heap t), ref = (ref t)(tn_id (last (heap t)) := None)\<rparr>)"
      "tn_id (heap \<lparr>heap = butlast (heap t), ref = (ref t)(tn_id (last (heap t)) := None)\<rparr> ! k) = d"
      by (simp_all add: nth_butlast)
  qed
qed

lemma pop_timer_ok:
  assumes "timer_ok t" "heap t \<noteq> []"
  obtains t' where "pop_timer t = Some t'" "timer_ok t'" "mset (heap t) = add_mset (heap t ! 0) (mset (heap t'))"
proof -
  let ?n = "length (heap t) - 1"
  have t: "ref_ok t" "ordered (length (heap t)) t" "length (heap t) < 2 ^ 63" using assms(1) by (auto simp: timer_ok_def)
  have "\<exists>t2. (if 0 < ?n then (case SwapNode 0 ?n t of None \<Rightarrow> None | Some t \<Rightarrow> resift 0 ?n t) else Some t) = Some t2 \<and>
    ref_ok t2 \<and> ordered ?n t2 \<and> length (heap t2) = length (heap t) \<and> mset (heap t2) = mset (heap t) \<and> heap t2 ! ?n = heap t ! 0"
  proof (cases "0 < ?n")
    case False
    then have "?n = 0" by simp
    then show ?thesis using t by (simp add: ordered_def)
  next
    case True
    obtain t1 where t1: "SwapNode 0 ?n t = Some t1" "heap t1 = (heap t)[0 := heap t ! ?n, ?n := heap t ! 0]" "ref_ok t1"
      by (rule SwapNode_ok [OF t(1), of 0 ?n]) (use True in auto)
    have s: "heap t1 ! k = (if k = 0 then heap t ! ?n else if k = ?n then heap t ! 0 else heap t ! k)" for k
      unfolding t1(2) using True by (intro swap_nth) auto
    have "expires (heap t1 ! up k) \<le> expires (heap t1 ! k)" if k: "0 < k" "k < ?n" "up k \<noteq> 0" for k
      using t(2) k up_less [OF k(1)] by (simp add: s ordered_def)
    then have "hole_down ?n 0 t1" by (simp add: hole_down_def)
    from siftdown_loop_ok [OF t1(3) _ this] obtain i t2 where t2: "siftdown_loop 0 ?n t1 = Some (i, t2)" "ref_ok t2" "ordered ?n t2"
      "length (heap t2) = length (heap t1)" "mset (heap t2) = mset (heap t1)" "\<forall>k \<ge> ?n. heap t2 ! k = heap t1 ! k"
      using t1(2) by auto
    have "resift 0 ?n t1 = Some t2"
      using t2(1,4) t1(2) True by (auto simp: resift_def siftdown_def siftup_def)
    moreover have "mset (heap t1) = mset (heap t)" unfolding t1(2) using True by (intro mset_swap_nodes) auto
    ultimately show ?thesis using t1 t2 True s [of ?n] by simp
  qed
  then obtain t2 where t2: "(if 0 < ?n then (case SwapNode 0 ?n t of None \<Rightarrow> None | Some t \<Rightarrow> resift 0 ?n t) else Some t) = Some t2"
    "ref_ok t2" "ordered ?n t2" "length (heap t2) = length (heap t)" "mset (heap t2) = mset (heap t)" "heap t2 ! ?n = heap t ! 0" by blast
  have ne: "heap t2 \<noteq> []" using t2(4) assms(2) by auto
  have last: "last (heap t2) = heap t ! 0" using t2(4,6) ne by (simp add: last_conv_nth)
  define t' where "t' = \<lparr>heap = butlast (heap t2), ref = (ref t2)(tn_id (last (heap t2)) := None)\<rparr>"
  have "pop_timer t = Some t'"
    unfolding pop_timer_def del_def Let_def t2(1) using assms(2) by (simp add: t'_def)
  moreover have "ordered (length (heap t')) t'"
  proof -
    have "up k < length (heap t2) - 1" if "0 < k" "k < length (heap t2) - 1" for k using up_less [OF that(1)] that(2) by simp
    then show ?thesis using t2(3,4) by (simp add: ordered_def t'_def nth_butlast)
  qed
  then have "timer_ok t'" using ref_ok_butlast [OF t2(2) ne] t(3) t2(4) by (simp add: timer_ok_def t'_def)
  moreover have "mset (heap t) = add_mset (heap t ! 0) (mset (heap t'))"
  proof -
    have "mset (heap t2) = mset (butlast (heap t2) @ [last (heap t2)])" using ne by simp
    then show ?thesis unfolding last t2(5) by (simp add: t'_def)
  qed
  ultimately show thesis by (rule that)
qed

lemma tick_loop_ok:
  assumes "timer_ok t"
  shows "\<exists>fired t'. tick_loop ms (\<lambda>_. now) k acc t = Some (acc @ fired, t') \<and> timer_ok t' \<and>
    mset (heap t) = mset fired + mset (heap t') \<and> (\<forall>x \<in> set fired. expires x - now < ms) \<and>
    (\<forall>x \<in> set (heap t'). ms \<le> expires x - now) \<and> sorted (map expires fired)"
  using assms
proof (induction "length (heap t)" arbitrary: t k acc rule: less_induct)
  case less
  have min: "expires (heap t ! 0) \<le> expires x" if "x \<in> set (heap t)" for x
    using that less.prems ordered_root by (metis in_set_conv_nth timer_ok_def)
  consider "heap t = []" | "heap t \<noteq> []" "ms \<le> expires (heap t ! 0) - now" | "heap t \<noteq> []" "\<not> ms \<le> expires (heap t ! 0) - now" by blast
  then show ?case
  proof cases
    case 1
    then show ?thesis using less.prems by (subst tick_loop.simps) simp
  next
    case 2
    then show ?thesis using less.prems min by (subst tick_loop.simps) force
  next
    case 3
    obtain t1 where t1: "pop_timer t = Some t1" "timer_ok t1" "mset (heap t) = add_mset (heap t ! 0) (mset (heap t1))"
      by (rule pop_timer_ok [OF less.prems 3(1)])
    have "length (heap t1) < length (heap t)" using t1(3) by (metis lessI size_add_mset size_mset)
    from less.hyps [OF this t1(2), of "k + 1" "acc @ [heap t ! 0]"] obtain fired t' where
      f: "tick_loop ms (\<lambda>_. now) (k + 1) (acc @ [heap t ! 0]) t1 = Some ((acc @ [heap t ! 0]) @ fired, t')" "timer_ok t'"
      "mset (heap t1) = mset fired + mset (heap t')" "\<forall>x \<in> set fired. expires x - now < ms"
      "\<forall>x \<in> set (heap t'). ms \<le> expires x - now" "sorted (map expires fired)"
      by blast
    have "set fired \<subseteq> set (heap t)" using t1(3) f(3) by (metis set_mset_mset set_mset_add_mset_insert set_mset_union Un_upper1 subset_insertI2)
    then have "sorted (map expires (heap t ! 0 # fired))" using f(6) min by auto
    moreover have "tick_loop ms (\<lambda>_. now) k acc t = Some (acc @ heap t ! 0 # fired, t')"
      using 3 t1(1) f(1) by (subst tick_loop.simps) simp
    ultimately show ?thesis using f 3 t1(3) by (intro exI [of _ "heap t ! 0 # fired"] exI [of _ t']) auto
  qed
qed

text \<open>
  (C38) \<open>tick\<close> is total and exact: on a heap that satisfies the invariant it never leaves the vector or fails an assertion,
  it fires exactly the timers with less than a millisecond left, in the order of their deadlines, it keeps all others,
  and the invariant (heap order and the map from ids to positions) holds again.
\<close>

theorem tick_exact:
  assumes "timer_ok t"
  shows "\<exists>fired t'. tick ms (\<lambda>_. now) t = Some (fired, t') \<and> timer_ok t' \<and>
    mset (heap t) = mset fired + mset (heap t') \<and> (\<forall>x \<in> set fired. expires x - now < ms) \<and>
    (\<forall>x \<in> set (heap t'). ms \<le> expires x - now) \<and> sorted (map expires fired)"
  using tick_loop_ok [OF assms, of ms now 0 "[]"] by (simp add: tick_def)

lemma add_new_spec:
  assumes "timer_ok t" "0 \<le> key" "ref t key = None" "length (heap t) + 1 < 2 ^ 63"
  shows "if heap t = [] \<or> expires (heap t ! 0) < deadline
    then \<exists>t'. add key deadline cb t = Some t' \<and> timer_ok t' \<and>
      mset (heap t') = add_mset \<lparr>tn_id = key, expires = deadline, tn_cb = cb\<rparr> (mset (heap t))
    else add key deadline cb t = None"
proof -
  define x where "x = \<lparr>tn_id = key, expires = deadline, tn_cb = cb\<rparr>"
  define t1 where "t1 = \<lparr>heap = heap t @ [x], ref = (ref t)(tn_id x \<mapsto> length (heap t))\<rparr>"
  have a: "add key deadline cb t = siftup (length (heap t)) t1"
    using assms(2,3) by (simp add: add_def t1_def x_def Let_def)
  have "ref t (tn_id x) = None" using assms(3) by (simp add: x_def)
  note n = siftup_new [OF assms(1) this assms(4), folded t1_def]
  show ?thesis
  proof (cases "heap t = []")
    case True
    then have "timer_ok t1" using n(1) by (simp add: timer_ok_def t1_def ordered_def)
    then show ?thesis using True by (simp add: a siftup_def t1_def x_def)
  next
    case False
    have u: "siftup (length (heap t)) t1 = siftup_loop (length (heap t)) t1" using False by (simp add: siftup_def t1_def)
    have z: "heap t1 ! 0 = heap t ! 0" "heap t1 ! length (heap t) = x" "expires x = deadline" using False by (simp_all add: t1_def nth_append x_def)
    have "0 < length (heap t)" "length (heap t) < length (heap t1)" "length (heap t1) < 2 ^ 63" using False assms(4) by (simp_all add: t1_def)
    note s = siftup_loop_spec [OF n(1) this(1,2) n(2) this(3), unfolded z]
    show ?thesis
    proof (cases "expires (heap t ! 0) < deadline")
      case True
      then obtain t' where t': "siftup_loop (length (heap t)) t1 = Some t'" "ref_ok t'" "ordered (length (heap t')) t'" "mset (heap t') = mset (heap t1)"
        using s by auto
      then have "length (heap t') = length (heap t1)" by (metis size_mset)
      then have "timer_ok t'" using t' assms(4) by (simp add: timer_ok_def t1_def)
      moreover have "mset (heap t') = add_mset x (mset (heap t))" using t'(4) by (simp add: t1_def)
      ultimately show ?thesis using True t'(1) unfolding a u x_def [symmetric] by auto
    next
      case less: False
      then show ?thesis using s False by (simp add: a u)
    qed
  qed
qed

text \<open>
  Adding a timer under a new id works exactly when the heap is empty or some timer is due strictly before the new one:
  then the new timer is in the heap and the invariant holds. A timer that is due no later than all others climbs to the root,
  where the test \<^verbatim>\<open>j >= 0\<close> on an unsigned index does not stop the loop, and the next comparison reads far outside the vector.
\<close>

theorem add_new_timer:
  assumes "timer_ok t" "0 \<le> key" "ref t key = None" "length (heap t) + 1 < 2 ^ 63"
  shows "(add key deadline cb t = None \<longleftrightarrow> heap t \<noteq> [] \<and> deadline \<le> expires (heap t ! 0)) \<and>
    (\<forall>t'. add key deadline cb t = Some t' \<longrightarrow> timer_ok t' \<and>
      mset (heap t') = add_mset \<lparr>tn_id = key, expires = deadline, tn_cb = cb\<rparr> (mset (heap t)))"
proof (cases "heap t = [] \<or> expires (heap t ! 0) < deadline")
  case True
  then obtain t1 where "add key deadline cb t = Some t1" "timer_ok t1"
    "mset (heap t1) = add_mset \<lparr>tn_id = key, expires = deadline, tn_cb = cb\<rparr> (mset (heap t))"
    using add_new_spec [OF assms, of deadline cb] by auto
  then show ?thesis using True by auto
next
  case False
  then have "add key deadline cb t = None" using add_new_spec [OF assms, of deadline cb] by (simp split: if_splits)
  then show ?thesis using False by auto
qed

lemma timer_ok_new: "timer_ok HeapTimer_new"
  by (simp add: timer_ok_def HeapTimer_new_def ref_ok_def ordered_def)

definition sample_timer :: "nat HeapTimer" where
  "sample_timer = \<lparr>heap = [\<lparr>tn_id = 4, expires = 100, tn_cb = 0\<rparr>, \<lparr>tn_id = 9, expires = 300, tn_cb = 1\<rparr>], ref = [4 \<mapsto> 0, 9 \<mapsto> 1]\<rparr>"

lemma sample_timer_ok: "timer_ok sample_timer"
  by (auto simp: timer_ok_def sample_timer_def ref_ok_def ordered_def up_def less_Suc_eq split: if_splits)

theorem tick_exact_witness:
  "\<exists>fired t'. tick 10 (\<lambda>_. 200) sample_timer = Some (fired, t') \<and> timer_ok t' \<and>
    mset (heap sample_timer) = mset fired + mset (heap t')"
  using tick_exact [OF sample_timer_ok, of 10 200] by auto

theorem add_new_timer_witness: "add 7 50 5 sample_timer = None"
proof -
  have "ref sample_timer 7 = None" "heap sample_timer \<noteq> []" "50 \<le> expires (heap sample_timer ! 0)"
    "length (heap sample_timer) + 1 < 2 ^ 63" by (simp_all add: sample_timer_def)
  then show ?thesis using add_new_timer [OF sample_timer_ok, of 7 50 5] by simp
qed

section \<open>Two more deviations\<close>

text \<open>\<open>adjust\<close> only sifts down: moving a deadline forward can leave a child earlier than its parent.\<close>

lemma adjust_earlier: "\<exists>t'. adjust 9 50 sample_timer = Some t' \<and> \<not> ordered 2 t'"
  by (auto simp: adjust_def sample_timer_def siftdown_def siftdown_loop.simps ordered_def up_def)

text \<open>
  The clamp of \<open>GetNextTick\<close> to 0 has no effect: if the next deadline passes between the two readings of the clock, the
  result is negative, which \<^verbatim>\<open>epoll_wait\<close> takes as an infinite timeout.
\<close>

lemma GetNextTick_negative:
  assumes "tick ms now t = Some (fired, t')" "heap t' \<noteq> []" "duration_cast_ms ms (expires (heap t' ! 0) - later) = d"
    "- (2 ^ 31) \<le> d" "d < 0"
  shows "GetNextTick ms now later t = Some (d, fired, t')"
proof -
  have "sint (of_int d :: 32 word) = d" using assms(4,5) by (simp add: signed_of_int signed_take_bit_int_eq_self)
  then show ?thesis using assms(1-3) by (simp add: GetNextTick_def)
qed

end
