(* ===== verification/Itoa.thy ===== *)
theory Itoa
  imports Netcore_Prelude
begin

text \<open>
  Decimal output of integers (\<^verbatim>\<open>include/netcore/itoa.hpp\<close>), used for the \<^verbatim>\<open>Content-Length\<close> header: the digit-pair
  conversion of 8, 16 and 32 bit values, whose divisions by powers of ten are multiplications with an inverse and a shift,
  and the radix conversion \<open>xtoa\<close>. A read behind the table of digit pairs is \<open>None\<close>. The 64-bit instance needs a
  128-bit type that the header does not provide, so it does not exist in the program either.
\<close>

section \<open>Divisions\<close>

definition split2 :: "u16 \<Rightarrow> u16 \<times> byte" where
  "split2 u = (let q = ucast (drop_bit 22 (41943 * (ucast u + 1 :: u32))) in (q, ucast (u - q * 100)))"

definition split4 :: "u32 \<Rightarrow> u32 \<times> u16" where
  "split4 u = (let q = ucast (drop_bit 45 (3518437209 * (ucast u + 0 :: size_t))) in (q, ucast (u - q * 10000)))"

section \<open>Writing digits\<close>

datatype Direction = Fwd | Rev

definition out :: "Direction \<Rightarrow> string \<Rightarrow> string \<Rightarrow> string" where
  "out D p obj = (if D = Fwd then p @ obj else obj @ p)"

definition ascii :: "nat \<Rightarrow> char" where
  "ascii n = char_of (48 + n)"

definition digits :: string where
  "digits = map (\<lambda>i. ascii (if i mod 2 \<noteq> 0 then (i div 2) mod 10 else (i div 2) div 10)) [0 ..< 200]"

definition dd :: "byte \<Rightarrow> string option" where
  "dd u = (if 2 * unat u + 1 < length digits then Some [digits ! (2 * unat u), digits ! (2 * unat u + 1)] else None)"

definition then_out :: "Direction \<Rightarrow> string \<Rightarrow> string option \<Rightarrow> string option" where
  "then_out D p obj = (case obj of None \<Rightarrow> None | Some s \<Rightarrow> Some (out D p s))"

text \<open>Two conversions after each other, the more significant one first or last.\<close>

definition in_order ::
  "Direction \<Rightarrow> (string \<Rightarrow> string option) \<Rightarrow> (string \<Rightarrow> string option) \<Rightarrow> string \<Rightarrow> string option"
where
  "in_order D high low p =
     (if D = Fwd then Option.bind (high p) low else Option.bind (low p) high)"

definition head1 :: "Direction \<Rightarrow> byte \<Rightarrow> string \<Rightarrow> string option" where
  "head1 D u p = (if u < 10 then Some (out D p [ascii (unat u)]) else then_out D p (dd u))"

definition tail1 :: "Direction \<Rightarrow> byte \<Rightarrow> string \<Rightarrow> string option" where
  "tail1 D u p = then_out D p (dd u)"

definition head2_qr :: "Direction \<Rightarrow> u16 \<times> byte \<Rightarrow> string \<Rightarrow> string option" where
  "head2_qr D x p = in_order D (head1 D (ucast (fst x))) (tail1 D (snd x)) p"

definition head2 :: "Direction \<Rightarrow> u16 \<Rightarrow> string \<Rightarrow> string option" where
  "head2 D u p = (if u < 100 then head1 D (ucast u) p else head2_qr D (split2 u) p)"

definition tail2 :: "Direction \<Rightarrow> u16 \<Rightarrow> string \<Rightarrow> string option" where
  "tail2 D u p = (let x = split2 u in in_order D (tail1 D (ucast (fst x))) (tail1 D (snd x)) p)"

definition head4_qr :: "Direction \<Rightarrow> u32 \<times> u16 \<Rightarrow> string \<Rightarrow> string option" where
  "head4_qr D x p = in_order D (head2 D (ucast (fst x))) (tail2 D (snd x)) p"

definition large2 :: "Direction \<Rightarrow> u16 \<times> byte \<Rightarrow> string \<Rightarrow> string option" where
  "large2 D x p =
     (let y = split2 (fst x)
      in in_order D (in_order D (head1 D (ucast (fst y))) (tail1 D (snd y))) (tail1 D (snd x)) p)"

definition large4 :: "Direction \<Rightarrow> u32 \<times> u16 \<Rightarrow> string \<Rightarrow> string option" where
  "large4 D x p =
     (let y = split4 (fst x)
      in in_order D (in_order D (head2 D (ucast (fst y))) (tail2 D (snd y))) (tail2 D (snd x)) p)"

definition itoa1 :: "Direction \<Rightarrow> byte \<Rightarrow> string \<Rightarrow> string option" where
  "itoa1 D u p =
     (if u < 10 then Some (out D p [ascii (unat u)])
      else if u < 100 then then_out D p (dd u)
      else in_order D (\<lambda>p. Some (out D p [ascii (unat (u div 100))])) (\<lambda>p. then_out D p (dd (u mod 100))) p)"

definition itoa2 :: "Direction \<Rightarrow> u16 \<Rightarrow> string \<Rightarrow> string option" where
  "itoa2 D u p =
     (if u < 100 then head1 D (ucast u) p
      else (let x = split2 u in if u < 10000 then head2_qr D x p else large2 D x p))"

definition itoa4 :: "Direction \<Rightarrow> u32 \<Rightarrow> string \<Rightarrow> string option" where
  "itoa4 D u p =
     (if u < 10000 then head2 D (ucast u) p
      else (let x = split4 u in if u < 100000000 then head4_qr D x p else large4 D x p))"

text \<open>The signed instance at \<^verbatim>\<open>int\<close>: the absolute value without a branch, and the sign.\<close>

definition itoa4_signed :: "Direction \<Rightarrow> 32 word \<Rightarrow> string \<Rightarrow> string option" where
  "itoa4_signed D i p =
     (let msk = (if sint i < 0 then NOT 0 else 0 :: u32); u = ((2 * i) AND NOT msk) - i;
          p = (if D = Fwd \<and> msk AND 1 \<noteq> 0 then p @ ''-'' else p)
      in case itoa4 D u p of
           None \<Rightarrow> None
         | Some p \<Rightarrow> Some (if D = Rev \<and> msk \<noteq> 0 then ''-'' @ p else p))"

definition itoa_fwd :: "32 word \<Rightarrow> string option" where
  "itoa_fwd i = itoa4_signed Fwd i []"

definition itoa_rev :: "32 word \<Rightarrow> string option" where
  "itoa_rev i = itoa4_signed Rev i []"

section \<open>Radix conversion\<close>

text \<open>The \<^verbatim>\<open>do\<close> loop; a radix of 0 divides by zero and a radix of 1 does not end.\<close>

partial_function (option) xtoa_digits :: "size_t \<Rightarrow> u32 \<Rightarrow> string \<Rightarrow> string option" where
  [code]: "xtoa_digits uval uradix sp =
     (if uradix = 0 then None
      else
        (let rem = unat (uval mod ucast uradix); uval = uval div ucast uradix;
             c = (if rem < 10 then char_of (48 + rem) else char_of (65 + rem - 10))
         in if 0 < uval then xtoa_digits uval uradix (sp @ [c]) else Some (sp @ [c])))"

text \<open>The string stored, without the final zero byte; the digits are written backwards and then reversed in place. The negation of the least
  64-bit value overflows, which is undefined for a signed type: \<open>None\<close>.\<close>

definition xtoa :: "64 word \<Rightarrow> u32 \<Rightarrow> bool \<Rightarrow> string option" where
  "xtoa sval uradix signedp =
     (if signedp \<and> uradix = 10 \<and> sint sval < 0
      then if sint sval = - (2 ^ 63) then None
      else (case xtoa_digits (- sval) uradix [] of None \<Rightarrow> None | Some cs \<Rightarrow> Some (''-'' @ rev cs))
      else (case xtoa_digits sval uradix [] of None \<Rightarrow> None | Some cs \<Rightarrow> Some (rev cs)))"

section \<open>Reference: decimal notation\<close>

function dec :: "nat \<Rightarrow> string" where
  "dec n = (if n < 10 then [ascii n] else dec (n div 10) @ [ascii (n mod 10)])"
  by pat_completeness auto
termination
  by (relation "measure id") auto

declare dec.simps [simp del]

primrec dec_pad :: "nat \<Rightarrow> nat \<Rightarrow> string" where
  "dec_pad 0 n = []"
| "dec_pad (Suc k) n = dec_pad k (n div 10) @ [ascii (n mod 10)]"

lemma dec_append: "0 < q \<Longrightarrow> r < 10 ^ k \<Longrightarrow> dec (q * 10 ^ k + r) = dec q @ dec_pad k r"
proof (induction k arbitrary: r)
  case (Suc k)
  let ?n = "q * 10 ^ Suc k + r"
  have "10 * 1 \<le> q * 10 ^ Suc k" using Suc.prems(1) by (simp add: Suc_leI)
  then have n: "\<not> ?n < 10" by linarith
  have "?n = 10 * (q * 10 ^ k) + r" by simp
  then have "?n div 10 = q * 10 ^ k + r div 10" "?n mod 10 = r mod 10" by (simp_all only: div_mult_self4 mod_mult_self4)
  moreover have "r div 10 < 10 ^ k" using Suc.prems(2) by (simp add: less_mult_imp_div_less mult.commute)
  ultimately show ?case using Suc.IH [OF Suc.prems(1)] n by (subst dec.simps) simp
qed simp

lemma dec_pad_append: "r < 10 ^ b \<Longrightarrow> dec_pad (a + b) (q * 10 ^ b + r) = dec_pad a q @ dec_pad b r"
proof (induction b arbitrary: r)
  case (Suc b)
  have "q * 10 ^ Suc b + r = 10 * (q * 10 ^ b) + r" by simp
  then have "(q * 10 ^ Suc b + r) div 10 = q * 10 ^ b + r div 10" "(q * 10 ^ Suc b + r) mod 10 = r mod 10"
    by (simp_all only: div_mult_self4 mod_mult_self4)
  moreover have "r div 10 < 10 ^ b" using Suc.prems by (simp add: less_mult_imp_div_less mult.commute)
  ultimately show ?case using Suc.IH by simp
qed simp

section \<open>The multiplicative inverses\<close>

lemma inverse_up:
  assumes "m * d = p + e" "u * e < (p :: nat)" "0 < d"
  shows "m * u div p = u div d"
proof -
  define q r where "q = u div d" and "r = u mod d"
  have u: "u = q * d + r" "r < d" using assms(3) by (simp_all add: q_def r_def)
  have "m * u = q * (m * d) + m * r" by (simp add: u(1) algebra_simps)
  then have eq: "m * u = q * p + (q * e + m * r)" unfolding assms(1) by (simp add: algebra_simps)
  have "d * (q * e + m * r) = e * u + p * r" using assms(1) by (simp add: u(1) algebra_simps) (metis add_mult_distrib2 mult.commute mult.left_commute)
  also have "\<dots> < p + p * r" using assms(2) by (simp add: mult.commute)
  also have "\<dots> \<le> p * d" using u(2) by (metis Suc_leI add.commute mult_Suc_right mult_le_mono2)
  finally have "q * e + m * r < p" by (simp add: mult.commute)
  then show ?thesis unfolding eq q_def by simp
qed

lemma inverse_down:
  assumes "m * d + e = (p :: nat)" "u div d * e \<le> m" "0 < d" "0 < e"
  shows "m * (u + 1) div p = u div d"
proof -
  define q r where "q = u div d" and "r = u mod d"
  have u: "u = q * d + r" "r < d" using assms(3) by (simp_all add: q_def r_def)
  have "m * (u + 1) + q * e = q * (m * d + e) + m * (r + 1)" by (simp add: u(1) algebra_simps)
  then have "m * (u + 1) + q * e = q * p + m * (r + 1)" unfolding assms(1) .
  moreover have "q * e \<le> m * (r + 1)" using assms(2) q_def by (simp add: trans_le_add1)
  ultimately have eq: "m * (u + 1) = q * p + (m * (r + 1) - q * e)" by linarith
  have "m * (r + 1) \<le> m * d" using u(2) by (simp add: Suc_leI del: mult_Suc_right)
  then have "m * (r + 1) - q * e < p" using assms(1,4) by linarith
  then show ?thesis unfolding eq q_def by simp
qed

lemma split2_spec: "unat (fst (split2 u)) = unat u div 100" "unat (snd (split2 u)) = unat u mod 100"
proof -
  define n where "n = unat u"
  have n: "n < 2 ^ 16" unfolding n_def by (rule order_less_le_trans [OF unsigned_less]) simp
  have "unat (ucast u + 1 :: u32) = n + 1"
    using n by (simp add: n_def unat_word_ariths(1) unsigned_ucast_eq take_bit_nat_eq_self)
  moreover have "unat (41943 * w) = 41943 * (n + 1)" if "unat w = n + 1" for w :: u32
    using n that by (simp add: unat_word_ariths(2))
  ultimately have "unat (41943 * (ucast u + 1 :: u32)) = 41943 * (n + 1)" by blast
  moreover have "unat (drop_bit 22 w) = unat w div 2 ^ 22" for w :: u32 by (simp add: drop_bit_eq_div unat_div)
  ultimately have "unat (drop_bit 22 (41943 * (ucast u + 1 :: u32))) = 41943 * (n + 1) div 2 ^ 22" by metis
  also have "\<dots> = n div 100"
    by (rule inverse_down [where e = 4]) (use n in auto)
  finally have q: "unat (drop_bit 22 (41943 * (ucast u + 1 :: u32))) = n div 100" .
  show f: "unat (fst (split2 u)) = unat u div 100"
    unfolding split2_def Let_def fst_conv unsigned_ucast_eq q using n by (simp add: n_def take_bit_nat_eq_self)
  have "snd (split2 u) = ucast (u - fst (split2 u) * 100)" by (simp add: split2_def Let_def)
  moreover have "unat (fst (split2 u) * 100) = n div 100 * 100" using n f by (simp add: unat_word_ariths(2) n_def)
  then have "unat (u - fst (split2 u) * 100) = n mod 100"
    by (subst unat_sub) (simp_all add: word_le_nat_alt n_def modulo_nat_def minus_mult_div_eq_mod [symmetric])
  ultimately show "unat (snd (split2 u)) = unat u mod 100"
    by (simp add: unsigned_ucast_eq n_def take_bit_nat_eq_self)
qed

lemma split4_spec: "unat (fst (split4 u)) = unat u div 10000" "unat (snd (split4 u)) = unat u mod 10000"
proof -
  define n where "n = unat u"
  have n: "n < 2 ^ 32" unfolding n_def by (rule order_less_le_trans [OF unsigned_less]) simp
  have "unat (ucast u + 0 :: size_t) = n"
    using n by (simp add: n_def unsigned_ucast_eq take_bit_nat_eq_self)
  moreover have "unat (3518437209 * w) = 3518437209 * n" if "unat w = n" for w :: size_t
    using n that by (simp add: unat_word_ariths(2))
  moreover have "unat (drop_bit 45 w) = unat w div 2 ^ 45" for w :: size_t by (simp add: drop_bit_eq_div unat_div)
  ultimately have "unat (drop_bit 45 (3518437209 * (ucast u + 0 :: size_t))) = 3518437209 * n div 2 ^ 45" by metis
  also have "\<dots> = n div 10000"
    by (rule inverse_up [where e = 1168]) (use n in auto)
  finally have q: "unat (drop_bit 45 (3518437209 * (ucast u + 0 :: size_t))) = n div 10000" .
  show f: "unat (fst (split4 u)) = unat u div 10000"
    unfolding split4_def Let_def fst_conv unsigned_ucast_eq q using n by (simp add: n_def take_bit_nat_eq_self)
  have "snd (split4 u) = ucast (u - fst (split4 u) * 10000)" by (simp add: split4_def Let_def)
  moreover have "unat (fst (split4 u) * 10000) = n div 10000 * 10000" using n f by (simp add: unat_word_ariths(2) n_def)
  then have "unat (u - fst (split4 u) * 10000) = n mod 10000"
    by (subst unat_sub) (simp_all add: word_le_nat_alt n_def modulo_nat_def minus_mult_div_eq_mod [symmetric])
  ultimately show "unat (snd (split4 u)) = unat u mod 10000"
    by (simp add: unsigned_ucast_eq n_def take_bit_nat_eq_self)
qed

section \<open>Digits\<close>

lemma dd_spec: "unat u < 100 \<Longrightarrow> dd u = Some (dec_pad 2 (unat u))"
proof -
  assume u: "unat u < 100"
  have "digits ! (2 * unat u) = ascii (unat u div 10)" "digits ! (2 * unat u + 1) = ascii (unat u mod 10)"
    using u by (simp_all add: digits_def del: upt_Suc)
  moreover have "unat u div 10 mod 10 = unat u div 10" using u by simp
  ultimately show ?thesis using u by (simp add: dd_def digits_def numeral_2_eq_2)
qed

lemma dec_small: "n < 10 \<Longrightarrow> dec n = [ascii n]" "10 \<le> n \<Longrightarrow> n < 100 \<Longrightarrow> dec n = dec_pad 2 n"
  by (subst dec.simps, simp add: numeral_2_eq_2 dec.simps [of "n div 10"])+

text \<open>A conversion that produces the string \<open>s\<close> at the front or at the back.\<close>

definition writes :: "Direction \<Rightarrow> (string \<Rightarrow> string option) \<Rightarrow> string \<Rightarrow> bool" where
  "writes D f s \<longleftrightarrow> (\<forall>p. f p = Some (out D p s))"

lemma writes_in_order: "writes D high s \<Longrightarrow> writes D low s' \<Longrightarrow> writes D (in_order D high low) (s @ s')"
  by (simp add: writes_def in_order_def out_def)

lemma unat_ucast_le:
  "unat (w :: u16) < 256 \<Longrightarrow> unat (ucast w :: byte) = unat w" "unat (v :: u32) < 65536 \<Longrightarrow> unat (ucast v :: u16) = unat v"
  by (simp_all add: unsigned_ucast_eq take_bit_nat_eq_self)

lemma tail1_writes: "unat u < 100 \<Longrightarrow> writes D (tail1 D u) (dec_pad 2 (unat u))"
  by (simp add: writes_def tail1_def then_out_def dd_spec)

lemma head1_writes: "unat u < 100 \<Longrightarrow> writes D (head1 D u) (dec (unat u))"
  by (auto simp: writes_def head1_def then_out_def dd_spec dec_small word_less_nat_alt)

lemma head2_qr_writes:
  assumes "0 < unat (fst x)" "unat (fst x) < 100" "unat (snd x) < 100"
  shows "writes D (head2_qr D x) (dec (unat (fst x) * 100 + unat (snd x)))"
proof -
  have "writes D (head1 D (ucast (fst x))) (dec (unat (fst x)))" using head1_writes [of "ucast (fst x)" D] assms(2) by (simp add: unat_ucast_le)
  from writes_in_order [OF this tail1_writes [OF assms(3)]] show ?thesis
    using dec_append [OF assms(1), of "unat (snd x)" 2] assms(3) by (simp add: head2_qr_def [abs_def])
qed

lemma head2_writes:
  assumes "unat u < 10000"
  shows "writes D (head2 D u) (dec (unat u))"
proof (cases "unat u < 100")
  case True
  then have "writes D (head1 D (ucast u)) (dec (unat u))" using head1_writes [of "ucast u" D] by (simp add: unat_ucast_le)
  then show ?thesis using True by (simp add: writes_def head2_def word_less_nat_alt)
next
  case False
  have "writes D (head2_qr D (split2 u)) (dec (unat u div 100 * 100 + unat u mod 100))"
    using head2_qr_writes [of "split2 u" D] False assms by (simp add: split2_spec div_greater_zero_iff less_mult_imp_div_less)
  then show ?thesis using False by (simp add: writes_def head2_def word_less_nat_alt)
qed

lemma tail2_writes:
  assumes "unat u < 10000"
  shows "writes D (tail2 D u) (dec_pad 4 (unat u))"
proof -
  have q: "unat u div 100 < 100" using assms by (simp add: less_mult_imp_div_less)
  have "writes D (tail1 D (ucast (fst (split2 u)))) (dec_pad 2 (unat u div 100))"
    using tail1_writes [of "ucast (fst (split2 u))" D] q by (simp add: unat_ucast_le split2_spec)
  moreover have "writes D (tail1 D (snd (split2 u))) (dec_pad 2 (unat u mod 100))"
    using tail1_writes [of "snd (split2 u)" D] by (simp add: split2_spec)
  ultimately have "writes D (tail2 D u) (dec_pad 2 (unat u div 100) @ dec_pad 2 (unat u mod 100))"
    by (simp add: tail2_def [abs_def] Let_def writes_in_order)
  then show ?thesis using dec_pad_append [of "unat u mod 100" 2 2 "unat u div 100"] by simp
qed

lemma head4_qr_writes:
  assumes "0 < unat (fst x)" "unat (fst x) < 10000" "unat (snd x) < 10000"
  shows "writes D (head4_qr D x) (dec (unat (fst x) * 10000 + unat (snd x)))"
proof -
  have "writes D (head2 D (ucast (fst x))) (dec (unat (fst x)))" using head2_writes [of "ucast (fst x)" D] assms(2) by (simp add: unat_ucast_le)
  from writes_in_order [OF this tail2_writes [OF assms(3)]] show ?thesis
    using dec_append [OF assms(1), of "unat (snd x)" 4] assms(3) by (simp add: head4_qr_def [abs_def])
qed

lemma large4_writes:
  assumes "10000 \<le> unat (fst x)" "unat (fst x) < 100000000" "unat (snd x) < 10000"
  shows "writes D (large4 D x) (dec (unat (fst x) * 10000 + unat (snd x)))"
proof -
  let ?y = "split4 (fst x)"
  have y: "0 < unat (fst ?y)" "unat (fst ?y) < 10000" "unat (snd ?y) < 10000"
    using assms(1,2) by (simp_all add: split4_spec div_greater_zero_iff less_mult_imp_div_less)
  have "unat (fst ?y) * 10000 + unat (snd ?y) = unat (fst x)" by (simp add: split4_spec)
  then have "writes D (in_order D (head2 D (ucast (fst ?y))) (tail2 D (snd ?y))) (dec (unat (fst x)))"
    using head4_qr_writes [OF y, of D] by (simp add: head4_qr_def [abs_def])
  from writes_in_order [OF this tail2_writes [OF assms(3)]] show ?thesis
    using dec_append [of "unat (fst x)" "unat (snd x)" 4] assms(1,3) by (simp add: large4_def [abs_def] Let_def)
qed

lemma large2_writes:
  assumes "100 \<le> unat (fst x)" "unat (fst x) < 10000" "unat (snd x) < 100"
  shows "writes D (large2 D x) (dec (unat (fst x) * 100 + unat (snd x)))"
proof -
  let ?y = "split2 (fst x)"
  have y: "0 < unat (fst ?y)" "unat (fst ?y) < 100" "unat (snd ?y) < 100"
    using assms(1,2) by (simp_all add: split2_spec div_greater_zero_iff less_mult_imp_div_less)
  have "unat (fst ?y) * 100 + unat (snd ?y) = unat (fst x)" by (simp add: split2_spec)
  then have "writes D (in_order D (head1 D (ucast (fst ?y))) (tail1 D (snd ?y))) (dec (unat (fst x)))"
    using head2_qr_writes [OF y, of D] by (simp add: head2_qr_def [abs_def])
  from writes_in_order [OF this tail1_writes [OF assms(3)]] show ?thesis
    using dec_append [of "unat (fst x)" "unat (snd x)" 2] assms(1,3) by (simp add: large2_def [abs_def] Let_def)
qed

lemma itoa4_writes: "writes D (itoa4 D u) (dec (unat u))"
proof -
  have u: "unat u < 2 ^ 32" by (rule order_less_le_trans [OF unsigned_less]) simp
  let ?x = "split4 u"
  have x: "unat (fst ?x) * 10000 + unat (snd ?x) = unat u" "unat (snd ?x) < 10000" by (simp_all add: split4_spec)
  consider "unat u < 10000" | "10000 \<le> unat u" "unat u < 100000000" | "100000000 \<le> unat u" by linarith
  then show ?thesis
  proof cases
    case 1
    then have "writes D (head2 D (ucast u)) (dec (unat u))" using head2_writes [of "ucast u" D] by (simp add: unat_ucast_le)
    then show ?thesis using 1 by (simp add: writes_def itoa4_def word_less_nat_alt)
  next
    case 2
    then have "0 < unat (fst ?x)" "unat (fst ?x) < 10000" by (simp_all add: split4_spec div_greater_zero_iff less_mult_imp_div_less)
    from head4_qr_writes [OF this x(2), of D] show ?thesis unfolding x(1) using 2 by (simp add: writes_def itoa4_def word_less_nat_alt)
  next
    case 3
    then have "10000 \<le> unat (fst ?x)" "unat (fst ?x) < 100000000"
      using u by (simp_all add: split4_spec less_eq_div_iff_mult_less_eq less_mult_imp_div_less)
    from large4_writes [OF this x(2), of D] show ?thesis unfolding x(1) using 3 by (simp add: writes_def itoa4_def word_less_nat_alt)
  qed
qed

lemma itoa2_writes: "writes D (itoa2 D u) (dec (unat u))"
proof -
  have u: "unat u < 2 ^ 16" by (rule order_less_le_trans [OF unsigned_less]) simp
  let ?x = "split2 u"
  have x: "unat (fst ?x) * 100 + unat (snd ?x) = unat u" "unat (snd ?x) < 100" by (simp_all add: split2_spec)
  consider "unat u < 100" | "100 \<le> unat u" "unat u < 10000" | "10000 \<le> unat u" by linarith
  then show ?thesis
  proof cases
    case 1
    then have "writes D (head1 D (ucast u)) (dec (unat u))" using head1_writes [of "ucast u" D] by (simp add: unat_ucast_le)
    then show ?thesis using 1 by (simp add: writes_def itoa2_def word_less_nat_alt)
  next
    case 2
    then have "0 < unat (fst ?x)" "unat (fst ?x) < 100" by (simp_all add: split2_spec div_greater_zero_iff less_mult_imp_div_less)
    from head2_qr_writes [OF this x(2), of D] show ?thesis unfolding x(1) using 2 by (simp add: writes_def itoa2_def word_less_nat_alt)
  next
    case 3
    then have "100 \<le> unat (fst ?x)" "unat (fst ?x) < 10000"
      using u by (simp_all add: split2_spec less_eq_div_iff_mult_less_eq less_mult_imp_div_less)
    from large2_writes [OF this x(2), of D] show ?thesis unfolding x(1) using 3 by (simp add: writes_def itoa2_def word_less_nat_alt)
  qed
qed

lemma itoa1_writes: "writes D (itoa1 D u) (dec (unat u))"
proof -
  have u: "unat u < 256" by simp
  consider "unat u < 100" | "100 \<le> unat u" by linarith
  then show ?thesis
  proof cases
    case 1
    then have "itoa1 D u = head1 D u" by (auto simp: itoa1_def head1_def word_less_nat_alt)
    then show ?thesis using head1_writes [OF 1, of D] by simp
  next
    case 2
    have d: "unat (u div 100) = unat u div 100" "unat (u mod 100) = unat u mod 100" by (simp_all add: unat_div unat_mod)
    have "unat u div 100 < 3" by (rule less_mult_imp_div_less) (use u in linarith)
    then have q: "unat u div 100 < 10" "0 < unat u div 100" using 2 by (simp_all add: div_greater_zero_iff)
    have h: "writes D (\<lambda>p. Some (out D p [ascii (unat (u div 100))])) (dec (unat u div 100))"
      using q(1) by (simp add: writes_def d dec_small)
    have t: "writes D (\<lambda>p. then_out D p (dd (u mod 100))) (dec_pad 2 (unat u mod 100))"
      using tail1_writes [of "u mod 100" D] by (simp add: d tail1_def [abs_def])
    have "dec (unat u div 100) @ dec_pad 2 (unat u mod 100) = dec (unat u)"
      using dec_append [OF q(2), of "unat u mod 100" 2] by simp
    then show ?thesis
      using writes_in_order [OF h t] 2 by (simp add: writes_def itoa1_def word_less_nat_alt)
  qed
qed

definition dec_int :: "int \<Rightarrow> string" where
  "dec_int z = (if z < 0 then ''-'' else []) @ dec (nat \<bar>z\<bar>)"

lemma sint_range: "- (2 ^ LENGTH('a)) < sint (i :: 'a::len word)" "sint i < 2 ^ LENGTH('a)"
proof -
  have "(2 :: int) ^ (LENGTH('a) - 1) < 2 ^ LENGTH('a)" by (intro power_strict_increasing) simp_all
  then show "- (2 ^ LENGTH('a)) < sint i" "sint i < 2 ^ LENGTH('a)" using sint_ge [of i] sint_lt [of i] by linarith+
qed

lemma negate_negative:
  assumes "sint (i :: 'a::len word) < 0"
  shows "unat (- i) = nat (- sint i)"
proof -
  have "uint (- i) = (- uint i) mod 2 ^ LENGTH('a)" by (rule uint_word_ariths)
  also have "\<dots> = (- sint i) mod 2 ^ LENGTH('a)" by (simp add: uint_sint [of i] take_bit_eq_mod mod_minus_eq)
  also have "\<dots> = - sint i" using assms sint_range [of i] by simp
  finally show ?thesis by (metis unat_eq_nat_uint)
qed

lemma nonneg_unat: "0 \<le> sint (i :: 'a::len word) \<Longrightarrow> unat i = nat (sint i)"
  using sint_range [of i] by (simp add: unat_eq_nat_uint uint_sint [of i] take_bit_eq_mod)

lemma itoa4_signed_spec: "itoa4_signed D i [] = Some (dec_int (sint i))"
proof (cases "sint i < 0")
  case True
  have u: "((2 * i) AND NOT (NOT 0)) - i = - i" by simp
  have "itoa4 D (- i) p = Some (out D p (dec (nat (- sint i))))" for p
    using itoa4_writes [of D "- i"] negate_negative [OF True] by (simp add: writes_def)
  then show ?thesis using True by (cases D) (simp_all add: itoa4_signed_def dec_int_def out_def u Let_def)
next
  case False
  have u: "((2 * i) AND NOT 0) - i = i" by simp
  have "itoa4 D i p = Some (out D p (dec (nat (sint i))))" for p
    using itoa4_writes [of D i] nonneg_unat [of i] False by (simp add: writes_def)
  then show ?thesis using False by (cases D) (simp_all add: itoa4_signed_def dec_int_def out_def u Let_def)
qed

lemma xtoa_digits_dec: "xtoa_digits u 10 sp = Some (sp @ rev (dec (unat u)))"
proof (induction "unat u" arbitrary: u sp rule: less_induct)
  case less
  have d: "unat (u div 10) = unat u div 10" "unat (u mod 10) = unat u mod 10" by (simp_all add: unat_div unat_mod)
  have c: "(if unat (u mod 10) < 10 then char_of (48 + unat (u mod 10)) else char_of (65 + unat (u mod 10) - 10)) = ascii (unat u mod 10)"
    by (simp add: d ascii_def)
  have pos: "0 < u div 10 \<longleftrightarrow> 10 \<le> unat u" by (simp add: word_less_nat_alt d div_greater_zero_iff)
  show ?case
  proof (cases "10 \<le> unat u")
    case True
    then have "unat (u div 10) < unat u" by (simp add: d)
    from less [OF this] have "xtoa_digits (u div 10) 10 (sp @ [ascii (unat u mod 10)]) = Some ((sp @ [ascii (unat u mod 10)]) @ rev (dec (unat u div 10)))"
      by (simp add: d)
    then show ?thesis using True pos c by (subst xtoa_digits.simps, subst dec.simps) (simp add: Let_def)
  next
    case False
    then have "\<not> 0 < u div 10" using pos by simp
    then show ?thesis using False c by (subst xtoa_digits.simps, subst dec.simps) (simp add: Let_def)
  qed
qed

text \<open>
  (C33) All conversions produce decimal notation. The forward and the backward 32-bit conversion give the sign and the digits
  of the signed value, the least one included; the unsigned 8, 16 and 32-bit ones write the digits of their argument after or before what
  is there, without leading zeros; the multiplications that replace divisions are exact for every argument, and no digit pair outside the
  table is read; \<open>xtoa\<close> with radix 10 terminates and gives the same notation for unsigned 64-bit values, and for signed ones except the least, whose
  negation is undefined.
\<close>

theorem itoa_decimal:
  "itoa_fwd i = Some (dec_int (sint i)) \<and> itoa_rev i = Some (dec_int (sint i)) \<and>
   itoa1 D u p = Some (out D p (dec (unat u))) \<and> itoa2 D v p = Some (out D p (dec (unat v))) \<and>
   itoa4 D w p = Some (out D p (dec (unat w))) \<and>
   xtoa s 10 True = (if sint s = - (2 ^ 63) then None else Some (dec_int (sint s))) \<and> xtoa s 10 False = Some (dec (unat s))"
proof (intro conjI)
  show "itoa_fwd i = Some (dec_int (sint i))" "itoa_rev i = Some (dec_int (sint i))"
    by (simp_all add: itoa_fwd_def itoa_rev_def itoa4_signed_spec)
  show "itoa1 D u p = Some (out D p (dec (unat u)))" using itoa1_writes by (simp add: writes_def)
  show "itoa2 D v p = Some (out D p (dec (unat v)))" using itoa2_writes by (simp add: writes_def)
  show "itoa4 D w p = Some (out D p (dec (unat w)))" using itoa4_writes by (simp add: writes_def)
  show "xtoa s 10 True = (if sint s = - (2 ^ 63) then None else Some (dec_int (sint s)))"
    using negate_negative [of s] nonneg_unat [of s]
    by (cases "sint s < 0") (simp_all add: xtoa_def xtoa_digits_dec dec_int_def)
  show "xtoa s 10 False = Some (dec (unat s))" by (simp add: xtoa_def xtoa_digits_dec)
qed

end
