(* ===== verification/Multipart.thy ===== *)
theory Multipart
  imports Netcore_Prelude
begin

text \<open>
  The incremental multipart parser of \<^verbatim>\<open>include/netcore/multipart_parser.hpp\<close>: \<open>feed\<close> is called with the pieces of the body as they arrive and reports header names and
  values, part data and part boundaries through callbacks, here a list of events. Data is skipped in blocks when the last byte of
  a block cannot belong to the boundary; a possible boundary is kept in \<open>lookbehind\<close> until it is decided.

  A position in the buffer is a number, a mark an option (\<^verbatim>\<open>UNMARKED\<close> is \<open>None\<close>). All callbacks are set, as the reader sets
  them. The fresh \<^verbatim>\<open>lookbehind\<close> array is uninitialised, so its content is an argument of \<open>set_boundary\<close>.
\<close>

section \<open>State\<close>

datatype mp_state = PARSE_ERROR | START | START_BOUNDARY | HEADER_FIELD_START | HEADER_FIELD | HEADER_VALUE_START
  | HEADER_VALUE | HEADER_VALUE_ALMOST_DONE | HEADERS_ALMOST_DONE | PART_DATA_START | PART_DATA | PART_END | END

datatype mp_event = OnHeaderField string | OnHeaderValue string | OnHeaderEnd | OnHeadersEnd | OnPartBegin
  | OnPartData string | OnPartEnd | OnEnd

record multipart_parser =
  boundary :: string
  boundaryIndex :: "char \<Rightarrow> bool"
  lookbehind :: string
  mp_st :: mp_state
  part_flag :: bool
  last_flag :: bool
  mp_index :: nat
  headerFieldMark :: "nat option"
  headerValueMark :: "nat option"
  partDataMark :: "nat option"
  errorReason :: string

definition mp_reset :: multipart_parser where
  "mp_reset = \<lparr>boundary = [], boundaryIndex = (\<lambda>_. False), lookbehind = [], mp_st = PARSE_ERROR, part_flag = False, last_flag = False,
     mp_index = 0, headerFieldMark = None, headerValueMark = None, partDataMark = None, errorReason = ''Parser uninitialized.''\<rparr>"

definition indexBoundary :: "string \<Rightarrow> char \<Rightarrow> bool" where
  "indexBoundary b c \<longleftrightarrow> c \<in> set b"

definition set_boundary :: "string \<Rightarrow> string \<Rightarrow> multipart_parser" where
  "set_boundary fresh b = mp_reset\<lparr>boundary := b, boundaryIndex := indexBoundary b,
     lookbehind := take (length b + 8) (fresh @ replicate (length b + 8) (CHR 0x00)), mp_st := START, errorReason := ''No error.''\<rparr>"

definition boundarySize :: "multipart_parser \<Rightarrow> nat" where
  "boundarySize p = length (boundary p)"

definition setError :: "string \<Rightarrow> multipart_parser \<Rightarrow> multipart_parser" where
  "setError message p = p\<lparr>mp_st := PARSE_ERROR, errorReason := message\<rparr>"

section \<open>Callbacks\<close>

definition slice :: "string \<Rightarrow> nat \<Rightarrow> nat \<Rightarrow> string" where
  "slice buf i j = take (j - i) (drop i buf)"

text \<open>\<^verbatim>\<open>dataCallback\<close> for one of the marks: what is reported and the new mark. An empty range is reported only if allowed.\<close>

definition dataCallback :: "(string \<Rightarrow> mp_event) \<Rightarrow> nat option \<Rightarrow> string \<Rightarrow> nat \<Rightarrow> bool \<Rightarrow> bool \<Rightarrow> mp_event list \<times> nat option" where
  "dataCallback cb mark buf i clear_mark allowEmpty =
     (case mark of
        None \<Rightarrow> ([], None)
      | Some m \<Rightarrow>
          (let e = (if clear_mark then i else length buf)
           in (if m = e \<and> \<not> allowEmpty then [] else [cb (slice buf m e)], if clear_mark then None else Some 0)))"

text \<open>\<^verbatim>\<open>c | 0x20\<close>\<close>

definition lower :: "char \<Rightarrow> nat" where
  "lower c = uchar c OR 0x20"

section \<open>Part data\<close>

text \<open>The outcome of one turn of the loop: the next position, an error return, or the exception of the bounds test.\<close>

datatype mp_next = Next nat | Fail | Throws

text \<open>The skipping loop. With an empty boundary it would not end in the program; the connection, which puts a line end and two dashes in front, never sets one.\<close>

function skip_data :: "multipart_parser \<Rightarrow> string \<Rightarrow> nat \<Rightarrow> nat" where
  "skip_data p buf i =
     (if 0 < boundarySize p \<and> i + boundarySize p \<le> length buf then
        (if boundaryIndex p (buf ! (i + boundarySize p - 1)) then i else skip_data p buf (i + boundarySize p))
      else i)"
  by pat_completeness auto
termination
  by (relation "measure (\<lambda>(p, buf, i). length buf - i)") auto

declare skip_data.simps [simp del]

text \<open>The end of \<^verbatim>\<open>processPartData\<close>, after the match position was updated from \<open>prevIndex\<close>.\<close>

definition keep_lookbehind :: "nat \<Rightarrow> nat \<Rightarrow> char \<Rightarrow> mp_event list \<times> multipart_parser \<Rightarrow> mp_event list \<times> multipart_parser \<times> mp_next" where
  "keep_lookbehind prevIndex i c ep =
     (let (ev, p) = ep in
      if 0 < mp_index p then
        (if length (lookbehind p) \<le> mp_index p - 1
         then (ev, setError ''Parser bug: index overflows lookbehind buffer. Please send bug report with input file attached.'' p, Throws)
         else (ev, p\<lparr>lookbehind := (lookbehind p)[mp_index p - 1 := c]\<rparr>, Next (i + 1)))
      else if 0 < prevIndex
      then (ev @ [OnPartData (take prevIndex (lookbehind p))], p\<lparr>partDataMark := Some i\<rparr>, Next i)
      else (ev, p, Next (i + 1)))"

definition processPartData :: "multipart_parser \<Rightarrow> string \<Rightarrow> nat \<Rightarrow> mp_event list \<times> multipart_parser \<times> mp_next" where
  "processPartData p buf i =
     (let prevIndex = mp_index p; idx = mp_index p; bs = boundarySize p;
          i = (if idx = 0 then skip_data p buf i else i)
      in if idx = 0 \<and> i = length buf then ([], p, Next (i + 1))
      else
        (let c = buf ! i in
         if idx < bs then
           (if boundary p ! idx = c then
              (let (ev, m) = (if idx = 0 then dataCallback OnPartData (partDataMark p) buf i True False else ([], partDataMark p))
               in keep_lookbehind prevIndex i c (ev, p\<lparr>partDataMark := m, mp_index := idx + 1\<rparr>))
            else keep_lookbehind prevIndex i c ([], p\<lparr>mp_index := 0\<rparr>))
         else if idx = bs then
           (if c = CR then keep_lookbehind prevIndex i c ([], p\<lparr>mp_index := idx + 1, part_flag := True\<rparr>)
            else if c = CHR ''-'' then keep_lookbehind prevIndex i c ([], p\<lparr>mp_index := idx + 1, last_flag := True\<rparr>)
            else keep_lookbehind prevIndex i c ([], p\<lparr>mp_index := 0\<rparr>))
         else if idx - 1 = bs then
           (if part_flag p then
              (if c = LF
               then ([OnPartEnd, OnPartBegin], p\<lparr>mp_index := 0, part_flag := False, mp_st := HEADER_FIELD_START\<rparr>, Next (i + 1))
               else keep_lookbehind prevIndex i c ([], p\<lparr>mp_index := 0\<rparr>))
            else if last_flag p then
              (if c = CHR ''-'' then keep_lookbehind prevIndex i c ([OnPartEnd, OnEnd], p\<lparr>mp_st := END\<rparr>)
               else keep_lookbehind prevIndex i c ([], p\<lparr>mp_index := 0\<rparr>))
            else keep_lookbehind prevIndex i c ([], p\<lparr>mp_index := 0\<rparr>))
         else if idx - 2 = bs then
           (if c = CR then keep_lookbehind prevIndex i c ([], p\<lparr>mp_index := idx + 1\<rparr>)
            else keep_lookbehind prevIndex i c ([], p\<lparr>mp_index := 0\<rparr>))
         else if idx - bs = 3 then
           (if c = LF then ([OnPartEnd, OnEnd], p\<lparr>mp_index := 0, mp_st := END\<rparr>, Next (i + 1))
            else keep_lookbehind prevIndex i c ([], p\<lparr>mp_index := 0\<rparr>))
         else keep_lookbehind prevIndex i c ([], p)))"

section \<open>The state machine\<close>

text \<open>
  One turn of the loop for each state. \<open>START\<close>, \<open>HEADER_FIELD_START\<close>, \<open>HEADER_VALUE_START\<close> and \<open>PART_DATA_START\<close> fall through to
  the next case. \<open>boundarySize - 2\<close> is computed on \<^verbatim>\<open>size_t\<close>; the boundary set by the program starts with a line break and
  two hyphens.
\<close>

definition step_start_boundary :: "multipart_parser \<Rightarrow> nat \<Rightarrow> char \<Rightarrow> mp_event list \<times> multipart_parser \<times> mp_next" where
  "step_start_boundary p i c =
     (let bs = boundarySize p in
      if int (mp_index p) = int bs - 2 then
        (if c \<noteq> CR then ([], setError ''Malformed. Expected CR after boundary.'' p, Fail)
         else ([], p\<lparr>mp_index := mp_index p + 1\<rparr>, Next (i + 1)))
      else if int (mp_index p) - 1 = int bs - 2 then
        (if c \<noteq> LF then ([], setError ''Malformed. Expected LF after boundary CR.'' p, Fail)
         else ([OnPartBegin], p\<lparr>mp_index := 0, mp_st := HEADER_FIELD_START\<rparr>, Next (i + 1)))
      else if mp_index p + 2 < bs \<and> c = boundary p ! (mp_index p + 2)
      then ([], p\<lparr>mp_index := mp_index p + 1\<rparr>, Next (i + 1))
      else ([], setError ''Malformed. Found different boundary data than the given one.'' p, Fail))"

definition step_header_field :: "multipart_parser \<Rightarrow> string \<Rightarrow> nat \<Rightarrow> char \<Rightarrow> mp_event list \<times> multipart_parser \<times> mp_next" where
  "step_header_field p buf i c =
     (if c = CR then ([], p\<lparr>headerFieldMark := None, mp_st := HEADERS_ALMOST_DONE\<rparr>, Next (i + 1))
      else
        (let p = p\<lparr>mp_index := mp_index p + 1\<rparr> in
         if c = CHR ''-'' then ([], p, Next (i + 1))
         else if c = CHR '':'' then
           (if mp_index p = 1 then ([], setError ''Malformed first header name character.'' p, Fail)
            else
              (let (ev, m) = dataCallback OnHeaderField (headerFieldMark p) buf i True False
               in (ev, p\<lparr>headerFieldMark := m, mp_st := HEADER_VALUE_START\<rparr>, Next (i + 1))))
         else if lower c < 97 \<or> 122 < lower c then ([], setError ''Malformed header name.'' p, Fail)
         else ([], p, Next (i + 1))))"

definition step_header_value :: "multipart_parser \<Rightarrow> string \<Rightarrow> nat \<Rightarrow> char \<Rightarrow> mp_event list \<times> multipart_parser \<times> mp_next" where
  "step_header_value p buf i c =
     (if c = CR then
        (let (ev, m) = dataCallback OnHeaderValue (headerValueMark p) buf i True True
         in (ev @ [OnHeaderEnd], p\<lparr>headerValueMark := m, mp_st := HEADER_VALUE_ALMOST_DONE\<rparr>, Next (i + 1)))
      else ([], p, Next (i + 1)))"

definition mp_step :: "multipart_parser \<Rightarrow> string \<Rightarrow> nat \<Rightarrow> mp_event list \<times> multipart_parser \<times> mp_next" where
  "mp_step p buf i =
     (let c = buf ! i in
      case mp_st p of
        PARSE_ERROR \<Rightarrow> ([], p, Fail)
      | START \<Rightarrow> step_start_boundary (p\<lparr>mp_index := 0, mp_st := START_BOUNDARY\<rparr>) i c
      | START_BOUNDARY \<Rightarrow> step_start_boundary p i c
      | HEADER_FIELD_START \<Rightarrow>
          step_header_field (p\<lparr>mp_st := HEADER_FIELD, headerFieldMark := Some i, mp_index := 0\<rparr>) buf i c
      | HEADER_FIELD \<Rightarrow> step_header_field p buf i c
      | HEADER_VALUE_START \<Rightarrow>
          if c = SP then ([], p, Next (i + 1))
          else step_header_value (p\<lparr>headerValueMark := Some i, mp_st := HEADER_VALUE\<rparr>) buf i c
      | HEADER_VALUE \<Rightarrow> step_header_value p buf i c
      | HEADER_VALUE_ALMOST_DONE \<Rightarrow>
          if c \<noteq> LF then ([], setError ''Malformed header value: LF expected after CR'' p, Fail)
          else ([], p\<lparr>mp_st := HEADER_FIELD_START\<rparr>, Next (i + 1))
      | HEADERS_ALMOST_DONE \<Rightarrow>
          if c \<noteq> LF then ([], setError ''Malformed header ending: LF expected after CR'' p, Fail)
          else ([OnHeadersEnd], p\<lparr>mp_st := PART_DATA_START\<rparr>, Next (i + 1))
      | PART_DATA_START \<Rightarrow> processPartData (p\<lparr>mp_st := PART_DATA, partDataMark := Some i\<rparr>) buf i
      | PART_DATA \<Rightarrow> processPartData p buf i
      | PART_END \<Rightarrow> ([], p, Fail)
      | END \<Rightarrow> ([], p, Next (i + 1)))"

datatype mp_result = Fed nat | Failed nat | Thrown

partial_function (option) mp_loop ::
  "string \<Rightarrow> nat \<Rightarrow> mp_event list \<Rightarrow> multipart_parser \<Rightarrow> (mp_event list \<times> multipart_parser \<times> mp_result) option"
where
  [code]: "mp_loop buf i ev p =
     (if length buf \<le> i then Some (ev, p, Fed (length buf))
      else
        (case mp_step p buf i of
           (ev', p', Next j) \<Rightarrow> mp_loop buf j (ev @ ev') p'
         | (ev', p', Fail) \<Rightarrow> Some (ev @ ev', p', Failed i)
         | (ev', p', Throws) \<Rightarrow> Some (ev @ ev', p', Thrown)))"

text \<open>
  \<open>feed\<close> works on copies of \<open>index\<close>, \<open>state\<close> and \<open>flags\<close>, which are written back only when the whole buffer was consumed;
  \<open>setError\<close> writes the state of the object.
\<close>

definition feed :: "string \<Rightarrow> multipart_parser \<Rightarrow> (mp_event list \<times> multipart_parser \<times> mp_result) option" where
  "feed buf p =
     (if mp_st p = PARSE_ERROR \<or> length buf = 0 then Some ([], p, Fed 0)
      else
        (case mp_loop buf 0 [] p of
           None \<Rightarrow> None
         | Some (ev, q, Fed n) \<Rightarrow>
             (let (e1, m1) = dataCallback OnHeaderField (headerFieldMark q) buf n False False;
                  (e2, m2) = dataCallback OnHeaderValue (headerValueMark q) buf n False False;
                  (e3, m3) = dataCallback OnPartData (partDataMark q) buf n False False
              in Some (ev @ e1 @ e2 @ e3, q\<lparr>headerFieldMark := m1, headerValueMark := m2, partDataMark := m3\<rparr>, Fed n))
         | Some (ev, q, r) \<Rightarrow>
             Some (ev, q\<lparr>mp_index := mp_index p, part_flag := part_flag p, last_flag := last_flag p,
                         mp_st := (if mp_st q = PARSE_ERROR then PARSE_ERROR else mp_st p)\<rparr>, r)))"

definition succeeded :: "multipart_parser \<Rightarrow> bool" where
  "succeeded p \<longleftrightarrow> mp_st p = END"

definition has_error :: "multipart_parser \<Rightarrow> bool" where
  "has_error p \<longleftrightarrow> mp_st p = PARSE_ERROR"

definition stopped :: "multipart_parser \<Rightarrow> bool" where
  "stopped p \<longleftrightarrow> mp_st p = PARSE_ERROR \<or> mp_st p = END"

fun feed_all :: "string list \<Rightarrow> multipart_parser \<Rightarrow> (mp_event list \<times> multipart_parser) option" where
  "feed_all [] p = Some ([], p)"
| "feed_all (buf # bufs) p =
     (case feed buf p of
        Some (ev, p', Fed _) \<Rightarrow>
          (case feed_all bufs p' of None \<Rightarrow> None | Some (ev', p'') \<Rightarrow> Some (ev @ ev', p''))
      | _ \<Rightarrow> None)"

end
