(* ===== verification/Multipart_Correct.thy ===== *)
theory Multipart_Correct
  imports Multipart
begin

text \<open>
  Correctness of the multipart parser. The reference is an automaton that reads one character at a time, keeps no buffer positions
  and skips nothing. The parser, fed with the body in pieces of any size, reports what the automaton reports; and the
  automaton reads a printed body back.
\<close>

section \<open>Reference automaton\<close>

datatype mp_out = FieldCh char | ValueCh char | Header_end | Headers_end | Begin_part | DataCh char | End_part | End_all

record mp_auto =
  a_st :: mp_state
  a_idx :: nat
  a_part :: bool
  a_last :: bool
  a_pend :: string

text \<open>\<open>emit x r\<close> puts the output \<open>x\<close> in front of a result.\<close>

definition emit :: "'o list \<Rightarrow> ('o list \<times> 'a) option \<Rightarrow> ('o list \<times> 'a) option" where
  "emit x r = map_option (\<lambda>(o', a). (x @ o', a)) r"

definition fresh_data :: "string \<Rightarrow> mp_auto \<Rightarrow> char \<Rightarrow> mp_out list \<times> mp_auto" where
  "fresh_data b a c =
     (if hd b = c then ([], a\<lparr>a_idx := 1, a_pend := [c]\<rparr>) else ([DataCh c], a\<lparr>a_idx := 0, a_pend := []\<rparr>))"

definition flush_data :: "string \<Rightarrow> mp_auto \<Rightarrow> char \<Rightarrow> (mp_out list \<times> mp_auto) option" where
  "flush_data b a c = emit (map DataCh (a_pend a)) (Some (fresh_data b a c))"

definition data_step :: "string \<Rightarrow> mp_auto \<Rightarrow> char \<Rightarrow> (mp_out list \<times> mp_auto) option" where
  "data_step b a c =
     (let n = length b; more = a\<lparr>a_idx := a_idx a + 1, a_pend := a_pend a @ [c]\<rparr> in
      if a_idx a < n then (if b ! a_idx a = c then Some ([], more) else flush_data b a c)
      else if a_idx a = n then
        (if c = CR then Some ([], more\<lparr>a_part := True\<rparr>)
         else if c = CHR ''-'' then Some ([], more\<lparr>a_last := True\<rparr>)
         else flush_data b a c)
      else if a_idx a = n + 1 then
        (if a_part a then
           (if c = LF
            then Some ([End_part, Begin_part], a\<lparr>a_st := HEADER_FIELD_START, a_idx := 0, a_part := False, a_pend := []\<rparr>)
            else flush_data b a c)
         else if a_last a then
           (if c = CHR ''-'' then Some ([End_part, End_all], a\<lparr>a_st := END, a_pend := []\<rparr>) else flush_data b a c)
         else flush_data b a c)
      else None)"

definition start_step :: "string \<Rightarrow> mp_auto \<Rightarrow> char \<Rightarrow> (mp_out list \<times> mp_auto) option" where
  "start_step b a c =
     (let n = length b in
      if a_idx a + 2 = n then (if c = CR then Some ([], a\<lparr>a_idx := a_idx a + 1\<rparr>) else None)
      else if a_idx a + 1 = n then (if c = LF then Some ([Begin_part], a\<lparr>a_idx := 0, a_st := HEADER_FIELD_START\<rparr>) else None)
      else if a_idx a + 2 < n \<and> c = b ! (a_idx a + 2) then Some ([], a\<lparr>a_idx := a_idx a + 1\<rparr>)
      else None)"

text \<open>A line break is only allowed at the start of a header line.\<close>

definition field_step :: "mp_auto \<Rightarrow> char \<Rightarrow> (mp_out list \<times> mp_auto) option" where
  "field_step a c =
     (if c = CR then (if a_idx a = 0 then Some ([], a\<lparr>a_st := HEADERS_ALMOST_DONE\<rparr>) else None)
      else if c = CHR '':'' then
        (if a_idx a = 0 then None else Some ([], a\<lparr>a_idx := a_idx a + 1, a_st := HEADER_VALUE_START\<rparr>))
      else if c = CHR ''-'' \<or> 97 \<le> lower c \<and> lower c \<le> 122 then Some ([FieldCh c], a\<lparr>a_idx := a_idx a + 1\<rparr>)
      else None)"

definition value_step :: "mp_auto \<Rightarrow> char \<Rightarrow> (mp_out list \<times> mp_auto) option" where
  "value_step a c =
     (if c = CR then Some ([Header_end], a\<lparr>a_st := HEADER_VALUE_ALMOST_DONE\<rparr>) else Some ([ValueCh c], a))"

definition astep :: "string \<Rightarrow> mp_auto \<Rightarrow> char \<Rightarrow> (mp_out list \<times> mp_auto) option" where
  "astep b a c =
     (case a_st a of
        PARSE_ERROR \<Rightarrow> None
      | START \<Rightarrow> start_step b (a\<lparr>a_idx := 0, a_st := START_BOUNDARY\<rparr>) c
      | START_BOUNDARY \<Rightarrow> start_step b a c
      | HEADER_FIELD_START \<Rightarrow> field_step (a\<lparr>a_st := HEADER_FIELD, a_idx := 0\<rparr>) c
      | HEADER_FIELD \<Rightarrow> field_step a c
      | HEADER_VALUE_START \<Rightarrow> if c = SP then Some ([], a) else value_step (a\<lparr>a_st := HEADER_VALUE\<rparr>) c
      | HEADER_VALUE \<Rightarrow> value_step a c
      | HEADER_VALUE_ALMOST_DONE \<Rightarrow> if c = LF then Some ([], a\<lparr>a_st := HEADER_FIELD_START\<rparr>) else None
      | HEADERS_ALMOST_DONE \<Rightarrow> if c = LF then Some ([Headers_end], a\<lparr>a_st := PART_DATA_START\<rparr>) else None
      | PART_DATA_START \<Rightarrow> if a_idx a = 0 then data_step b (a\<lparr>a_st := PART_DATA, a_pend := []\<rparr>) c else None
      | PART_DATA \<Rightarrow> data_step b a c
      | PART_END \<Rightarrow> None
      | END \<Rightarrow> Some ([], a))"

fun arun :: "string \<Rightarrow> mp_auto \<Rightarrow> string \<Rightarrow> (mp_out list \<times> mp_auto) option" where
  "arun b a [] = Some ([], a)"
| "arun b a (c # cs) = (case astep b a c of None \<Rightarrow> None | Some (o', a') \<Rightarrow> emit o' (arun b a' cs))"

lemma emit_emit [simp]: "emit x (emit y r) = emit (x @ y) r"
  by (cases r) (auto simp: emit_def)

lemma emit_Nil [simp]: "emit [] r = r"
  by (cases r) (auto simp: emit_def)

lemma emit_Some [simp]: "emit x (Some (y, a)) = Some (x @ y, a)"
  by (simp add: emit_def)

lemma emit_None [simp]: "emit x r = None \<longleftrightarrow> r = None" "emit x None = None"
  by (auto simp: emit_def)

lemma arun_append: "arun b a (s @ t) = (case arun b a s of None \<Rightarrow> None | Some (o', a') \<Rightarrow> emit o' (arun b a' t))"
proof (induction s arbitrary: a)
  case (Cons c s)
  show ?case
  proof (cases "astep b a c")
    case (Some r)
    obtain o' a' where r: "r = (o', a')" by force
    show ?thesis by (cases "arun b a' s") (auto simp: Some r Cons.IH)
  qed simp
qed simp

section \<open>Blocks that cannot contain the boundary\<close>

lemma arun_mismatch:
  assumes "a_st a = PART_DATA" "data_step b a c = flush_data b a c" "b \<noteq> []"
  shows "arun b a (c # cs) = emit (map DataCh (a_pend a)) (arun b (a\<lparr>a_idx := 0, a_pend := []\<rparr>) (c # cs))"
proof -
  obtain o' a' where f: "fresh_data b a c = (o', a')" by force
  have "astep b a c = Some (map DataCh (a_pend a) @ o', a')"
    using assms(1,2) by (simp add: astep_def flush_data_def f)
  moreover have "astep b (a\<lparr>a_idx := 0, a_pend := []\<rparr>) c = Some (o', a')"
    using assms(1,3) f by (auto simp: astep_def data_step_def flush_data_def fresh_data_def hd_conv_nth split: if_splits)
  ultimately show ?thesis by simp
qed

lemma arun_block:
  assumes "a_st a = PART_DATA" "s \<noteq> []" "last s \<notin> set b" "a_idx a + length s \<le> length b"
  shows "arun b a (s @ rest) = emit (map DataCh (a_pend a @ s)) (arun b (a\<lparr>a_idx := 0, a_pend := []\<rparr>) rest)"
  using assms
proof (induction s arbitrary: a)
  case (Cons c s)
  let ?a0 = "a\<lparr>a_idx := 0, a_pend := []\<rparr>"
  have k: "a_idx a < length b" "b \<noteq> []" using Cons.prems(4) by auto
  show ?case
  proof (cases "b ! a_idx a = c")
    case True
    then have "s \<noteq> []" using Cons.prems(3) k(1) by auto
    have "arun b a ((c # s) @ rest) = arun b (a\<lparr>a_idx := a_idx a + 1, a_pend := a_pend a @ [c]\<rparr>) (s @ rest)"
      using True k Cons.prems(1) by (simp add: astep_def data_step_def Let_def)
    then show ?thesis using Cons.IH [of "a\<lparr>a_idx := a_idx a + 1, a_pend := a_pend a @ [c]\<rparr>"] Cons.prems \<open>s \<noteq> []\<close> by simp
  next
    case False
    have f: "arun b a ((c # s) @ rest) = emit (map DataCh (a_pend a)) (arun b ?a0 (c # s @ rest))"
      using arun_mismatch [of a b c "s @ rest"] False k Cons.prems(1) by (simp add: data_step_def Let_def)
    show ?thesis
    proof (cases "hd b = c")
      case True
      then have "s \<noteq> []" using Cons.prems(3) k(2) by auto
      have "arun b ?a0 (c # s @ rest) = arun b (a\<lparr>a_idx := 1, a_pend := [c]\<rparr>) (s @ rest)"
        using True k Cons.prems(1) by (simp add: astep_def data_step_def Let_def hd_conv_nth)
      then show ?thesis using f Cons.IH [of "a\<lparr>a_idx := 1, a_pend := [c]\<rparr>"] Cons.prems \<open>s \<noteq> []\<close> by simp
    next
      case hd: False
      have n: "arun b ?a0 (c # s @ rest) = emit [DataCh c] (arun b ?a0 (s @ rest))"
        using hd k Cons.prems(1) by (simp add: astep_def data_step_def Let_def hd_conv_nth flush_data_def fresh_data_def emit_def)
      show ?thesis
      proof (cases "s = []")
        case False
        then show ?thesis using f n Cons.IH [of ?a0] Cons.prems by simp
      qed (use f n in simp)
    qed
  qed
qed simp

section \<open>Simulation\<close>

fun flat :: "mp_event \<Rightarrow> mp_out list" where
  "flat (OnHeaderField s) = map FieldCh s"
| "flat (OnHeaderValue s) = map ValueCh s"
| "flat OnHeaderEnd = [Header_end]"
| "flat OnHeadersEnd = [Headers_end]"
| "flat OnPartBegin = [Begin_part]"
| "flat (OnPartData s) = map DataCh s"
| "flat OnPartEnd = [End_part]"
| "flat OnEnd = [End_all]"

definition mp_abs :: "multipart_parser \<Rightarrow> mp_auto" where
  "mp_abs p = \<lparr>a_st = mp_st p, a_idx = mp_index p, a_part = part_flag p, a_last = last_flag p,
     a_pend = (if mp_st p = PART_DATA then take (mp_index p) (lookbehind p) else [])\<rparr>"

text \<open>What was read but not reported yet: the range from a mark to the position.\<close>

definition pend_of :: "(char \<Rightarrow> mp_out) \<Rightarrow> nat option \<Rightarrow> string \<Rightarrow> nat \<Rightarrow> mp_out list" where
  "pend_of C mark buf i = (case mark of None \<Rightarrow> [] | Some m \<Rightarrow> map C (slice buf m i))"

definition mp_pend :: "multipart_parser \<Rightarrow> string \<Rightarrow> nat \<Rightarrow> mp_out list" where
  "mp_pend p buf i = pend_of FieldCh (headerFieldMark p) buf i @ pend_of ValueCh (headerValueMark p) buf i @
     pend_of DataCh (partDataMark p) buf i"

definition mark_ok :: "nat option \<Rightarrow> bool \<Rightarrow> nat \<Rightarrow> bool" where
  "mark_ok mark active i \<longleftrightarrow> (case mark of None \<Rightarrow> \<not> active | Some m \<Rightarrow> active \<and> m \<le> i)"

definition mp_ok :: "string \<Rightarrow> multipart_parser \<Rightarrow> nat \<Rightarrow> bool" where
  "mp_ok b p i \<longleftrightarrow> boundary p = b \<and> 2 \<le> length b \<and> boundaryIndex p = indexBoundary b \<and> length (lookbehind p) = length b + 8 \<and>
     mark_ok (headerFieldMark p) (mp_st p = HEADER_FIELD) i \<and> mark_ok (headerValueMark p) (mp_st p = HEADER_VALUE) i \<and>
     mark_ok (partDataMark p) (mp_st p = PART_DATA \<and> mp_index p = 0) i \<and>
     (mp_st p = PART_DATA \<longrightarrow> mp_index p \<le> length b + 1) \<and> (mp_st p = HEADER_FIELD \<longrightarrow> 0 < mp_index p)"

lemma mark_ok_simps [simp]: "mark_ok None q i \<longleftrightarrow> \<not> q" "mark_ok (Some m) q i \<longleftrightarrow> q \<and> m \<le> i" "mark_ok k False i \<longleftrightarrow> k = None"
  by (auto simp: mark_ok_def split: option.splits)

lemma mark_ok_True: "mark_ok k True i \<longleftrightarrow> (\<exists>m. k = Some m \<and> m \<le> i)"
  by (auto simp: mark_ok_def split: option.splits)

lemma pend_of_simps [simp]: "pend_of C None buf i = []" "pend_of C (Some m) buf i = map C (slice buf m i)"
  by (simp_all add: pend_of_def)

lemma slice_same [simp]: "slice buf i i = []"
  by (simp add: slice_def)

lemma slice_Suc: "m \<le> i \<Longrightarrow> i < length buf \<Longrightarrow> slice buf m (Suc i) = slice buf m i @ [buf ! i]"
  by (simp add: slice_def Suc_diff_le take_Suc_conv_app_nth)

lemma slice_append: "m \<le> i \<Longrightarrow> i \<le> j \<Longrightarrow> slice buf m i @ slice buf i j = slice buf m j"
proof -
  assume "m \<le> i" "i \<le> j"
  then have "drop i buf = drop (i - m) (drop m buf)" "j - m = (i - m) + (j - i)" by simp_all
  then show ?thesis by (simp only: slice_def take_add)
qed

lemma dataCallback_flat:
  assumes "mark = Some m" "\<And>s. flat (C' s) = map C s" "dataCallback C' mark buf i True allowEmpty = (ev, k)"
  shows "concat (map flat ev) = map C (slice buf m i)" "k = None"
  using assms by (auto simp: dataCallback_def Let_def split: if_splits)

lemmas mp_defs = mp_ok_def mp_abs_def mp_pend_def mp_step_def astep_def

text \<open>A turn of the loop does what the automaton does on the next character.\<close>

definition sim1 :: "string \<Rightarrow> string \<Rightarrow> multipart_parser \<Rightarrow> nat \<Rightarrow> mp_out list \<Rightarrow> mp_auto \<Rightarrow> mp_event list \<times> multipart_parser \<times> mp_next \<Rightarrow> bool" where
  "sim1 b buf p i o1 a1 r \<longleftrightarrow>
     (case r of (ev, p', next) \<Rightarrow>
        next = Next (i + 1) \<and> mp_abs p' = a1 \<and> mp_ok b p' (i + 1) \<and>
        mp_pend p buf i @ o1 = concat (map flat ev) @ mp_pend p' buf (i + 1))"

lemma start_index: "int k = int n - 2 \<longleftrightarrow> k + 2 = n" "int k - 1 = int n - 2 \<longleftrightarrow> k + 1 = n"
  by linarith+

lemma step_start_boundary_alt:
  assumes "mp_st p = START_BOUNDARY" "boundary p = b" "start_step b (mp_abs p) c = Some (o1, a1)"
  shows "step_start_boundary p i c =
    (if o1 = [] then [] else [OnPartBegin], p\<lparr>mp_index := a_idx a1, mp_st := a_st a1\<rparr>, Next (i + 1))"
  using assms unfolding step_start_boundary_def start_step_def start_index boundarySize_def Let_def mp_abs_def
  by (auto split: if_splits)

lemma start_step_out:
  assumes "start_step b a c = Some (o1, a1)" "a_st a = START_BOUNDARY"
  shows "(o1 = [] \<or> o1 = [Begin_part]) \<and> (a_st a1 = START_BOUNDARY \<or> a_st a1 = HEADER_FIELD_START) \<and>
    a1 = a\<lparr>a_idx := a_idx a1, a_st := a_st a1\<rparr>"
  using assms by (auto simp: start_step_def Let_def split: if_splits)

lemma sim_start:
  assumes "mp_ok b p i" "mp_st p = START_BOUNDARY" "start_step b (mp_abs p) c = Some (o1, a1)"
  shows "sim1 b buf p i o1 a1 (step_start_boundary p i c)"
proof -
  have k: "boundary p = b" "headerFieldMark p = None" "headerValueMark p = None" "partDataMark p = None"
    using assms(1,2) by (auto simp: mp_ok_def)
  have a: "a_st (mp_abs p) = START_BOUNDARY" using assms(2) by (simp add: mp_abs_def)
  note s = start_step_out [OF assms(3) a]
  have "a_pend (mp_abs p) = []" using assms(2) by (simp add: mp_abs_def)
  then have "mp_abs (p\<lparr>mp_index := a_idx a1, mp_st := a_st a1\<rparr>) = a1"
    using s by (cases a1) (auto simp: mp_abs_def)
  moreover have "mp_ok b (p\<lparr>mp_index := a_idx a1, mp_st := a_st a1\<rparr>) (i + 1)"
    using assms(1) k s by (auto simp: mp_ok_def)
  ultimately show ?thesis
    using s k unfolding step_start_boundary_alt [OF assms(2) k(1) assms(3)] sim1_def by (auto simp: mp_pend_def)
qed

lemma sim_field_start:
  assumes "mp_ok b p i" "i < length buf" "mp_st p = HEADER_FIELD_START" "astep b (mp_abs p) (buf ! i) = Some (o1, a1)"
  shows "sim1 b buf p i o1 a1 (mp_step p buf i)"
  using assms unfolding sim1_def
  by (auto simp: mp_defs field_step_def step_header_field_def Let_def slice_Suc dataCallback_def mark_ok_True split: if_splits)

lemma sim_field:
  assumes "mp_ok b p i" "i < length buf" "mp_st p = HEADER_FIELD" "astep b (mp_abs p) (buf ! i) = Some (o1, a1)"
  shows "sim1 b buf p i o1 a1 (mp_step p buf i)"
  using assms unfolding sim1_def
  by (auto simp: mp_defs field_step_def step_header_field_def Let_def slice_Suc dataCallback_def mark_ok_True split: if_splits)

lemma sim_value_start:
  assumes "mp_ok b p i" "i < length buf" "mp_st p = HEADER_VALUE_START" "astep b (mp_abs p) (buf ! i) = Some (o1, a1)"
  shows "sim1 b buf p i o1 a1 (mp_step p buf i)"
  using assms unfolding sim1_def
  by (auto simp: mp_defs value_step_def step_header_value_def Let_def slice_Suc dataCallback_def mark_ok_True split: if_splits)

lemma sim_value:
  assumes "mp_ok b p i" "i < length buf" "mp_st p = HEADER_VALUE" "astep b (mp_abs p) (buf ! i) = Some (o1, a1)"
  shows "sim1 b buf p i o1 a1 (mp_step p buf i)"
  using assms unfolding sim1_def
  by (auto simp: mp_defs value_step_def step_header_value_def Let_def slice_Suc dataCallback_def mark_ok_True split: if_splits)

lemma sim_line_end:
  assumes "mp_ok b p i" "mp_st p = HEADER_VALUE_ALMOST_DONE \<or> mp_st p = HEADERS_ALMOST_DONE \<or> mp_st p = END"
    "astep b (mp_abs p) (buf ! i) = Some (o1, a1)"
  shows "sim1 b buf p i o1 a1 (mp_step p buf i)"
  using assms unfolding sim1_def by (auto simp: mp_defs split: if_splits)

definition sim :: "string \<Rightarrow> string \<Rightarrow> multipart_parser \<Rightarrow> nat \<Rightarrow> mp_event list \<times> multipart_parser \<times> mp_next \<Rightarrow> bool" where
  "sim b buf p i r \<longleftrightarrow>
     (case r of (ev, p', next) \<Rightarrow>
        \<exists>j o1. next = Next j \<and> mp_ok b p' j \<and> (i < j \<or> i = j \<and> 0 < mp_index p \<and> mp_index p' = 0) \<and>
          arun b (mp_abs p) (drop i buf) = emit o1 (arun b (mp_abs p') (drop j buf)) \<and>
          mp_pend p buf i @ o1 = concat (map flat ev) @ mp_pend p' buf j)"

lemma sim1_sim:
  assumes "sim1 b buf p i o1 a1 r" "i < length buf" "astep b (mp_abs p) (buf ! i) = Some (o1, a1)"
  shows "sim b buf p i r"
proof -
  have "drop i buf = buf ! i # drop (Suc i) buf" using assms(2) by (rule Cons_nth_drop_Suc [symmetric])
  then show ?thesis using assms(1,3) by (auto simp: sim1_def sim_def)
qed

lemma take_Suc_update: "k < length xs \<Longrightarrow> take (Suc k) (xs[k := c]) = take k xs @ [c]"
  by (simp add: take_Suc_conv_app_nth)

text \<open>The character does not continue the possible boundary.\<close>

definition data_mismatch :: "string \<Rightarrow> mp_auto \<Rightarrow> char \<Rightarrow> bool" where
  "data_mismatch b a c \<longleftrightarrow>
     (if a_idx a < length b then b ! a_idx a \<noteq> c
      else if a_idx a = length b then c \<noteq> CR \<and> c \<noteq> CHR ''-''
      else if a_part a then c \<noteq> LF else if a_last a then c \<noteq> CHR ''-'' else True)"

lemma data_step_mismatch: "data_mismatch b a c \<Longrightarrow> a_idx a \<le> length b + 1 \<Longrightarrow> data_step b a c = flush_data b a c"
  by (auto simp: data_mismatch_def data_step_def Let_def split: if_splits)

lemma data_match:
  assumes "mp_ok b p i" "i < length buf" "mp_st p = PART_DATA" "0 < mp_index p"
    "data_step b (mp_abs p) (buf ! i) = Some (o1, a1)" "\<not> data_mismatch b (mp_abs p) (buf ! i)"
  shows "sim1 b buf p i o1 a1 (processPartData p buf i)"
proof -
  have k: "boundary p = b" "length (lookbehind p) = length b + 8" "mp_index p \<le> length b + 1" "headerFieldMark p = None"
    "headerValueMark p = None" "partDataMark p = None" using assms(1,3,4) by (auto simp: mp_ok_def)
  have t: "take (Suc (mp_index p)) ((lookbehind p)[mp_index p := c]) = take (mp_index p) (lookbehind p) @ [c]" for c
    using k by (intro take_Suc_update) simp
  consider "mp_index p < length b" | "mp_index p = length b" | "mp_index p = length b + 1" using k(3) by linarith
  then show ?thesis
  proof cases
    case 1
    then show ?thesis
      using assms k t unfolding processPartData_def sim1_def data_step_def data_mismatch_def
      by (auto simp: Let_def keep_lookbehind_def boundarySize_def mp_abs_def mp_ok_def mp_pend_def split: if_splits)
  next
    case 2
    then show ?thesis
      using assms k t unfolding processPartData_def sim1_def data_step_def data_mismatch_def
      by (auto simp: Let_def keep_lookbehind_def boundarySize_def mp_abs_def mp_ok_def mp_pend_def split: if_splits)
  next
    case 3
    then show ?thesis
      using assms k unfolding processPartData_def sim1_def data_step_def data_mismatch_def
      by (auto simp: Let_def keep_lookbehind_def boundarySize_def mp_abs_def mp_ok_def mp_pend_def split: if_splits)
  qed
qed

lemma data_flush:
  assumes "mp_ok b p i" "mp_st p = PART_DATA" "0 < mp_index p" "data_mismatch b (mp_abs p) (buf ! i)"
  shows "processPartData p buf i = ([OnPartData (take (mp_index p) (lookbehind p))], p\<lparr>mp_index := 0, partDataMark := Some i\<rparr>, Next i)"
proof -
  have k: "boundary p = b" "mp_index p \<le> length b + 1" using assms(1,2) by (auto simp: mp_ok_def)
  then consider "mp_index p < length b" | "mp_index p = length b" | "mp_index p = length b + 1" by linarith
  then show ?thesis
    using assms(3,4) k unfolding processPartData_def data_mismatch_def
    by cases (auto simp: Let_def keep_lookbehind_def boundarySize_def mp_abs_def split: if_splits)
qed

lemma skip_run:
  assumes "mp_ok b p i0" "mp_st p = PART_DATA" "mp_index p = 0" "i \<le> length buf"
  shows "i \<le> skip_data p buf i \<and> skip_data p buf i \<le> length buf \<and>
    arun b (mp_abs p) (drop i buf) =
      emit (map DataCh (slice buf i (skip_data p buf i))) (arun b (mp_abs p) (drop (skip_data p buf i) buf))"
  using assms
proof (induction p buf i rule: skip_data.induct)
  case (1 p buf i)
  have k: "boundary p = b" "2 \<le> length b" "boundaryIndex p = indexBoundary b" using 1(2) by (auto simp: mp_ok_def)
  let ?n = "length b"
  show ?case
  proof (cases "i + ?n \<le> length buf \<and> buf ! (i + ?n - 1) \<notin> set b")
    case False
    then have "skip_data p buf i = i" using k by (subst skip_data.simps) (auto simp: boundarySize_def indexBoundary_def)
    then show ?thesis using 1(5) by simp
  next
    case True
    then have s: "skip_data p buf i = skip_data p buf (i + ?n)"
      using k by (subst skip_data.simps) (auto simp: boundarySize_def indexBoundary_def)
    have ih: "i + ?n \<le> skip_data p buf (i + ?n) \<and> skip_data p buf (i + ?n) \<le> length buf \<and>
      arun b (mp_abs p) (drop (i + ?n) buf) = emit (map DataCh (slice buf (i + ?n) (skip_data p buf (i + ?n)))) (arun b (mp_abs p) (drop (skip_data p buf (i + ?n)) buf))"
    proof -
      have "0 < ?n \<and> i + ?n \<le> length buf" "\<not> indexBoundary b (buf ! (i + ?n - 1))" using True k(2) by (auto simp: indexBoundary_def)
      then show ?thesis using 1(1) [unfolded boundarySize_def k(1,3)] 1(2,3,4) by blast
    qed
    let ?blk = "slice buf i (i + ?n)"
    have l: "length ?blk = ?n" using True by (auto simp: slice_def)
    have ne: "?blk \<noteq> []" using l k(2) by auto
    have "last ?blk = ?blk ! (?n - 1)" using last_conv_nth [OF ne] l by simp
    also have "\<dots> = buf ! (i + ?n - 1)" using k(2) True by (simp add: slice_def)
    finally have "last ?blk = buf ! (i + ?n - 1)" .
    with ne have "arun b (mp_abs p) (?blk @ drop (i + ?n) buf) = emit (map DataCh ?blk) (arun b (mp_abs p) (drop (i + ?n) buf))"
      using arun_block [of "mp_abs p" ?blk b "drop (i + ?n) buf"] 1(3,4) True l by (simp add: mp_abs_def)
    moreover have "?blk @ drop (i + ?n) buf = drop i buf" by (simp add: slice_def) (metis add.commute append_take_drop_id drop_drop)
    ultimately show ?thesis
      using ih slice_append [of i "i + ?n" "skip_data p buf (i + ?n)" buf] unfolding s by (auto simp flip: map_append)
  qed
qed

lemma sim_data_pending:
  assumes "mp_ok b p i" "i < length buf" "mp_st p = PART_DATA" "0 < mp_index p" "arun b (mp_abs p) (drop i buf) \<noteq> None"
  shows "sim b buf p i (processPartData p buf i)"
proof (cases "data_mismatch b (mp_abs p) (buf ! i)")
  case False
  have d: "drop i buf = buf ! i # drop (Suc i) buf" using assms(2) by (rule Cons_nth_drop_Suc [symmetric])
  have a: "astep b (mp_abs p) (buf ! i) = data_step b (mp_abs p) (buf ! i)" using assms(3) by (simp add: astep_def mp_abs_def)
  then obtain o1 a1 where s: "data_step b (mp_abs p) (buf ! i) = Some (o1, a1)"
    using assms(5) d by (cases "data_step b (mp_abs p) (buf ! i)") auto
  show ?thesis using sim1_sim [OF data_match [OF assms(1-4) s False] assms(2)] a s by simp
next
  case True
  let ?p = "p\<lparr>mp_index := 0, partDataMark := Some i\<rparr>"
  have k: "b \<noteq> []" "mp_index p \<le> length b + 1" "headerFieldMark p = None" "headerValueMark p = None" "partDataMark p = None"
    using assms(1,3,4) by (auto simp: mp_ok_def)
  have st: "a_st (mp_abs p) = PART_DATA" "a_idx (mp_abs p) = mp_index p" "a_pend (mp_abs p) = take (mp_index p) (lookbehind p)"
    "mp_abs ?p = (mp_abs p)\<lparr>a_idx := 0, a_pend := []\<rparr>"
    using assms(3) by (simp_all add: mp_abs_def)
  have "data_step b (mp_abs p) (buf ! i) = flush_data b (mp_abs p) (buf ! i)" using data_step_mismatch [OF True] k(2) st(2) by simp
  from arun_mismatch [OF st(1) this k(1), of "drop (Suc i) buf"]
  have "arun b (mp_abs p) (drop i buf) = emit (map DataCh (take (mp_index p) (lookbehind p))) (arun b (mp_abs ?p) (drop i buf))"
    unfolding st(3,4) using Cons_nth_drop_Suc [OF assms(2)] by simp
  moreover have "mp_ok b ?p i" using assms(1,3) by (simp add: mp_ok_def)
  ultimately show ?thesis
    unfolding data_flush [OF assms(1,3,4) True] sim_def using k assms(4) by (auto simp: mp_pend_def)
qed

lemma sim_data_fresh:
  assumes "mp_ok b p i" "i < length buf" "mp_st p = PART_DATA" "mp_index p = 0" "arun b (mp_abs p) (drop i buf) \<noteq> None"
  shows "sim b buf p i (processPartData p buf i)"
proof -
  define j where "j = skip_data p buf i"
  have s: "i \<le> j" "j \<le> length buf" "arun b (mp_abs p) (drop i buf) = emit (map DataCh (slice buf i j)) (arun b (mp_abs p) (drop j buf))"
    using skip_run [OF assms(1,3,4), of i buf] assms(2) by (auto simp: j_def)
  have k: "boundary p = b" "2 \<le> length b" "length (lookbehind p) = length b + 8" "headerFieldMark p = None" "headerValueMark p = None"
    using assms(1,3) by (auto simp: mp_ok_def)
  obtain m where m: "partDataMark p = Some m" "m \<le> i" using assms(1,3,4) by (auto simp: mp_ok_def mark_ok_True)
  have b0: "0 < boundarySize p" using k(1,2) by (auto simp: boundarySize_def)
  have pend: "mp_pend p buf i @ map DataCh (slice buf i j) = map DataCh (slice buf m j)"
    using slice_append [OF m(2) s(1), of buf] by (simp add: mp_pend_def k m flip: map_append)
  consider "j = length buf" | "j < length buf" "b ! 0 = buf ! j" | "j < length buf" "b ! 0 \<noteq> buf ! j" using s(2) by linarith
  then show ?thesis
  proof cases
    case 1
    have "processPartData p buf i = ([], p, Next (j + 1))"
      using assms(4) 1 by (simp add: processPartData_def Let_def j_def)
    moreover have "slice buf m (Suc j) = slice buf m j" using 1 by (simp add: slice_def)
    moreover have "mp_ok b p (j + 1)" using assms(1) s(1) m by (auto simp: mp_ok_def)
    ultimately show ?thesis
      unfolding sim_def using s pend 1 assms(2) k m by (auto simp: mp_pend_def)
  next
    case 2
    obtain ev where ev: "dataCallback OnPartData (partDataMark p) buf j True False = (ev, None)" "concat (map flat ev) = map DataCh (slice buf m j)"
      by (auto simp: dataCallback_def m Let_def)
    let ?p = "p\<lparr>partDataMark := None, mp_index := 1, lookbehind := (lookbehind p)[0 := buf ! j]\<rparr>"
    have pr: "processPartData p buf i = (ev, ?p, Next (j + 1))"
      using assms(4) 2 ev(1) k b0 unfolding processPartData_def
      by (simp add: Let_def j_def [symmetric] keep_lookbehind_def)
    have "lookbehind p \<noteq> []" using k(3) by auto
    then have "take 1 ((lookbehind p)[0 := buf ! j]) = [buf ! j]" by (cases "lookbehind p") auto
    then have "astep b (mp_abs p) (buf ! j) = Some ([], mp_abs ?p)"
      using 2 assms(3,4) k(2) by (auto simp: astep_def mp_abs_def data_step_def Let_def)
    then have "arun b (mp_abs p) (drop j buf) = arun b (mp_abs ?p) (drop (Suc j) buf)"
      using Cons_nth_drop_Suc [OF 2(1)] by (metis arun.simps(2) case_prod_conv emit_Nil option.simps(5))
    moreover have "mp_ok b ?p (j + 1)" using assms(1,3) k by (auto simp: mp_ok_def)
    ultimately show ?thesis
      unfolding sim_def pr using s pend ev(2) k by (auto simp: mp_pend_def)
  next
    case 3
    have pr: "processPartData p buf i = ([], p, Next (j + 1))"
      using assms(4) 3 k b0 unfolding processPartData_def
      by (simp add: Let_def j_def [symmetric] keep_lookbehind_def)
    have "hd b = b ! 0" using k(2) by (intro hd_conv_nth) auto
    then have "astep b (mp_abs p) (buf ! j) = Some ([DataCh (buf ! j)], mp_abs p)"
      using 3 assms(3,4) k(2) by (auto simp: astep_def mp_abs_def data_step_def flush_data_def fresh_data_def Let_def)
    then have "arun b (mp_abs p) (drop j buf) = emit [DataCh (buf ! j)] (arun b (mp_abs p) (drop (Suc j) buf))"
      using Cons_nth_drop_Suc [OF 3(1)] by (metis arun.simps(2) case_prod_conv option.simps(5))
    moreover have "slice buf m (Suc j) = slice buf m j @ [buf ! j]" using slice_Suc [of m j buf] m(2) s(1) 3(1) by simp
    moreover have "mp_ok b p (j + 1)" using assms(1) s(1) m by (auto simp: mp_ok_def)
    ultimately show ?thesis
      unfolding sim_def pr using s pend k m by (auto simp: mp_pend_def)
  qed
qed

lemma sim_step:
  assumes "mp_ok b p i" "i < length buf" "arun b (mp_abs p) (drop i buf) \<noteq> None"
  shows "sim b buf p i (mp_step p buf i)"
proof -
  have d: "drop i buf = buf ! i # drop (Suc i) buf" using assms(2) by (rule Cons_nth_drop_Suc [symmetric])
  obtain o1 a1 where s: "astep b (mp_abs p) (buf ! i) = Some (o1, a1)"
    using assms(3) d by (cases "astep b (mp_abs p) (buf ! i)") auto
  note plain = sim1_sim [OF _ assms(2) s]
  show ?thesis
  proof (cases "mp_st p")
    case START
    let ?p = "p\<lparr>mp_index := 0, mp_st := START_BOUNDARY\<rparr>"
    have "start_step b (mp_abs ?p) (buf ! i) = Some (o1, a1)" using s START by (simp add: astep_def mp_abs_def)
    moreover have "mp_ok b ?p i" using assms(1) START by (simp add: mp_ok_def)
    ultimately have "sim1 b buf ?p i o1 a1 (mp_step p buf i)"
      using sim_start [of b ?p i] START by (simp add: mp_step_def)
    then have "sim1 b buf p i o1 a1 (mp_step p buf i)" by (simp add: sim1_def mp_pend_def)
    then show ?thesis by (rule plain)
  next
    case START_BOUNDARY
    then show ?thesis using plain sim_start [OF assms(1), of "buf ! i" o1 a1 buf] s by (simp add: mp_step_def astep_def mp_abs_def)
  next
    case PART_DATA
    then show ?thesis using sim_data_fresh [OF assms(1,2) _ _ assms(3)] sim_data_pending [OF assms(1,2) _ _ assms(3)]
      by (cases "mp_index p = 0") (simp_all add: mp_step_def)
  next
    case PART_DATA_START
    let ?p = "p\<lparr>mp_st := PART_DATA, partDataMark := Some i\<rparr>"
    have i0: "mp_index p = 0" using s PART_DATA_START by (simp add: astep_def mp_abs_def split: if_splits)
    have "astep b (mp_abs p) (buf ! i) = astep b (mp_abs ?p) (buf ! i)"
      using PART_DATA_START i0 by (simp add: astep_def mp_abs_def)
    then have r: "arun b (mp_abs p) (drop i buf) = arun b (mp_abs ?p) (drop i buf)" by (simp add: d)
    have "mp_ok b ?p i" using assms(1) PART_DATA_START i0 by (simp add: mp_ok_def)
    from sim_data_fresh [OF this assms(2)] have "sim b buf ?p i (mp_step p buf i)"
      using i0 assms(3) r PART_DATA_START by (simp add: mp_step_def)
    moreover have "mp_pend p buf i = mp_pend ?p buf i" using assms(1) PART_DATA_START by (simp add: mp_ok_def mp_pend_def)
    ultimately show ?thesis using r i0 by (simp add: sim_def)
  next
    case HEADER_FIELD_START
    then show ?thesis by (rule plain [OF sim_field_start [OF assms(1,2) _ s]])
  next
    case HEADER_FIELD
    then show ?thesis by (rule plain [OF sim_field [OF assms(1,2) _ s]])
  next
    case HEADER_VALUE_START
    then show ?thesis by (rule plain [OF sim_value_start [OF assms(1,2) _ s]])
  next
    case HEADER_VALUE
    then show ?thesis by (rule plain [OF sim_value [OF assms(1,2) _ s]])
  next
    case HEADER_VALUE_ALMOST_DONE
    then show ?thesis using plain [OF sim_line_end [OF assms(1) _ s]] by simp
  next
    case HEADERS_ALMOST_DONE
    then show ?thesis using plain [OF sim_line_end [OF assms(1) _ s]] by simp
  next
    case END
    then show ?thesis using plain [OF sim_line_end [OF assms(1) _ s]] by simp
  next
    case PARSE_ERROR
    then show ?thesis using s by (simp add: astep_def mp_abs_def)
  next
    case PART_END
    then show ?thesis using s by (simp add: astep_def mp_abs_def)
  qed
qed

lemma mp_loop_sim:
  assumes "mp_ok b p i" "arun b (mp_abs p) (drop i buf) = Some (o1, a1)"
  shows "\<exists>ev' p' j. mp_loop buf i ev p = Some (ev @ ev', p', Fed (length buf)) \<and> mp_abs p' = a1 \<and> mp_ok b p' j \<and> length buf \<le> j \<and>
    mp_pend p buf i @ o1 = concat (map flat ev') @ mp_pend p' buf j"
  using assms
proof (induction "2 * (length buf - i) + (if 0 < mp_index p then 1 else 0)" arbitrary: i p ev o1 rule: less_induct)
  case less
  show ?case
  proof (cases "length buf \<le> i")
    case True
    have "mp_loop buf i ev p = Some (ev @ [], p, Fed (length buf))" using True by (subst mp_loop.simps) simp
    then show ?thesis using True less.prems by fastforce
  next
    case False
    have "sim b buf p i (mp_step p buf i)" using sim_step [OF less.prems(1)] less.prems(2) False by simp
    then obtain ev1 p1 j o2 where st: "mp_step p buf i = (ev1, p1, Next j)" "mp_ok b p1 j"
      "i < j \<or> i = j \<and> 0 < mp_index p \<and> mp_index p1 = 0"
      "arun b (mp_abs p) (drop i buf) = emit o2 (arun b (mp_abs p1) (drop j buf))"
      "mp_pend p buf i @ o2 = concat (map flat ev1) @ mp_pend p1 buf j"
      by (auto simp: sim_def)
    obtain o3 where o3: "arun b (mp_abs p1) (drop j buf) = Some (o3, a1)" "o1 = o2 @ o3"
      using st(4) less.prems(2) by (cases "arun b (mp_abs p1) (drop j buf)") auto
    have "2 * (length buf - j) + (if 0 < mp_index p1 then 1 else 0) < 2 * (length buf - i) + (if 0 < mp_index p then 1 else 0)"
      using st(3) False by auto
    from less.hyps [OF this st(2) o3(1), of "ev @ ev1"] obtain ev2 p2 j2 where r: "mp_loop buf j (ev @ ev1) p1 = Some ((ev @ ev1) @ ev2, p2, Fed (length buf))"
      "mp_abs p2 = a1" "mp_ok b p2 j2" "length buf \<le> j2" "mp_pend p1 buf j @ o3 = concat (map flat ev2) @ mp_pend p2 buf j2" by blast
    have "mp_loop buf i ev p = Some (ev @ (ev1 @ ev2), p2, Fed (length buf))" using False st(1) r(1) by (subst mp_loop.simps) simp
    moreover have "mp_pend p buf i @ o1 = concat (map flat (ev1 @ ev2)) @ mp_pend p2 buf j2"
      using st(5) r(5) o3(2) by (metis append.assoc concat_append map_append)
    ultimately show ?thesis using r(2-4) by blast
  qed
qed

lemma dataCallback_end:
  assumes "\<And>s. flat (C' s) = map C s" "length buf \<le> j" "dataCallback C' mark buf n False False = (ev, k)"
  shows "concat (map flat ev) = pend_of C mark buf j" "k = map_option (\<lambda>_. 0) mark"
  using assms by (auto simp: dataCallback_def pend_of_def slice_def Let_def split: option.splits if_splits)

lemma feed_sim:
  assumes "mp_ok b p 0" "arun b (mp_abs p) buf = Some (o1, a1)"
  shows "\<exists>ev p' n. feed buf p = Some (ev, p', Fed n) \<and> concat (map flat ev) = o1 \<and> mp_abs p' = a1 \<and> mp_ok b p' 0"
proof (cases "buf = []")
  case True
  then show ?thesis using assms by (auto simp: feed_def)
next
  case False
  have m0: "mark = None \<or> mark = Some 0" if "mark_ok mark q 0" for mark q using that by (auto simp: mark_ok_def split: option.splits)
  have "mp_pend p buf 0 = []" using assms(1) m0 by (auto simp: mp_ok_def mp_pend_def pend_of_def slice_def split: option.splits)
  moreover have "mp_st p \<noteq> PARSE_ERROR" using assms(2) False by (cases buf) (auto simp: astep_def mp_abs_def)
  moreover obtain ev q j where l: "mp_loop buf 0 [] p = Some (ev, q, Fed (length buf))" "mp_abs q = a1" "mp_ok b q j" "length buf \<le> j"
    "mp_pend p buf 0 @ o1 = concat (map flat ev) @ mp_pend q buf j"
    using mp_loop_sim [OF assms(1), of buf o1 a1 "[]"] assms(2) by auto
  moreover obtain e1 m1 e2 m2 e3 m3 where c: "dataCallback OnHeaderField (headerFieldMark q) buf (length buf) False False = (e1, m1)"
    "dataCallback OnHeaderValue (headerValueMark q) buf (length buf) False False = (e2, m2)"
    "dataCallback OnPartData (partDataMark q) buf (length buf) False False = (e3, m3)" by (metis surj_pair)
  ultimately have f: "feed buf p = Some (ev @ e1 @ e2 @ e3, q\<lparr>headerFieldMark := m1, headerValueMark := m2, partDataMark := m3\<rparr>, Fed (length buf))"
    using False by (simp add: feed_def)
  note e = dataCallback_end [OF _ l(4) c(1), of FieldCh, simplified] dataCallback_end [OF _ l(4) c(2), of ValueCh, simplified]
    dataCallback_end [OF _ l(4) c(3), of DataCh, simplified]
  have z: "mark_ok mark x j \<Longrightarrow> mark_ok (map_option (\<lambda>_. 0) mark) x 0" for mark x by (cases mark) auto
  have "concat (map flat (ev @ e1 @ e2 @ e3)) = o1" using l(5) \<open>mp_pend p buf 0 = []\<close> by (simp add: e mp_pend_def)
  moreover have "mp_ok b (q\<lparr>headerFieldMark := m1, headerValueMark := m2, partDataMark := m3\<rparr>) 0"
    using l(3) z by (simp add: mp_ok_def e)
  moreover have "mp_abs (q\<lparr>headerFieldMark := m1, headerValueMark := m2, partDataMark := m3\<rparr>) = a1"
    using l(2) by (auto simp: mp_abs_def)
  ultimately show ?thesis using f by blast
qed

lemma feed_all_sim:
  assumes "mp_ok b p 0" "arun b (mp_abs p) (concat bufs) = Some (o1, a1)"
  shows "\<exists>ev p'. feed_all bufs p = Some (ev, p') \<and> concat (map flat ev) = o1 \<and> mp_abs p' = a1"
  using assms
proof (induction bufs arbitrary: p o1)
  case (Cons buf bufs)
  obtain o2 a2 o3 where r: "arun b (mp_abs p) buf = Some (o2, a2)" "arun b a2 (concat bufs) = Some (o3, a1)" "o1 = o2 @ o3"
    using Cons.prems(2) by (auto simp: arun_append emit_def split: option.splits)
  obtain ev p' n where f: "feed buf p = Some (ev, p', Fed n)" "concat (map flat ev) = o2" "mp_abs p' = a2" "mp_ok b p' 0"
    using feed_sim [OF Cons.prems(1) r(1)] by blast
  obtain ev' p'' where "feed_all bufs p' = Some (ev', p'')" "concat (map flat ev') = o3" "mp_abs p'' = a1"
    using Cons.IH [OF f(4)] r(2) f(3) by blast
  then show ?case using f r(3) by simp
qed simp

definition auto_start :: mp_auto where
  "auto_start = \<lparr>a_st = START, a_idx = 0, a_part = False, a_last = False, a_pend = []\<rparr>"

lemma set_boundary_ok: "2 \<le> length b \<Longrightarrow> mp_ok b (set_boundary fresh b) 0" "mp_abs (set_boundary fresh b) = auto_start"
  by (auto simp: mp_ok_def mp_abs_def set_boundary_def mp_reset_def auto_start_def)

text \<open>
  (C6) The parser refines the one-character automaton for every way the body is cut into pieces: whenever the automaton accepts the whole text,
  feeding the pieces one after the other terminates, raises no error and never leaves the lookbehind
  buffer; the reported names, values, data and boundaries, put together, are the output of the automaton, and both end in
  the same state - whatever the fresh lookbehind memory contained. The automaton rejects a malformed first boundary and malformed header
  lines; on some of these bodies, such as one with a header line without a colon, the parser goes on and reports bytes that were never written (\<open>lookbehind_leak\<close>,
  \<open>name_fragment\<close>). Like the parser it keeps the part flag (\<open>part_flag_survives\<close>).
\<close>

theorem feed_refines_automaton:
  assumes "2 \<le> length b" "arun b auto_start (concat bufs) = Some (out, a)"
  shows "\<exists>ev p. feed_all bufs (set_boundary fresh b) = Some (ev, p) \<and> concat (map flat ev) = out \<and> mp_st p = a_st a"
proof -
  obtain ev p where "feed_all bufs (set_boundary fresh b) = Some (ev, p)" "concat (map flat ev) = out" "mp_abs p = a"
    using feed_all_sim [OF set_boundary_ok(1) [OF assms(1)], of fresh bufs] assms(2) by (auto simp: set_boundary_ok(2))
  moreover from this have "mp_st p = a_st a" by (auto simp: mp_abs_def)
  ultimately show ?thesis by blast
qed

theorem feed_refines_automaton_witness:
  "\<exists>ev p. feed_all [''--B'' @ crlf @ ''a:'', ''b'' @ crlf @ crlf @ ''x'' @ crlf, ''--B--''] (set_boundary ''?'' (crlf @ ''--B'')) = Some (ev, p) \<and>
     concat (map flat ev) = [Begin_part, FieldCh (CHR ''a''), ValueCh (CHR ''b''), Header_end, Headers_end, DataCh (CHR ''x''), End_part, End_all] \<and>
     mp_st p = END"
proof -
  obtain a where a: "arun (crlf @ ''--B'') auto_start (concat [''--B'' @ crlf @ ''a:'', ''b'' @ crlf @ crlf @ ''x'' @ crlf, ''--B--'']) =
      Some ([Begin_part, FieldCh (CHR ''a''), ValueCh (CHR ''b''), Header_end, Headers_end, DataCh (CHR ''x''), End_part, End_all], a)" "a_st a = END"
    by (simp add: auto_start_def astep_def start_step_def field_step_def value_step_def data_step_def flush_data_def fresh_data_def emit_def Let_def lower_def uchar_def)
  from feed_refines_automaton [OF _ a(1), of "''?''"] show ?thesis using a(2) by simp
qed

section \<open>Printed bodies\<close>

definition print_header :: "string \<times> string \<Rightarrow> string" where
  "print_header h = fst h @ '': '' @ snd h @ crlf"

definition print_part :: "(string \<times> string) list \<times> string \<Rightarrow> string" where
  "print_part p = concat (map print_header (fst p)) @ crlf @ snd p"

primrec print_parts :: "string \<Rightarrow> ((string \<times> string) list \<times> string) list \<Rightarrow> string" where
  "print_parts b [] = ''--''"
| "print_parts b (p # ps) = crlf @ print_part p @ b @ print_parts b ps"

definition print_body :: "string \<Rightarrow> ((string \<times> string) list \<times> string) list \<Rightarrow> string" where
  "print_body b ps = drop 2 b @ print_parts b ps"

definition header_out :: "string \<times> string \<Rightarrow> mp_out list" where
  "header_out h = map FieldCh (fst h) @ map ValueCh (snd h) @ [Header_end]"

definition part_out :: "(string \<times> string) list \<times> string \<Rightarrow> mp_out list" where
  "part_out p = concat (map header_out (fst p)) @ [Headers_end] @ map DataCh (snd p) @ [End_part]"

primrec parts_out :: "((string \<times> string) list \<times> string) list \<Rightarrow> mp_out list" where
  "parts_out [] = [End_all]"
| "parts_out (p # ps) = Begin_part # part_out p @ parts_out ps"

definition name_ok :: "string \<Rightarrow> bool" where
  "name_ok n \<longleftrightarrow> n \<noteq> [] \<and> (\<forall>c \<in> set n. c = CHR ''-'' \<or> 97 \<le> lower c \<and> lower c \<le> 122)"

definition value_ok :: "string \<Rightarrow> bool" where
  "value_ok v \<longleftrightarrow> CR \<notin> set v \<and> (v = [] \<or> hd v \<noteq> SP)"

text \<open>A boundary as the program builds it: a line break and text without a carriage return.\<close>

definition boundary_ok :: "string \<Rightarrow> bool" where
  "boundary_ok b \<longleftrightarrow> (\<exists>r. b = CR # LF # r \<and> CR \<notin> set r)"

definition part_ok :: "string \<Rightarrow> (string \<times> string) list \<times> string \<Rightarrow> bool" where
  "part_ok b p \<longleftrightarrow> (\<forall>h \<in> set (fst p). name_ok (fst h) \<and> value_ok (snd h)) \<and> \<not> sublist b (snd p)"

abbreviation au :: "mp_state \<Rightarrow> nat \<Rightarrow> string \<Rightarrow> mp_auto" where
  "au st k P \<equiv> \<lparr>a_st = st, a_idx = k, a_part = False, a_last = False, a_pend = P\<rparr>"

lemma lower_specials: "lower CR = 45" "lower (CHR '':'') = 58"
  by (simp_all add: lower_def uchar_def)

lemma arun_start_boundary:
  "k + 2 \<le> length b \<Longrightarrow>
     arun b (au START_BOUNDARY k []) (drop (k + 2) b @ crlf @ s) = emit [Begin_part] (arun b (au HEADER_FIELD_START 0 []) s)"
proof (induction "length b - k" arbitrary: k)
  case 0
  then show ?case by simp
next
  case (Suc n)
  show ?case
  proof (cases "k + 2 = length b")
    case True
    then show ?thesis by (simp add: astep_def start_step_def Let_def)
  next
    case False
    then have "drop (k + 2) b = b ! (k + 2) # drop (Suc k + 2) b" using Suc.prems by (simp add: Cons_nth_drop_Suc)
    then have "arun b (au START_BOUNDARY k []) (drop (k + 2) b @ crlf @ s) = arun b (au START_BOUNDARY (Suc k) []) (drop (Suc k + 2) b @ crlf @ s)"
      using False Suc.prems by (simp add: astep_def start_step_def Let_def)
    then show ?thesis using Suc.hyps(1) [of "Suc k"] Suc.hyps(2) Suc.prems False by simp
  qed
qed

lemma arun_start:
  assumes "2 \<le> length b"
  shows "arun b auto_start (drop 2 b @ crlf @ s) = emit [Begin_part] (arun b (au HEADER_FIELD_START 0 []) s)"
proof -
  have "arun b auto_start (c # cs) = arun b (au START_BOUNDARY 0 []) (c # cs)" for c cs
    by (simp add: auto_start_def astep_def)
  then have "arun b auto_start (drop 2 b @ crlf @ s) = arun b (au START_BOUNDARY 0 []) (drop 2 b @ crlf @ s)"
    by (cases "drop 2 b") simp_all
  then show ?thesis using arun_start_boundary [of 0 b s, unfolded add_0] assms by simp
qed

lemma arun_name:
  "\<forall>c \<in> set n. c = CHR ''-'' \<or> 97 \<le> lower c \<and> lower c \<le> 122 \<Longrightarrow>
     arun b (au HEADER_FIELD k P) (n @ s) = emit (map FieldCh n) (arun b (au HEADER_FIELD (k + length n) P) s)"
proof (induction n arbitrary: k)
  case (Cons c n)
  have c: "c = CHR ''-'' \<or> 97 \<le> lower c \<and> lower c \<le> 122" using Cons.prems by simp
  have "c \<noteq> CR" by (rule notI) (use c lower_specials in simp)
  moreover have "c \<noteq> CHR '':''" by (rule notI) (use c lower_specials in simp)
  ultimately have "arun b (au HEADER_FIELD k P) (c # n @ s) = emit [FieldCh c] (arun b (au HEADER_FIELD (Suc k) P) (n @ s))"
    using c by (simp add: astep_def field_step_def)
  then show ?case using Cons.IH [of "Suc k"] Cons.prems by simp
qed simp

lemma arun_value: "CR \<notin> set v \<Longrightarrow> arun b (au HEADER_VALUE k P) (v @ s) = emit (map ValueCh v) (arun b (au HEADER_VALUE k P) s)"
proof (induction v)
  case (Cons c v)
  then have "c \<noteq> CR" by auto
  then show ?case using Cons by (simp add: astep_def value_step_def)
qed simp

lemma arun_header:
  assumes "name_ok (fst h)" "value_ok (snd h)"
  shows "\<exists>k. arun b (au HEADER_FIELD_START j []) (print_header h @ s) = emit (header_out h) (arun b (au HEADER_FIELD_START k []) s)"
proof -
  obtain n v where h: "h = (n, v)" by force
  have n: "n \<noteq> []" "\<forall>c \<in> set n. c = CHR ''-'' \<or> 97 \<le> lower c \<and> lower c \<le> 122" and v: "CR \<notin> set v" "v = [] \<or> hd v \<noteq> SP"
    using assms by (auto simp: h name_ok_def value_ok_def)
  let ?k = "length n + 1"
  have start: "arun b (au HEADER_FIELD_START j []) (c # cs) = arun b (au HEADER_FIELD 0 []) (c # cs)" for c cs
    by (simp add: astep_def)
  have "arun b (au HEADER_FIELD_START j []) (n @ t) = emit (map FieldCh n) (arun b (au HEADER_FIELD (length n) []) t)" for t
    using n(1) arun_name [OF n(2), of b 0 "[]" t] start by (cases n) simp_all
  moreover have "arun b (au HEADER_FIELD (length n) []) ('': '' @ t) = arun b (au HEADER_VALUE_START ?k []) t" for t
    using n(1) by (simp add: astep_def field_step_def)
  moreover have "arun b (au HEADER_VALUE_START ?k []) (v @ crlf @ s) = emit (map ValueCh v @ [Header_end]) (arun b (au HEADER_FIELD_START ?k []) s)"
  proof -
    have "arun b (au HEADER_VALUE_START ?k []) (v @ crlf @ s) = arun b (au HEADER_VALUE ?k []) (v @ crlf @ s)"
      using v(2) by (cases v) (simp_all add: astep_def)
    then show ?thesis using arun_value [OF v(1), of b ?k "[]" "crlf @ s"] by (simp add: astep_def value_step_def)
  qed
  ultimately have "arun b (au HEADER_FIELD_START j []) (print_header h @ s) = emit (header_out h) (arun b (au HEADER_FIELD_START ?k []) s)"
    by (simp add: h print_header_def header_out_def)
  then show ?thesis by blast
qed

lemma arun_headers:
  "\<forall>h \<in> set hs. name_ok (fst h) \<and> value_ok (snd h) \<Longrightarrow>
     arun b (au HEADER_FIELD_START j []) (concat (map print_header hs) @ crlf @ s) =
       emit (concat (map header_out hs) @ [Headers_end]) (arun b (au PART_DATA_START 0 []) s)"
proof (induction hs arbitrary: j)
  case Nil
  then show ?case by (simp add: astep_def field_step_def)
next
  case (Cons h hs)
  obtain k where "arun b (au HEADER_FIELD_START j []) (print_header h @ (concat (map print_header hs) @ crlf @ s)) =
      emit (header_out h) (arun b (au HEADER_FIELD_START k []) (concat (map print_header hs) @ crlf @ s))"
    using arun_header [of h] Cons.prems by fastforce
  then show ?case using Cons.IH [of k] Cons.prems by simp
qed

lemma arun_full:
  "k \<le> length b \<Longrightarrow> arun b (au PART_DATA k (take k b)) (drop k b @ t) = arun b (au PART_DATA (length b) b) t"
proof (induction "length b - k" arbitrary: k)
  case (Suc n)
  then have k: "k < length b" by simp
  then have "drop k b = b ! k # drop (Suc k) b" by (simp add: Cons_nth_drop_Suc)
  then have "arun b (au PART_DATA k (take k b)) (drop k b @ t) = arun b (au PART_DATA (Suc k) (take (Suc k) b)) (drop (Suc k) b @ t)"
    using k by (simp add: astep_def data_step_def Let_def take_Suc_conv_app_nth)
  then show ?case using Suc.hyps(1) [of "Suc k"] Suc.hyps(2) k by simp
qed simp

lemma arun_data:
  assumes "boundary_ok b" "k < length b" "\<not> sublist b (take k b @ s)"
  shows "arun b (au PART_DATA k (take k b)) (s @ b @ t) = emit (map DataCh (take k b @ s)) (arun b (au PART_DATA (length b) b) t)"
  using assms(2,3)
proof (induction s arbitrary: k)
  case Nil
  obtain r where b: "b = CR # LF # r" "CR \<notin> set r" using assms(1) by (auto simp: boundary_ok_def)
  have full: "arun b (au PART_DATA 0 []) (b @ t) = arun b (au PART_DATA (length b) b) t" using arun_full [of 0 b t] by simp
  show ?case
  proof (cases "k = 0")
    case False
    then have "b ! k \<noteq> CR" using b Nil.prems(1) by (cases k) (auto simp: nth_Cons split: nat.splits dest: nth_mem)
    then have "data_step b (au PART_DATA k (take k b)) CR = flush_data b (au PART_DATA k (take k b)) CR"
      using Nil.prems(1) by (simp add: data_step_def Let_def)
    from arun_mismatch [OF _ this] have "arun b (au PART_DATA k (take k b)) (CR # LF # r @ t) = emit (map DataCh (take k b)) (arun b (au PART_DATA 0 []) (CR # LF # r @ t))"
      using b(1) by simp
    then show ?thesis using full b(1) by simp
  qed (use full in simp)
next
  case (Cons c s)
  have b0: "b \<noteq> []" using assms(1) by (auto simp: boundary_ok_def)
  have fresh: "arun b (au PART_DATA 0 []) (c # s @ b @ t) = emit (map DataCh (c # s)) (arun b (au PART_DATA (length b) b) t)"
    if "\<not> sublist b (c # s)" "\<not> (k = 0 \<and> hd b = c)"
  proof (cases "hd b = c")
    case True
    then have t1: "take 1 b = [c]" using b0 by (cases b) auto
    have "1 < length b" using assms(1) by (auto simp: boundary_ok_def)
    then have "arun b (au PART_DATA 1 (take 1 b)) (s @ b @ t) = emit (map DataCh (take 1 b @ s)) (arun b (au PART_DATA (length b) b) t)"
      using Cons.IH [of 1] that(1) t1 by simp
    moreover have "arun b (au PART_DATA 0 []) (c # s @ b @ t) = arun b (au PART_DATA 1 [c]) (s @ b @ t)"
      using True b0 by (simp add: astep_def data_step_def Let_def hd_conv_nth)
    ultimately show ?thesis unfolding t1 by simp
  next
    case False
    have "\<not> sublist b (take 0 b @ s)" using that(1) by (auto simp: sublist_Cons_right)
    then have "arun b (au PART_DATA 0 []) (s @ b @ t) = emit (map DataCh s) (arun b (au PART_DATA (length b) b) t)"
      using Cons.IH [of 0] b0 by simp
    moreover have "arun b (au PART_DATA 0 []) (c # s @ b @ t) = emit [DataCh c] (arun b (au PART_DATA 0 []) (s @ b @ t))"
      using False b0 by (simp add: astep_def data_step_def Let_def hd_conv_nth flush_data_def fresh_data_def)
    ultimately show ?thesis by simp
  qed
  show ?case
  proof (cases "b ! k = c")
    case True
    have tk: "take (Suc k) b = take k b @ [c]" using True Cons.prems(1) by (simp add: take_Suc_conv_app_nth)
    have "Suc k \<noteq> length b"
    proof
      assume "Suc k = length b"
      then have "b = take k b @ [c]" using tk by simp
      then have "take k b @ c # s = b @ s" by simp
      then show False using Cons.prems(2) by (metis sublist_append_rightI)
    qed
    moreover have "arun b (au PART_DATA k (take k b)) (c # s @ b @ t) = arun b (au PART_DATA (Suc k) (take (Suc k) b)) (s @ b @ t)"
      using True Cons.prems(1) by (simp add: astep_def data_step_def Let_def tk)
    ultimately show ?thesis using Cons.IH [of "Suc k"] Cons.prems by (simp add: tk)
  next
    case False
    have "data_step b (au PART_DATA k (take k b)) c = flush_data b (au PART_DATA k (take k b)) c"
      using False Cons.prems(1) by (simp add: data_step_def Let_def)
    from arun_mismatch [OF _ this b0, of "s @ b @ t"]
    have "arun b (au PART_DATA k (take k b)) (c # s @ b @ t) = emit (map DataCh (take k b)) (arun b (au PART_DATA 0 []) (c # s @ b @ t))" by simp
    moreover have "\<not> sublist b (c # s)" using Cons.prems(2) by (meson sublist_append_leftI sublist_order.order_trans)
    moreover have "\<not> (k = 0 \<and> hd b = c)" using False b0 by (auto simp: hd_conv_nth)
    ultimately show ?thesis using fresh by simp
  qed
qed

lemma arun_part_data:
  assumes "boundary_ok b" "\<not> sublist b d"
  shows "arun b (au PART_DATA_START 0 []) (d @ b @ t) = emit (map DataCh d) (arun b (au PART_DATA (length b) b) t)"
proof -
  have b0: "0 < length b" using assms(1) by (auto simp: boundary_ok_def)
  have "arun b (au PART_DATA_START 0 []) (c # cs) = arun b (au PART_DATA 0 []) (c # cs)" for c cs by (simp add: astep_def)
  moreover have "d @ b @ t \<noteq> []" using b0 by auto
  ultimately have "arun b (au PART_DATA_START 0 []) (d @ b @ t) = arun b (au PART_DATA 0 []) (d @ b @ t)"
    by (metis list.exhaust)
  then show ?thesis using arun_data [OF assms(1) b0, of d t] assms(2) by simp
qed

lemma arun_parts:
  assumes "boundary_ok b" "part_ok b p" "\<forall>p \<in> set ps. part_ok b p"
  shows "\<exists>a. arun b (au HEADER_FIELD_START j []) (print_part p @ b @ print_parts b ps) = Some (part_out p @ parts_out ps, a) \<and> a_st a = END"
  using assms(2,3)
proof (induction ps arbitrary: p j)
  case Nil
  have "\<exists>a. arun b (au PART_DATA (length b) b) ''--'' = Some ([End_part, End_all], a) \<and> a_st a = END"
    by (simp add: astep_def data_step_def Let_def)
  then show ?case
    using arun_headers [of "fst p" b j] arun_part_data [OF assms(1), of "snd p"] Nil.prems(1)
    by (auto simp: print_part_def part_out_def part_ok_def)
next
  case (Cons q ps)
  obtain a where a: "arun b (au HEADER_FIELD_START 0 []) (print_part q @ b @ print_parts b ps) = Some (part_out q @ parts_out ps, a)" "a_st a = END"
    using Cons.IH [of q 0] Cons.prems by auto
  have "arun b (au PART_DATA (length b) b) (crlf @ s) = emit [End_part, Begin_part] (arun b (au HEADER_FIELD_START 0 []) s)" for s
    by (simp add: astep_def data_step_def Let_def)
  then show ?case
    using a arun_headers [of "fst p" b j] arun_part_data [OF assms(1), of "snd p"] Cons.prems(1)
    by (auto simp: print_part_def part_out_def part_ok_def)
qed

text \<open>
  A printed multipart body is read back exactly, however it is cut into pieces: the parser ends in its final state having
  reported, in order, for every part its header names and values, the end of the headers, exactly the data of the part and
  its end. The data may be any text that does not contain the boundary, including partial boundaries and overlaps with it.
\<close>

lemma multipart_roundtrip:
  assumes "boundary_ok b" "part_ok b p" "\<forall>p \<in> set ps. part_ok b p" "concat bufs = print_body b (p # ps)"
  shows "\<exists>ev q. feed_all bufs (set_boundary fresh b) = Some (ev, q) \<and> succeeded q \<and>
    concat (map flat ev) = parts_out (p # ps)"
proof -
  have len: "2 \<le> length b" using assms(1) by (auto simp: boundary_ok_def)
  obtain a where a: "arun b (au HEADER_FIELD_START 0 []) (print_part p @ b @ print_parts b ps) = Some (part_out p @ parts_out ps, a)" "a_st a = END"
    using arun_parts [OF assms(1-3)] by blast
  have "arun b auto_start (concat bufs) = Some (parts_out (p # ps), a)"
    using arun_start [OF len, of "print_part p @ b @ print_parts b ps"] a(1) by (simp add: assms(4) print_body_def)
  then obtain ev q where "feed_all bufs (set_boundary fresh b) = Some (ev, q)" "concat (map flat ev) = parts_out (p # ps)" "mp_abs q = a"
    using feed_all_sim [OF set_boundary_ok(1) [OF len], of fresh bufs] by (auto simp: set_boundary_ok(2))
  then show ?thesis using a(2) by (auto simp: succeeded_def mp_abs_def)
qed

end
