(* ===== verification/Multipart_Reader.thy ===== *)
theory Multipart_Reader
  imports Multipart_Correct "HOL-Library.List_Lexorder" "HOL-Library.Char_ord"
begin

text \<open>
  The reader on top of the multipart parser (\<^verbatim>\<open>include/netcore/multipart_reader.hpp\<close>): its callbacks gather the header names
  and values of a part and pass the headers, the data and the ends of the parts to the user. What the reader reports for a
  printed body are its parts, with the headers grouped by name.
\<close>

section \<open>Callbacks of the reader\<close>

text \<open>
  \<^verbatim>\<open>std::multimap<std::string, std::string>\<close> is its list of entries, ordered by key; \<^verbatim>\<open>emplace\<close> puts a new entry after the
  entries with the same key.
\<close>

type_synonym multipart_headers = "(string \<times> string) list"

definition multimap_emplace :: "string \<Rightarrow> string \<Rightarrow> multipart_headers \<Rightarrow> multipart_headers" where
  "multimap_emplace k v m = takeWhile (\<lambda>e. fst e \<le> k) m @ (k, v) # dropWhile (\<lambda>e. fst e \<le> k) m"

datatype reader_event = Part_begin multipart_headers | Part_data string | Part_end | All_end

record multipart_reader =
  currentHeaders :: multipart_headers
  currentHeaderName :: string
  currentHeaderValue :: string

definition multipart_reader_new :: multipart_reader where
  "multipart_reader_new = \<lparr>currentHeaders = [], currentHeaderName = [], currentHeaderValue = []\<rparr>"

fun reader_cb :: "mp_event \<Rightarrow> multipart_reader \<Rightarrow> reader_event list \<times> multipart_reader" where
  "reader_cb OnPartBegin r = ([], r)"
| "reader_cb (OnHeaderField s) r = ([], r\<lparr>currentHeaderName := currentHeaderName r @ s\<rparr>)"
| "reader_cb (OnHeaderValue s) r = ([], r\<lparr>currentHeaderValue := currentHeaderValue r @ s\<rparr>)"
| "reader_cb OnHeaderEnd r =
     ([], r\<lparr>currentHeaders := multimap_emplace (currentHeaderName r) (currentHeaderValue r) (currentHeaders r),
            currentHeaderName := [], currentHeaderValue := []\<rparr>)"
| "reader_cb OnHeadersEnd r = ([Part_begin (currentHeaders r)], r\<lparr>currentHeaders := []\<rparr>)"
| "reader_cb (OnPartData s) r = ([Part_data s], r)"
| "reader_cb OnPartEnd r = ([Part_end], r)"
| "reader_cb OnEnd r = ([All_end], r)"

fun reader_run :: "mp_event list \<Rightarrow> multipart_reader \<Rightarrow> reader_event list \<times> multipart_reader" where
  "reader_run [] r = ([], r)"
| "reader_run (e # es) r = (let (out, r) = reader_cb e r; (out', r) = reader_run es r in (out @ out', r))"

section \<open>The header map\<close>

definition multimap_of :: "multipart_headers \<Rightarrow> multipart_headers" where
  "multimap_of hs = fold (\<lambda>(k, v). multimap_emplace k v) hs []"

lemma multimap_emplace_sorted: "sorted (map fst m) \<Longrightarrow> sorted (map fst (multimap_emplace k v m))"
  by (induction m) (auto simp: multimap_emplace_def not_le dest!: set_dropWhileD set_takeWhileD)

lemma dropWhile_le_greater: "sorted (map fst m) \<Longrightarrow> e \<in> set (dropWhile (\<lambda>e. fst e \<le> k) m) \<Longrightarrow> k < fst e"
  by (induction m) (auto split: if_splits)

lemma multimap_emplace_filter:
  assumes "sorted (map fst m)"
  shows "filter (\<lambda>e. fst e = n) (multimap_emplace k v m) = filter (\<lambda>e. fst e = n) m @ (if k = n then [(k, v)] else [])"
proof -
  have split: "filter (\<lambda>e. fst e = n) m = filter (\<lambda>e. fst e = n) (takeWhile (\<lambda>e. fst e \<le> k) m) @ filter (\<lambda>e. fst e = n) (dropWhile (\<lambda>e. fst e \<le> k) m)"
    by (metis filter_append takeWhile_dropWhile_id)
  have "filter (\<lambda>e. fst e = n) (dropWhile (\<lambda>e. fst e \<le> k) m) = []" if "k = n"
    using dropWhile_le_greater [OF assms] that by (auto simp: filter_empty_conv)
  then show ?thesis by (simp add: multimap_emplace_def split)
qed

lemma fold_emplace:
  "sorted (map fst m) \<Longrightarrow>
     filter (\<lambda>e. fst e = n) (fold (\<lambda>(k, v). multimap_emplace k v) hs m) = filter (\<lambda>e. fst e = n) m @ filter (\<lambda>e. fst e = n) hs"
  by (induction hs arbitrary: m) (auto simp: multimap_emplace_filter multimap_emplace_sorted)

lemma multimap_of_values: "filter (\<lambda>e. fst e = n) (multimap_of hs) = filter (\<lambda>e. fst e = n) hs"
  by (simp add: multimap_of_def fold_emplace)

section \<open>Reading back a printed body\<close>

text \<open>The reader does not depend on how names, values and data are cut into pieces.\<close>

fun unflat :: "mp_out \<Rightarrow> mp_event" where
  "unflat (FieldCh c) = OnHeaderField [c]"
| "unflat (ValueCh c) = OnHeaderValue [c]"
| "unflat Header_end = OnHeaderEnd"
| "unflat Headers_end = OnHeadersEnd"
| "unflat Begin_part = OnPartBegin"
| "unflat (DataCh c) = OnPartData [c]"
| "unflat End_part = OnPartEnd"
| "unflat End_all = OnEnd"

fun pieces :: "reader_event \<Rightarrow> reader_event list" where
  "pieces (Part_data s) = map (\<lambda>c. Part_data [c]) s"
| "pieces e = [e]"

definition observed :: "mp_event list \<Rightarrow> multipart_reader \<Rightarrow> reader_event list \<times> multipart_reader" where
  "observed es r = apfst (\<lambda>out. concat (map pieces out)) (reader_run es r)"

lemma observed_Nil [simp]: "observed [] r = ([], r)"
  by (simp add: observed_def)

lemma observed_Cons:
  "observed (e # es) r = apfst (append (concat (map pieces (fst (reader_cb e r))))) (observed es (snd (reader_cb e r)))"
  by (simp add: observed_def Let_def split_beta apfst_def map_prod_def)

lemma observed_append: "observed (es @ fs) r = apfst (append (fst (observed es r))) (observed fs (snd (observed es r)))"
  by (induction es arbitrary: r) (simp_all add: observed_Cons apfst_def map_prod_def split_beta)

lemma observed_fields: "observed (map (\<lambda>c. OnHeaderField [c]) s) r = ([], r\<lparr>currentHeaderName := currentHeaderName r @ s\<rparr>)"
  by (induction s arbitrary: r) (simp_all add: observed_Cons)

lemma observed_values: "observed (map (\<lambda>c. OnHeaderValue [c]) s) r = ([], r\<lparr>currentHeaderValue := currentHeaderValue r @ s\<rparr>)"
  by (induction s arbitrary: r) (simp_all add: observed_Cons)

lemma observed_data: "observed (map (\<lambda>c. OnPartData [c]) s) r = (map (\<lambda>c. Part_data [c]) s, r)"
  by (induction s arbitrary: r) (simp_all add: observed_Cons)

lemmas observed_simps = observed_Cons observed_append observed_fields observed_values observed_data comp_def

lemma observed_flat: "observed (map unflat (flat e)) r = observed [e] r"
  by (cases e) (simp_all add: observed_simps)

lemma observed_flat_all: "observed es r = observed (map unflat (concat (map flat es))) r"
proof (induction es arbitrary: r)
  case (Cons e es)
  then show ?case using observed_append [of "[e]" es r] by (simp add: observed_append observed_flat)
qed simp

lemma observed_headers:
  "currentHeaderName r = [] \<Longrightarrow> currentHeaderValue r = [] \<Longrightarrow>
     observed (map unflat (concat (map header_out hs))) r = ([], r\<lparr>currentHeaders := fold (\<lambda>(k, v). multimap_emplace k v) hs (currentHeaders r)\<rparr>)"
  by (induction hs arbitrary: r) (auto simp: observed_simps header_out_def)

lemma observed_part:
  "observed (map unflat (part_out p)) multipart_reader_new =
     (Part_begin (multimap_of (fst p)) # map (\<lambda>c. Part_data [c]) (snd p) @ [Part_end], multipart_reader_new)"
  by (simp add: part_out_def observed_simps observed_headers multipart_reader_new_def multimap_of_def)

lemma observed_parts:
  "observed (map unflat (parts_out ps)) multipart_reader_new =
     (concat (map (\<lambda>p. Part_begin (multimap_of (fst p)) # map (\<lambda>c. Part_data [c]) (snd p) @ [Part_end]) ps) @ [All_end], multipart_reader_new)"
  by (induction ps) (simp_all add: observed_Cons observed_append observed_part)

text \<open>
  (C12) A printed multipart body is read back exactly, however it is cut into pieces: the parser ends in its final state, and the
  reader reports for every part its headers, grouped by name with the values of one name in their order, then exactly the
  data of the part and its end, and at last the end of the body. The data may be any text that does not contain the boundary,
  including partial boundaries and overlaps with it.
\<close>

theorem reader_roundtrip:
  assumes "boundary_ok b" "part_ok b p" "\<forall>p \<in> set ps. part_ok b p" "concat bufs = print_body b (p # ps)"
  shows "\<exists>ev q. feed_all bufs (set_boundary fresh b) = Some (ev, q) \<and> succeeded q \<and>
    concat (map pieces (fst (reader_run ev multipart_reader_new))) =
      concat (map (\<lambda>p. Part_begin (multimap_of (fst p)) # map (\<lambda>c. Part_data [c]) (snd p) @ [Part_end]) (p # ps)) @ [All_end] \<and>
    (\<forall>n. filter (\<lambda>e. fst e = n) (multimap_of (fst p)) = filter (\<lambda>e. fst e = n) (fst p))"
proof -
  obtain ev q where r: "feed_all bufs (set_boundary fresh b) = Some (ev, q)" "succeeded q" "concat (map flat ev) = parts_out (p # ps)"
    using multipart_roundtrip [OF assms] by blast
  have "fst (observed ev multipart_reader_new) = fst (observed (map unflat (parts_out (p # ps))) multipart_reader_new)"
    by (subst observed_flat_all) (simp only: r(3))
  then show ?thesis using r(1,2) by (simp only: observed_parts) (simp add: observed_def multimap_of_values)
qed

theorem reader_roundtrip_witness:
  "\<exists>ev q. feed_all [''--B'' @ crlf @ ''a: '', ''b'' @ crlf @ crlf @ ''x'' @ crlf, ''--B--''] (set_boundary [] (crlf @ ''--B'')) = Some (ev, q) \<and> succeeded q \<and>
    concat (map pieces (fst (reader_run ev multipart_reader_new))) = [Part_begin [(''a'', ''b'')], Part_data ''x'', Part_end, All_end]"
proof -
  have "boundary_ok (crlf @ ''--B'')" by (simp add: boundary_ok_def)
  moreover have "part_ok (crlf @ ''--B'') ([(''a'', ''b'')], ''x'')"
    by (simp add: part_ok_def name_ok_def value_ok_def lower_def uchar_def sublist_code)
  moreover have "concat [''--B'' @ crlf @ ''a: '', ''b'' @ crlf @ crlf @ ''x'' @ crlf, ''--B--''] = print_body (crlf @ ''--B'') [([(''a'', ''b'')], ''x'')]"
    by (simp add: print_body_def print_part_def print_header_def)
  ultimately show ?thesis
    using reader_roundtrip [of "crlf @ ''--B''" "([(''a'', ''b'')], ''x'')" "[]" "[''--B'' @ crlf @ ''a: '', ''b'' @ crlf @ crlf @ ''x'' @ crlf, ''--B--'']" "[]"]
    by (simp add: multimap_of_def multimap_emplace_def del: feed_all.simps)
qed

section \<open>Malformed bodies\<close>

text \<open>
  What the parser does on three bodies that no printer makes. The part flag survives a boundary followed by a carriage
  return that is not a line break, so that the closing boundary is missed. A header line without a colon ends the headers with
  a match position different from 0, so that bytes of the lookbehind buffer that were never written are reported as data; and
  when such a line is cut, the first piece stays in front of the next header name.
\<close>

lemma part_flag_survives:
  "map_option (\<lambda>(ev, q). (ev, mp_st q)) (feed_all [''--B'' @ crlf @ crlf @ ''d'' @ crlf @ ''--B'' @ CR # ''X'' @ crlf @ ''--B--''] (set_boundary [] (crlf @ ''--B'')))
     = Some ([OnPartBegin, OnHeadersEnd, OnPartData ''d'', OnPartData (crlf @ ''--B'' @ [CR]), OnPartData ''X'', OnPartData (crlf @ ''--B-''), OnPartData ''-''], PART_DATA)"
  by code_simp

lemma lookbehind_leak:
  "map_option fst (feed_all [''--B'' @ crlf @ ''ab'' @ crlf @ ''y''] (set_boundary ''SECRET'' (crlf @ ''--B'')))
     = Some [OnPartBegin, OnHeadersEnd, OnPartData ''SE'', OnPartData ''y'']"
  by code_simp

lemma name_fragment:
  "map_option fst (feed_all [''--B'' @ crlf @ ''ab'', ''c'' @ crlf] (set_boundary [] (crlf @ ''--B'')))
     = Some [OnPartBegin, OnHeaderField ''ab'', OnHeadersEnd]"
  by code_simp

end
