(* ===== verification/Response.thy ===== *)
theory Response
  imports Pico_Roundtrip Itoa Chunked Text_Utils
begin

text \<open>
  Responses: the status table (\<^verbatim>\<open>include/netcore/response_cv.hpp\<close>), cookies (\<^verbatim>\<open>cookie.hpp\<close>) and the class \<^verbatim>\<open>response\<close>
  (\<^verbatim>\<open>response.hpp\<close>), which prints status, headers and content into one string. The functions of the C library that format
  a time are arguments: \<open>strftime_local\<close> takes a clock value, \<open>gmt_time_str\<close> a time in seconds.

  The main result relates the writer of the server to the reader of the client: \<open>phr_parse_response\<close> finds in a
  built response the status code, every header and the content.
\<close>

section \<open>Status\<close>

datatype status_type = status_init | switching_protocols | status_ok | created | accepted | no_content | partial_content
  | multiple_choices | moved_permanently | moved_temporarily | not_modified | temporary_redirect | bad_request | unauthorized
  | forbidden | not_found | internal_server_error | not_implemented | bad_gateway | service_unavailable

fun status_code :: "status_type \<Rightarrow> nat" where
  "status_code status_init = 0"
| "status_code switching_protocols = 101"
| "status_code status_ok = 200"
| "status_code created = 201"
| "status_code accepted = 202"
| "status_code no_content = 204"
| "status_code partial_content = 206"
| "status_code multiple_choices = 300"
| "status_code moved_permanently = 301"
| "status_code moved_temporarily = 302"
| "status_code not_modified = 304"
| "status_code temporary_redirect = 307"
| "status_code bad_request = 400"
| "status_code unauthorized = 401"
| "status_code forbidden = 403"
| "status_code not_found = 404"
| "status_code internal_server_error = 500"
| "status_code not_implemented = 501"
| "status_code bad_gateway = 502"
| "status_code service_unavailable = 503"

definition rep_ok :: string where "rep_ok = ''HTTP/1.1 200 OK'' @ crlf"
definition rep_created :: string where "rep_created = ''HTTP/1.1 201 Created'' @ crlf"
definition rep_accepted :: string where "rep_accepted = ''HTTP/1.1 202 Accepted'' @ crlf"
definition rep_partial_content :: string where "rep_partial_content = ''HTTP/1.1 206 Partial Content'' @ crlf"
definition rep_not_implemented :: string where "rep_not_implemented = ''HTTP/1.1 501 Not Implemented'' @ crlf"
definition rep_internal_server_error :: string where "rep_internal_server_error = ''HTTP/1.1 500 Internal Server Error'' @ crlf"

fun to_rep_string :: "status_type \<Rightarrow> string" where
  "to_rep_string switching_protocols = ''HTTP/1.1 101 Switching Protocals'' @ crlf"
| "to_rep_string status_ok = rep_ok"
| "to_rep_string created = rep_created"
| "to_rep_string accepted = rep_accepted"
| "to_rep_string no_content = ''HTTP/1.1 204 No Content'' @ crlf"
| "to_rep_string partial_content = rep_partial_content"
| "to_rep_string multiple_choices = ''HTTP/1.1 300 Multiple Choices'' @ crlf"
| "to_rep_string moved_permanently = ''HTTP/1.1 301 Moved Permanently'' @ crlf"
| "to_rep_string moved_temporarily = ''HTTP/1.1 302 Moved Temporarily'' @ crlf"
| "to_rep_string not_modified = ''HTTP/1.1 304 Not Modified'' @ crlf"
| "to_rep_string temporary_redirect = ''HTTP/1.1 307 Temporary Redirect'' @ crlf"
| "to_rep_string bad_request = ''HTTP/1.1 400 Bad Request'' @ crlf"
| "to_rep_string unauthorized = ''HTTP/1.1 401 Unauthorized'' @ crlf"
| "to_rep_string forbidden = ''HTTP/1.1 403 Forbidden'' @ crlf"
| "to_rep_string not_found = ''HTTP/1.1 404 Not Found'' @ crlf"
| "to_rep_string internal_server_error = rep_internal_server_error"
| "to_rep_string not_implemented = rep_not_implemented"
| "to_rep_string bad_gateway = ''HTTP/1.1 502 Bad Gateway'' @ crlf"
| "to_rep_string service_unavailable = ''HTTP/1.1 503 Service Unavailable'' @ crlf"
| "to_rep_string status_init = rep_not_implemented"

text \<open>\<^verbatim>\<open>to_buffer\<close> returns the same lines, except for \<open>accepted\<close>, which is cut to the length of another line, and for an unknown status.\<close>

definition to_buffer :: "status_type \<Rightarrow> string" where
  "to_buffer status =
     (if status = accepted then take (length rep_created) rep_accepted
      else if status = status_init then rep_internal_server_error else to_rep_string status)"

definition html_page :: "string \<Rightarrow> string \<Rightarrow> string" where
  "html_page title text = ''<html><head><title>'' @ title @ ''</title></head><body><h1>'' @ text @ ''</h1></body></html>''"

fun to_string :: "status_type \<Rightarrow> string" where
  "to_string status_ok = ''OK''"
| "to_string created = html_page ''Created'' ''201 Created''"
| "to_string accepted = html_page ''Accepted'' ''202 Accepted''"
| "to_string no_content = html_page ''No Content'' ''204 Content''"
| "to_string multiple_choices = html_page ''Multiple Choices'' ''300 Multiple Choices''"
| "to_string moved_permanently = html_page ''Moved Permanently'' ''301 Moved Permanently''"
| "to_string moved_temporarily = html_page ''Moved Temporarily'' ''302 Moved Temporarily''"
| "to_string temporary_redirect = html_page ''Temporary Redirect'' ''307 Temporary Redirect''"
| "to_string not_modified = html_page ''Not Modified'' ''304 Not Modified''"
| "to_string bad_request = html_page ''Bad Request'' ''400 Bad Request''"
| "to_string unauthorized = html_page ''Unauthorized'' ''401 Unauthorized''"
| "to_string forbidden = html_page ''Forbidden'' ''403 Forbidden''"
| "to_string not_found = html_page ''Not Found'' ''404 Not Found''"
| "to_string not_implemented = html_page ''Not Implemented'' ''501 Not Implemented''"
| "to_string bad_gateway = html_page ''Bad Gateway'' ''502 Bad Gateway''"
| "to_string service_unavailable = html_page ''Service Unavailable'' ''503 Service Unavailable''"
| "to_string _ = html_page ''Internal Server Error'' ''500 Internal Server Error''"

lemmas rep_lines = rep_ok_def rep_created_def rep_accepted_def rep_partial_content_def rep_not_implemented_def rep_internal_server_error_def

section \<open>Fixed header lines\<close>

definition rep_html :: string where "rep_html = ''Content-Type: text/html; charset=UTF-8'' @ crlf"
definition rep_json :: string where "rep_json = ''Content-Type: application/json; charset=UTF-8'' @ crlf"
definition rep_string :: string where "rep_string = ''Content-Type: text/plain; charset=UTF-8'' @ crlf"
definition rep_multipart :: string where "rep_multipart = ''Content-Type: multipart/form-data; boundary=''"
definition rep_server :: string where "rep_server = ''Server: netcore'' @ crlf"

fun to_content_type_str :: "req_content_type \<Rightarrow> string" where
  "to_content_type_str html = rep_html"
| "to_content_type_str json = rep_json"
| "to_content_type_str content_string = rep_string"
| "to_content_type_str multipart = rep_multipart"
| "to_content_type_str no_content_type = []"

definition get_content_type :: "req_content_type \<Rightarrow> string" where
  "get_content_type type = to_content_type_str type"

text \<open>The digits of a number at compile time: \<^verbatim>\<open>num_to_string<n>\<close> is \<^verbatim>\<open>explode<n / 10, n % 10>\<close>.\<close>

fun explode :: "nat \<Rightarrow> string \<Rightarrow> string" where
  "explode rem ds = (if rem = 0 then ds else explode (rem div 10) (char_of (48 + rem mod 10) # ds))"

declare explode.simps [simp del]

definition num_to_string :: "nat \<Rightarrow> string" where
  "num_to_string num = ''Content-Length: '' @ explode (num div 10) [char_of (48 + num mod 10)] @ crlf"

section \<open>Cookies\<close>

record cookie =
  version :: int
  ck_name :: string
  ck_value :: string
  comment :: string
  domain :: string
  ck_path :: string
  priority :: string
  secure :: bool
  max_age :: int
  http_only :: bool

definition cookie_new :: "string \<Rightarrow> string \<Rightarrow> cookie" where
  "cookie_new n v = \<lparr>version = 0, ck_name = n, ck_value = v, comment = [], domain = [], ck_path = [], priority = [], secure = False,
     max_age = - 1, http_only = False\<rparr>"

definition opt_str :: "string \<Rightarrow> string \<Rightarrow> string \<Rightarrow> string" where
  "opt_str pre s post = (if s \<noteq> [] then pre @ s @ post else [])"

abbreviation dquote :: char where "dquote \<equiv> CHR 0x22"

definition cookie_to_string :: "(int \<Rightarrow> string) \<Rightarrow> cookie \<Rightarrow> string" where
  "cookie_to_string gmt_time_str ck =
     ck_name ck @ ''='' @
     (if version ck = 0 then
        ck_value ck @ opt_str ''; path='' (ck_path ck) [] @ opt_str ''; Priority='' (priority ck) [] @
        (if max_age ck \<noteq> - 1 then ''; expires='' @ gmt_time_str (max_age ck) else []) @
        (if secure ck then ''; secure'' else []) @ (if http_only ck then ''; HttpOnly'' else [])
      else
        dquote # ck_value ck @ dquote # opt_str (''; Comment='' @ [dquote]) (comment ck) [dquote] @
        opt_str (''; Path='' @ [dquote]) (ck_path ck) [dquote] @ opt_str (''; Priority='' @ [dquote]) (priority ck) [dquote] @
        (if max_age ck \<noteq> - 1 then ''; Max-Age='' @ dquote # dec_int (max_age ck) @ [dquote] else []) @
        (if secure ck then ''; secure'' else []) @ (if http_only ck then ''; HttpOnly'' else []) @
        ''; Version='' @ [dquote] @ ''1'' @ [dquote])"

section \<open>The class\<close>

record response =
  res_headers :: "(string \<times> string) list"
  content :: string
  status :: status_type
  proc_continue :: bool
  delay :: bool
  rep_str :: string
  last_time :: int
  last_date_str :: string
  res_type :: req_content_type
  res_keep_alive :: bool
  need_response_time :: bool
  cookie_sh_ptr :: "cookie option"
  req_headers :: "(string \<times> string) list"

text \<open>The last field stands for \<^verbatim>\<open>req_headers_\<close>: views of the headers of the request, of which only a function that nothing calls makes use. It holds what they show when they are set.\<close>

text \<open>\<^verbatim>\<open>res_type_\<close> has no initialiser: a new response has an arbitrary one.\<close>

definition response_new :: "int \<Rightarrow> req_content_type \<Rightarrow> response" where
  "response_new now garbage = \<lparr>res_headers = [], content = [], status = status_init, proc_continue = True, delay = False, rep_str = [],
     last_time = now, last_date_str = [], res_type = garbage, res_keep_alive = False, need_response_time = False, cookie_sh_ptr = None, req_headers = []\<rparr>"

text \<open>Clock values are nanoseconds.\<close>

definition append_date_time :: "(int \<Rightarrow> string) \<Rightarrow> int \<Rightarrow> response \<Rightarrow> response" where
  "append_date_time strftime_local t r =
     (if 1000000000 < t - last_time r then
        r\<lparr>last_date_str := strftime_local t, rep_str := rep_str r @ ''Date: '' @ strftime_local t @ crlf @ crlf, last_time := t\<rparr>
      else r\<lparr>rep_str := rep_str r @ ''Date: '' @ last_date_str r @ crlf @ crlf\<rparr>)"

definition enable_response_time :: "(int \<Rightarrow> string) \<Rightarrow> bool \<Rightarrow> response \<Rightarrow> response" where
  "enable_response_time strftime_local en r =
     (let r = r\<lparr>need_response_time := en\<rparr>
      in if en then r\<lparr>last_date_str := strftime_local (last_time r)\<rparr> else r)"

record time_lib =
  strftime_local :: "int \<Rightarrow> string"
  gmt_time_str :: "int \<Rightarrow> string"
  clock_now :: int

text \<open>
  \<open>None\<close> would be a conversion of the length that does not return; \<^verbatim>\<open>(int)content_.size()\<close> keeps the low 32 bits. The content is moved
  into the printed string.
\<close>

definition build_response_str :: "time_lib \<Rightarrow> response \<Rightarrow> response option" where
  "build_response_str T r =
     map_option (\<lambda>temp.
       (let s = to_rep_string (status r) @ concat (map (\<lambda>h. fst h @ '':'' @ snd h @ crlf) (res_headers r)) @
              ''Content-Length: '' @ temp @ crlf @
              (if res_type r \<noteq> no_content_type then get_content_type (res_type r) else []) @ ''Server: netcore'' @ crlf @
              (case cookie_sh_ptr r of None \<Rightarrow> [] | Some ck \<Rightarrow> ''Set-Cookie: '' @ cookie_to_string (gmt_time_str T) ck @ crlf);
            r1 = r\<lparr>rep_str := s, res_headers := []\<rparr>;
            r2 = (if need_response_time r then append_date_time (strftime_local T) (clock_now T) r1 else r1\<lparr>rep_str := s @ crlf\<rparr>)
        in r2\<lparr>rep_str := rep_str r2 @ content r, content := []\<rparr>))
     (itoa_fwd (of_nat (length (content r))))"

definition add_header :: "string \<Rightarrow> string \<Rightarrow> response \<Rightarrow> response" where
  "add_header key val r = r\<lparr>res_headers := res_headers r @ [(key, val)]\<rparr>"

definition set_content :: "string \<Rightarrow> response \<Rightarrow> response" where
  "set_content c r = r\<lparr>content := c\<rparr>"

definition set_status_and_content_default :: "time_lib \<Rightarrow> status_type \<Rightarrow> response \<Rightarrow> response option" where
  "set_status_and_content_default T st r = build_response_str T (set_content (to_string st) (r\<lparr>status := st\<rparr>))"

definition set_status_and_content :: "time_lib \<Rightarrow> status_type \<Rightarrow> string \<Rightarrow> req_content_type \<Rightarrow> response \<Rightarrow> response option" where
  "set_status_and_content T st c rt r = build_response_str T (set_content c (r\<lparr>status := st, res_type := rt\<rparr>))"

text \<open>The compile-time variant appends to what is there.\<close>

definition set_status_and_content_static :: "time_lib \<Rightarrow> status_type \<Rightarrow> req_content_type \<Rightarrow> string \<Rightarrow> response \<Rightarrow> response" where
  "set_status_and_content_static T st ct c r =
     (let r1 = r\<lparr>rep_str := rep_str r @ to_rep_string st @ num_to_string (length c) @ to_content_type_str ct @ rep_server\<rparr>;
          r2 = (if need_response_time r then append_date_time (strftime_local T) (clock_now T) r1
                else r1\<lparr>rep_str := rep_str r1 @ crlf\<rparr>)
      in r2\<lparr>rep_str := rep_str r2 @ c\<rparr>)"

definition res_reset :: "response \<Rightarrow> response" where
  "res_reset r =
     (let r = (if res_headers r = [] then r\<lparr>rep_str := []\<rparr> else r)
      in r\<lparr>res_type := no_content_type, status := status_init, proc_continue := True, delay := False, res_headers := [], content := [],
           res_keep_alive := False, cookie_sh_ptr := None\<rparr>)"

definition set_headers :: "(string \<times> string) list \<Rightarrow> response \<Rightarrow> response" where
  "set_headers headers r = r\<lparr>req_headers := headers\<rparr>"

definition set_chunked :: "response \<Rightarrow> response" where
  "set_chunked r = add_header ''Transfer-Encoding'' ''chunked'' r"

definition render_string :: "time_lib \<Rightarrow> string \<Rightarrow> response \<Rightarrow> response option" where
  "render_string T c r = set_status_and_content T status_ok c content_string r"

definition redirect :: "time_lib \<Rightarrow> string \<Rightarrow> bool \<Rightarrow> response \<Rightarrow> response option" where
  "redirect T url is_forever r =
     (let r = add_header ''Location'' url r
      in if \<not> is_forever then set_status_and_content_default T moved_temporarily r
         else set_status_and_content_default T moved_permanently r)"

definition redirect_post :: "time_lib \<Rightarrow> string \<Rightarrow> response \<Rightarrow> response option" where
  "redirect_post T url r = set_status_and_content_default T temporary_redirect (add_header ''Location'' url r)"

text \<open>\<open>expire_time\<close> is 64 bits wide and \<^verbatim>\<open>expire_time == -1\<close> compares with its largest value.\<close>

definition create_session :: "int \<Rightarrow> string \<Rightarrow> 64 word \<Rightarrow> response \<Rightarrow> response" where
  "create_session now uuid expire_time r =
     (let time_stamp = expire_time + word_of_int now;
          ck = cookie_new ''CSESSIONID'' uuid
      in r\<lparr>cookie_sh_ptr := Some (ck\<lparr>domain := [], max_age := (if expire_time = - 1 then - 1 else sint time_stamp), ck_path := ''/'', version := 0\<rparr>)\<rparr>)"

section \<open>What the client reads\<close>

text \<open>The header fields of a built response, in order, with the white space after the colon.\<close>

definition type_fields :: "req_content_type \<Rightarrow> (string \<times> string \<times> string) list" where
  "type_fields rt =
     (case rt of
        html \<Rightarrow> [(''Content-Type'', '' '', ''text/html; charset=UTF-8''), (''Server'', '' '', ''netcore'')]
      | json \<Rightarrow> [(''Content-Type'', '' '', ''application/json; charset=UTF-8''), (''Server'', '' '', ''netcore'')]
      | content_string \<Rightarrow> [(''Content-Type'', '' '', ''text/plain; charset=UTF-8''), (''Server'', '' '', ''netcore'')]
      | multipart \<Rightarrow> [(''Content-Type'', '' '', ''multipart/form-data; boundary=Server: netcore'')]
      | no_content_type \<Rightarrow> [(''Server'', '' '', ''netcore'')])"

definition date_of :: "time_lib \<Rightarrow> response \<Rightarrow> string" where
  "date_of T r = (if 1000000000 < clock_now T - last_time r then strftime_local T (clock_now T) else last_date_str r)"

definition response_fields :: "time_lib \<Rightarrow> response \<Rightarrow> (string \<times> string \<times> string) list" where
  "response_fields T r =
     map (\<lambda>h. (fst h, [], snd h)) (res_headers r) @
     [(''Content-Length'', '' '', dec_int (sint (of_nat (length (content r)) :: 32 word)))] @ type_fields (res_type r) @
     (case cookie_sh_ptr r of None \<Rightarrow> [] | Some ck \<Rightarrow> [(''Set-Cookie'', '' '', cookie_to_string (gmt_time_str T) ck)]) @
     (if need_response_time r then [(''Date'', '' '', date_of T r)] else [])"

definition reason :: "status_type \<Rightarrow> string" where
  "reason st = drop 13 (butlast (butlast (to_rep_string st)))"

definition wire_code :: "status_type \<Rightarrow> nat" where
  "wire_code st = (if st = status_init then 501 else status_code st)"

lemma to_rep_string_line:
  "to_rep_string st @ concat (map print_field fs) @ crlf = print_response (wire_code st) (reason st) fs"
proof -
  have "to_rep_string st = ''HTTP/1.1 '' @
      [char_of (48 + wire_code st div 100), char_of (48 + wire_code st div 10 mod 10), char_of (48 + wire_code st mod 10)] @ SP # reason st @ crlf"
    by (induction st; code_simp)
  then show ?thesis by (simp add: print_response_def)
qed

lemma reason_plain: "\<forall>c \<in> set (reason st). \<not> eol_ctl c"
  by (cases st) (simp_all add: reason_def rep_lines eol_ctl_def uchar_def)

lemma build_response_str_wire:
  "\<exists>r'. build_response_str T r = Some r' \<and>
     rep_str r' = print_response (wire_code (status r)) (reason (status r)) (response_fields T r) @ content r \<and>
     res_headers r' = [] \<and> content r' = [] \<and> status r' = status r"
proof -
  have t: "(if rt \<noteq> no_content_type then get_content_type rt else []) @ ''Server: netcore'' @ crlf = concat (map print_field (type_fields rt))" for rt
    by (cases rt) (simp_all add: get_content_type_def rep_html_def rep_json_def rep_string_def rep_multipart_def type_fields_def print_field_def)
  show ?thesis
    unfolding to_rep_string_line [symmetric] build_response_str_def itoa_fwd_def itoa4_signed_spec
    by (auto simp: response_fields_def comp_def t [symmetric] print_field_def append_date_time_def date_of_def Let_def split: option.splits)
qed

lemma uchar_ascii: "d < 10 \<Longrightarrow> uchar (ascii d) = 48 + d"
  by (simp add: ascii_def)

lemma dec_digits: "c \<in> set (dec n) \<Longrightarrow> 48 \<le> uchar c \<and> uchar c \<le> 57"
  by (induction n rule: dec.induct) (subst (asm) dec.simps, auto simp: uchar_ascii split: if_splits)

lemma dec_int_value: "value_ok (dec_int z)"
proof -
  have "\<not> eol_ctl c \<and> c \<noteq> SP \<and> c \<noteq> TAB" if "c \<in> set (dec_int z)" for c
  proof -
    have "c = CHR ''-'' \<or> 48 \<le> uchar c \<and> uchar c \<le> 57" using that dec_digits by (auto simp: dec_int_def split: if_splits)
    then show ?thesis by (auto simp: eol_ctl_def uchar_def)
  qed
  then show ?thesis by (auto simp: value_ok_def)
qed

lemma fixed_names:
  "\<forall>c \<in> set ''Content-Length''. name_char c" "\<forall>c \<in> set ''Content-Type''. name_char c" "\<forall>c \<in> set ''Server''. name_char c"
  "\<forall>c \<in> set ''Set-Cookie''. name_char c" "\<forall>c \<in> set ''Date''. name_char c"
  by code_simp+

lemma type_fields_ok: "\<forall>f \<in> set (type_fields rt). field_ok f"
  using fixed_names(2,3) by (cases rt) (simp_all add: type_fields_def field_ok_def header_ok_def value_ok_def eol_ctl_def uchar_def)

definition wire_ok :: "time_lib \<Rightarrow> response \<Rightarrow> bool" where
  "wire_ok T r \<longleftrightarrow> (\<forall>h \<in> set (res_headers r). header_ok h) \<and> (case cookie_sh_ptr r of None \<Rightarrow> True | Some ck \<Rightarrow> value_ok (cookie_to_string (gmt_time_str T) ck)) \<and>
     (need_response_time r \<longrightarrow> value_ok (date_of T r))"

lemma response_fields_ok: "wire_ok T r \<Longrightarrow> \<forall>f \<in> set (response_fields T r). field_ok f"
  using type_fields_ok [of "res_type r"] fixed_names(1,4,5) dec_int_value
  by (auto simp: wire_ok_def response_fields_def field_ok_def header_ok_def split: option.splits)

lemma wire_code_less: "wire_code st < 1000"
  by (cases st) (simp_all add: wire_code_def)

text \<open>
  (C11) What the server prints the client reads: for every status, any content and any content type, if the headers of the user are well formed and the texts of the cookie and the date
  are header values (\<open>wire_ok\<close>) and the client has room for the fields, building the response succeeds, and the parser of the client finds exactly the status code, the reason, the
  header fields (those of the user, the length, as a 32-bit number in decimal, the content type, the server, the cookie and the date, in this order) and, after the head, the content.
\<close>

theorem response_client_roundtrip:
  assumes "wire_ok T r" "length (response_fields T r) \<le> mx"
  shows "\<exists>r' out n. build_response_str T r = Some r' \<and> phr_parse_response (rep_str r') mx 0 = (out, Ok n) \<and>
    resp_status out = int (wire_code (status r)) \<and> subrange (rep_str r') (the (resp_msg out)) (resp_msg_len out) = reason (status r) \<and>
    map (header_strings (rep_str r')) (resp_headers out) = map (\<lambda>(name, ws, val). (name, val)) (response_fields T r) \<and>
    drop n (rep_str r') = content r \<and> res_headers r' = [] \<and> content r' = []"
proof -
  obtain r' where r': "build_response_str T r = Some r'" "res_headers r' = []" "content r' = []"
    "rep_str r' = print_response (wire_code (status r)) (reason (status r)) (response_fields T r) @ content r"
    using build_response_str_wire by blast
  from phr_parse_response_print [OF wire_code_less reason_plain response_fields_ok [OF assms(1)] assms(2) r'(4)] r'
  show ?thesis by auto
qed

theorem response_client_roundtrip_witness:
  "\<exists>r' out n. build_response_str \<lparr>strftime_local = \<lambda>_. ''now'', gmt_time_str = \<lambda>_. ''then'', clock_now = 0\<rparr>
       ((response_new 0 json)\<lparr>res_headers := [(''Location'', ''/x'')], content := ''moved'', status := moved_temporarily\<rparr>) = Some r' \<and>
     phr_parse_response (rep_str r') 64 0 = (out, Ok n) \<and> resp_status out = 302 \<and>
     subrange (rep_str r') (the (resp_msg out)) (resp_msg_len out) = reason moved_temporarily \<and> drop n (rep_str r') = ''moved''"
proof -
  let ?T = "\<lparr>strftime_local = \<lambda>_. ''now'', gmt_time_str = \<lambda>_. ''then'', clock_now = 0\<rparr>"
  let ?r = "(response_new 0 json)\<lparr>res_headers := [(''Location'', ''/x'')], content := ''moved'', status := moved_temporarily\<rparr>"
  have "\<forall>c \<in> set ''Location''. name_char c" by code_simp
  then have "wire_ok ?T ?r" by (simp add: wire_ok_def response_new_def header_ok_def value_ok_def eol_ctl_def uchar_def)
  moreover have "length (response_fields ?T ?r) \<le> 64" by (simp add: response_fields_def response_new_def type_fields_def)
  ultimately show ?thesis using response_client_roundtrip [of ?T ?r 64] by (fastforce simp: wire_code_def response_new_def)
qed

text \<open>From two gigabytes on the length is printed as a negative number.\<close>

lemma content_length_negative:
  assumes "2 ^ 31 \<le> n" "n < 2 ^ 32"
  shows "hd (dec_int (sint (of_nat n :: 32 word))) = CHR ''-''"
proof -
  have "int n div 2 ^ 31 = 1" using assms by (intro int_div_pos_eq [where r = "int n - 2 ^ 31"]) auto
  then have "sint (of_nat n :: 32 word) < 0" by (simp add: signed_of_nat signed_take_bit_negative_iff bit_iff_odd)
  then show ?thesis by (simp add: dec_int_def)
qed

lemma explode_dec: "explode n ds = (if n = 0 then ds else dec n @ ds)"
  by (induction n ds rule: explode.induct) (subst explode.simps, subst dec.simps, auto simp: ascii_def)

lemma num_to_string_dec: "num_to_string n = ''Content-Length: '' @ dec n @ crlf"
  by (subst dec.simps) (auto simp: num_to_string_def explode_dec ascii_def)

text \<open>The buffer interface cuts the line feed off the status line of \<open>accepted\<close>.\<close>

lemma to_buffer_accepted: "to_buffer accepted = ''HTTP/1.1 202 Accepted'' @ [CR]"
  by (simp add: to_buffer_def rep_lines)

end
