(* ===== verification/Ordered_Map.thy ===== *)
theory Ordered_Map
  imports Netcore_Prelude "HOL-Library.List_Lexorder" "HOL-Library.Char_ord"
begin

text \<open>
  \<^verbatim>\<open>std::map\<close> as the program uses it: entries ordered by a comparison, which is an argument as in C++. A lookup and an insertion compare
  only with \<^verbatim>\<open>less\<close>, so keys are equal when neither is less than the other. What a client of the container relies on is the locale
  \<open>strict_weak_order\<close>; it is interpreted on the comparison of strings here and on the comparison without case with the
  type table.
\<close>

section \<open>Operations\<close>

fun map_lookup :: "('k \<Rightarrow> 'k \<Rightarrow> bool) \<Rightarrow> 'k \<Rightarrow> ('k \<times> 'v) list \<Rightarrow> 'v option" where
  "map_lookup lt k [] = None"
| "map_lookup lt k ((k', v') # m) = (if lt k k' then None else if lt k' k then map_lookup lt k m else Some v')"

text \<open>\<^verbatim>\<open>emplace\<close> keeps an entry that is there, \<^verbatim>\<open>operator[]\<close> followed by an assignment replaces its value.\<close>

fun map_emplace :: "('k \<Rightarrow> 'k \<Rightarrow> bool) \<Rightarrow> 'k \<Rightarrow> 'v \<Rightarrow> ('k \<times> 'v) list \<Rightarrow> ('k \<times> 'v) list" where
  "map_emplace lt k v [] = [(k, v)]"
| "map_emplace lt k v ((k', v') # m) =
     (if lt k k' then (k, v) # (k', v') # m
      else if lt k' k then (k', v') # map_emplace lt k v m
      else (k', v') # m)"

fun map_assign :: "('k \<Rightarrow> 'k \<Rightarrow> bool) \<Rightarrow> 'k \<Rightarrow> 'v \<Rightarrow> ('k \<times> 'v) list \<Rightarrow> ('k \<times> 'v) list" where
  "map_assign lt k v [] = [(k, v)]"
| "map_assign lt k v ((k', v') # m) =
     (if lt k k' then (k, v) # (k', v') # m
      else if lt k' k then (k', v') # map_assign lt k v m
      else (k', v) # m)"

definition map_of_list :: "('k \<Rightarrow> 'k \<Rightarrow> bool) \<Rightarrow> ('k \<times> 'v) list \<Rightarrow> ('k \<times> 'v) list" where
  "map_of_list lt xs = fold (\<lambda>(k, v). map_emplace lt k v) xs []"

definition equivalent :: "('k \<Rightarrow> 'k \<Rightarrow> bool) \<Rightarrow> 'k \<Rightarrow> 'k \<Rightarrow> bool" where
  "equivalent lt j k \<longleftrightarrow> \<not> lt j k \<and> \<not> lt k j"

definition map_sorted :: "('k \<Rightarrow> 'k \<Rightarrow> bool) \<Rightarrow> ('k \<times> 'v) list \<Rightarrow> bool" where
  "map_sorted lt m \<longleftrightarrow> sorted_wrt lt (map fst m)"

section \<open>Laws\<close>

locale strict_weak_order =
  fixes lt :: "'k \<Rightarrow> 'k \<Rightarrow> bool"
  assumes irrefl: "\<not> lt k k"
    and trans: "lt i j \<Longrightarrow> lt j k \<Longrightarrow> lt i k"
    and incomparable: "equivalent lt i j \<Longrightarrow> equivalent lt j k \<Longrightarrow> equivalent lt i k"
begin

lemma asym: "lt i j \<Longrightarrow> \<not> lt j i"
  using irrefl trans by blast

lemma equivalent_less: "equivalent lt j k \<Longrightarrow> lt j i \<longleftrightarrow> lt k i" "equivalent lt j k \<Longrightarrow> lt i j \<longleftrightarrow> lt i k"
  using irrefl trans incomparable unfolding equivalent_def by metis+

lemma emplace_keys: "e \<in> set (map_emplace lt k v m) \<Longrightarrow> fst e = k \<or> fst e \<in> fst ` set m"
  by (induction m) (auto split: if_splits)

lemma assign_keys: "e \<in> set (map_assign lt k v m) \<Longrightarrow> fst e = k \<or> fst e \<in> fst ` set m"
  by (induction m) (auto split: if_splits)

lemma emplace_sorted: "map_sorted lt m \<Longrightarrow> map_sorted lt (map_emplace lt k v m)"
proof (induction m)
  case (Cons e m)
  obtain k' v' where e: "e = (k', v')" by fastforce
  show ?case
  proof (cases "lt k' k \<and> \<not> lt k k'")
    case True
    then have "\<forall>j \<in> fst ` set (map_emplace lt k v m). lt k' j"
      using Cons.prems e by (force simp: map_sorted_def dest: emplace_keys)
    then show ?thesis using Cons True e by (simp add: map_sorted_def)
  next
    case False
    then show ?thesis using Cons.prems e trans by (auto simp: map_sorted_def)
  qed
qed (simp add: map_sorted_def)

lemma assign_sorted: "map_sorted lt m \<Longrightarrow> map_sorted lt (map_assign lt k v m)"
proof (induction m)
  case (Cons e m)
  obtain k' v' where e: "e = (k', v')" by fastforce
  show ?case
  proof (cases "lt k' k \<and> \<not> lt k k'")
    case True
    then have "\<forall>j \<in> fst ` set (map_assign lt k v m). lt k' j"
      using Cons.prems e by (force simp: map_sorted_def dest: assign_keys)
    then show ?thesis using Cons True e by (simp add: map_sorted_def)
  next
    case False
    then show ?thesis using Cons.prems e trans by (auto simp: map_sorted_def)
  qed
qed (simp add: map_sorted_def)

lemma lookup_below: "\<forall>e \<in> set m. lt k (fst e) \<Longrightarrow> map_lookup lt k m = None"
  by (cases m) auto

lemma lookup_emplace:
  assumes "map_sorted lt m"
  shows "map_lookup lt j (map_emplace lt k v m) =
    (if equivalent lt j k then (case map_lookup lt k m of None \<Rightarrow> Some v | Some w \<Rightarrow> Some w) else map_lookup lt j m)"
  using assms
proof (induction m)
  case (Cons e m)
  obtain k' v' where e: "e = (k', v')" by fastforce
  have m: "map_sorted lt m" using Cons.prems e by (auto simp: map_sorted_def)
  consider (below) "lt k k'" | (above) "lt k' k" "\<not> lt k k'" | (same) "equivalent lt k k'" by (auto simp: equivalent_def)
  then show ?case
  proof cases
    case below
    then show ?thesis using trans [of j k k'] by (auto simp: e equivalent_def)
  next
    case above
    then show ?thesis using Cons.IH [OF m] equivalent_less [of j k k'] by (auto simp: e)
  next
    case same
    then have "equivalent lt j k \<Longrightarrow> equivalent lt j k'" using incomparable by blast
    then show ?thesis using same by (auto simp: e equivalent_def)
  qed
qed (simp add: equivalent_def)

lemma lookup_assign:
  assumes "map_sorted lt m"
  shows "map_lookup lt j (map_assign lt k v m) = (if equivalent lt j k then Some v else map_lookup lt j m)"
  using assms
proof (induction m)
  case (Cons e m)
  obtain k' v' where e: "e = (k', v')" by fastforce
  have m: "map_sorted lt m" using Cons.prems e by (auto simp: map_sorted_def)
  consider (below) "lt k k'" | (above) "lt k' k" "\<not> lt k k'" | (same) "equivalent lt k k'" by (auto simp: equivalent_def)
  then show ?case
  proof cases
    case below
    then show ?thesis using trans [of j k k'] by (auto simp: e equivalent_def)
  next
    case above
    then show ?thesis using Cons.IH [OF m] equivalent_less [of j k k'] by (auto simp: e)
  next
    case same
    have "equivalent lt k' k" using same by (auto simp: equivalent_def)
    then have "equivalent lt j k \<longleftrightarrow> equivalent lt j k'" using same incomparable by blast
    then show ?thesis using same by (auto simp: e equivalent_def)
  qed
qed (simp add: equivalent_def)

lemma fold_emplace_lookup:
  "map_sorted lt m \<Longrightarrow>
     map_sorted lt (fold (\<lambda>(k, v). map_emplace lt k v) xs m) \<and>
     map_lookup lt j (fold (\<lambda>(k, v). map_emplace lt k v) xs m) =
       (case map_lookup lt j m of None \<Rightarrow> map_option snd (find (\<lambda>e. equivalent lt j (fst e)) xs) | Some w \<Rightarrow> Some w)"
proof (induction xs arbitrary: m)
  case (Cons e xs)
  obtain k v where e: "e = (k, v)" by fastforce
  have same: "map_lookup lt j m = map_lookup lt k m" if "equivalent lt j k"
    using equivalent_less [OF that] by (induction m) auto
  show ?case
    using Cons.IH [OF emplace_sorted [OF Cons.prems, of k v]] lookup_emplace [OF Cons.prems, of j k v] same
    by (auto simp: e split: option.splits)
qed (simp split: option.splits)

text \<open>A map made from a list of entries gives for every key the value of the first equivalent entry.\<close>

lemma lookup_of_list: "map_lookup lt j (map_of_list lt xs) = map_option snd (find (\<lambda>e. equivalent lt j (fst e)) xs)"
  using fold_emplace_lookup [of "[]" xs j] by (simp add: map_of_list_def map_sorted_def)

lemma sorted_of_list: "map_sorted lt (map_of_list lt xs)"
  using fold_emplace_lookup [of "[]" xs] by (simp add: map_of_list_def map_sorted_def)

end

text \<open>\<^verbatim>\<open>std::string\<close> and \<^verbatim>\<open>std::string_view\<close> compare characters as unsigned bytes.\<close>

definition str_less :: "string \<Rightarrow> string \<Rightarrow> bool" where
  "str_less s t \<longleftrightarrow> s < t"

lemma str_equivalent [simp]: "equivalent str_less s t \<longleftrightarrow> s = t"
  by (auto simp: equivalent_def str_less_def)

interpretation str: strict_weak_order str_less
  by unfold_locales (auto simp: str_less_def simp del: str_equivalent simp: equivalent_def)

end
