(* ===== verification/Request.thy ===== *)
theory Request
  imports Pico_Roundtrip Ordered_Map Url_Codec Text_Utils Mime_Types Itoa
begin

text \<open>
  Requests (\<^verbatim>\<open>include/netcore/request.hpp\<close>): the input buffer with its size accounting, the parsed head, queries and forms,
  cookies and ranges. The ranges the head parser reports are offsets into the buffer; they are read through it, or from the
  copies that are made before the buffer is resized or reused.

  \<^verbatim>\<open>size_t\<close> values that come from the wire are 64-bit words; the length of the head is an \<^verbatim>\<open>int\<close> that is converted when it is
  added. The check the user may install on the headers is an argument.
\<close>

section \<open>State\<close>

datatype data_proc_state = data_begin | data_continue | data_end | data_all_end | data_close | data_error

datatype content_type = ct_string | ct_json | ct_multipart | ct_urlencoded | ct_chunked | ct_octet_stream | ct_websocket | ct_unknown

text \<open>An uploaded file (\<^verbatim>\<open>upload_file.hpp\<close>): its path, what was written to it, its size counter and whether its stream is open.\<close>

record upload_file =
  file_path :: string
  file_data :: string
  file_size :: nat
  file_open :: bool

type_synonym str_map = "(string \<times> string) list"

record request =
  buf :: string
  cur_size :: nat
  method_ptr :: nat
  method_len :: nat
  url_ptr :: nat
  url_len :: nat
  minor_version :: int
  rq_headers :: "phr_header list"
  header_len :: int
  body_len :: size_t
  left_body_len :: size_t
  raw_url :: string
  method_str :: string
  url_str :: string
  cookie_str :: string
  copy_headers :: str_map
  last_len :: nat
  queries :: str_map
  form_url_map :: str_map
  multipart_form_map :: str_map
  has_gzip :: bool
  is_chunked :: bool
  max_header_len :: nat
  rq_state :: data_proc_state
  http_type :: content_type
  part_data :: string
  multipart_headers_map :: str_map
  last_multpart_key :: string
  files :: "upload_file list"
  utf8_character_params :: str_map
  range_start_pos :: int
  is_range_resource :: bool
  static_resource_file_size :: int

definition MaxSize :: nat where "MaxSize = 3 * 1024 * 1024"

definition request_new :: request where
  "request_new = \<lparr>buf = replicate 1024 (CHR 0x00), cur_size = 0, method_ptr = 0, method_len = 0, url_ptr = 0, url_len = 0, minor_version = 0,
     rq_headers = [], header_len = 0, body_len = 0, left_body_len = 0, raw_url = [], method_str = [], url_str = [], cookie_str = [],
     copy_headers = [], last_len = 0, queries = [], form_url_map = [], multipart_form_map = [], has_gzip = False, is_chunked = False,
     max_header_len = 1024 * 1024, rq_state = data_begin, http_type = ct_unknown, part_data = [], multipart_headers_map = [],
     last_multpart_key = [], files = [], utf8_character_params = [], range_start_pos = 0, is_range_resource = False, static_resource_file_size = 0\<rparr>"

section \<open>Helpers of the C++ library\<close>

text \<open>\<^verbatim>\<open>find\<close> and \<^verbatim>\<open>rfind\<close> of a string, and \<^verbatim>\<open>atoll\<close>, which reads up to the first character that is not a digit and stops at the
  largest and smallest 64-bit value.\<close>

fun str_find :: "string \<Rightarrow> string \<Rightarrow> nat option" where
  "str_find needle s = (if prefix needle s then Some 0 else (case s of [] \<Rightarrow> None | c # cs \<Rightarrow> map_option Suc (str_find needle cs)))"

declare str_find.simps [simp del]

definition str_find_from :: "string \<Rightarrow> nat \<Rightarrow> string \<Rightarrow> nat option" where
  "str_find_from needle pos s = (if length s < pos then None else map_option ((+) pos) (str_find needle (drop pos s)))"

definition is_digit :: "char \<Rightarrow> bool" where
  "is_digit c \<longleftrightarrow> 48 \<le> uchar c \<and> uchar c \<le> 57"

definition digits_value :: "string \<Rightarrow> nat" where
  "digits_value s = foldl (\<lambda>a c. a * 10 + (uchar c - 48)) 0 (takeWhile is_digit s)"

definition atoll :: "string \<Rightarrow> int" where
  "atoll s =
     (let t = dropWhile is_space s;
          neg = (t \<noteq> [] \<and> hd t = CHR ''-'');
          u = (if t \<noteq> [] \<and> (hd t = CHR ''-'' \<or> hd t = CHR ''+'') then List.tl t else t);
          v = int (digits_value u)
      in if neg then max (- (2 ^ 63)) (- v) else min (2 ^ 63 - 1) v)"

section \<open>Sizes\<close>

definition set_body_len :: "size_t \<Rightarrow> request \<Rightarrow> request" where
  "set_body_len len r = r\<lparr>body_len := len, left_body_len := len\<rparr>"

definition total_len :: "request \<Rightarrow> size_t" where
  "total_len r = word_of_int (header_len r) + body_len r"

definition has_recieved_all :: "request \<Rightarrow> bool" where
  "has_recieved_all r \<longleftrightarrow> total_len r \<le> of_nat (cur_size r)"

definition has_recieved_all_part :: "request \<Rightarrow> bool" where
  "has_recieved_all_part r \<longleftrightarrow> body_len r = of_nat (cur_size r) - word_of_int (header_len r)"

definition at_capacity :: "request \<Rightarrow> bool" where
  "at_capacity r \<longleftrightarrow> of_nat MaxSize < total_len r"

definition left_size :: "request \<Rightarrow> nat" where
  "left_size r = length (buf r) - cur_size r"

definition update_size :: "nat \<Rightarrow> request \<Rightarrow> request \<times> bool" where
  "update_size n r = (let r = r\<lparr>cur_size := cur_size r + n\<rparr> in (r, MaxSize < cur_size r))"

text \<open>The read into \<^verbatim>\<open>buffer()\<close>: the bytes are stored at the current size.\<close>

definition store_at_end :: "string \<Rightarrow> request \<Rightarrow> request" where
  "store_at_end xs r = r\<lparr>buf := take (cur_size r) (buf r) @ xs @ drop (cur_size r + length xs) (buf r)\<rparr>"

definition body :: "request \<Rightarrow> string option" where
  "body r = (let h = nat (header_len r); n = unat (body_len r)
     in if h + n \<le> length (buf r) then Some (take n (drop h (buf r))) else None)"

definition has_body :: "request \<Rightarrow> bool" where
  "has_body r \<longleftrightarrow> body_len r \<noteq> 0 \<or> is_chunked r"

definition is_http11 :: "request \<Rightarrow> bool" where
  "is_http11 r \<longleftrightarrow> minor_version r = 1"

definition left_body_size :: "request \<Rightarrow> size_t" where
  "left_body_size r = (let n = of_nat (length (buf r)) in if n < left_body_len r then n else left_body_len r)"

definition body_finished :: "request \<Rightarrow> bool" where
  "body_finished r \<longleftrightarrow> left_body_len r = 0"

definition reduce_left_body_size :: "size_t \<Rightarrow> request \<Rightarrow> request" where
  "reduce_left_body_size n r = r\<lparr>left_body_len := left_body_len r - n\<rparr>"

section \<open>Headers\<close>

definition header_name_str :: "request \<Rightarrow> phr_header \<Rightarrow> string" where
  "header_name_str r h = (case hdr_name h of None \<Rightarrow> [] | Some p \<Rightarrow> subrange (buf r) p (hdr_name_len h))"

definition header_value_str :: "request \<Rightarrow> phr_header \<Rightarrow> string" where
  "header_value_str r h = subrange (buf r) (hdr_value h) (hdr_value_len h)"

text \<open>An empty view and a missing header are the same to the callers. The search in the copies compares with the key up to a NUL,
  which no key of the program contains.\<close>

definition get_header_value :: "string \<Rightarrow> request \<Rightarrow> string" where
  "get_header_value key r =
     (if copy_headers r = [] then
        (case find (\<lambda>h. iequal (header_name_str r h) key) (rq_headers r) of None \<Rightarrow> [] | Some h \<Rightarrow> header_value_str r h)
      else (case find (\<lambda>e. iequal (fst e) key) (copy_headers r) of None \<Rightarrow> [] | Some e \<Rightarrow> snd e))"

text \<open>
  \<^verbatim>\<open>get_headers\<close>: the headers of the head, or the copies, for which the array \<^verbatim>\<open>headers_\<close> is filled anew (it is not read while there are copies, and the next head
  overwrites it). Entries behind the end of this array of 32 are not modelled; they are written if there are more copies, see \<open>copied_headers_too_many\<close>.
\<close>

definition get_headers :: "request \<Rightarrow> str_map" where
  "get_headers r = (if copy_headers r = [] then map (\<lambda>h. (header_name_str r h, header_value_str r h)) (rq_headers r) else copy_headers r)"

definition get_method :: "request \<Rightarrow> string" where
  "get_method r = (if method_len r \<noteq> 0 then subrange (buf r) (method_ptr r) (method_len r) else method_str r)"

definition get_url :: "request \<Rightarrow> string" where
  "get_url r = (if method_len r \<noteq> 0 then subrange (buf r) (url_ptr r) (url_len r) else url_str r)"

text \<open>\<^verbatim>\<open>substr(1)\<close> of an empty view throws.\<close>

definition get_res_path :: "request \<Rightarrow> string option" where
  "get_res_path r = (if get_url r = [] then None else Some (List.tl (get_url r)))"

definition get_relative_filename :: "request \<Rightarrow> string" where
  "get_relative_filename r =
     (let file_name = get_url r in if is_form_url_encode file_name then get_string_by_urldecode file_name else file_name)"

definition get_filename_from_path :: "request \<Rightarrow> string option" where
  "get_filename_from_path r =
     map_option (\<lambda>f. if is_form_url_encode f then get_string_by_urldecode f else f) (get_res_path r)"

definition check_gzip :: "request \<Rightarrow> request" where
  "check_gzip r =
     (let encoding = get_header_value ''content-encoding'' r
      in r\<lparr>has_gzip := encoding \<noteq> [] \<and> str_find ''gzip'' encoding \<noteq> None\<rparr>)"

section \<open>Multipart fields\<close>

definition get_multipart_field_name :: "string \<Rightarrow> request \<Rightarrow> string" where
  "get_multipart_field_name field_name r =
     (case multipart_headers_map r of
        [] \<Rightarrow> []
      | (k, val) # _ \<Rightarrow>
          (case str_find field_name val of
             None \<Rightarrow> []
           | Some pos \<Rightarrow>
               (let start = (case str_find_from [CHR 0x22] pos val of None \<Rightarrow> 0 | Some p \<Rightarrow> p + 1)
                in case rfind_char (CHR 0x22) val of
                     None \<Rightarrow> []
                   | Some e \<Rightarrow> if e < start then [] else take (e - start) (drop start val))))"

definition save_multipart_key_value :: "string \<Rightarrow> string \<Rightarrow> request \<Rightarrow> request" where
  "save_multipart_key_value key val r =
     (if key \<noteq> [] then r\<lparr>multipart_form_map := map_emplace str_less key val (multipart_form_map r)\<rparr> else r)"

definition update_multipart_value :: "string \<Rightarrow> string \<Rightarrow> request \<Rightarrow> request" where
  "update_multipart_value key xs r =
     (let r = (if key \<noteq> [] then r\<lparr>last_multpart_key := key\<rparr> else r);
          key = (if key \<noteq> [] then key else last_multpart_key r)
      in case map_lookup str_less key (multipart_form_map r) of
           None \<Rightarrow> r
         | Some v \<Rightarrow> r\<lparr>multipart_form_map := map_assign str_less key (v @ xs) (multipart_form_map r)\<rparr>)"

definition handle_multipart_key_value :: "request \<Rightarrow> request" where
  "handle_multipart_key_value r =
     r\<lparr>form_url_map := fold (\<lambda>(k, v). map_emplace str_less k v) (multipart_form_map r) (form_url_map r)\<rparr>"

definition is_multipart_file :: "request \<Rightarrow> bool" where
  "is_multipart_file r =
     (if multipart_headers_map r = [] then False
      else (case map_lookup str_less ''Content-Disposition'' (multipart_headers_map r) of
              Some v \<Rightarrow> str_find ''filename'' v \<noteq> None
            | None \<Rightarrow> map_lookup str_less ''Content-Type'' (multipart_headers_map r) \<noteq> None))"

definition set_multipart_headers :: "str_map \<Rightarrow> request \<Rightarrow> request" where
  "set_multipart_headers hs r =
     r\<lparr>multipart_headers_map := fold (\<lambda>(k, v). map_assign str_less k v) hs (multipart_headers_map r)\<rparr>"

section \<open>Uploaded files\<close>

text \<open>Whether the file system opens and renames files is an argument. A write to a stream that is closed is lost, but counted.\<close>

definition file_write :: "string \<Rightarrow> upload_file \<Rightarrow> upload_file" where
  "file_write xs f = f\<lparr>file_size := file_size f + length xs, file_data := (if file_open f then file_data f @ xs else file_data f)\<rparr>"

definition rename_file :: "(string \<Rightarrow> string \<Rightarrow> bool) \<Rightarrow> string \<Rightarrow> upload_file \<Rightarrow> upload_file" where
  "rename_file rename_ok new_file_name f = (if rename_ok (file_path f) new_file_name then f\<lparr>file_path := new_file_name\<rparr> else f)"

definition open_upload_file :: "(string \<Rightarrow> bool) \<Rightarrow> string \<Rightarrow> request \<Rightarrow> request" where
  "open_upload_file can_open filename r =
     (if can_open filename then r\<lparr>files := files r @ [\<lparr>file_path = filename, file_data = [], file_size = 0, file_open = True\<rparr>]\<rparr> else r)"

text \<open>\<^verbatim>\<open>assert(!files_.empty())\<close>\<close>

definition write_upload_data :: "string \<Rightarrow> request \<Rightarrow> request option" where
  "write_upload_data xs r =
     (if xs = [] then Some r
      else if files r = [] then None
      else Some (r\<lparr>files := butlast (files r) @ [file_write xs (last (files r))]\<rparr>))"

definition close_upload_file :: "request \<Rightarrow> request" where
  "close_upload_file r =
     (if files r = [] then r else r\<lparr>files := butlast (files r) @ [(last (files r))\<lparr>file_open := False\<rparr>]\<rparr>)"

section \<open>Resizing\<close>

text \<open>Before the buffer is moved or reused, what the head parser reported is copied.\<close>

definition copy_method_url_headers :: "request \<Rightarrow> request" where
  "copy_method_url_headers r =
     (if method_len r = 0 then r
      else
        (let filename = get_multipart_field_name ''filename'' r;
             r1 = r\<lparr>method_str := subrange (buf r) (method_ptr r) (method_len r), url_str := subrange (buf r) (url_ptr r) (url_len r),
                    method_len := 0, url_len := 0, multipart_headers_map := [],
                    copy_headers := copy_headers r @ (if filename \<noteq> [] then [(''filename'', filename)] else [])\<rparr>
         in if header_len r < 0 then r1
            else r1\<lparr>copy_headers := copy_headers r1 @ map (\<lambda>h. (header_name_str r h, header_value_str r h)) (rq_headers r)\<rparr>))"

definition resize :: "nat \<Rightarrow> request \<Rightarrow> request" where
  "resize n r = (let r = copy_method_url_headers r in r\<lparr>buf := take n (buf r @ replicate n (CHR 0x00))\<rparr>)"

definition resize_double :: "request \<Rightarrow> request" where
  "resize_double r = resize (2 * length (buf r)) r"

definition update_and_expand_size :: "nat \<Rightarrow> request \<Rightarrow> request \<times> bool" where
  "update_and_expand_size n r =
     (case update_size n r of
        (r, True) \<Rightarrow> (r, True)
      | (r, False) \<Rightarrow> (if length (buf r) \<le> cur_size r then resize_double r else r, False))"

definition grow_to :: "size_t \<Rightarrow> request \<Rightarrow> request" where
  "grow_to want r =
     (let n = length (buf r) in
      if n = MaxSize then r
      else if want < of_nat MaxSize then (if of_nat n < want then resize (unat want) r else r)
      else resize MaxSize r)"

definition fit_size :: "request \<Rightarrow> request" where
  "fit_size r = grow_to (left_body_len r) r"

definition expand_size :: "request \<Rightarrow> request" where
  "expand_size r = grow_to (total_len r) r"

definition set_current_size :: "nat \<Rightarrow> request \<Rightarrow> request" where
  "set_current_size n r = (let r = r\<lparr>cur_size := n\<rparr> in if n = 0 then copy_method_url_headers r else r)"

definition req_reset :: "request \<Rightarrow> request" where
  "req_reset r =
     r\<lparr>cur_size := 0, files := [], is_chunked := False, rq_state := data_begin, part_data := [], utf8_character_params := [], queries := [], cookie_str := [],
       form_url_map := [], multipart_form_map := [], is_range_resource := False, range_start_pos := 0, static_resource_file_size := 0,
       last_len := 0, copy_headers := []\<rparr>"

section \<open>Queries and forms\<close>

text \<open>The loop of \<^verbatim>\<open>parse_query\<close>: \<open>cur\<close> is the text since \<^verbatim>\<open>pos\<close>, and \<open>seen\<close> holds once \<^verbatim>\<open>pos\<close> is not 0.\<close>

fun query_loop :: "string \<Rightarrow> string \<Rightarrow> bool \<Rightarrow> string \<Rightarrow> str_map \<Rightarrow> str_map" where
  "query_loop [] cur seen key query =
     (if \<not> seen then []
      else if 0 < length cur then map_emplace str_less key (trim cur) query
      else map_emplace str_less key [] query)"
| "query_loop (c # cs) cur seen key query =
     (if c = CHR ''='' then query_loop cs [] True (trim cur) query
      else if c = CHR ''&'' then query_loop cs [] True key (map_emplace str_less key (trim cur) query)
      else query_loop cs (cur @ [c]) seen key query)"

definition parse_query :: "string \<Rightarrow> str_map" where
  "parse_query str = query_loop str [] False [] []"

text \<open>\<open>None\<close>: the view of the body is not inside the buffer.\<close>

definition parse_form_urlencoded :: "request \<Rightarrow> (request \<times> bool) option" where
  "parse_form_urlencoded r =
     map_option (\<lambda>b. (r\<lparr>form_url_map := parse_query b\<rparr>, parse_query b \<noteq> [])) (body r)"

definition map_key :: "string \<Rightarrow> request \<Rightarrow> string" where
  "map_key key r = (let url = get_url r; url = (if 1 < length url \<and> last url = CHR ''/'' then butlast url else url) in url @ key)"

definition decoded_value :: "string \<Rightarrow> string \<Rightarrow> request \<Rightarrow> request \<times> string" where
  "decoded_value key v r =
     (if is_url_encode v then
        (let m = map_emplace str_less (map_key key r) (get_string_by_urldecode v) (utf8_character_params r)
         in (r\<lparr>utf8_character_params := m\<rparr>, the (map_lookup str_less (map_key key r) m)))
      else (r, v))"

definition get_query_value :: "string \<Rightarrow> request \<Rightarrow> request \<times> string" where
  "get_query_value key r =
     (case map_lookup str_less key (queries r) of
        Some v \<Rightarrow> decoded_value key v r
      | None \<Rightarrow> (case map_lookup str_less key (form_url_map r) of None \<Rightarrow> (r, []) | Some v \<Rightarrow> decoded_value key v r))"

definition get_query_value_at :: "nat \<Rightarrow> request \<Rightarrow> string" where
  "get_query_value_at n r =
     (if length (queries r) \<le> n then (if length (form_url_map r) \<le> n then [] else snd (form_url_map r ! n))
      else snd (queries r ! n))"

section \<open>Cookies and ranges\<close>

definition CSESSIONIDWithEQU :: string where "CSESSIONIDWithEQU = ''CSESSIONID=''"

definition get_cookie_value :: "request \<Rightarrow> string" where
  "get_cookie_value r =
     (case str_find CSESSIONIDWithEQU (cookie_str r) of
        None \<Rightarrow> []
      | Some pos \<Rightarrow> takeWhile (\<lambda>c. c \<noteq> CHR '';'') (drop (pos + length CSESSIONIDWithEQU) (cookie_str r)))"

text \<open>\<^verbatim>\<open>atoll\<close> reads from the start of the range on to the first character that is not a digit.\<close>

definition set_range_start_pos :: "string \<Rightarrow> request \<Rightarrow> request" where
  "set_range_start_pos range_header r =
     (if is_range_resource r then
        (let l = (case find_char (CHR ''='') range_header of None \<Rightarrow> 0 | Some p \<Rightarrow> p + 1)
         in r\<lparr>range_start_pos := atoll (drop l range_header)\<rparr>)
      else r)"

definition get_range_start_pos :: "request \<Rightarrow> int" where
  "get_range_start_pos r = (if is_range_resource r then range_start_pos r else 0)"

section \<open>The head\<close>

definition take_out :: "phr_out \<Rightarrow> int \<Rightarrow> request \<Rightarrow> request" where
  "take_out res_out hl r =
     r\<lparr>method_ptr := (case phr_method res_out of None \<Rightarrow> 0 | Some p \<Rightarrow> p), method_len := phr_method_len res_out,
       url_ptr := (case phr_path res_out of None \<Rightarrow> 0 | Some p \<Rightarrow> p), url_len := phr_path_len res_out,
       minor_version := phr_minor_version res_out, rq_headers := phr_headers res_out, header_len := hl\<rparr>"

definition set_lengths :: "request \<Rightarrow> request" where
  "set_lengths r =
     (let cl = get_header_value ''content-length'' r in
      if cl = [] then
        (let r = (if get_header_value ''transfer-encoding'' r = ''chunked'' then r\<lparr>is_chunked := True\<rparr> else r)
         in r\<lparr>body_len := 0\<rparr>)
      else (case find (\<lambda>h. iequal (header_name_str r h) ''content-length'') (rq_headers r) of
              None \<Rightarrow> r
            | Some h \<Rightarrow> set_body_len (word_of_int (atoll (drop (hdr_value h) (buf r)))) r))"

definition set_cookie_url :: "request \<Rightarrow> request \<times> bool" where
  "set_cookie_url r =
     (let ck = get_header_value ''cookie'' r;
          r = (if ck \<noteq> [] then r\<lparr>cookie_str := ck\<rparr> else r);
          url = subrange (buf r) (url_ptr r) (url_len r);
          r = r\<lparr>raw_url := url\<rparr>
      in if CHR ''/'' \<notin> set url then (r, False)
         else (case find_char (CHR ''?'') url of
                 None \<Rightarrow> (r, True)
               | Some pos \<Rightarrow> (r\<lparr>queries := parse_query (drop (pos + 1) url), url_len := pos\<rparr>, True)))"

definition parse_header :: "(request \<Rightarrow> request \<times> bool) \<Rightarrow> request \<Rightarrow> (request \<times> int) option" where
  "parse_header check_request r =
     (let r = r\<lparr>copy_headers := []\<rparr>;
          (res_out, res) = phr_parse_request (take (cur_size r) (buf r)) 32 0
      in case res of
           Fault \<Rightarrow> None
         | Ret e \<Rightarrow> Some (take_out res_out e r, if max_header_len r < cur_size r then - 1 else e)
         | Ok n \<Rightarrow>
             (let r = take_out res_out (int n) r in
              if max_header_len r < cur_size r then Some (r, - 1)
              else
                (let (r, good) = check_request r in
                 if \<not> good then Some (r, - 1)
                 else
                   (let (r, found) = set_cookie_url (set_lengths (check_gzip r))
                    in Some (r, if found then header_len r else - 1)))))"

end
