(* ===== verification/Connection.thy ===== *)
theory Connection
  imports Request Response Websocket Multipart_Reader Io_Socket
begin

text \<open>
  A connection (\<^verbatim>\<open>include/netcore/connection.hpp\<close>): after every read \<open>process\<close> looks at the request in the buffer and decides whether to read
  more or to answer; bodies of strings, forms and multipart uploads, the WebSocket handshake and WebSocket frames are handled
  here. The application is an argument: its routes, its checks, its event callbacks and the files it can open.

  \<open>None\<close> is a failed assertion, an exception that nobody catches, or a read outside an object. Compression is off, as in
  the build: \<^verbatim>\<open>uncompress\<close> succeeds and stores nothing.
\<close>

section \<open>State\<close>

datatype process_state = need_read | need_write | need_write_then_read

datatype work = do_read_multipart_work | handle_ws_data_work | continue_write_then_route_work

text \<open>A file opened for reading: its content, the position and whether a read or a seek has failed.\<close>

record in_file =
  in_data :: string
  in_pos :: nat
  in_fail :: bool

record connection =
  req :: request
  res :: response
  ws :: websocket
  upgraded :: bool
  keep_alive :: bool
  last_ws_str :: "byte list"
  mparser :: multipart_parser
  mreader :: multipart_reader
  is_multi_part_file :: bool
  last_transfer :: nat
  continue_work :: "work option"
  has_closed :: bool
  direct_out :: string
  file_tag :: "in_file option"

text \<open>
  What the program around a connection supplies. Handlers and checks get the request, and through it the whole connection.
\<close>

record app =
  route_check :: "bool \<Rightarrow> connection \<Rightarrow> connection \<times> bool"
  ws_check :: "connection \<Rightarrow> connection \<times> bool"
  upload_check :: "(connection \<Rightarrow> connection \<times> bool) option"
  event_call_back :: "data_proc_state \<Rightarrow> connection \<Rightarrow> connection"
  check_request :: "request \<Rightarrow> request \<times> bool"
  upload_name :: "nat \<Rightarrow> string \<Rightarrow> string"
  can_open :: "string \<Rightarrow> bool"
  rename_ok :: "string \<Rightarrow> string \<Rightarrow> bool"
  times :: time_lib

definition connection_new :: "int \<Rightarrow> req_content_type \<Rightarrow> bool \<Rightarrow> connection" where
  "connection_new now garbage b = \<lparr>req = request_new, res = response_new now garbage, ws = websocket_init, upgraded = False, keep_alive = False,
     last_ws_str = [], mparser = mp_reset, mreader = multipart_reader_new, is_multi_part_file = b, last_transfer = 0,
     continue_work = None, has_closed = False, direct_out = [], file_tag = None\<rparr>"

definition conn_reset :: "connection \<Rightarrow> connection" where
  "conn_reset c = c\<lparr>last_transfer := 0, req := req_reset (req c), res := res_reset (res c)\<rparr>"

definition Close_conn :: "connection \<Rightarrow> connection" where
  "Close_conn c =
     (if has_closed c then c
      else (let c = conn_reset c in c\<lparr>req := close_upload_file (req c), has_closed := True, continue_work := None\<rparr>))"

section \<open>Answers and callbacks\<close>

text \<open>Building a response always succeeds (\<open>build_response_str_wire\<close>).\<close>

definition response_back :: "app \<Rightarrow> status_type \<Rightarrow> string \<Rightarrow> connection \<Rightarrow> connection" where
  "response_back A st c_text c = c\<lparr>res := the (set_status_and_content (times A) st c_text no_content_type (res c))\<rparr>"

definition response_back_default :: "app \<Rightarrow> status_type \<Rightarrow> connection \<Rightarrow> connection" where
  "response_back_default A st c = c\<lparr>res := the (set_status_and_content_default (times A) st (res c))\<rparr>"

definition call_back :: "app \<Rightarrow> connection \<Rightarrow> connection" where
  "call_back A c = fst (route_check A True c)"

definition peek_route :: "app \<Rightarrow> connection \<Rightarrow> connection \<times> bool" where
  "peek_route A c = route_check A False c"

definition call_event :: "app \<Rightarrow> data_proc_state \<Rightarrow> connection \<Rightarrow> connection" where
  "call_event A ev c = event_call_back A ev c"

definition set_state :: "data_proc_state \<Rightarrow> connection \<Rightarrow> connection" where
  "set_state st c = c\<lparr>req := (req c)\<lparr>rq_state := st\<rparr>\<rparr>"

definition on_error :: "app \<Rightarrow> status_type \<Rightarrow> string \<Rightarrow> connection \<Rightarrow> connection" where
  "on_error A st txt c = response_back A st txt (set_state data_error (c\<lparr>keep_alive := False\<rparr>))"

definition on_close :: "connection \<Rightarrow> connection" where
  "on_close c = Close_conn (set_state data_error (c\<lparr>keep_alive := False\<rparr>))"

definition check_keep_alive :: "connection \<Rightarrow> connection" where
  "check_keep_alive c =
     (let h = get_header_value ''connection'' (req c);
          ka = (if is_http11 (req c) then h = [] \<or> \<not> iequal h ''close'' else h \<noteq> [] \<and> iequal h ''keep-alive'');
          c = c\<lparr>keep_alive := ka, res := (res c)\<lparr>res_keep_alive := ka\<rparr>\<rparr>
      in if ka then
           (let (u, w) = is_upgrade (get_method (req c)) (\<lambda>key. get_header_value key (req c)) (ws c) in c\<lparr>upgraded := u, ws := w\<rparr>)
         else c)"

definition IsKeepAlive :: "connection \<Rightarrow> bool" where
  "IsKeepAlive c \<longleftrightarrow> keep_alive c \<and> upgraded c"

section \<open>Writing parts of an answer\<close>

definition http_chunk_header :: string where
  "http_chunk_header = ''HTTP/1.1 200 OK'' @ crlf @ ''Transfer-Encoding: chunked'' @ crlf"

definition http_range_chunk_header :: string where
  "http_range_chunk_header = ''HTTP/1.1 206 Partial Content'' @ crlf @ ''Transfer-Encoding: chunked'' @ crlf"

definition write_chunked_header :: "string \<Rightarrow> bool \<Rightarrow> connection \<Rightarrow> connection" where
  "write_chunked_header mime is_range c =
     (let c = c\<lparr>req := (req c)\<lparr>http_type := ct_chunked\<rparr>\<rparr>;
          h = (if \<not> is_range then http_chunk_header else http_range_chunk_header) @ ''Content-Type: '' @ mime @ crlf @ crlf
      in (set_state data_continue (c\<lparr>res := (res c)\<lparr>rep_str := h\<rparr>\<rparr>))\<lparr>continue_work := Some continue_write_then_route_work\<rparr>)"

definition write_ranges_header :: "string \<Rightarrow> connection \<Rightarrow> connection" where
  "write_ranges_header h c =
     (set_state data_continue (c\<lparr>res := (res c)\<lparr>rep_str := h\<rparr>\<rparr>))\<lparr>continue_work := Some continue_write_then_route_work\<rparr>"

definition write_chunked_data :: "string \<Rightarrow> bool \<Rightarrow> connection \<Rightarrow> connection" where
  "write_chunked_data b eof c =
     set_state (if eof then data_end else data_continue) (c\<lparr>res := (res c)\<lparr>rep_str := to_chunked_buffers b eof\<rparr>\<rparr>)"

definition write_ranges_data :: "string \<Rightarrow> bool \<Rightarrow> connection \<Rightarrow> connection" where
  "write_ranges_data b eof c = set_state (if eof then data_end else data_continue) (c\<lparr>res := (res c)\<lparr>rep_str := b\<rparr>\<rparr>)"

section \<open>Multipart\<close>

definition part_begin :: "app \<Rightarrow> multipart_headers \<Rightarrow> connection \<Rightarrow> connection" where
  "part_begin A headers c =
     (let rq = set_multipart_headers headers (req c);
          filename = get_multipart_field_name ''filename'' rq;
          c = c\<lparr>req := rq, is_multi_part_file := is_multipart_file rq\<rparr>
      in if filename = [] \<and> is_multi_part_file c then response_back A bad_request ''mutipart error'' (set_state data_error c)
         else if is_multi_part_file c
         then c\<lparr>req := open_upload_file (can_open A) (upload_name A (length (files rq)) (get_extension filename)) rq\<rparr>
         else c\<lparr>req := save_multipart_key_value (get_multipart_field_name ''name'' rq) [] rq\<rparr>)"

definition part_data_cb :: "string \<Rightarrow> connection \<Rightarrow> connection option" where
  "part_data_cb xs c =
     (if rq_state (req c) = data_error then Some c
      else if is_multi_part_file c then map_option (\<lambda>rq. c\<lparr>req := rq\<rparr>) (write_upload_data xs (req c))
      else Some (c\<lparr>req := update_multipart_value (get_multipart_field_name ''name'' (req c)) xs (req c)\<rparr>))"

definition part_end :: "app \<Rightarrow> connection \<Rightarrow> connection" where
  "part_end A c =
     (if rq_state (req c) = data_error \<or> \<not> is_multi_part_file c then c
      else
        (let rq = close_upload_file (req c) in
         if files rq = [] then c\<lparr>req := rq\<rparr>
         else
           (let f = last (files rq); old_name = file_path f;
                f = (if sublist ''_ing'' old_name then rename_file (rename_ok A) (take (length old_name - 4) old_name) f else f)
            in c\<lparr>req := rq\<lparr>files := butlast (files rq) @ [f]\<rparr>\<rparr>)))"

definition all_end :: "connection \<Rightarrow> connection" where
  "all_end c = (if rq_state (req c) = data_error then c else c\<lparr>req := handle_multipart_key_value (req c)\<rparr>)"

fun reader_event_cb :: "app \<Rightarrow> reader_event \<Rightarrow> connection \<Rightarrow> connection option" where
  "reader_event_cb A (Part_begin hs) c = Some (part_begin A hs c)"
| "reader_event_cb A (Part_data xs) c = part_data_cb xs c"
| "reader_event_cb A Part_end c = Some (part_end A c)"
| "reader_event_cb A All_end c = Some (all_end c)"

fun reader_events :: "app \<Rightarrow> reader_event list \<Rightarrow> connection \<Rightarrow> connection option" where
  "reader_events A [] c = Some c"
| "reader_events A (e # es) c = (case reader_event_cb A e c of None \<Rightarrow> None | Some c \<Rightarrow> reader_events A es c)"

text \<open>The loop around \<open>feed\<close>. The callbacks do not touch the parser, so they are run after each call, in order.\<close>

partial_function (option) feed_loop :: "string \<Rightarrow> mp_event list \<Rightarrow> multipart_parser \<Rightarrow> (mp_event list \<times> multipart_parser) option" where
  [code]: "feed_loop xs ev p =
     (case feed xs p of
        None \<Rightarrow> None
      | Some (ev', p', Fed n) \<Rightarrow> if n < length xs \<and> \<not> stopped p' then feed_loop (drop n xs) (ev @ ev') p' else Some (ev @ ev', p')
      | Some (ev', p', Failed n) \<Rightarrow> if n < length xs \<and> \<not> stopped p' then feed_loop (drop n xs) (ev @ ev') p' else Some (ev @ ev', p')
      | Some (ev', p', Thrown) \<Rightarrow> None)"

text \<open>\<open>start\<close> and \<open>n\<close> are the arguments of \<^verbatim>\<open>parse_multipart\<close>; the result says whether there was an error. With a content encoding of
  gzip the data is the (empty) output of the decompression.\<close>

definition parse_multipart :: "app \<Rightarrow> nat \<Rightarrow> size_t \<Rightarrow> connection \<Rightarrow> (connection \<times> bool) option" where
  "parse_multipart A start n c =
     (if n = 0 then Some (c, False)
      else if length (buf (req c)) < start + unat n then None
      else
        (let xs = take (unat n) (drop start (buf (req c)));
             c = c\<lparr>req := (req c)\<lparr>part_data := xs\<rparr>\<rparr>;
             part = (if has_gzip (req c) then [] else xs)
         in case feed_loop part [] (mparser c) of
              None \<Rightarrow> None
            | Some (ev, p) \<Rightarrow>
                (let (es, rd) = reader_run ev (mreader c)
                 in case reader_events A es (c\<lparr>mparser := p, mreader := rd\<rparr>) of
                      None \<Rightarrow> None
                    | Some c \<Rightarrow>
                        if has_error p then Some (set_state data_error c, True)
                        else Some (c\<lparr>req := reduce_left_body_size n (req c)\<rparr>, False))))"

text \<open>\<^verbatim>\<open>upload_check_\<close> is a null pointer when the server has none.\<close>

definition handle_multipart :: "app \<Rightarrow> connection \<Rightarrow> (connection \<times> process_state) option" where
  "handle_multipart A c =
     (let (c, admitted) = (case upload_check A of None \<Rightarrow> (c, True) | Some f \<Rightarrow> f c)
      in if \<not> admitted then Some (response_back A bad_request ''upload_check_ error at line 553'' (Close_conn c), need_write)
         else
           (case parse_multipart A (nat (header_len (req c))) (of_nat (cur_size (req c)) - word_of_int (header_len (req c))) c of
              None \<Rightarrow> None
            | Some (c, True) \<Rightarrow> Some (response_back A bad_request ''mutipart error'' c, need_write)
            | Some (c, False) \<Rightarrow>
                if has_recieved_all_part (req c) then Some (call_back A c, need_write)
                else Some (c\<lparr>req := set_current_size 0 (req c), continue_work := Some do_read_multipart_work\<rparr>, need_read)))"

definition do_read_multipart :: "app \<Rightarrow> connection \<Rightarrow> (connection \<times> process_state) option" where
  "do_read_multipart A c =
     (let c = c\<lparr>req := fit_size (req c)\<rparr> in
      case parse_multipart A 0 (of_nat (last_transfer c)) c of
        None \<Rightarrow> None
      | Some (c, True) \<Rightarrow>
          Some ((response_back A bad_request ''mutipart error'' (c\<lparr>keep_alive := False\<rparr>))\<lparr>continue_work := None\<rparr>, need_write)
      | Some (c, False) \<Rightarrow>
          if body_finished (req c) then Some ((call_back A c)\<lparr>continue_work := None\<rparr>, need_write)
          else Some (c\<lparr>req := set_current_size 0 (req c), continue_work := Some do_read_multipart_work\<rparr>, need_read))"

section \<open>Bodies\<close>

definition too_long :: string where
  "too_long = ''The request is too long, limitation is 3M''"

definition handle_body :: "app \<Rightarrow> connection \<Rightarrow> connection option" where
  "handle_body A c =
     (if at_capacity (req c) then Some (response_back A bad_request ''The body is too long, limitation is 3M'' c)
      else if http_type (req c) = ct_multipart
      then (case parse_multipart A (nat (header_len (req c))) (of_nat (cur_size (req c)) - word_of_int (header_len (req c))) c of
              None \<Rightarrow> None
            | Some (c, True) \<Rightarrow> Some (response_back A bad_request ''mutipart error'' c)
            | Some (c, False) \<Rightarrow> Some c)
      else if 0 < body_len (req c)
      then (let (rq, good) = check_request A (req c); c = c\<lparr>req := rq\<rparr>
            in if \<not> good then Some (response_back A bad_request ''request check error'' c) else Some (call_back A c))
      else Some (call_back A c))"

text \<open>\<^verbatim>\<open>assert(req_.current_size() >= req_.header_len())\<close>\<close>

definition handle_string_body :: "app \<Rightarrow> connection \<Rightarrow> (connection \<times> process_state) option" where
  "handle_string_body A c =
     (if at_capacity (req c) then Some (response_back A bad_request too_long c, need_write)
      else if has_recieved_all (req c) then map_option (\<lambda>c. (c, need_write)) (handle_body A c)
      else
        (let rq = expand_size (req c) in
         if int (cur_size rq) < header_len rq then None
         else
           (let part_size = of_nat (cur_size rq) - word_of_int (header_len rq) :: size_t in
            if part_size = - 1 then Some (response_back_default A internal_server_error (c\<lparr>req := rq\<rparr>), need_write)
            else Some (c\<lparr>req := reduce_left_body_size part_size rq\<rparr>, need_read))))"

definition handle_url_urlencoded_body :: "app \<Rightarrow> connection \<Rightarrow> connection option" where
  "handle_url_urlencoded_body A c =
     (case parse_form_urlencoded (req c) of
        None \<Rightarrow> None
      | Some (rq, success) \<Rightarrow>
          (let c = c\<lparr>req := rq\<rparr> in
           if \<not> success then Some (response_back A bad_request ''form urlencoded error'' c)
           else if 0 < body_len rq
           then (let (rq, good) = check_request A rq; c = c\<lparr>req := rq\<rparr>
                 in if \<not> good then Some (response_back A bad_request ''request check error'' c) else Some (call_back A c))
           else Some (call_back A c)))"

text \<open>The caller writes whatever the response holds, also when the body is not complete.\<close>

definition handle_form_urlencoded :: "app \<Rightarrow> nat \<Rightarrow> connection \<Rightarrow> connection option" where
  "handle_form_urlencoded A bytes_transferred c =
     (if at_capacity (req c) then Some (response_back A bad_request too_long c)
      else if has_recieved_all (req c) then handle_url_urlencoded_body A c
      else
        (let rq = expand_size (req c)
         in Some (c\<lparr>req := reduce_left_body_size (of_nat bytes_transferred - word_of_int (header_len rq)) rq\<rparr>)))"

text \<open>\<^verbatim>\<open>parse_chunked\<close> always reports an error.\<close>

definition handle_chunked :: "app \<Rightarrow> connection \<Rightarrow> connection" where
  "handle_chunked A c = response_back A internal_server_error ''not support yet'' c"

section \<open>WebSocket\<close>

text \<open>The loop of \<^verbatim>\<open>Writen\<close> puts the bytes on the wire.\<close>

definition direct_write :: "string \<Rightarrow> connection \<Rightarrow> connection" where
  "direct_write xs c = c\<lparr>direct_out := direct_out c @ xs\<rparr>"

definition response_handshake :: "app \<Rightarrow> connection \<Rightarrow> connection" where
  "response_handshake A c =
     (let c = c\<lparr>res := the (build_response_str (times A) (res c))\<rparr> in
      if rep_str (res c) = [] then Close_conn c
      else
        (let c = call_back A (set_state data_begin (direct_write (rep_str (res c)) c));
             c = call_event A (rq_state (req c)) c
         in c\<lparr>req := set_current_size 0 (req c), continue_work := Some handle_ws_data_work\<rparr>))"

text \<open>
  A close frame. The message the frame parser returns starts two bytes into the payload, but the length used for it is that of the
  whole payload; the payload is followed by a NUL. A payload the parser rejects has a null pointer for its message.
  The reply is written with the opcode in the place of the status code.
\<close>

definition close_message :: "byte list \<Rightarrow> byte list option" where
  "close_message payload =
     (let len = min 123 (length payload) in
      if len = 0 then Some []
      else if fst (parse_close_payload payload) = 0 then None
      else if length payload + 1 < 2 + len then None
      else Some (take len (drop 2 (payload @ [0]))))"

fun handle_ws_frame :: "app \<Rightarrow> ws_frame_type \<Rightarrow> byte list \<Rightarrow> connection \<Rightarrow> (connection \<times> bool) option" where
  "handle_ws_frame A WS_ERROR_FRAME payload c = Some (Close_conn (call_event A data_error c), False)"
| "handle_ws_frame A WS_TEXT_FRAME payload c =
     (let temp = last_ws_str c @ payload; c = c\<lparr>last_ws_str := []\<rparr>;
          c = c\<lparr>req := (req c)\<lparr>part_data := map byte_char temp\<rparr>\<rparr>
      in Some (call_event A data_continue c, True))"
| "handle_ws_frame A WS_BINARY_FRAME payload c =
     (let temp = last_ws_str c @ payload; c = c\<lparr>last_ws_str := []\<rparr>;
          c = c\<lparr>req := (req c)\<lparr>part_data := map byte_char temp\<rparr>\<rparr>
      in Some (call_event A data_continue c, True))"
| "handle_ws_frame A WS_CLOSE_FRAME payload c =
     (case close_message payload of
        None \<Rightarrow> None
      | Some msg \<Rightarrow>
          (let c = call_event A data_close (c\<lparr>req := (req c)\<lparr>part_data := map byte_char msg\<rparr>\<rparr>);
               close_msg = format_close_payload 8 msg;
               header = format_header (of_nat (length close_msg)) close_op
           in Some (c\<lparr>res := (res c)\<lparr>rep_str := map byte_char (header @ close_msg)\<rparr>\<rparr>, False)))"
| "handle_ws_frame A WS_PING_FRAME payload c =
     Some (c\<lparr>res := (res c)\<lparr>rep_str := map byte_char (format_header (of_nat (length payload)) pong @ payload)\<rparr>\<rparr>, True)"
| "handle_ws_frame A _ payload c = Some (c, True)"

text \<open>
  The loop of \<^verbatim>\<open>handle_ws_data\<close>. The position moves past the header of a frame, but not past its payload.
\<close>

lemma ws_header_positive: "Websocket.parse_header w inp n = Some (w', k) \<Longrightarrow> 0 \<le> k \<Longrightarrow> 2 \<le> k"
  by (auto simp: Websocket.parse_header_def header_length_def Let_def SHORT_HEADER_def MEDIUM_HEADER_def LONG_HEADER_def split: if_splits option.splits)

lemma ws_header_received: "Websocket.parse_header w inp n = Some (w', k) \<Longrightarrow> 0 \<le> k \<Longrightarrow> 0 < n"
  by (auto simp: Websocket.parse_header_def SHORT_HEADER_def split: if_splits)

lemma ws_step_decreases:
  assumes "Websocket.parse_header w inp (lim - start) = Some (w', k)" "0 \<le> k"
  shows "lim - (start + nat k) < lim - start"
  using ws_header_positive [OF assms] ws_header_received [OF assms] by linarith

definition append_fragment :: "ws_frame_type \<Rightarrow> byte list \<Rightarrow> connection \<Rightarrow> connection" where
  "append_fragment ft payload c =
     (if ft = WS_INCOMPLETE_TEXT_FRAME \<or> ft = WS_INCOMPLETE_BINARY_FRAME then c\<lparr>last_ws_str := last_ws_str c @ payload\<rparr> else c)"

function ws_loop :: "app \<Rightarrow> byte list \<Rightarrow> nat \<Rightarrow> nat \<Rightarrow> connection \<Rightarrow> (connection \<times> process_state) option" where
  "ws_loop A store lim start c =
     (case Websocket.parse_header (ws c) (drop start store) (lim - start) of
        None \<Rightarrow> None
      | Some (w, ret) \<Rightarrow>
          if 0 \<le> ret then
            (let start' = start + nat ret; c = c\<lparr>ws := w\<rparr>;
                 (ft, payload) = parse_payload w (take (lim - start') (drop start' store)) []
             in if ft = WS_INCOMPLETE_FRAME then Some (c, need_read)
                else
                  (let c = append_fragment ft payload c
                   in case handle_ws_frame A ft payload c of
                        None \<Rightarrow> None
                      | Some (c, False) \<Rightarrow> Some (c, need_write)
                      | Some (c, True) \<Rightarrow>
                          if ws_fin w then Some (c\<lparr>req := set_current_size 0 (req c)\<rparr>, need_write_then_read)
                          else ws_loop A store lim start' c))
          else if ret = - 2 then Some (c\<lparr>ws := w\<rparr>, need_read)
          else Some (Close_conn (call_event A data_error (c\<lparr>ws := w\<rparr>)), need_write))"
  by pat_completeness auto
termination
  by (relation "measure (\<lambda>(A, store, lim, start, c). lim - start)")
    (auto dest: ws_step_decreases)

declare ws_loop.simps [simp del]

definition handle_ws_data :: "app \<Rightarrow> connection \<Rightarrow> (connection \<times> process_state) option" where
  "handle_ws_data A c = ws_loop A (map char_byte (buf (req c))) (cur_size (req c)) 0 c"

section \<open>Requests\<close>

definition handle_header_request :: "app \<Rightarrow> connection \<Rightarrow> connection \<times> process_state" where
  "handle_header_request A c =
     (if upgraded c then
        (let (c, allowed) = ws_check A c in
         if \<not> allowed
         then (c\<lparr>upgraded := False, keep_alive := False,
                 res := the (set_status_and_content (times A) forbidden ''not allowed'' no_content_type (res c))\<rparr>, need_write)
         else
           (let c = c\<lparr>req := (req c)\<lparr>http_type := ct_websocket\<rparr>,
                      res := (res c)\<lparr>status := switching_protocols, res_headers := res_headers (res c) @ upgrade_to_websocket (ws c) (\<lambda>key. get_header_value key (req c))\<rparr>\<rparr>
            in (response_handshake A c, need_read)))
      else (call_back A c, need_write))"

text \<open>\<^verbatim>\<open>bd[0]\<close> and \<^verbatim>\<open>bd[bd.length()-1]\<close> of an empty boundary read outside the view: the result \<open>None\<close>.\<close>

definition multipart_boundary :: "string \<Rightarrow> string option" where
  "multipart_boundary ct =
     (let bd = (case find_char (CHR ''='') ct of None \<Rightarrow> ct | Some p \<Rightarrow> drop (p + 1) ct) in
      if bd = [] then None
      else if hd bd = CHR 0x22 \<and> last bd = CHR 0x22 then Some (take (length bd - 2) (List.tl bd)) else Some bd)"

definition get_content_type :: "string \<Rightarrow> connection \<Rightarrow> (connection \<times> content_type) option" where
  "get_content_type fresh c =
     (if is_chunked (req c) then Some (c, ct_chunked)
      else
        (let ct = get_header_value ''content-type'' (req c) in
         if ct = [] then Some (c, ct_unknown)
         else if str_find ''application/x-www-form-urlencoded'' ct \<noteq> None then Some (c, ct_urlencoded)
         else if str_find ''multipart/form-data'' ct \<noteq> None
         then map_option (\<lambda>bd. (c\<lparr>mparser := set_boundary fresh (crlf @ ''--'' @ bd)\<rparr>, ct_multipart)) (multipart_boundary ct)
         else if str_find ''application/octet-stream'' ct \<noteq> None then Some (c, ct_octet_stream)
         else if str_find ''application/json'' ct \<noteq> None then Some (c, ct_json)
         else Some (c, ct_string)))"

definition handle_request :: "app \<Rightarrow> string \<Rightarrow> nat \<Rightarrow> connection \<Rightarrow> (connection \<times> process_state) option" where
  "handle_request A fresh bytes_transferred c =
     (if has_body (req c) then
        (case get_content_type fresh c of
           None \<Rightarrow> None
         | Some (c, type) \<Rightarrow>
             (let c = c\<lparr>req := (req c)\<lparr>http_type := type\<rparr>\<rparr> in
              case type of
                ct_string \<Rightarrow> handle_string_body A c
              | ct_json \<Rightarrow> handle_string_body A c
              | ct_unknown \<Rightarrow> handle_string_body A c
              | ct_multipart \<Rightarrow> handle_multipart A c
              | ct_octet_stream \<Rightarrow> Some (c, need_write)
              | ct_urlencoded \<Rightarrow> map_option (\<lambda>c. (c, need_write)) (handle_form_urlencoded A bytes_transferred c)
              | ct_chunked \<Rightarrow> Some (handle_chunked A c, need_write)
              | ct_websocket \<Rightarrow> Some (c, need_write)))
      else Some (handle_header_request A c))"

text \<open>The route is looked up before it is known whether the head is complete.\<close>

definition handle_read :: "app \<Rightarrow> string \<Rightarrow> nat \<Rightarrow> connection \<Rightarrow> (connection \<times> process_state) option" where
  "handle_read A fresh bytes_transferred c =
     (case Request.parse_header (check_request A) (req c) of
        None \<Rightarrow> None
      | Some (rq, ret) \<Rightarrow>
          (let c = c\<lparr>req := rq\<rparr> in
           if ret = - 1 then Some (response_back_default A bad_request c, need_write)
           else
             (let (c, found) = peek_route A c in
              if \<not> found then Some (response_back A not_found ''404'' c, need_write)
              else
                (let c = check_keep_alive c in
                 if ret = - 2 then Some (c, need_read) else handle_request A fresh bytes_transferred c))))"

definition continue_write_then_route :: "app \<Rightarrow> connection \<Rightarrow> connection \<times> process_state" where
  "continue_write_then_route A c = (call_back A c, need_write)"

definition process :: "app \<Rightarrow> string \<Rightarrow> connection \<Rightarrow> (connection \<times> process_state) option" where
  "process A fresh c =
     (if at_capacity (req c) then Some (response_back A bad_request too_long c, need_write)
      else (case continue_work c of
              None \<Rightarrow> handle_read A fresh (last_transfer c) c
            | Some do_read_multipart_work \<Rightarrow> do_read_multipart A c
            | Some handle_ws_data_work \<Rightarrow> handle_ws_data A c
            | Some continue_write_then_route_work \<Rightarrow> Some (continue_write_then_route A c)))"

section \<open>The server loop\<close>

text \<open>
  \<^verbatim>\<open>Server::handle\<close>: read into the free part of the buffer, count the bytes, process, and send the response unless more has to be
  read. The kernel answers the reads with \<open>ks\<close>; the result is what was sent, and how the coroutine ended.
\<close>

datatype serve_end = Answered | Peer_gone | Too_big | Io_exception io_error | Crashed | Waiting

lemma recv_shorter: "recv ks n got = Some (Inr k, got', ks') \<Longrightarrow> 0 < k \<Longrightarrow> length ks' < length ks"
proof (induction ks arbitrary: got)
  case (Cons a ks)
  then show ?case by (cases a) (auto simp: Let_def less_SucI split: if_splits)
qed simp

function handle_loop :: "app \<Rightarrow> string \<Rightarrow> recv_answer list \<Rightarrow> string list \<Rightarrow> connection \<Rightarrow> string list \<times> serve_end \<times> connection" where
  "handle_loop A fresh ks sent c =
     (case recv ks (left_size (req c)) [] of
        None \<Rightarrow> (sent, Waiting, c)
      | Some (Inl e, got, ks) \<Rightarrow> (sent, Io_exception e, c\<lparr>req := store_at_end got (req c)\<rparr>)
      | Some (Inr n, got, ks) \<Rightarrow>
          (let c = c\<lparr>req := store_at_end got (req c)\<rparr> in
           if n = 0 then (sent, Peer_gone, c)
           else
             (let (rq, over) = update_size n (req c); c = c\<lparr>req := rq\<rparr> in
              if over then (sent, Too_big, response_back A bad_request ''overflow MaxSize 3M'' c)
              else (case process A fresh c of
                      None \<Rightarrow> (sent, Crashed, c)
                    | Some (c, need_read) \<Rightarrow> handle_loop A fresh ks sent c
                    | Some (c, need_write) \<Rightarrow> (sent @ [rep_str (res c)], Answered, c)
                    | Some (c, need_write_then_read) \<Rightarrow> handle_loop A fresh ks (sent @ [rep_str (res c)]) c))))"
  by pat_completeness auto
termination
  by (relation "measure (\<lambda>(A, fresh, ks, sent, c). length ks)") (auto dest: recv_shorter)

declare handle_loop.simps [simp del]

end
