(* ===== verification/Request_Correct.thy ===== *)
theory Request_Correct
  imports Request
begin

text \<open>
  What the request reports after a head was parsed: method, path, headers, decoded query values and the length of the body; that
  resizing the buffer does not change it; the bounds of the buffer; and the body view for a negative length.
\<close>

section \<open>Reading a printed head\<close>

definition hdr_lookup :: "string \<Rightarrow> str_map \<Rightarrow> string" where
  "hdr_lookup key hs = (case find (\<lambda>nv. iequal (fst nv) key) hs of None \<Rightarrow> [] | Some nv \<Rightarrow> snd nv)"

lemma find_header:
  "list_all2 (header_at (buf r)) ts hs \<Longrightarrow>
     rel_option (header_at (buf r)) (find (\<lambda>h. iequal (header_name_str r h) key) ts) (find (\<lambda>nv. iequal (fst nv) key) hs)"
  by (induction ts hs rule: list_all2_induct) (auto simp: header_at_def header_strings_def header_name_str_def)

lemma get_header_value_at:
  assumes "copy_headers r = []" "list_all2 (header_at (buf r)) (rq_headers r) hs"
  shows "get_header_value key r = hdr_lookup key hs"
  using find_header [OF assms(2), of key] assms(1)
  by (auto simp: get_header_value_def hdr_lookup_def header_at_def header_strings_def header_value_str_def
      elim!: option.rel_cases split: option.splits)

lemma atoll_value:
  assumes "value_ok v" "v \<noteq> []"
  shows "atoll (v @ CR # rest) = atoll v"
proof -
  obtain c w where v: "v = c # w" using assms(2) by (cases v) auto
  have "c \<noteq> SP" "c \<noteq> TAB" "\<not> eol_ctl c" using assms(1) v by (simp_all add: value_ok_def)
  moreover have "uchar TAB = 9" by (simp add: uchar_def)
  then have "uchar c \<noteq> 9" using \<open>c \<noteq> TAB\<close> by (metis uchar_eq_iff)
  ultimately have "\<not> is_space c" by (auto simp: is_space_def eol_ctl_def)
  moreover have "\<not> is_digit CR" by (simp add: is_digit_def uchar_def)
  then have "takeWhile is_digit (u @ CR # rest) = takeWhile is_digit u" for u by (induction u) auto
  then have "digits_value (w @ CR # rest) = digits_value w" "digits_value ((c # w) @ CR # rest) = digits_value (c # w)"
    by (simp_all only: digits_value_def)
  ultimately show ?thesis by (simp add: atoll_def v Let_def)
qed

definition declared_len :: "str_map \<Rightarrow> size_t" where
  "declared_len hs = (let v = hdr_lookup ''content-length'' hs in if v = [] then 0 else word_of_int (atoll v))"

lemma hdr_lookup_value: "\<forall>nv \<in> set hs. header_ok nv \<Longrightarrow> value_ok (hdr_lookup key hs)"
proof (cases "find (\<lambda>nv. iequal (fst nv) key) hs")
  case (Some nv)
  then have "nv \<in> set hs" by (auto simp: find_Some_iff)
  moreover assume "\<forall>nv \<in> set hs. header_ok nv"
  ultimately show ?thesis using Some by (simp add: hdr_lookup_def header_ok_def)
qed (simp add: hdr_lookup_def value_ok_def)

lemma set_lengths_at:
  assumes "copy_headers r = []" "list_all2 (header_at (buf r)) (rq_headers r) hs" "\<forall>nv \<in> set hs. header_ok nv"
  shows "\<exists>lbl ch. set_lengths r = r\<lparr>body_len := declared_len hs, left_body_len := lbl, is_chunked := ch\<rparr> \<and>
    (hdr_lookup ''content-length'' hs \<noteq> [] \<longrightarrow> lbl = declared_len hs \<and> ch = is_chunked r) \<and>
    (hdr_lookup ''transfer-encoding'' hs \<noteq> ''chunked'' \<longrightarrow> ch = is_chunked r)"
proof (cases "hdr_lookup ''content-length'' hs = []")
  case True
  let ?ch = "if hdr_lookup ''transfer-encoding'' hs = ''chunked'' then True else is_chunked r"
  have "set_lengths r = r\<lparr>body_len := declared_len hs, left_body_len := left_body_len r, is_chunked := ?ch\<rparr>"
    using True by (simp add: set_lengths_def get_header_value_at [OF assms(1,2)] declared_len_def Let_def)
  then show ?thesis using True by (intro exI [of _ "left_body_len r"] exI [of _ ?ch]) simp
next
  case False
  from find_header [OF assms(2), of "''content-length''"] False obtain h nv where
    h: "find (\<lambda>h. iequal (header_name_str r h) ''content-length'') (rq_headers r) = Some h" "header_at (buf r) h nv"
    and nv: "find (\<lambda>nv. iequal (fst nv) ''content-length'') hs = Some nv"
    by (auto simp: hdr_lookup_def elim!: option.rel_cases split: option.splits)
  have v: "hdr_lookup ''content-length'' hs = snd nv" using nv by (simp add: hdr_lookup_def)
  obtain rest where "drop (hdr_value h) (buf r) = snd nv @ CR # rest" using h(2) by (auto simp: header_at_def)
  then have "atoll (drop (hdr_value h) (buf r)) = atoll (snd nv)"
    using atoll_value [of "snd nv" rest] False v hdr_lookup_value [OF assms(3)] by metis
  then show ?thesis
    using False h(1) v by (simp add: set_lengths_def get_header_value_at [OF assms(1,2)] declared_len_def set_body_len_def Let_def)
qed

text \<open>What the request reports of the head \<open>H\<close> with these parts.\<close>

definition head_parsed :: "string \<Rightarrow> string \<Rightarrow> string \<Rightarrow> nat \<Rightarrow> str_map \<Rightarrow> request \<Rightarrow> bool" where
  "head_parsed H m p v hs r \<longleftrightarrow>
     get_method r = m \<and> get_url r = takeWhile (\<lambda>c. c \<noteq> CHR ''?'') p \<and> raw_url r = p \<and> minor_version r = int v \<and>
     (\<forall>key. get_header_value key r = hdr_lookup key hs) \<and> header_len r = int (length H) \<and>
     body_len r = declared_len hs \<and>
     (CHR ''?'' \<in> set p \<longrightarrow> queries r = parse_query (List.tl (dropWhile (\<lambda>c. c \<noteq> CHR ''?'') p)))"

lemma find_char_split:
  "find_char c s = (if c \<in> set s then Some (length (takeWhile (\<lambda>d. d \<noteq> c) s)) else None)"
  by (induction s) auto

lemma drop_past_char: "drop (length (takeWhile P s) + 1) s = List.tl (dropWhile P s)"
  by (induction s) auto

lemma subrange_shorter: "subrange xs i n = s \<Longrightarrow> k \<le> n \<Longrightarrow> subrange xs i k = take k s"
  by (auto simp: subrange_def)

lemma parse_header_text:
  assumes m: "\<forall>c \<in> set m. plain_char c" "m \<noteq> []" and p: "\<forall>c \<in> set p. plain_char c" "CHR ''/'' \<in> set p" and v: "v \<le> 9"
    and H: "head_text m p v hs H" and hs: "length hs \<le> 32"
    and r: "take (cur_size r) (buf r) = H @ rest" "cur_size r \<le> max_header_len r"
  shows "\<exists>r'. parse_header (\<lambda>r. (r, True)) r = Some (r', int (length H)) \<and> head_parsed H m p v hs r' \<and>
    list_all2 (header_at (buf r)) (rq_headers r') hs \<and> copy_headers r' = [] \<and> method_len r' = length m \<and>
    buf r' = buf r \<and> cur_size r' = cur_size r \<and> rq_state r' = rq_state r \<and> max_header_len r' = max_header_len r \<and>
    http_type r' = http_type r \<and> multipart_headers_map r' = multipart_headers_map r \<and> part_data r' = part_data r \<and> utf8_character_params r' = utf8_character_params r \<and>
    (hdr_lookup ''content-length'' hs \<noteq> [] \<longrightarrow> left_body_len r' = declared_len hs \<and> is_chunked r' = is_chunked r) \<and>
    (hdr_lookup ''transfer-encoding'' hs \<noteq> ''chunked'' \<longrightarrow> is_chunked r' = is_chunked r)"
proof -
  obtain ts where ts: "\<And>body. phr_parse_request (H @ body) 32 0 =
      (\<lparr>phr_method = Some 0, phr_method_len = length m, phr_path = Some (length m + 1), phr_path_len = length p,
        phr_minor_version = int v, phr_headers = ts\<rparr>, Ok (length H))"
    "\<And>body. list_all2 (header_at (H @ body)) ts hs"
    using parse_request_text [OF m(1) p(1) v H hs] by blast
  let ?n = "length H" and ?q = "find_char (CHR ''?'') p"
  have b: "buf r = H @ (rest @ drop (cur_size r) (buf r))"
    using r(1) append_take_drop_id [of "cur_size r" "buf r"] by simp
  have mp: "subrange (buf r) 0 (length m) = m" "subrange (buf r) (length m + 1) (length p) = p"
    using head_text_parts(1,2) [OF H, of "rest @ drop (cur_size r) (buf r)"] b by simp_all
  define res_out where "res_out = \<lparr>phr_method = Some 0, phr_method_len = length m, phr_path = Some (length m + 1), phr_path_len = length p,
        phr_minor_version = int v, phr_headers = ts\<rparr>"
  define r1 where "r1 = take_out res_out (int ?n) (r\<lparr>copy_headers := []\<rparr>)"
  define r2 where "r2 = check_gzip r1"
  have r2: "copy_headers r2 = []" "list_all2 (header_at (buf r2)) (rq_headers r2) hs"
    using ts(2) [of "rest @ drop (cur_size r) (buf r)"] b by (simp_all add: r2_def r1_def res_out_def check_gzip_def take_out_def Let_def)
  obtain lbl ch where sl: "set_lengths r2 = r2\<lparr>body_len := declared_len hs, left_body_len := lbl, is_chunked := ch\<rparr>"
    and lbl: "hdr_lookup ''content-length'' hs \<noteq> [] \<longrightarrow> lbl = declared_len hs \<and> ch = is_chunked r2"
      "hdr_lookup ''transfer-encoding'' hs \<noteq> ''chunked'' \<longrightarrow> ch = is_chunked r2"
    using set_lengths_at [OF r2 head_text_headers [OF H]] by blast
  define r3 where "r3 = set_lengths r2"
  obtain g where g: "r2 = r1\<lparr>has_gzip := g\<rparr>" by (auto simp: r2_def check_gzip_def Let_def)
  have r3eq: "r3 = r1\<lparr>has_gzip := g, body_len := declared_len hs, left_body_len := lbl, is_chunked := ch\<rparr>" unfolding r3_def using sl by (simp add: g)
  define r4 where "r4 = (if hdr_lookup ''cookie'' hs \<noteq> [] then r3\<lparr>cookie_str := hdr_lookup ''cookie'' hs\<rparr> else r3)\<lparr>raw_url := p\<rparr>"
  define r5 where "r5 = (case ?q of None \<Rightarrow> r4 | Some pos \<Rightarrow> r4\<lparr>queries := parse_query (drop (pos + 1) p), url_len := pos\<rparr>)"
  have f3: "copy_headers r3 = []" "list_all2 (header_at (buf r3)) (rq_headers r3) hs"
    using r2 by (simp_all add: r3eq g)
  have u3: "subrange (buf r3) (url_ptr r3) (url_len r3) = p" "method_ptr r3 = 0" "method_len r3 = length m" "url_ptr r3 = length m + 1"
    "url_len r3 = length p" "buf r3 = buf r"
    using mp by (simp_all add: r3eq r1_def res_out_def take_out_def)
  have sc: "set_cookie_url r3 = (r5, True)"
    using p(2) u3(1) by (simp add: set_cookie_url_def get_header_value_at [OF f3] r5_def r4_def Let_def split: option.splits)
  have po: "phr_parse_request (H @ rest) 32 0 = (res_out, Ok ?n)" unfolding res_out_def by (rule ts(1))
  have sc1: "set_cookie_url (set_lengths (check_gzip r1)) = (r5, True)" using sc unfolding r3_def r2_def .
  have h5: "header_len r5 = int ?n" by (simp add: r5_def r4_def r3eq r1_def take_out_def split: option.splits)
  have c1: "max_header_len r1 = max_header_len r" "cur_size r1 = cur_size r" by (simp_all add: r1_def take_out_def)
  have ph: "parse_header (\<lambda>r. (r, True)) r = Some (r5, int ?n)"
    using sc1 h5 r(1,2) po c1 by (simp add: parse_header_def Let_def flip: r1_def)
  have q: "?q = (if CHR ''?'' \<in> set p then Some (length (takeWhile (\<lambda>c. c \<noteq> CHR ''?'') p)) else None)"
    by (rule find_char_split)
  have le: "length (takeWhile (\<lambda>c. c \<noteq> CHR ''?'') p) \<le> length p" by (rule length_takeWhile_le)
  have f5: "copy_headers r5 = []" "list_all2 (header_at (buf r5)) (rq_headers r5) hs"
    using f3 by (simp_all add: r5_def r4_def split: option.splits)
  have gm: "get_method r5 = m" using m(2) mp(1) u3 by (simp add: get_method_def r5_def r4_def split: option.splits)
  have none: "takeWhile (\<lambda>c. c \<noteq> CHR ''?'') p = p" if "CHR ''?'' \<notin> set p" using that by (auto simp: takeWhile_eq_all_conv)
  have gu: "get_url r5 = takeWhile (\<lambda>c. c \<noteq> CHR ''?'') p"
    using m(2) u3 mp(2) subrange_shorter [OF mp(2) le] takeWhile_eq_take [of "\<lambda>c. c \<noteq> CHR ''?''" p, symmetric]
    by (auto simp: get_url_def r5_def r4_def q none split: option.splits)
  have "head_parsed H m p v hs r5"
    using gm gu f5 get_header_value_at [OF f5] drop_past_char [of "\<lambda>c. c \<noteq> CHR ''?''" p]
    by (simp add: head_parsed_def) (simp add: r5_def r4_def r3eq r1_def res_out_def q take_out_def split: option.splits)
  moreover have "list_all2 (header_at (buf r)) ts hs" using ts(2) b by metis
  ultimately show ?thesis
    using ph f5 lbl by (simp add: r5_def r4_def r3eq g r1_def res_out_def take_out_def split: option.splits)
qed

section \<open>Queries\<close>

fun print_query :: "str_map \<Rightarrow> string" where
  "print_query [] = []"
| "print_query [(k, v)] = k @ ''='' @ v"
| "print_query ((k, v) # kvs) = k @ ''='' @ v @ ''&'' @ print_query kvs"

definition query_text :: "string \<Rightarrow> bool" where
  "query_text s \<longleftrightarrow> CHR ''='' \<notin> set s \<and> CHR ''&'' \<notin> set s \<and> trim s = s"

lemma query_loop_text:
  "CHR ''='' \<notin> set s \<Longrightarrow> CHR ''&'' \<notin> set s \<Longrightarrow> query_loop (s @ t) cur seen key q = query_loop t (cur @ s) seen key q"
  by (induction s arbitrary: cur) auto

lemma query_loop_pair:
  assumes "query_text k" "query_text v"
  shows "query_loop (k @ CHR ''='' # v @ t) [] seen key q = query_loop t v True k q"
  using assms query_loop_text [of k "CHR ''='' # v @ t" "[]" seen key q] query_loop_text [of v t "[]" True k q]
  by (simp add: query_text_def)

lemma trim_Nil: "trim [] = []"
  by (simp add: trim_def trim_left_def trim_right_def)

lemma query_loop_print:
  assumes "kvs \<noteq> []" "\<forall>(k, v) \<in> set kvs. query_text k \<and> query_text v"
  shows "query_loop (print_query kvs) [] seen key q = fold (\<lambda>(k, v). map_emplace str_less k v) kvs q"
  using assms
proof (induction kvs arbitrary: seen key q rule: print_query.induct)
  case (2 k v)
  then have "query_text k" "query_text v" by auto
  then show ?case using query_loop_pair [of k v "[]" seen key q] by (auto simp: query_text_def trim_Nil)
next
  case (3 k v kv kvs)
  then have "query_text k" "query_text v" by auto
  then show ?case using 3 query_loop_pair [of k v "CHR ''&'' # print_query (kv # kvs)" seen key q] by (auto simp: query_text_def)
qed simp

lemma parse_query_print:
  "kvs \<noteq> [] \<Longrightarrow> \<forall>(k, v) \<in> set kvs. query_text k \<and> query_text v \<Longrightarrow> parse_query (print_query kvs) = map_of_list str_less kvs"
  by (simp add: parse_query_def query_loop_print map_of_list_def)

lemma lookup_map_of: "map_lookup str_less k (map_of_list str_less kvs) = map_of kvs k"
  unfolding str.lookup_of_list by (induction kvs) auto

text \<open>Encoded values contain no separator and no blank, and decoding gives every value back, also when nothing was encoded.\<close>

lemma hex_chars_unreserved: "n < 16 \<Longrightarrow> url_unreserved (hex_chars ! n)"
proof -
  assume "n < 16"
  then have "hex_chars ! n \<in> set hex_chars" by (intro nth_mem) (simp add: hex_chars_def)
  moreover have "list_all url_unreserved hex_chars" by code_simp
  ultimately show ?thesis by (simp add: list_all_iff)
qed

lemma pct_chars: "c \<in> set (pct d) \<Longrightarrow> url_unreserved c \<or> c = CHR ''%''"
  using hex_chars_unreserved [of "uchar d div 16"] hex_chars_unreserved [of "uchar d mod 16"] uchar_less [of d]
  by (auto simp: pct_def simp del: uchar_less)

lemma url_encode_chars: "c \<in> set (url_encode s) \<Longrightarrow> url_unreserved c \<or> c = CHR ''%''"
  using pct_chars by (auto simp: url_encode_def split: if_splits)

lemma unreserved_special: "\<not> url_unreserved (CHR ''='')" "\<not> url_unreserved (CHR ''&'')" "\<not> url_unreserved SP" "\<not> url_unreserved (CHR ''%'')"
  "\<not> url_unreserved (CHR ''+'')"
  by code_simp+

lemma trim_no_blank: "SP \<notin> set s \<Longrightarrow> trim s = s"
proof -
  have d: "dropWhile (\<lambda>c. c = SP) t = t" if "SP \<notin> set t" for t using that by (cases t) auto
  assume "SP \<notin> set s"
  then show ?thesis using d [of s] d [of "rev s"] by (simp add: trim_def trim_left_def trim_right_def)
qed

lemma query_text_encode: "query_text (url_encode s)"
proof -
  have "CHR ''='' \<notin> set (url_encode s)" "CHR ''&'' \<notin> set (url_encode s)" "SP \<notin> set (url_encode s)"
    using unreserved_special by (auto dest!: url_encode_chars)
  then show ?thesis by (simp add: query_text_def trim_no_blank)
qed

lemma url_encode_plain: "\<not> is_url_encode (url_encode s) \<Longrightarrow> url_encode s = s"
  by (induction s) (auto simp: url_encode_def is_url_encode_def pct_def split: if_splits)

lemma decoded_value_encode: "utf8_character_params r = [] \<Longrightarrow> snd (decoded_value k (url_encode v) r) = v"
  using url.decode_enc [of v] url_encode_plain [of v] str.irrefl [of "map_key k r"]
  by (auto simp: decoded_value_def get_string_by_urldecode_def Let_def)

lemma get_query_value_encoded:
  assumes "queries r = parse_query (print_query (map (\<lambda>(k, v). (k, url_encode v)) kvs))" "\<forall>(k, v) \<in> set kvs. query_text k"
    "map_of kvs k = Some v" "utf8_character_params r = []"
  shows "snd (get_query_value k r) = v"
proof -
  let ?e = "map (\<lambda>(k, v). (k, url_encode v)) kvs"
  have "?e \<noteq> []" using assms(3) by auto
  moreover have "\<forall>(k, v) \<in> set ?e. query_text k \<and> query_text v" using assms(2) query_text_encode by auto
  ultimately have "queries r = map_of_list str_less ?e" using assms(1) parse_query_print by simp
  moreover have "map_of ?e k = Some (url_encode v)" using assms(3) by (simp add: map_of_map [where f = url_encode])
  ultimately show ?thesis using decoded_value_encode [OF assms(4)] by (simp add: get_query_value_def lookup_map_of)
qed

text \<open>A value with an equals sign of its own loses its name: the last piece before an equals sign counts as the name.\<close>

lemma parse_query_equals: "parse_query ''token=YWJj=&x=1'' = [(''YWJj'', []), (''x'', ''1'')]" "parse_query ''a=b=c'' = [(''b'', ''c'')]"
  by code_simp+

section \<open>Lengths\<close>

lemma digits_value_append: "is_digit c \<Longrightarrow> \<forall>d \<in> set s. is_digit d \<Longrightarrow> digits_value (s @ [c]) = digits_value s * 10 + (uchar c - 48)"
  by (simp add: digits_value_def takeWhile_append2 takeWhile_eq_all_conv [THEN iffD2])

lemma is_digit_ascii: "d < 10 \<Longrightarrow> is_digit (ascii d) \<and> uchar (ascii d) = 48 + d"
  by (simp add: is_digit_def ascii_def)

lemma dec_is_digit: "\<forall>c \<in> set (dec n). is_digit c"
  by (induction n rule: dec.induct) (subst dec.simps, auto simp: is_digit_ascii)

lemma digits_value_dec: "digits_value (dec n) = n"
proof (induction n rule: dec.induct)
  case (1 n)
  show ?case
  proof (cases "n < 10")
    case True
    then show ?thesis using is_digit_ascii [of n] by (subst dec.simps) (simp add: digits_value_def)
  next
    case False
    then show ?thesis
      using 1 is_digit_ascii [of "n mod 10"] dec_is_digit [of "n div 10"] by (subst dec.simps) (simp add: digits_value_append)
  qed
qed

lemma digit_special: "is_digit c \<Longrightarrow> \<not> is_space c \<and> c \<noteq> CHR ''-'' \<and> c \<noteq> CHR ''+''"
  by (auto simp: is_digit_def is_space_def uchar_def)

lemma dec_first: "\<exists>c s. dec n = c # s \<and> is_digit c"
  using dec_is_digit [of n] by (cases "dec n") (auto simp: dec.simps [of n] split: if_splits)

lemma atoll_dec: "n < 2 ^ 63 \<Longrightarrow> atoll (dec n) = int n" "n < 2 ^ 63 \<Longrightarrow> atoll (CHR ''-'' # dec n) = - int n"
proof -
  assume n: "n < 2 ^ 63"
  obtain c s where d: "dec n = c # s" "is_digit c" using dec_first by blast
  have v: "digits_value (c # s) = n" using digits_value_dec [of n] d(1) by simp
  show "atoll (dec n) = int n" using n v digit_special [OF d(2)] by (simp add: atoll_def d(1) Let_def)
  show "atoll (CHR ''-'' # dec n) = - int n" using n v by (simp add: atoll_def d(1) Let_def is_space_def uchar_def)
qed

lemma declared_len_dec: "n < 2 ^ 63 \<Longrightarrow> hdr_lookup ''content-length'' hs = dec n \<Longrightarrow> declared_len hs = of_nat n"
  using dec_first [of n] by (auto simp: declared_len_def Let_def atoll_dec)

lemma declared_len_negative:
  "n < 2 ^ 63 \<Longrightarrow> hdr_lookup ''content-length'' hs = CHR ''-'' # dec n \<Longrightarrow> declared_len hs = - of_nat n"
  by (simp add: declared_len_def Let_def atoll_dec)

section \<open>Properties\<close>

text \<open>
  (C10) A request head is read back: for a head printed from a method, a path, query parameters with percent-encoded values and headers,
  anywhere at the start of the received bytes, \<open>parse_header\<close> returns its length, the request reports method, path and every
  header without regard to case, and every query parameter has its value again, whatever bytes it contains.
\<close>

theorem request_head_roundtrip:
  assumes "\<forall>c \<in> set m. plain_char c" "m \<noteq> []" "\<forall>c \<in> set p. plain_char c" "CHR ''/'' \<in> set p" "v \<le> 9"
    "\<forall>nv \<in> set hs. header_ok nv" "length hs \<le> 32"
    "p = path @ CHR ''?'' # print_query (map (\<lambda>(k, v). (k, url_encode v)) kvs)" "CHR ''?'' \<notin> set path" "\<forall>(k, v) \<in> set kvs. query_text k"
    "take (cur_size r) (buf r) = print_request m p v hs @ rest" "cur_size r \<le> max_header_len r" "utf8_character_params r = []"
  shows "\<exists>r'. parse_header (\<lambda>r. (r, True)) r = Some (r', int (length (print_request m p v hs))) \<and>
    get_method r' = m \<and> get_url r' = path \<and> (\<forall>key. get_header_value key r' = hdr_lookup key hs) \<and>
    (\<forall>k val. map_of kvs k = Some val \<longrightarrow> snd (get_query_value k r') = val) \<and> body_len r' = declared_len hs"
proof -
  obtain r' where r': "parse_header (\<lambda>r. (r, True)) r = Some (r', int (length (print_request m p v hs)))" "head_parsed (print_request m p v hs) m p v hs r'"
    "utf8_character_params r' = []"
    using parse_header_text [OF assms(1-5) head_text_print [OF assms(6)] assms(7,11,12)] assms(13) by auto
  have "takeWhile (\<lambda>c. c \<noteq> CHR ''?'') p = path" "dropWhile (\<lambda>c. c \<noteq> CHR ''?'') p = CHR ''?'' # print_query (map (\<lambda>(k, v). (k, url_encode v)) kvs)"
    using assms(8,9) by (auto simp: takeWhile_append dropWhile_append)
  then have "queries r' = parse_query (print_query (map (\<lambda>(k, v). (k, url_encode v)) kvs))" "get_url r' = path"
    using r'(2) assms(8) by (auto simp: head_parsed_def)
  then show ?thesis using r' get_query_value_encoded [OF _ assms(10)] by (auto simp: head_parsed_def)
qed

theorem request_head_roundtrip_witness:
  "\<exists>r'. parse_header (\<lambda>r. (r, True)) (request_new\<lparr>buf := print_request ''GET'' ''/s?q=a%26b'' 1 [(''Host'', ''h'')] @ replicate 9 SP, cur_size := 40\<rparr>) = Some (r', 36) \<and>
     get_method r' = ''GET'' \<and> get_url r' = ''/s'' \<and> get_header_value ''host'' r' = ''h'' \<and> snd (get_query_value ''q'' r') = ''a&b''"
proof -
  let ?r = "request_new\<lparr>buf := print_request ''GET'' ''/s?q=a%26b'' 1 [(''Host'', ''h'')] @ replicate 9 SP, cur_size := 40\<rparr>"
  have len: "length (print_request ''GET'' ''/s?q=a%26b'' 1 [(''Host'', ''h'')]) = 36" by (simp add: print_request_def print_header_def)
  have e: "''/s?q=a%26b'' = ''/s'' @ CHR ''?'' # print_query (map (\<lambda>(k, v). (k, url_encode v)) [(''q'', ''a&b'')])" by code_simp
  have pl: "\<forall>c \<in> set ''GET''. plain_char c" "\<forall>c \<in> set ''/s?q=a%26b''. plain_char c" "\<forall>nv \<in> set [(''Host'', ''h'')]. header_ok nv" by code_simp+
  have q: "\<forall>(k, v) \<in> set [(''q'', ''a&b'')]. query_text k" by code_simp
  have h: "hdr_lookup ''host'' [(''Host'', ''h'')] = ''h''" by code_simp
  have t: "take (cur_size ?r) (buf ?r) = print_request ''GET'' ''/s?q=a%26b'' 1 [(''Host'', ''h'')] @ replicate 4 SP"
    using len by (simp add: numeral_eq_Suc)
  have x: "cur_size ?r \<le> max_header_len ?r" "utf8_character_params ?r = []" by (simp_all add: request_new_def)
  from request_head_roundtrip [OF pl(1) _ pl(2) _ _ pl(3) _ e _ q t x] show ?thesis using h len by fastforce
qed

text \<open>
  A negative length breaks the bounds checks: for a head that declares \<^verbatim>\<open>Content-Length: -k\<close> with \<open>k\<close> at most the length of the head, the
  total wraps around to a small number; the request counts as within capacity and as completely received, it has a body,
  and the view of the body that the handler is given reaches far outside the buffer.
\<close>

theorem negative_content_length:
  assumes "\<forall>c \<in> set m. plain_char c" "m \<noteq> []" "\<forall>c \<in> set p. plain_char c" "CHR ''/'' \<in> set p" "v \<le> 9"
    "\<forall>nv \<in> set hs. header_ok nv" "length hs \<le> 32" "take (cur_size r) (buf r) = print_request m p v hs @ rest"
    "cur_size r \<le> max_header_len r" "cur_size r \<le> MaxSize" "length (buf r) \<le> MaxSize"
    "hdr_lookup ''content-length'' hs = CHR ''-'' # dec k" "0 < k" "k \<le> length (print_request m p v hs)" "cur_size r \<le> length (buf r)"
  shows "\<exists>r'. parse_header (\<lambda>r. (r, True)) r = Some (r', int (length (print_request m p v hs))) \<and>
    has_body r' \<and> \<not> at_capacity r' \<and> has_recieved_all r' \<and> body r' = None"
proof -
  let ?n = "length (print_request m p v hs)"
  obtain r' where r': "parse_header (\<lambda>r. (r, True)) r = Some (r', int ?n)" "head_parsed (print_request m p v hs) m p v hs r'"
    "buf r' = buf r" "cur_size r' = cur_size r"
    using parse_header_text [OF assms(1-5) head_text_print [OF assms(6)] assms(7-9)] by auto
  have "?n + length rest = min (cur_size r) (length (buf r))" using arg_cong [OF assms(8), of length] by simp
  then have n: "?n \<le> cur_size r" by linarith
  have small: "cur_size r < 2 ^ 63" "?n < 2 ^ 63" "k < 2 ^ 63" using n assms(10,14) by (simp_all add: MaxSize_def)
  have bl: "body_len r' = - of_nat k" "header_len r' = int ?n"
    using r'(2) declared_len_negative [OF small(3) assms(12)] by (auto simp: head_parsed_def)
  have tl: "total_len r' = of_nat (?n - k)" using assms(14) by (simp add: total_len_def bl of_nat_diff)
  have u: "unat (of_nat (?n - k) :: size_t) = ?n - k" "unat (of_nat (cur_size r) :: size_t) = cur_size r" "unat (of_nat MaxSize :: size_t) = MaxSize"
    using small by (auto intro!: unat_size_t simp: MaxSize_def)
  have "unat (- of_nat k :: size_t) = 2 ^ 64 - k"
  proof -
    have "of_nat (2 ^ 64 - k) = (- of_nat k :: size_t)" using small(3) by (subst of_nat_diff) simp_all
    then show ?thesis using unat_size_t [of "2 ^ 64 - k"] assms(13) by simp
  qed
  then have "\<not> nat (header_len r') + unat (body_len r') \<le> length (buf r')" using small(3) assms(11) by (simp add: bl r'(3) MaxSize_def)
  moreover have "body_len r' \<noteq> 0" using \<open>unat (- of_nat k :: size_t) = 2 ^ 64 - k\<close> small(3) bl(1) by (auto simp: unat_eq_0 [symmetric])
  ultimately show ?thesis
    using r' u n assms(10) by (auto simp: has_body_def at_capacity_def has_recieved_all_def body_def tl word_less_nat_alt word_le_nat_alt Let_def)
qed

theorem negative_content_length_witness:
  "\<exists>r'. parse_header (\<lambda>r. (r, True)) (request_new\<lparr>buf := print_request ''POST'' ''/'' 1 [(''Content-Length'', ''-1'')], cur_size := 39\<rparr>) = Some (r', 39) \<and>
     has_body r' \<and> \<not> at_capacity r' \<and> has_recieved_all r' \<and> body r' = None"
proof -
  let ?r = "request_new\<lparr>buf := print_request ''POST'' ''/'' 1 [(''Content-Length'', ''-1'')], cur_size := 39\<rparr>"
  have len: "length (print_request ''POST'' ''/'' 1 [(''Content-Length'', ''-1'')]) = 39" by (simp add: print_request_def print_header_def)
  have pl: "\<forall>c \<in> set ''POST''. plain_char c" "\<forall>c \<in> set ''/''. plain_char c" "\<forall>nv \<in> set [(''Content-Length'', ''-1'')]. header_ok nv" by code_simp+
  have h: "hdr_lookup ''content-length'' [(''Content-Length'', ''-1'')] = CHR ''-'' # dec 1" by code_simp
  have t: "take (cur_size ?r) (buf ?r) = print_request ''POST'' ''/'' 1 [(''Content-Length'', ''-1'')] @ []" using len by simp
  have x: "cur_size ?r \<le> max_header_len ?r" "cur_size ?r \<le> MaxSize" "length (buf ?r) \<le> MaxSize" "cur_size ?r \<le> length (buf ?r)"
    using len by (simp_all add: request_new_def MaxSize_def)
  from negative_content_length [OF pl(1) _ pl(2) _ _ pl(3) _ t x(1-3) h _ _ x(4)] show ?thesis using len by simp
qed

section \<open>Resizing\<close>

definition request_ok :: "request \<Rightarrow> bool" where
  "request_ok r \<longleftrightarrow> cur_size r \<le> length (buf r) \<and> length (buf r) \<le> MaxSize"

definition received :: "request \<Rightarrow> string" where
  "received r = take (cur_size r) (buf r)"

lemma find_map: "find P (map f xs) = map_option f (find (\<lambda>x. P (f x)) xs)"
  by (induction xs) auto

lemma copy_view:
  assumes "copy_headers r = []" "multipart_headers_map r = []" "0 \<le> header_len r"
  shows "get_method (copy_method_url_headers r) = get_method r" "get_url (copy_method_url_headers r) = get_url r"
    "get_header_value key (copy_method_url_headers r) = get_header_value key r"
  using assms
  by (auto simp: copy_method_url_headers_def get_method_def get_url_def get_header_value_def get_multipart_field_name_def find_map Let_def
      header_name_str_def header_value_str_def split: option.splits)

text \<open>With 32 headers and the name of an uploaded file there are 33 copies, one more than \<^verbatim>\<open>get_headers\<close> has room for.\<close>

lemma copied_headers_too_many:
  assumes "method_len r \<noteq> 0" "0 \<le> header_len r" "length (rq_headers r) = 32" "copy_headers r = []" "get_multipart_field_name ''filename'' r \<noteq> []"
  shows "length (get_headers (copy_method_url_headers r)) = 33"
  using assms by (simp add: copy_method_url_headers_def get_headers_def Let_def)

lemma copy_sizes [simp]:
  "buf (copy_method_url_headers r) = buf r" "cur_size (copy_method_url_headers r) = cur_size r" "header_len (copy_method_url_headers r) = header_len r"
  "body_len (copy_method_url_headers r) = body_len r" "left_body_len (copy_method_url_headers r) = left_body_len r"
  by (simp_all add: copy_method_url_headers_def Let_def)

lemma resize_view:
  assumes "copy_headers r = []" "multipart_headers_map r = []" "0 \<le> header_len r" "method_len r \<noteq> 0"
  shows "get_method (resize n r) = get_method r" "get_url (resize n r) = get_url r" "get_header_value key (resize n r) = get_header_value key r"
proof -
  have m0: "method_len (copy_method_url_headers r) = 0" by (simp add: copy_method_url_headers_def Let_def)
  then show "get_method (resize n r) = get_method r" "get_url (resize n r) = get_url r"
    using copy_view(1,2) [OF assms(1-3)] by (simp_all add: resize_def get_method_def get_url_def Let_def)
  have "get_header_value key (resize n r) = get_header_value key (copy_method_url_headers r)"
    using assms by (auto simp: resize_def get_header_value_def copy_method_url_headers_def get_multipart_field_name_def Let_def)
  then show "get_header_value key (resize n r) = get_header_value key r" using copy_view(3) [OF assms(1-3)] by simp
qed

end
