(* ===== verification/Connection_Correct.thy ===== *)
theory Connection_Correct
  imports Connection Request_Correct
begin

text \<open>
  What a connection does with a request that arrives in pieces. A request of less than 1024 bytes whose head comes with the first
  read is handed to the application exactly once and complete, however the body is cut. The other theorems say what happens
  outside these limits.
\<close>

section \<open>Sizes\<close>

lemma request_sizes:
  assumes "header_len r = int h" "body_len r = of_nat n" "h + n < 2 ^ 63" "cur_size r < 2 ^ 63"
  shows "total_len r = of_nat (h + n)" "at_capacity r \<longleftrightarrow> MaxSize < h + n" "has_recieved_all r \<longleftrightarrow> h + n \<le> cur_size r"
proof -
  show tl: "total_len r = of_nat (h + n)" by (simp add: total_len_def assms(1,2))
  have "unat (of_nat (h + n) :: size_t) = h + n" "unat (of_nat (cur_size r) :: size_t) = cur_size r" "unat (of_nat MaxSize :: size_t) = MaxSize"
    using assms(3,4) by (auto intro!: unat_size_t simp: MaxSize_def simp del: of_nat_add)
  then show "at_capacity r \<longleftrightarrow> MaxSize < h + n" "has_recieved_all r \<longleftrightarrow> h + n \<le> cur_size r"
    by (simp_all add: at_capacity_def has_recieved_all_def tl word_less_nat_alt word_le_nat_alt del: of_nat_add)
qed

lemma store_received:
  assumes "cur_size r + length xs \<le> length (buf r)"
  shows "take (cur_size r + length xs) (buf (store_at_end xs r)) = take (cur_size r) (buf r) @ xs" "length (buf (store_at_end xs r)) = length (buf r)"
proof -
  have "length (take (cur_size r) (buf r)) = cur_size r" using assms by simp
  then show "take (cur_size r + length xs) (buf (store_at_end xs r)) = take (cur_size r) (buf r) @ xs"
    by (simp add: store_at_end_def)
  show "length (buf (store_at_end xs r)) = length (buf r)" using assms by (simp add: store_at_end_def)
qed

section \<open>The application\<close>

text \<open>The checks let every request pass and look-ups without a call change nothing.\<close>

definition permissive :: "app \<Rightarrow> bool" where
  "permissive A \<longleftrightarrow> (\<forall>rq. check_request A rq = (rq, True)) \<and> (\<forall>c. route_check A False c = (c, True))"

text \<open>The checks let a request with this method and path pass.\<close>

definition admits :: "app \<Rightarrow> string \<Rightarrow> string \<Rightarrow> bool" where
  "admits A m u \<longleftrightarrow> (\<forall>rq. check_request A rq = (rq, True)) \<and>
     (\<forall>c. get_method (req c) = m \<longrightarrow> get_url (req c) = u \<longrightarrow> route_check A False c = (c, True))"

lemma permissive_admits: "permissive A \<Longrightarrow> admits A m u"
  by (simp add: permissive_def admits_def)

definition url_path :: "string \<Rightarrow> string" where
  "url_path p = takeWhile (\<lambda>c. c \<noteq> CHR ''?'') p"

definition demo_times :: time_lib where
  "demo_times = \<lparr>strftime_local = (\<lambda>_. []), gmt_time_str = (\<lambda>_. []), clock_now = 0\<rparr>"

text \<open>An application that answers every request with its body, for the concrete instances.\<close>

definition echo_app :: app where
  "echo_app = \<lparr>route_check = (\<lambda>route_it c.
       (if route_it then c\<lparr>res := the (set_status_and_content demo_times status_ok (case body (req c) of None \<Rightarrow> [] | Some b \<Rightarrow> b) no_content_type (res c))\<rparr>
        else c, True)),
     ws_check = (\<lambda>c. (c, True)), upload_check = None, event_call_back = (\<lambda>_ c. c), check_request = (\<lambda>rq. (rq, True)),
     upload_name = (\<lambda>_ s. s), can_open = (\<lambda>_. True), rename_ok = (\<lambda>_ _. True), times = demo_times\<rparr>"

lemma echo_app_permissive: "permissive echo_app"
  by (simp add: permissive_def echo_app_def)

definition string_type :: "str_map \<Rightarrow> bool" where
  "string_type hs \<longleftrightarrow> (let ct = hdr_lookup ''content-type'' hs in
     ct = [] \<or> str_find ''application/x-www-form-urlencoded'' ct = None \<and> str_find ''multipart/form-data'' ct = None \<and>
       str_find ''application/octet-stream'' ct = None)"

definition reading :: "connection \<Rightarrow> nat \<Rightarrow> string \<Rightarrow> bool" where
  "reading c cap got \<longleftrightarrow> continue_work c = None \<and> length (buf (req c)) = cap \<and> cur_size (req c) = length got \<and> length got < cap \<and>
     take (length got) (buf (req c)) = got \<and> \<not> is_chunked (req c) \<and> max_header_len (req c) = 1024 * 1024 \<and> \<not> at_capacity (req c)"

lemma check_keep_alive_req [simp]: "req (check_keep_alive c) = req c" "continue_work (check_keep_alive c) = continue_work c"
  by (simp_all add: check_keep_alive_def Let_def split: prod.splits)

text \<open>The head is parsed and the body is that of a string.\<close>

lemma handle_read_string:
  assumes "admits A m (url_path p)" "\<forall>c \<in> set m. plain_char c" "m \<noteq> []" "\<forall>c \<in> set p. plain_char c" "CHR ''/'' \<in> set p" "v \<le> 9"
    "head_text m p v hs H" "length hs \<le> 32" "string_type hs" "hdr_lookup ''content-length'' hs = dec n" "0 < n" "n < 2 ^ 63"
    "reading c cap (H @ b)" "cap \<le> 1024 * 1024"
  shows "\<exists>c' type. handle_read A fresh k c = handle_string_body A (c'\<lparr>req := (req c')\<lparr>http_type := type\<rparr>\<rparr>) \<and> type \<noteq> ct_multipart \<and>
    head_parsed H m p v hs (req c') \<and> buf (req c') = buf (req c) \<and> cur_size (req c') = cur_size (req c) \<and> \<not> is_chunked (req c') \<and>
    max_header_len (req c') = 1024 * 1024 \<and> continue_work c' = None"
proof -
    have rd: "take (cur_size (req c)) (buf (req c)) = H @ b" "cur_size (req c) \<le> max_header_len (req c)"
    using assms(13,14) by (auto simp: reading_def)
  obtain rq where rq: "Request.parse_header (\<lambda>r. (r, True)) (req c) = Some (rq, int (length H))" "head_parsed H m p v hs rq"
    "buf rq = buf (req c)" "cur_size rq = cur_size (req c)" "max_header_len rq = max_header_len (req c)"
    "hdr_lookup ''content-length'' hs \<noteq> [] \<longrightarrow> is_chunked rq = is_chunked (req c)"
    using parse_header_text [OF assms(2-8) rd] by auto
  have ne: "hdr_lookup ''content-length'' hs \<noteq> []" using dec_first [of n] assms(10) by auto
  have chk: "check_request A = (\<lambda>r. (r, True))" using assms(1) by (auto simp: admits_def)
  define c1 where "c1 = check_keep_alive (c\<lparr>req := rq\<rparr>)"
  have pk: "peek_route A (c\<lparr>req := rq\<rparr>) = (c\<lparr>req := rq\<rparr>, True)" using assms(1) rq(2) by (simp add: admits_def peek_route_def head_parsed_def url_path_def)
  have ch: "\<not> is_chunked rq" using rq(6) ne assms(13) by (simp add: reading_def)
  have bl: "body_len rq = of_nat n" using rq(2) declared_len_dec [OF assms(12,10)] by (simp add: head_parsed_def)
  then have hb: "has_body rq" using assms(11,12) unat_size_t [of n] by (auto simp: has_body_def unat_eq_0 [symmetric])
  have ct: "get_header_value ''content-type'' rq = hdr_lookup ''content-type'' hs" using rq(2) by (simp add: head_parsed_def)
  have "\<exists>type. get_content_type fresh c1 = Some (c1, type) \<and> type \<in> {ct_string, ct_json, ct_unknown}"
    using assms(9) ch by (auto simp: get_content_type_def c1_def ct string_type_def Let_def)
  then obtain type where ty: "get_content_type fresh c1 = Some (c1, type)" "type \<in> {ct_string, ct_json, ct_unknown}" by blast
  have "handle_read A fresh k c = handle_request A fresh k c1"
    using rq(1) pk by (simp add: handle_read_def chk c1_def Let_def)
  also have "\<dots> = handle_string_body A (c1\<lparr>req := (req c1)\<lparr>http_type := type\<rparr>\<rparr>)"
    using ty hb by (auto simp: handle_request_def c1_def Let_def)
  finally show ?thesis using rq assms(13) ch by (intro exI [of _ c1] exI [of _ type]) (use ty in \<open>auto simp: c1_def reading_def\<close>)
qed

section \<open>One read\<close>

definition burst :: "string \<Rightarrow> recv_answer list" where
  "burst x = [Data x, Recv_again]"

lemma header_str_http_type [simp]:
  "header_name_str (r\<lparr>http_type := t\<rparr>) = header_name_str r" "header_value_str (r\<lparr>http_type := t\<rparr>) = header_value_str r"
  by (simp_all add: header_name_str_def header_value_str_def fun_eq_iff split: option.splits)

lemma get_header_value_http_type [simp]: "get_header_value key (r\<lparr>http_type := t\<rparr>) = get_header_value key r"
  by (simp add: get_header_value_def split: option.splits)

lemma head_parsed_http_type [simp]: "head_parsed H m p v hs (r\<lparr>http_type := t\<rparr>) = head_parsed H m p v hs r"
  by (simp add: head_parsed_def get_method_def get_url_def)

lemma body_http_type [simp]: "body (r\<lparr>http_type := t\<rparr>) = body r"
  by (simp add: body_def Let_def)

definition after_read :: "string \<Rightarrow> connection \<Rightarrow> connection" where
  "after_read x c = c\<lparr>req := (store_at_end x (req c))\<lparr>cur_size := cur_size (req c) + length x\<rparr>\<rparr>"

lemma reading_after_read:
  assumes "reading c cap got" "length got + length x < cap"
  shows "reading (after_read x c) cap (got @ x)"
proof -
  have "cur_size (req c) + length x \<le> length (buf (req c))" using assms by (simp add: reading_def)
  from store_received [OF this] show ?thesis
    using assms by (simp add: reading_def after_read_def at_capacity_def total_len_def store_at_end_def)
qed

lemma handle_loop_burst:
  assumes "reading c cap got" "length got + length x < cap" "x \<noteq> []" "cap \<le> MaxSize"
  shows "handle_loop A fresh (burst x @ ks) sent c =
    (case process A fresh (after_read x c) of
       None \<Rightarrow> (sent, Crashed, after_read x c)
     | Some (c, need_read) \<Rightarrow> handle_loop A fresh ks sent c
     | Some (c, need_write) \<Rightarrow> (sent @ [rep_str (res c)], Answered, c)
     | Some (c, need_write_then_read) \<Rightarrow> handle_loop A fresh ks (sent @ [rep_str (res c)]) c)"
proof -
  have ls: "length x < left_size (req c)" using assms(1,2) by (simp add: left_size_def reading_def)
  then have r: "recv (burst x @ ks) (left_size (req c)) [] = Some (Inr (length x), x, ks)" by (simp add: burst_def Let_def)
  have us: "update_size (length x) (store_at_end x (req c)) = (req (after_read x c), False)"
    using assms by (simp add: update_size_def after_read_def store_at_end_def reading_def Let_def)
  have ar: "c\<lparr>req := req (after_read x c)\<rparr> = after_read x c" by (simp add: after_read_def)
  show ?thesis using assms(3) by (subst handle_loop.simps) (simp add: r us ar Let_def split: option.splits)
qed

text \<open>The whole request fits the first buffer.\<close>

definition good_request :: "app \<Rightarrow> string \<Rightarrow> string \<Rightarrow> nat \<Rightarrow> str_map \<Rightarrow> nat \<Rightarrow> bool" where
  "good_request A m p v hs n \<longleftrightarrow> admits A m (url_path p) \<and> (\<forall>c \<in> set m. plain_char c) \<and> m \<noteq> [] \<and> (\<forall>c \<in> set p. plain_char c) \<and> CHR ''/'' \<in> set p \<and>
     v \<le> 9 \<and> (\<forall>nv \<in> set hs. header_ok nv) \<and> length hs \<le> 32 \<and> string_type hs \<and> hdr_lookup ''content-length'' hs = dec n \<and> 0 < n"

lemma process_string:
  assumes "good_request A m p v hs n" "reading c cap (H @ b)" "cap \<le> 1024 * 1024" "length H + n \<le> MaxSize" "head_text m p v hs H"
  shows "\<exists>c1. process A fresh c = handle_string_body A c1 \<and> http_type (req c1) \<noteq> ct_multipart \<and> head_parsed H m p v hs (req c1) \<and> buf (req c1) = buf (req c) \<and>
    cur_size (req c1) = cur_size (req c) \<and> \<not> is_chunked (req c1) \<and> max_header_len (req c1) = 1024 * 1024 \<and> continue_work c1 = None \<and>
    header_len (req c1) = int (length H) \<and> body_len (req c1) = of_nat n \<and> \<not> at_capacity (req c1) \<and>
    (has_recieved_all (req c1) \<longleftrightarrow> n \<le> length b)"
proof -
  have n: "n < 2 ^ 63" "length H + n < 2 ^ 63" using assms(4) by (simp_all add: MaxSize_def)
  note g = assms(1) [unfolded good_request_def]
  obtain c' type where c': "handle_read A fresh (last_transfer c) c = handle_string_body A (c'\<lparr>req := (req c')\<lparr>http_type := type\<rparr>\<rparr>)"
    "head_parsed H m p v hs (req c')" "buf (req c') = buf (req c)" "cur_size (req c') = cur_size (req c)" "\<not> is_chunked (req c')"
    "max_header_len (req c') = 1024 * 1024" "continue_work c' = None" "type \<noteq> ct_multipart"
    using handle_read_string [of A m p v hs H n c cap b fresh "last_transfer c"] g n(1) assms(2,3,5) by blast
  define c1 where "c1 = c'\<lparr>req := (req c')\<lparr>http_type := type\<rparr>\<rparr>"
  have hb: "header_len (req c1) = int (length H)" "body_len (req c1) = of_nat n"
    using c'(2) declared_len_dec [OF n(1)] g by (simp_all add: c1_def head_parsed_def)
  have cs: "cur_size (req c1) = length (H @ b)" "cur_size (req c1) < 2 ^ 63"
    using assms(2,3) c'(4) by (simp_all add: c1_def reading_def)
  note sz = request_sizes [OF hb n(2) cs(2)]
  have "process A fresh c = handle_string_body A c1" using assms(2) c'(1) by (simp add: process_def reading_def c1_def)
  then show ?thesis using c' hb sz cs(1) assms(4) by (intro exI [of _ c1]) (simp add: c1_def)
qed

lemma process_complete:
  assumes "good_request A m p v hs n" "reading c cap (H @ b)" "cap \<le> 1024 * 1024" "length b = n"
    "length H + n \<le> MaxSize" "head_text m p v hs H"
  shows "\<exists>c1. process A fresh c = Some (call_back A c1, need_write) \<and> head_parsed H m p v hs (req c1) \<and> body (req c1) = Some b"
proof -
  obtain c1 where c1: "process A fresh c = handle_string_body A c1" "head_parsed H m p v hs (req c1)" "buf (req c1) = buf (req c)"
    "header_len (req c1) = int (length H)" "body_len (req c1) = of_nat n" "\<not> at_capacity (req c1)" "has_recieved_all (req c1)"
    "http_type (req c1) \<noteq> ct_multipart"
    using process_string [OF assms(1-3,5,6)] assms(4) by auto
  have u: "unat (of_nat n :: size_t) = n" using assms(5) by (intro unat_size_t) (simp add: MaxSize_def)
  have "0 < (of_nat n :: size_t)" using u assms(1) by (simp add: word_less_nat_alt good_request_def)
  then have "handle_string_body A c1 = Some (call_back A c1, need_write)"
    using c1(5-8) assms(1) by (simp add: handle_string_body_def handle_body_def good_request_def admits_def)
  moreover have "body (req c1) = Some b"
  proof -
    obtain z where z: "z = drop (length (H @ b)) (buf (req c))" by blast
    have "buf (req c) = (H @ b) @ drop (length (H @ b)) (buf (req c))"
      using assms(2) append_take_drop_id [of "length (H @ b)" "buf (req c)"] unfolding reading_def by metis
    then have "buf (req c) = H @ b @ z" unfolding z [symmetric] by simp
    then show ?thesis using c1(3-5) u assms(4) by (simp add: body_def Let_def)
  qed
  ultimately show ?thesis using c1(1,2) by auto
qed

section \<open>Bodies in pieces\<close>

lemma small_not_minus_one:
  assumes "n < 2 ^ 63"
  shows "(of_nat n :: size_t) \<noteq> - 1"
proof -
  have m1: "(- 1 :: size_t) = of_nat (2 ^ 64 - 1)" by (subst of_nat_diff) simp_all
  have "unat (- 1 :: size_t) = 2 ^ 64 - 1" unfolding m1 by (rule unat_size_t) simp
  moreover have "unat (of_nat n :: size_t) = n" using assms by (intro unat_size_t) simp
  ultimately show ?thesis using assms by auto
qed

lemma process_partial:
  assumes "good_request A m p v hs n" "reading c 1024 (H @ b)" "length b < n" "length H + n < 1024" "head_text m p v hs H"
  shows "\<exists>c'. process A fresh c = Some (c', need_read) \<and> reading c' 1024 (H @ b)"
proof -
  obtain c1 where c1: "process A fresh c = handle_string_body A c1" "buf (req c1) = buf (req c)" "cur_size (req c1) = cur_size (req c)"
    "\<not> is_chunked (req c1)" "max_header_len (req c1) = 1024 * 1024" "continue_work c1 = None"
    "header_len (req c1) = int (length H)" "body_len (req c1) = of_nat n" "\<not> at_capacity (req c1)" "\<not> has_recieved_all (req c1)"
    using process_string [OF assms(1,2) _ _ assms(5)] assms(3,4) by (auto simp: MaxSize_def)
  have cs: "cur_size (req c1) = length H + length b" "length (buf (req c1)) = 1024" using assms(2) c1(2,3) by (simp_all add: reading_def)
  have tl: "total_len (req c1) = of_nat (length H + n)"
    using request_sizes(1) [OF c1(7,8)] cs(1) assms(3,4) by simp
  have u: "unat (of_nat (length H + n) :: size_t) = length H + n" "unat (of_nat 1024 :: size_t) = 1024" "unat (of_nat MaxSize :: size_t) = MaxSize"
    using assms(4) by (auto intro!: unat_size_t simp: MaxSize_def simp del: of_nat_add)
  have ex: "expand_size (req c1) = req c1"
    using u assms(4) cs(2)
    by (simp add: expand_size_def grow_to_def tl word_less_nat_alt MaxSize_def Let_def del: of_nat_add)
  have ps: "of_nat (cur_size (req c1)) - word_of_int (header_len (req c1)) = (of_nat (length b) :: size_t)" by (simp add: cs(1) c1(7))
  have "(of_nat (length b) :: size_t) \<noteq> - 1" using assms(3,4) by (intro small_not_minus_one) simp
  then have "handle_string_body A c1 = Some (c1\<lparr>req := reduce_left_body_size (of_nat (length b)) (req c1)\<rparr>, need_read)"
    using c1(7,9,10) cs(1) by (simp add: handle_string_body_def ex ps Let_def)
  moreover have "reading (c1\<lparr>req := reduce_left_body_size (of_nat (length b)) (req c1)\<rparr>) 1024 (H @ b)"
    using assms(2) c1(2-9) by (simp add: reading_def reduce_left_body_size_def at_capacity_def total_len_def)
  ultimately show ?thesis using c1(1) by auto
qed

lemma handle_loop_chunks:
  assumes "good_request A m p v hs n" "length H + n < 1024" "\<forall>x \<in> set chunks. x \<noteq> []"
    "reading c 1024 (H @ b)" "length b < n" "length (b @ concat chunks) = n" "head_text m p v hs H"
  shows "\<exists>c1. handle_loop A fresh (concat (map burst chunks) @ ks) sent c = (sent @ [rep_str (res (call_back A c1))], Answered, call_back A c1) \<and>
    head_parsed H m p v hs (req c1) \<and> body (req c1) = Some (b @ concat chunks)"
  using assms(3-6)
proof (induction chunks arbitrary: c b)
  case (Cons x chunks)
  have lx: "length (H @ b) + length x < 1024" using Cons.prems(4) assms(2) by simp
  have rd: "reading (after_read x c) 1024 (H @ (b @ x))" using reading_after_read [OF Cons.prems(2) lx] by simp
  have hl: "handle_loop A fresh (concat (map burst (x # chunks)) @ ks) sent c =
    (case process A fresh (after_read x c) of
       None \<Rightarrow> (sent, Crashed, after_read x c)
     | Some (c, need_read) \<Rightarrow> handle_loop A fresh (concat (map burst chunks) @ ks) sent c
     | Some (c, need_write) \<Rightarrow> (sent @ [rep_str (res c)], Answered, c)
     | Some (c, need_write_then_read) \<Rightarrow> handle_loop A fresh (concat (map burst chunks) @ ks) (sent @ [rep_str (res c)]) c)"
    using handle_loop_burst [OF Cons.prems(2) lx] Cons.prems(1) by (simp add: MaxSize_def)
  show ?case
  proof (cases "length (b @ x) < n")
    case True
    obtain c' where "process A fresh (after_read x c) = Some (c', need_read)" "reading c' 1024 (H @ (b @ x))"
      using process_partial [OF assms(1) rd True assms(2,7)] by blast
    then show ?thesis using Cons.IH [of c' "b @ x"] Cons.prems(1,4) True hl by auto
  next
    case False
    then have full: "length (b @ x) = n" "concat chunks = []" using Cons.prems(4) by auto
    obtain c1 where "process A fresh (after_read x c) = Some (call_back A c1, need_write)" "head_parsed H m p v hs (req c1)" "body (req c1) = Some (b @ x)"
      using process_complete [OF assms(1) rd _ full(1) _ assms(7)] assms(2) by (auto simp: MaxSize_def)
    then show ?thesis using hl full(2) by auto
  qed
qed simp

lemma reading_new: "reading (connection_new now garbage flag) 1024 []"
  by (simp add: reading_def connection_new_def request_new_def at_capacity_def total_len_def)

text \<open>A request whose head is the text \<open>H\<close>.\<close>

lemma string_text_delivered:
  assumes "good_request A m p v hs (length (concat (b # chunks)))" "length H + length (concat (b # chunks)) < 1024"
    "\<forall>x \<in> set chunks. x \<noteq> []" "head_text m p v hs H"
  shows "\<exists>c1. handle_loop A fresh (concat (map burst ((H @ b) # chunks)) @ ks) [] (connection_new now garbage flag) =
      ([rep_str (res (call_back A c1))], Answered, call_back A c1) \<and>
    get_method (req c1) = m \<and> get_url (req c1) = url_path p \<and>
    (\<forall>key. get_header_value key (req c1) = hdr_lookup key hs) \<and> body (req c1) = Some (concat (b # chunks))"
proof -
  let ?c = "connection_new now garbage flag" and ?n = "length (concat (b # chunks))"
  have lx: "length [] + length (H @ b) < 1024" using assms(2) by simp
  have rd: "reading (after_read (H @ b) ?c) 1024 (H @ b)" using reading_after_read [OF reading_new lx] by simp
  have ne: "H @ b \<noteq> []" using head_text_parts(3) [OF assms(4)] by simp
  note hl = handle_loop_burst [OF reading_new lx ne, of A fresh "concat (map burst chunks) @ ks" "[]"]
  have "\<exists>c1. handle_loop A fresh (burst (H @ b) @ concat (map burst chunks) @ ks) [] ?c = ([rep_str (res (call_back A c1))], Answered, call_back A c1) \<and>
    head_parsed H m p v hs (req c1) \<and> body (req c1) = Some (concat (b # chunks))"
  proof (cases "length b < ?n")
    case True
    obtain c' where "process A fresh (after_read (H @ b) ?c) = Some (c', need_read)" "reading c' 1024 (H @ b)"
      using process_partial [OF assms(1) rd True assms(2,4)] by blast
    then show ?thesis using handle_loop_chunks [OF assms(1,2,3) _ _ _ assms(4), of c' b fresh ks "[]"] True hl by (simp add: MaxSize_def)
  next
    case False
    then have full: "length b = ?n" "concat chunks = []" by auto
    obtain c1 where "process A fresh (after_read (H @ b) ?c) = Some (call_back A c1, need_write)" "head_parsed H m p v hs (req c1)" "body (req c1) = Some b"
      using process_complete [OF assms(1) rd _ full(1) _ assms(4)] assms(2) by (auto simp: MaxSize_def)
    then show ?thesis using hl full(2) by (auto simp: MaxSize_def)
  qed
  then show ?thesis by (auto simp: head_parsed_def url_path_def)
qed

text \<open>
  (C2) A well-formed request with a body of a type that is read as one string (\<open>string_type\<close>: not a form, multipart or octet stream), of the announced length, is delivered once and complete: if it
  passes the checks of headers and route, head and body together have less than 1024 bytes, and the whole head arrives with
  the first read, then however the body is cut into reads, the connection waits for all of it and then calls the
  application exactly once, with the method, the path and the headers of the head and exactly the bytes of the body,
  and sends the response the application made.
\<close>

theorem string_body_delivered:
  assumes "good_request A m p v hs (length (concat (b # chunks)))" "length (print_request m p v hs) + length (concat (b # chunks)) < 1024"
    "\<forall>x \<in> set chunks. x \<noteq> []"
  shows "\<exists>c1. handle_loop A fresh (concat (map burst ((print_request m p v hs @ b) # chunks)) @ ks) [] (connection_new now garbage flag) =
      ([rep_str (res (call_back A c1))], Answered, call_back A c1) \<and>
    get_method (req c1) = m \<and> get_url (req c1) = url_path p \<and>
    (\<forall>key. get_header_value key (req c1) = hdr_lookup key hs) \<and> body (req c1) = Some (concat (b # chunks))"
  using string_text_delivered [OF assms head_text_print] assms(1) unfolding good_request_def by blast

theorem string_body_delivered_witness:
  "\<exists>c1. handle_loop echo_app [] (burst (print_request ''POST'' ''/a?b'' 1 [(''Content-Length'', ''3'')] @ ''x'') @ burst ''yz'') []
      (connection_new 0 no_content_type False) = ([rep_str (res (call_back echo_app c1))], Answered, call_back echo_app c1) \<and>
    get_method (req c1) = ''POST'' \<and> get_url (req c1) = ''/a'' \<and> body (req c1) = Some ''xyz''"
proof -
  let ?hs = "[(''Content-Length'', ''3'')]"
  have "\<forall>c \<in> set ''POST''. plain_char c" "\<forall>c \<in> set ''/a?b''. plain_char c" "\<forall>nv \<in> set ?hs. header_ok nv" "string_type ?hs"
    "hdr_lookup ''content-length'' ?hs = dec (length (concat [''x'', ''yz'']))" by code_simp+
  then have "good_request echo_app ''POST'' ''/a?b'' 1 ?hs (length (concat [''x'', ''yz'']))"
    unfolding good_request_def using permissive_admits [OF echo_app_permissive] by simp
  moreover have "length (print_request ''POST'' ''/a?b'' 1 ?hs) = 41" by code_simp
  ultimately show ?thesis using string_body_delivered [of echo_app "''POST''" "''/a?b''" 1 ?hs "''x''" "[''yz'']" "[]" "[]" 0 no_content_type False] by (auto simp: url_path_def)
qed

section \<open>Outside the limits\<close>

lemma grow_to_length:
  assumes "length (buf r) = 1024" "1024 \<le> t" "t \<le> MaxSize"
  shows "length (buf (grow_to (of_nat t) r)) = t" "cur_size (grow_to (of_nat t) r) = cur_size r" "header_len (grow_to (of_nat t) r) = header_len r"
    "body_len (grow_to (of_nat t) r) = body_len r"
proof -
  have u: "unat (of_nat t :: size_t) = t" "unat (of_nat MaxSize :: size_t) = MaxSize" "unat (of_nat 1024 :: size_t) = 1024"
    using assms(3) by (auto intro!: unat_size_t simp: MaxSize_def)
  show "length (buf (grow_to (of_nat t) r)) = t" "cur_size (grow_to (of_nat t) r) = cur_size r" "header_len (grow_to (of_nat t) r) = header_len r"
    "body_len (grow_to (of_nat t) r) = body_len r"
    using assms u by (auto simp: grow_to_def Request.resize_def word_less_nat_alt MaxSize_def Let_def)
qed

text \<open>
  (C39) A well-formed request that passes the checks of headers and route, with a body that is read as one string (\<open>string_type\<close>), of 1024 bytes or more and at most \<open>MaxSize\<close>, whose whole head arrives with a first read of less than 1024
  bytes, is not answered when a second read brings all the rest: the buffer is enlarged to exactly the size of the request, and the read that completes it fills the buffer, which the receive loop reports as an error; the connection is
  dropped and the application is not called.
\<close>

theorem large_body_dropped:
  assumes "good_request A m p v hs (length (b @ b'))" "length (print_request m p v hs @ b) < 1024" "b' \<noteq> []"
    "1024 \<le> length (print_request m p v hs @ b @ b')" "length (print_request m p v hs @ b @ b') \<le> MaxSize"
  shows "\<exists>c'. handle_loop A fresh (burst (print_request m p v hs @ b) @ burst b' @ ks) [] (connection_new now garbage flag) =
    ([], Io_exception (RecvError ''buffer not enough space''), c')"
proof -
  let ?H = "print_request m p v hs" and ?c = "connection_new now garbage flag" and ?n = "length (b @ b')"
  have H: "head_text m p v hs ?H" using assms(1) by (simp add: good_request_def head_text_print)
  have lx: "length [] + length (?H @ b) < 1024" using assms(2) by simp
  have rd: "reading (after_read (?H @ b) ?c) 1024 (?H @ b)" using reading_after_read [OF reading_new lx] by simp
  obtain c1 where c1: "process A fresh (after_read (?H @ b) ?c) = handle_string_body A c1" "buf (req c1) = buf (req (after_read (?H @ b) ?c))"
    "cur_size (req c1) = cur_size (req (after_read (?H @ b) ?c))"
    "header_len (req c1) = int (length ?H)" "body_len (req c1) = of_nat ?n" "\<not> at_capacity (req c1)" "\<not> has_recieved_all (req c1)"
    using process_string [OF assms(1) rd _ _ H] assms(3,5) by auto
  have cs: "cur_size (req c1) = length ?H + length b" "length (buf (req c1)) = 1024" using rd c1(2,3) by (simp_all add: reading_def)
  have tl: "total_len (req c1) = of_nat (length ?H + ?n)"
    using request_sizes(1) [OF c1(4,5)] cs(1) assms(2,5) by (simp add: MaxSize_def)
  note gr = grow_to_length [OF cs(2), of "length ?H + ?n"]
  have ex: "length (buf (expand_size (req c1))) = length ?H + ?n" "cur_size (expand_size (req c1)) = length ?H + length b"
    "header_len (expand_size (req c1)) = int (length ?H)"
    using gr assms(4,5) cs(1) c1(4) unfolding expand_size_def tl by simp_all
  have ps: "of_nat (cur_size (expand_size (req c1))) - word_of_int (header_len (expand_size (req c1))) = (of_nat (length b) :: size_t)"
    by (simp add: ex)
  have "(of_nat (length b) :: size_t) \<noteq> - 1" using assms(2) by (intro small_not_minus_one) simp
  then obtain c2 where c2: "handle_string_body A c1 = Some (c2, need_read)" "left_size (req c2) = length b'"
    using c1(6,7) ps by (simp add: handle_string_body_def ex left_size_def reduce_left_body_size_def Let_def)
  have "recv (burst b' @ ks) (length b') [] = Some (Inl (RecvError ''buffer not enough space''), b', Data [] # Recv_again # ks)"
    using assms(3) by (simp add: burst_def Let_def)
  then have "\<exists>c'. handle_loop A fresh (burst b' @ ks) [] c2 = ([], Io_exception (RecvError ''buffer not enough space''), c')"
    by (subst handle_loop.simps) (simp add: c2(2))
  then show ?thesis
    using handle_loop_burst [OF reading_new lx, of A fresh "burst b' @ ks" "[]"] c1(1) c2(1) by (simp add: MaxSize_def print_request_def)
qed

theorem large_body_dropped_witness:
  "\<exists>c'. handle_loop echo_app [] (burst (print_request ''POST'' ''/'' 1 [(''Content-Length'', ''1000'')] @ ''x'') @ burst (replicate 999 (CHR ''y''))) []
      (connection_new 0 no_content_type False) = ([], Io_exception (RecvError ''buffer not enough space''), c')"
proof -
  let ?hs = "[(''Content-Length'', ''1000'')]" and ?b' = "replicate 999 (CHR ''y'')"
  have "\<forall>c \<in> set ''POST''. plain_char c" "\<forall>c \<in> set ''/''. plain_char c" "\<forall>nv \<in> set ?hs. header_ok nv" "string_type ?hs"
    "hdr_lookup ''content-length'' ?hs = dec 1000" by code_simp+
  then have "good_request echo_app ''POST'' ''/'' 1 ?hs (length (''x'' @ ?b'))"
    unfolding good_request_def using permissive_admits [OF echo_app_permissive] by simp
  moreover have "length (print_request ''POST'' ''/'' 1 ?hs) = 41" by code_simp
  ultimately show ?thesis
    using large_body_dropped [of echo_app "''POST''" "''/''" 1 ?hs "''x''" ?b' "[]" "[]" 0 no_content_type False] by (simp add: MaxSize_def)
qed

text \<open>
  A head that does not arrive with the first read is refused: after an incomplete head the length of the head is \<open>- 2\<close>, which the
  capacity test reads as a huge number, so that the next read is answered with the status 400 and the text that the
  request is too long, whatever was read.
\<close>

theorem split_head_refused:
  assumes "permissive A" "phr_parse_request x 32 0 = (res_out, Ret (- 2))" "x \<noteq> []" "y \<noteq> []" "length x + length y < 1024"
  shows "\<exists>rep c'. handle_loop A fresh (burst x @ burst y @ ks) [] (connection_new now garbage flag) = ([rep], Answered, c') \<and>
    take 12 rep = ''HTTP/1.1 400'' \<and> drop (length rep - length too_long) rep = too_long"
proof -
  let ?c = "connection_new now garbage flag"
  have lx: "length [] + length x < 1024" using assms(5) by simp
  have rd: "reading (after_read x ?c) 1024 x" using reading_after_read [OF reading_new lx] by simp
  have b0: "body_len (req (after_read x ?c)) = 0" by (simp add: after_read_def connection_new_def request_new_def store_at_end_def)
  define rq where "rq = take_out res_out (- 2) ((req (after_read x ?c))\<lparr>copy_headers := []\<rparr>)"
  have tx: "take (cur_size (req (after_read x ?c))) (buf (req (after_read x ?c))) = x" "cur_size (req (after_read x ?c)) = length x"
    "max_header_len (req (after_read x ?c)) = 1024 * 1024"
    using rd by (auto simp: reading_def)
  have "Request.parse_header (check_request A) (req (after_read x ?c)) = Some (rq, - 2)"
    using assms(2,5) tx by (simp add: Request.parse_header_def rq_def Let_def)
  moreover have "peek_route A c = (c, True)" for c using assms(1) by (simp add: peek_route_def permissive_def)
  ultimately have pr: "process A fresh (after_read x ?c) = Some (check_keep_alive ((after_read x ?c)\<lparr>req := rq\<rparr>), need_read)"
    using rd by (simp add: process_def handle_read_def reading_def)
  define c2 where "c2 = check_keep_alive ((after_read x ?c)\<lparr>req := rq\<rparr>)"
  have r2: "req c2 = rq" by (simp add: c2_def)
  have sz: "length (buf rq) = 1024" "cur_size rq = length x" "header_len rq = - 2" "body_len rq = 0"
    using rd b0 by (simp_all add: rq_def take_out_def reading_def)
  have rv: "recv (burst y @ ks) (left_size rq) [] = Some (Inr (length y), y, ks)"
    using assms(5) sz(1,2) by (simp add: burst_def left_size_def Let_def)
  define rq3 where "rq3 = (store_at_end y rq)\<lparr>cur_size := length x + length y\<rparr>"
  have us: "update_size (length y) (store_at_end y rq) = (rq3, False)"
    using assms(5) sz(2) by (simp add: update_size_def rq3_def store_at_end_def MaxSize_def Let_def)
  have m2: "(- 2 :: size_t) = of_nat (2 ^ 64 - 2)" by (subst of_nat_diff) simp_all
  have "unat (- 2 :: size_t) = 2 ^ 64 - 2" unfolding m2 by (rule unat_size_t) simp
  moreover have "unat (of_nat MaxSize :: size_t) = MaxSize" by (rule unat_size_t) (simp add: MaxSize_def)
  ultimately have cap: "at_capacity rq3"
    using sz(3,4) by (simp add: at_capacity_def total_len_def rq3_def store_at_end_def word_less_nat_alt MaxSize_def)
  define rs where "rs = the (set_status_and_content (times A) bad_request too_long no_content_type (res c2))"
  have rs: "rep_str rs = print_response 400 (reason bad_request) (response_fields (times A) (set_content too_long ((res c2)\<lparr>status := bad_request, res_type := no_content_type\<rparr>))) @ too_long"
    using build_response_str_wire [of "times A" "set_content too_long ((res c2)\<lparr>status := bad_request, res_type := no_content_type\<rparr>)"]
    by (auto simp: rs_def set_status_and_content_def set_content_def Response.wire_code_def)
  have "\<exists>c'. handle_loop A fresh (burst y @ ks) [] c2 = ([rep_str rs], Answered, c')"
    using assms(4) cap by (subst handle_loop.simps) (simp add: r2 rv us process_def response_back_def rs_def Let_def)
  then have "\<exists>c'. handle_loop A fresh (burst x @ burst y @ ks) [] ?c = ([rep_str rs], Answered, c')"
    using handle_loop_burst [OF reading_new lx assms(3), of A fresh "burst y @ ks" "[]"] pr by (simp add: MaxSize_def c2_def)
  moreover have "take 12 (rep_str rs) = ''HTTP/1.1 400''" unfolding rs print_response_def by code_simp
  moreover have "drop (length (rep_str rs) - length too_long) (rep_str rs) = too_long" unfolding rs by simp
  ultimately show ?thesis by blast
qed

theorem split_head_refused_witness:
  "\<exists>rep c'. handle_loop echo_app [] (burst ''GET / HT'' @ burst ''TP/1.1'') [] (connection_new 0 no_content_type False) = ([rep], Answered, c') \<and>
    take 12 rep = ''HTTP/1.1 400'' \<and> drop (length rep - length too_long) rep = too_long"
proof -
  have "snd (phr_parse_request ''GET / HT'' 32 0) = Ret (- 2)" by code_simp
  then have "phr_parse_request ''GET / HT'' 32 0 = (fst (phr_parse_request ''GET / HT'' 32 0), Ret (- 2))" by (metis prod.collapse)
  from split_head_refused [OF echo_app_permissive this, of "''TP/1.1''" "[]" "[]" 0 no_content_type False] show ?thesis by simp
qed

section \<open>Requests without a body\<close>

definition bare_request :: "app \<Rightarrow> string \<Rightarrow> string \<Rightarrow> nat \<Rightarrow> str_map \<Rightarrow> bool" where
  "bare_request A m p v hs \<longleftrightarrow> admits A m (url_path p) \<and> (\<forall>c \<in> set m. plain_char c) \<and> m \<noteq> [] \<and> (\<forall>c \<in> set p. plain_char c) \<and> CHR ''/'' \<in> set p \<and>
     v \<le> 9 \<and> (\<forall>nv \<in> set hs. header_ok nv) \<and> length hs \<le> 32 \<and> hdr_lookup ''content-length'' hs = [] \<and>
     hdr_lookup ''transfer-encoding'' hs \<noteq> ''chunked'' \<and> hdr_lookup ''upgrade'' hs = []"

lemma is_upgrade_none: "header ''upgrade'' = [] \<Longrightarrow> is_upgrade mth header w = (False, w)"
  by (simp add: is_upgrade_def)

lemma check_keep_alive_plain:
  assumes "get_header_value ''upgrade'' (req c) = []" "\<not> upgraded c"
  shows "\<not> upgraded (check_keep_alive c)" "file_tag (check_keep_alive c) = file_tag c"
  using assms by (simp_all add: check_keep_alive_def is_upgrade_none Let_def)

lemma process_bare:
  assumes "bare_request A m p v hs" "reading c cap (H @ b)" "cap \<le> 1024 * 1024" "\<not> upgraded c" "head_text m p v hs H"
  shows "\<exists>c1. process A fresh c = Some (call_back A c1, need_write) \<and> head_parsed H m p v hs (req c1) \<and> rq_state (req c1) = rq_state (req c) \<and>
    (\<exists>ka. res c1 = (res c)\<lparr>res_keep_alive := ka\<rparr>)"
proof -
  note g = assms(1) [unfolded bare_request_def]
  have rd: "take (cur_size (req c)) (buf (req c)) = H @ b" "cur_size (req c) \<le> max_header_len (req c)"
    using assms(2,3) by (auto simp: reading_def)
  obtain rq where rq: "Request.parse_header (\<lambda>r. (r, True)) (req c) = Some (rq, int (length H))" "head_parsed H m p v hs rq"
    "is_chunked rq = is_chunked (req c)" "rq_state rq = rq_state (req c)"
    using parse_header_text [OF _ _ _ _ _ assms(5) _ rd] g by auto
  have chk: "check_request A = (\<lambda>r. (r, True))" using g by (auto simp: admits_def)
  define c1 where "c1 = check_keep_alive (c\<lparr>req := rq\<rparr>)"
  have pk: "peek_route A (c\<lparr>req := rq\<rparr>) = (c\<lparr>req := rq\<rparr>, True)" using g rq(2) by (simp add: admits_def peek_route_def head_parsed_def url_path_def)
  have nb: "\<not> has_body rq" using rq(2,3) g assms(2) by (simp add: has_body_def head_parsed_def declared_len_def reading_def)
  have nu: "\<not> upgraded c1" using check_keep_alive_plain(1) [of "c\<lparr>req := rq\<rparr>"] rq(2) g assms(4) by (simp add: c1_def head_parsed_def)
  have "process A fresh c = Some (call_back A c1, need_write)"
    using assms(2) rq(1) pk nb nu
    by (simp add: process_def reading_def handle_read_def chk handle_request_def handle_header_request_def Let_def flip: c1_def) (simp add: c1_def)
  moreover have "\<exists>ka. res c1 = (res c)\<lparr>res_keep_alive := ka\<rparr>" by (auto simp: c1_def check_keep_alive_def Let_def split: prod.splits)
  ultimately show ?thesis using rq(2,4) by (auto simp: c1_def)
qed

text \<open>
  A request without a body that arrives in one read of less than 1024 bytes is answered: the application is called exactly once, with the
  method, the path and the headers of the request, and the response it makes is sent.
\<close>

lemma bare_text_delivered:
  assumes "bare_request A m p v hs" "length H < 1024" "head_text m p v hs H"
  shows "\<exists>c1. handle_loop A fresh (burst H @ ks) [] (connection_new now garbage flag) =
      ([rep_str (res (call_back A c1))], Answered, call_back A c1) \<and>
    get_method (req c1) = m \<and> get_url (req c1) = url_path p \<and>
    (\<forall>key. get_header_value key (req c1) = hdr_lookup key hs) \<and> rq_state (req c1) = data_begin \<and>
    (\<exists>ka. res c1 = (response_new now garbage)\<lparr>res_keep_alive := ka\<rparr>)"
proof -
  let ?c = "connection_new now garbage flag"
  have lx: "length [] + length H < 1024" using assms(2) by simp
  have rd: "reading (after_read H ?c) 1024 (H @ [])" using reading_after_read [OF reading_new lx] by simp
  have ne: "H \<noteq> []" using head_text_parts(3) [OF assms(3)] by simp
  have ini: "\<not> upgraded (after_read H ?c)" "rq_state (req (after_read H ?c)) = data_begin" "res (after_read H ?c) = response_new now garbage"
    by (simp_all add: after_read_def connection_new_def store_at_end_def request_new_def)
  obtain c1 where "process A fresh (after_read H ?c) = Some (call_back A c1, need_write)" "head_parsed H m p v hs (req c1)"
    "rq_state (req c1) = data_begin" "\<exists>ka. res c1 = (response_new now garbage)\<lparr>res_keep_alive := ka\<rparr>"
    using process_bare [OF assms(1) rd _ ini(1) assms(3), of fresh] unfolding ini(2,3) by auto
  then show ?thesis
    using handle_loop_burst [OF reading_new lx ne, of A fresh ks "[]"] by (auto simp: MaxSize_def head_parsed_def url_path_def)
qed

lemma bare_request_delivered:
  assumes "bare_request A m p v hs" "length (print_request m p v hs) < 1024"
  shows "\<exists>c1. handle_loop A fresh (burst (print_request m p v hs) @ ks) [] (connection_new now garbage flag) =
      ([rep_str (res (call_back A c1))], Answered, call_back A c1) \<and>
    get_method (req c1) = m \<and> get_url (req c1) = url_path p \<and>
    (\<forall>key. get_header_value key (req c1) = hdr_lookup key hs) \<and> rq_state (req c1) = data_begin"
  using bare_text_delivered [OF assms head_text_print] assms(1) unfolding bare_request_def by blast

end
