(* ===== verification/Connection_Invariant.thy ===== *)
theory Connection_Invariant
  imports Connection_Correct
begin

text \<open>
  The input buffer of a connection: what has been received always fits the buffer, and the buffer never grows beyond the maximal
  size, whatever the peer sends, whichever body is being read and whether or not the connection has been upgraded. It follows
  that the server's test for an overflow never succeeds.
\<close>

named_theorems keeps_ok \<open>operations that keep the size invariant\<close>

section \<open>Requests\<close>

lemma request_ok_fields [simp]:
  "request_ok (r\<lparr>part_data := x\<rparr>) = request_ok r" "request_ok (r\<lparr>http_type := t\<rparr>) = request_ok r" "request_ok (r\<lparr>files := fs\<rparr>) = request_ok r"
  by (simp_all add: request_ok_def)

lemma request_ok_new [keeps_ok]: "request_ok request_new"
  by (simp add: request_ok_def request_new_def MaxSize_def)

lemma request_ok_cong:
  assumes "buf r' = buf r" "cur_size r' = cur_size r \<or> cur_size r' = 0" "request_ok r"
  shows "request_ok r'"
  using assms by (auto simp: request_ok_def)

lemma request_ok_copy [keeps_ok]: "request_ok (copy_method_url_headers r) \<longleftrightarrow> request_ok r"
  by (simp add: request_ok_def)

lemma request_ok_resize:
  assumes "request_ok r" "length (buf r) \<le> n" "n \<le> MaxSize"
  shows "request_ok (Request.resize n r)"
  using assms by (simp add: request_ok_def Request.resize_def Let_def)

lemma request_ok_grow_to [keeps_ok]:
  assumes "request_ok r"
  shows "request_ok (grow_to want r)"
proof -
  have len: "length (buf r) \<le> MaxSize" using assms by (simp add: request_ok_def)
  have u: "unat (of_nat MaxSize :: size_t) = MaxSize" "unat (of_nat (length (buf r)) :: size_t) = length (buf r)"
    using len by (auto intro!: unat_size_t simp: MaxSize_def)
  show ?thesis using assms len u by (auto simp: grow_to_def word_less_nat_alt Let_def intro!: request_ok_resize)
qed

lemma request_ok_sizes [keeps_ok]:
  "request_ok r \<Longrightarrow> request_ok (fit_size r)" "request_ok r \<Longrightarrow> request_ok (expand_size r)" "request_ok r \<Longrightarrow> request_ok (set_current_size 0 r)"
  "request_ok r \<Longrightarrow> request_ok (req_reset r)" "request_ok r \<Longrightarrow> request_ok (reduce_left_body_size n r)"
  "request_ok r \<Longrightarrow> request_ok (set_lengths r)" "request_ok r \<Longrightarrow> request_ok (check_gzip r)" "request_ok r \<Longrightarrow> request_ok (take_out res_out hl r)"
  by (auto simp: fit_size_def expand_size_def set_current_size_def keeps_ok Let_def req_reset_def reduce_left_body_size_def set_lengths_def
      check_gzip_def take_out_def set_body_len_def intro: request_ok_cong split: option.splits)

lemma request_ok_cookie_url [keeps_ok]: "request_ok r \<Longrightarrow> request_ok (fst (set_cookie_url r))"
  by (auto simp: set_cookie_url_def request_ok_def Let_def split: option.splits)

lemma request_ok_files [keeps_ok]:
  "request_ok r \<Longrightarrow> request_ok (close_upload_file r)" "request_ok r \<Longrightarrow> request_ok (open_upload_file f n r)"
  "request_ok r \<Longrightarrow> request_ok (set_multipart_headers hs r)" "request_ok r \<Longrightarrow> request_ok (save_multipart_key_value k v r)"
  "request_ok r \<Longrightarrow> request_ok (update_multipart_value k v r)" "request_ok r \<Longrightarrow> request_ok (handle_multipart_key_value r)"
  by (auto simp: close_upload_file_def open_upload_file_def set_multipart_headers_def save_multipart_key_value_def update_multipart_value_def
      handle_multipart_key_value_def Let_def request_ok_def split: if_splits option.splits)

lemma request_ok_results:
  "request_ok r \<Longrightarrow> write_upload_data xs r = Some r' \<Longrightarrow> request_ok r'" "request_ok r \<Longrightarrow> parse_form_urlencoded r = Some (r', ok) \<Longrightarrow> request_ok r'"
  by (auto simp: write_upload_data_def parse_form_urlencoded_def request_ok_def split: if_splits)

lemma request_ok_parse_header:
  assumes "\<And>r. request_ok r \<Longrightarrow> request_ok (fst (check r))" "request_ok r" "Request.parse_header check r = Some (r', n)"
  shows "request_ok r'"
proof -
  let ?r = "r\<lparr>copy_headers := []\<rparr>"
  obtain res_out pr where pr: "phr_parse_request (take (cur_size ?r) (buf ?r)) 32 0 = (res_out, pr)" by fastforce
  have ok: "request_ok (take_out res_out e ?r)" for e using assms(2) by (simp add: request_ok_def take_out_def)
  show ?thesis
  proof (cases pr)
    case (Ok k)
    let ?q = "take_out res_out (int k) ?r"
    have c: "request_ok (fst (check ?q))" using assms(1) ok by blast
    have "request_ok (fst (set_cookie_url (set_lengths (check_gzip (fst (check ?q))))))" using c by (intro keeps_ok)
    then show ?thesis using assms(3) pr Ok ok c by (auto simp: Request.parse_header_def Let_def split: if_splits prod.splits)
  qed (use assms(3) pr ok in \<open>auto simp: Request.parse_header_def\<close>)
qed

lemma request_ok_received:
  assumes "request_ok r" "length xs \<le> left_size r" "n \<le> length xs"
  shows "request_ok ((store_at_end xs r)\<lparr>cur_size := cur_size r + n\<rparr>)"
  using assms by (auto simp: request_ok_def left_size_def store_at_end_def)

section \<open>Connections\<close>

definition conn_ok :: "connection \<Rightarrow> bool" where
  "conn_ok c \<longleftrightarrow> request_ok (req c)"

text \<open>Handlers get the request and may change it, but leave its buffer in order.\<close>

definition app_ok :: "app \<Rightarrow> bool" where
  "app_ok A \<longleftrightarrow>
     (\<forall>b c. conn_ok c \<longrightarrow> conn_ok (fst (route_check A b c))) \<and> (\<forall>c. conn_ok c \<longrightarrow> conn_ok (fst (ws_check A c))) \<and>
     (\<forall>f c. upload_check A = Some f \<longrightarrow> conn_ok c \<longrightarrow> conn_ok (fst (f c))) \<and>
     (\<forall>ev c. conn_ok c \<longrightarrow> conn_ok (event_call_back A ev c)) \<and> (\<forall>rq. request_ok rq \<longrightarrow> request_ok (fst (check_request A rq)))"

lemma conn_ok_new: "conn_ok (connection_new now garbage flag)"
  by (simp add: conn_ok_def connection_new_def keeps_ok)

lemma conn_ok_basic [keeps_ok]:
  "conn_ok c \<Longrightarrow> conn_ok (response_back A st txt c)" "conn_ok c \<Longrightarrow> conn_ok (response_back_default A st c)" "conn_ok c \<Longrightarrow> conn_ok (set_state st' c)"
  "conn_ok c \<Longrightarrow> conn_ok (conn_reset c)" "conn_ok c \<Longrightarrow> conn_ok (Close_conn c)" "conn_ok c \<Longrightarrow> conn_ok (check_keep_alive c)"
  "conn_ok c \<Longrightarrow> conn_ok (handle_chunked A c)" "conn_ok c \<Longrightarrow> conn_ok (direct_write xs c)"
  by (auto simp: conn_ok_def response_back_def response_back_default_def set_state_def conn_reset_def Close_conn_def handle_chunked_def direct_write_def
      keeps_ok Let_def intro: request_ok_cong)

lemma conn_ok_req: "conn_ok c \<Longrightarrow> request_ok (req c)"
  by (simp add: conn_ok_def)

lemma conn_ok_update [simp]: "conn_ok (c\<lparr>req := rq\<rparr>) \<longleftrightarrow> request_ok rq"
  by (simp add: conn_ok_def)

lemma conn_ok_fields [simp]:
  "conn_ok (c\<lparr>last_ws_str := x\<rparr>) = conn_ok c" "conn_ok (c\<lparr>ws := w\<rparr>) = conn_ok c" "conn_ok (c\<lparr>res := rs\<rparr>) = conn_ok c"
  "conn_ok (c\<lparr>keep_alive := k\<rparr>) = conn_ok c" "conn_ok (c\<lparr>upgraded := k\<rparr>) = conn_ok c" "conn_ok (c\<lparr>continue_work := cw\<rparr>) = conn_ok c"
  "conn_ok (c\<lparr>mparser := p\<rparr>) = conn_ok c"
  by (simp_all add: conn_ok_def)

lemma conn_ok_call:
  assumes "app_ok A" "conn_ok c"
  shows "conn_ok (call_back A c)" "conn_ok (fst (peek_route A c))" "conn_ok (call_event A ev c)" "request_ok (fst (check_request A (req c)))"
  using assms by (auto simp: call_back_def peek_route_def call_event_def app_ok_def conn_ok_req)

section \<open>Multipart bodies\<close>

lemma conn_ok_part_begin: "conn_ok c \<Longrightarrow> conn_ok (part_begin A hs c)"
  by (auto simp: part_begin_def Let_def conn_ok_def response_back_def set_state_def keeps_ok intro: request_ok_cong)

lemma conn_ok_part_end: "conn_ok c \<Longrightarrow> conn_ok (part_end A c)"
  using keeps_ok(9) [of "req c"]
  by (auto simp: part_end_def Let_def conn_ok_def keeps_ok intro: request_ok_cong [of _ "close_upload_file (req c)"])

lemma conn_ok_reader_event: "conn_ok c \<Longrightarrow> reader_event_cb A e c = Some c' \<Longrightarrow> conn_ok c'"
  by (cases e)
    (auto simp: conn_ok_part_begin conn_ok_part_end part_data_cb_def all_end_def keeps_ok conn_ok_req dest: request_ok_results(1) [rotated] split: if_splits)

lemma conn_ok_reader_events: "conn_ok c \<Longrightarrow> reader_events A es c = Some c' \<Longrightarrow> conn_ok c'"
  by (induction es arbitrary: c) (auto split: option.splits intro: conn_ok_reader_event)

lemma conn_ok_parse_multipart:
  assumes "conn_ok c" "parse_multipart A start n c = Some (c', err)"
  shows "conn_ok c'"
proof (cases "n = 0")
  case False
  let ?xs = "take (unat n) (drop start (buf (req c)))"
  let ?c = "c\<lparr>req := (req c)\<lparr>part_data := ?xs\<rparr>\<rparr>"
  obtain ev p where fl: "feed_loop (if has_gzip (req ?c) then [] else ?xs) [] (mparser ?c) = Some (ev, p)"
    using assms(2) False by (auto simp: parse_multipart_def Let_def split: if_splits option.splits)
  obtain es rd where rr: "reader_run ev (mreader ?c) = (es, rd)" by fastforce
  obtain d where d: "reader_events A es (?c\<lparr>mparser := p, mreader := rd\<rparr>) = Some d"
    using assms(2) False fl rr by (auto simp: parse_multipart_def Let_def split: if_splits option.splits)
  have "conn_ok (?c\<lparr>mparser := p, mreader := rd\<rparr>)" using assms(1) by (simp add: conn_ok_def request_ok_def)
  then have "conn_ok d" using d by (rule conn_ok_reader_events)
  then show ?thesis
    using assms(2) False fl rr d by (auto simp: parse_multipart_def Let_def keeps_ok conn_ok_req split: if_splits)
qed (use assms in \<open>simp add: parse_multipart_def\<close>)

lemma conn_ok_handle_multipart:
  assumes "app_ok A" "conn_ok c" "handle_multipart A c = Some (c', st)"
  shows "conn_ok c'"
proof -
  define d where "d = (case upload_check A of None \<Rightarrow> (c, True) | Some f \<Rightarrow> f c)"
  have ok: "conn_ok (fst d)" using assms(1,2) by (auto simp: d_def app_ok_def split: option.splits)
  obtain e admitted where e: "d = (e, admitted)" by fastforce
  let ?pm = "parse_multipart A (nat (header_len (req e))) (of_nat (cur_size (req e)) - word_of_int (header_len (req e))) e"
  note hm = assms(3) [unfolded handle_multipart_def d_def [symmetric] e]
  show ?thesis
  proof (cases "admitted \<and> ?pm \<noteq> None")
    case True
    then obtain f err where f: "?pm = Some (f, err)" by auto
    have "conn_ok f" using conn_ok_parse_multipart [OF _ f] ok e by simp
    then show ?thesis using hm True f conn_ok_call(1) [OF assms(1)] by (cases err) (auto simp: keeps_ok conn_ok_req split: if_splits)
  qed (use hm ok e in \<open>cases ?pm; auto simp: keeps_ok split: if_splits\<close>)
qed

lemma conn_ok_do_read_multipart:
  assumes "app_ok A" "conn_ok c" "do_read_multipart A c = Some (c', st)"
  shows "conn_ok c'"
proof -
  let ?c = "c\<lparr>req := fit_size (req c)\<rparr>"
  have ok: "conn_ok ?c" using assms(2) by (simp add: conn_ok_def keeps_ok)
  obtain d err where d: "parse_multipart A 0 (of_nat (last_transfer ?c)) ?c = Some (d, err)"
    using assms(3) by (cases "parse_multipart A 0 (of_nat (last_transfer ?c)) ?c") (auto simp: do_read_multipart_def)
  then have "conn_ok d" using conn_ok_parse_multipart [OF ok] by blast
  then show ?thesis
    using assms(1,3) d conn_ok_call(1) [OF assms(1), of d]
    by (auto simp: do_read_multipart_def conn_ok_def response_back_def keeps_ok Let_def split: bool.splits if_splits)
qed

section \<open>Other bodies\<close>

lemma conn_ok_bodies:
  assumes "app_ok A" "conn_ok c"
  shows "handle_body A c = Some c' \<Longrightarrow> conn_ok c'" "handle_string_body A c = Some (c', st) \<Longrightarrow> conn_ok c'"
    "handle_url_urlencoded_body A c = Some c' \<Longrightarrow> conn_ok c'" "handle_form_urlencoded A n c = Some c' \<Longrightarrow> conn_ok c'"
proof -
  have 1: "conn_ok c'" if "handle_body A c = Some c'" for c'
    using that assms conn_ok_call(4) [OF assms] conn_ok_parse_multipart [OF assms(2)]
    by (auto simp: handle_body_def Let_def keeps_ok conn_ok_call(1-3) split: if_splits prod.splits option.splits bool.splits)
  then show "handle_body A c = Some c' \<Longrightarrow> conn_ok c'" .
  show "handle_string_body A c = Some (c', st) \<Longrightarrow> conn_ok c'"
    using assms 1 by (auto simp: handle_string_body_def Let_def keeps_ok conn_ok_req split: if_splits)
  have url: "conn_ok c'" if u: "handle_url_urlencoded_body A c = Some c'" for c'
  proof -
    obtain rq b where rq: "parse_form_urlencoded (req c) = Some (rq, b)" using u by (cases "parse_form_urlencoded (req c)") (auto simp: handle_url_urlencoded_body_def)
    then have "request_ok rq" using assms(2) request_ok_results(2) by (auto simp: conn_ok_def)
    moreover have "request_ok (fst (check_request A rq))" using calculation assms(1) by (simp add: app_ok_def)
    ultimately show ?thesis
      using u rq assms(1) by (auto simp: handle_url_urlencoded_body_def Let_def keeps_ok conn_ok_call(1-3) split: if_splits prod.splits)
  qed
  then show "handle_url_urlencoded_body A c = Some c' \<Longrightarrow> conn_ok c'" .
  show "handle_form_urlencoded A n c = Some c' \<Longrightarrow> conn_ok c'"
    using assms url by (auto simp: handle_form_urlencoded_def Let_def keeps_ok conn_ok_req split: if_splits)
qed

section \<open>WebSocket frames\<close>

lemma conn_ok_ws_frame:
  assumes "app_ok A" "conn_ok c" "handle_ws_frame A ft payload c = Some (c', going)"
  shows "conn_ok c'"
  using assms(3) conn_ok_call(3) [OF assms(1)] assms(2)
  by (cases ft) (auto simp: keeps_ok conn_ok_req Let_def split: option.splits)

lemma conn_ok_ws_loop:
  assumes "app_ok A" "conn_ok c" "ws_loop A store lim start c = Some (c', st)"
  shows "conn_ok c'"
  using assms
proof (induction A store lim start c rule: ws_loop.induct)
  case (1 A store lim start c)
  obtain w ret where h: "Websocket.parse_header (ws c) (drop start store) (lim - start) = Some (w, ret)"
    using "1.prems"(3) by (cases "Websocket.parse_header (ws c) (drop start store) (lim - start)") (auto simp: ws_loop.simps [of A store lim start c])
  show ?case
  proof (cases "0 \<le> ret")
    case False
    then show ?thesis using "1.prems" h by (auto simp: ws_loop.simps [of A store lim start c] keeps_ok conn_ok_call split: if_splits)
  next
    case True
    define s' where "s' = start + nat ret"
    obtain ft payload where ft: "parse_payload w (take (lim - s') (drop s' store)) [] = (ft, payload)" by fastforce
    define d where "d = append_fragment ft payload (c\<lparr>ws := w\<rparr>)"
    have dok: "conn_ok d" using "1.prems"(2) by (simp add: d_def append_fragment_def)
    show ?thesis
    proof (cases "ft = WS_INCOMPLETE_FRAME")
      case False
      obtain e going where e: "handle_ws_frame A ft payload d = Some (e, going)"
        using "1.prems"(3) h True ft False
        by (cases "handle_ws_frame A ft payload d") (auto simp: ws_loop.simps [of A store lim start c] s'_def d_def Let_def)
      have eok: "conn_ok e" using conn_ok_ws_frame [OF "1.prems"(1) dok e] .
      note rec = "1.IH" [OF h refl True s'_def refl ft [symmetric] refl False d_def e refl]
      show ?thesis
        using "1.prems"(1,3) h True ft False e eok rec
        by (cases going; cases "ws_fin w") (auto simp: ws_loop.simps [of A store lim start c] s'_def d_def Let_def keeps_ok conn_ok_req)
    qed (use "1.prems" h True ft in \<open>auto simp: ws_loop.simps [of A store lim start c] s'_def\<close>)
  qed
qed

section \<open>The whole connection\<close>

lemma conn_ok_handshake: "app_ok A \<Longrightarrow> conn_ok c \<Longrightarrow> conn_ok (response_handshake A c)"
  by (simp add: response_handshake_def keeps_ok conn_ok_call conn_ok_req Let_def)

lemma conn_ok_header_request:
  assumes "app_ok A" "conn_ok c"
  shows "conn_ok (fst (handle_header_request A c))"
proof -
  obtain d allowed where d: "ws_check A c = (d, allowed)" by fastforce
  have "conn_ok d" using assms d unfolding app_ok_def by (metis fst_conv)
  then show ?thesis using assms d by (auto simp: handle_header_request_def conn_ok_call conn_ok_req intro!: conn_ok_handshake)
qed

lemma conn_ok_content_type: "Connection.get_content_type fresh c = Some (c', type) \<Longrightarrow> conn_ok c' = conn_ok c"
  by (auto simp: Connection.get_content_type_def Let_def split: if_splits)

lemma conn_ok_handle_request:
  assumes "app_ok A" "conn_ok c" "handle_request A fresh k c = Some (c', st)"
  shows "conn_ok c'"
proof (cases "has_body (req c)")
  case True
  obtain d type where d: "Connection.get_content_type fresh c = Some (d, type)"
    using assms(3) True by (cases "Connection.get_content_type fresh c") (auto simp: handle_request_def)
  have ok: "conn_ok (d\<lparr>req := (req d)\<lparr>http_type := type\<rparr>\<rparr>)" using conn_ok_content_type [OF d] assms(2) by (simp add: conn_ok_def)
  show ?thesis
    using assms(3) True d ok conn_ok_bodies(2,4) [OF assms(1) ok] conn_ok_handle_multipart [OF assms(1) ok]
    by (cases type) (auto simp: handle_request_def Let_def keeps_ok)
qed (use assms conn_ok_header_request [OF assms(1,2)] in \<open>auto simp: handle_request_def\<close>)

lemma conn_ok_handle_read:
  assumes "app_ok A" "conn_ok c" "handle_read A fresh k c = Some (c', st)"
  shows "conn_ok c'"
proof -
  obtain rq ret where rq: "Request.parse_header (check_request A) (req c) = Some (rq, ret)"
    using assms(3) by (cases "Request.parse_header (check_request A) (req c)") (auto simp: handle_read_def)
  have ok: "conn_ok (c\<lparr>req := rq\<rparr>)"
    using request_ok_parse_header [OF _ _ rq] assms(1,2) by (auto simp: app_ok_def conn_ok_def)
  obtain d found where d: "peek_route A (c\<lparr>req := rq\<rparr>) = (d, found)" by fastforce
  have pk: "conn_ok (check_keep_alive d)" using conn_ok_call(2) [OF assms(1) ok] d by (simp add: keeps_ok)
  then show ?thesis
    using assms(1,3) rq ok d conn_ok_call(2) [OF assms(1) ok] conn_ok_handle_request [OF assms(1) pk]
    by (auto simp: handle_read_def keeps_ok Let_def split: if_splits)
qed

lemma conn_ok_process:
  assumes "app_ok A" "conn_ok c" "process A fresh c = Some (c', st)"
  shows "conn_ok c'"
  using assms conn_ok_handle_read [OF assms(1,2)] conn_ok_do_read_multipart [OF assms(1,2)] conn_ok_ws_loop [OF assms(1,2)]
  by (auto simp: process_def keeps_ok handle_ws_data_def continue_write_then_route_def conn_ok_call split: if_splits option.splits work.splits)

lemma recv_room:
  assumes "recv ks n got = Some (v, got', ks')" "length got \<le> n"
  shows "length got' \<le> n \<and> (\<forall>k. v = Inr k \<longrightarrow> k \<le> length got')"
  using assms
proof (induction ks arbitrary: got)
  case (Cons a ks)
  then show ?case by (cases a) (auto simp: Let_def split: if_splits)
qed simp

lemma handle_loop_step:
  assumes "recv ks (left_size (req c)) [] = Some (Inr k, got, ks')" "k \<noteq> 0" "update_size k (store_at_end got (req c)) = (rq, False)"
  shows "handle_loop A fresh ks sent c =
    (case process A fresh (c\<lparr>req := rq\<rparr>) of
       None \<Rightarrow> (sent, Crashed, c\<lparr>req := rq\<rparr>)
     | Some (c, need_read) \<Rightarrow> handle_loop A fresh ks' sent c
     | Some (c, need_write) \<Rightarrow> (sent @ [rep_str (res c)], Answered, c)
     | Some (c, need_write_then_read) \<Rightarrow> handle_loop A fresh ks' (sent @ [rep_str (res c)]) c)"
  using assms by (subst handle_loop.simps) (simp add: Let_def split: option.splits)

lemma handle_loop_ok:
  assumes "app_ok A" "conn_ok c" "handle_loop A fresh ks sent c = (sent', how, c')"
  shows "conn_ok c' \<and> how \<noteq> Too_big"
  using assms(2,3)
proof (induction ks arbitrary: c sent rule: length_induct)
  case (1 ks)
  show ?case
  proof (cases "recv ks (left_size (req c)) []")
    case None
    then show ?thesis using "1.prems" by (auto simp: handle_loop.simps [of A fresh ks sent c])
  next
    case (Some r)
    obtain v got ks' where r: "r = (v, got, ks')" by (cases r)
    let ?c = "c\<lparr>req := store_at_end got (req c)\<rparr>"
    have room: "length got \<le> left_size (req c)" "\<And>k. v = Inr k \<Longrightarrow> k \<le> length got" using recv_room [of ks _ "[]"] Some r by auto
    have st: "conn_ok ?c" using request_ok_received [of "req c" got 0] room(1) "1.prems"(1) by (simp add: conn_ok_def store_at_end_def)
    show ?thesis
    proof (cases v)
      case (Inl e)
      then show ?thesis using "1.prems" Some r st by (auto simp: handle_loop.simps [of A fresh ks sent c])
    next
      case (Inr k)
      let ?rq = "(store_at_end got (req c))\<lparr>cur_size := cur_size (req c) + k\<rparr>"
      have ok: "request_ok ?rq" using request_ok_received [of "req c" got k] room Inr "1.prems"(1) by (simp add: conn_ok_def)
      have us: "update_size k (req ?c) = (?rq, False)"
        using ok by (auto simp: update_size_def store_at_end_def request_ok_def Let_def)
      show ?thesis
      proof (cases "k = 0")
        case True
        then show ?thesis using "1.prems" Some r Inr st by (auto simp: handle_loop.simps [of A fresh ks sent c])
      next
        case False
        note step = handle_loop_step [OF Some [unfolded r Inr] False us [simplified], of A fresh sent]
        show ?thesis
        proof (cases "process A fresh (?c\<lparr>req := ?rq\<rparr>)")
          case None
          then show ?thesis using "1.prems"(2) step ok by (auto simp: conn_ok_def)
        next
          case (Some ds)
          obtain d s where ds: "ds = (d, s)" by fastforce
          have dok: "conn_ok d" using conn_ok_process [OF assms(1) _ Some [unfolded ds]] ok by simp
          show ?thesis
            using "1.prems"(2) step Some ds dok "1.IH" recv_shorter [OF \<open>recv ks (left_size (req c)) [] = Some r\<close> [unfolded r Inr]] False
            by (cases s) auto
        qed
      qed
    qed
  qed
qed

text \<open>
  (C4) Whatever the peer sends and in whatever pieces, after any number of reads the bytes received fit the input buffer and the buffer has
  at most 3 MiB, provided the application's own callbacks leave the buffer alone; the server's test for an overflow of the
  maximal size never succeeds.
\<close>

theorem connection_buffer_invariant:
  assumes "app_ok A"
  shows "case handle_loop A fresh ks [] (connection_new now garbage flag) of
    (sent, how, c) \<Rightarrow> cur_size (req c) \<le> length (buf (req c)) \<and> length (buf (req c)) \<le> MaxSize \<and> how \<noteq> Too_big"
proof -
  obtain sent how c where h: "handle_loop A fresh ks [] (connection_new now garbage flag) = (sent, how, c)" by (rule prod_cases3)
  then show ?thesis using handle_loop_ok [OF assms conn_ok_new h] by (auto simp: conn_ok_def request_ok_def)
qed

theorem connection_buffer_invariant_witness:
  "case handle_loop echo_app [] [Data ''GET / HT'', Recv_again, Data ''TP'', Recv_again] [] (connection_new 0 no_content_type False) of
    (sent, how, c) \<Rightarrow> cur_size (req c) \<le> length (buf (req c)) \<and> length (buf (req c)) \<le> MaxSize \<and> how \<noteq> Too_big"
  by (rule connection_buffer_invariant) (simp add: app_ok_def echo_app_def)

end
