(* ===== verification/Connection_Session.thy ===== *)
theory Connection_Session
  imports Connection_Invariant
begin

text \<open>
  Connections that read more than once: multipart uploads whose body does not come with the first read, and WebSocket frames.
\<close>

section \<open>Multipart bodies in two reads\<close>

definition stuck :: "connection \<Rightarrow> bool" where
  "stuck c \<longleftrightarrow> continue_work c = Some do_read_multipart_work \<and> last_transfer c = 0 \<and> left_body_len (req c) \<noteq> 0 \<and> \<not> at_capacity (req c) \<and> conn_ok c"

lemma copy_total [simp]: "total_len (copy_method_url_headers r) = total_len r" "at_capacity (copy_method_url_headers r) = at_capacity r"
  by (simp_all add: total_len_def at_capacity_def)

lemma grow_to_lengths [simp]:
  "left_body_len (grow_to w r) = left_body_len r" "total_len (grow_to w r) = total_len r"
  by (simp_all add: grow_to_def Request.resize_def total_len_def Let_def)

lemma at_capacity_cong: "total_len r' = total_len r \<Longrightarrow> at_capacity r' = at_capacity r"
  by (simp add: at_capacity_def)

lemma set_current_size_lengths [simp]:
  "left_body_len (set_current_size 0 r) = left_body_len r" "total_len (set_current_size 0 r) = total_len r"
  by (simp_all add: set_current_size_def total_len_def)

lemma stuck_process:
  assumes "stuck c"
  shows "\<exists>c'. process A fresh c = Some (c', need_read) \<and> stuck c'"
proof -
  let ?c = "c\<lparr>req := set_current_size 0 (fit_size (req c)), continue_work := Some do_read_multipart_work\<rparr>"
  have "process A fresh c = Some (?c, need_read)"
    using assms by (simp add: process_def stuck_def do_read_multipart_def parse_multipart_def body_finished_def fit_size_def)
  moreover have "stuck ?c"
    using assms at_capacity_cong [of "set_current_size 0 (fit_size (req c))" "req c"]
    by (simp add: stuck_def keeps_ok conn_ok_req) (simp add: fit_size_def)
  ultimately show ?thesis by blast
qed

lemma stuck_loop:
  assumes "stuck c" "handle_loop A fresh ks sent c = (sent', how, c')"
  shows "sent' = sent \<and> how \<noteq> Answered"
  using assms
proof (induction ks arbitrary: c rule: length_induct)
  case (1 ks)
  show ?case
  proof (cases "\<exists>k got ks'. recv ks (left_size (req c)) [] = Some (Inr k, got, ks') \<and> k \<noteq> 0")
    case False
    then show ?thesis using "1.prems"(2)
      by (subst (asm) handle_loop.simps) (auto split: option.splits prod.splits sum.splits)
  next
    case True
    then obtain k got ks' where r: "recv ks (left_size (req c)) [] = Some (Inr k, got, ks')" "k \<noteq> 0" by blast
    let ?rq = "(store_at_end got (req c))\<lparr>cur_size := cur_size (req c) + k\<rparr>"
    have ok: "request_ok ?rq"
      using request_ok_received [of "req c" got k] recv_room [OF r(1)] "1.prems"(1) by (simp add: stuck_def conn_ok_def)
    then have us: "update_size k (store_at_end got (req c)) = (?rq, False)"
      by (auto simp: update_size_def store_at_end_def request_ok_def Let_def)
    have "stuck (c\<lparr>req := ?rq\<rparr>)"
      using "1.prems"(1) ok by (simp add: stuck_def at_capacity_def total_len_def store_at_end_def)
    then obtain d where d: "process A fresh (c\<lparr>req := ?rq\<rparr>) = Some (d, need_read)" "stuck d" using stuck_process by blast
    then show ?thesis using handle_loop_step [OF r us, of A fresh sent] "1.prems"(2) "1.IH" recv_shorter [OF r(1)] r(2) by auto
  qed
qed

definition lens :: "connection \<Rightarrow> int \<times> size_t \<times> size_t \<times> nat \<times> nat" where
  "lens c = (header_len (req c), body_len (req c), left_body_len (req c), cur_size (req c), last_transfer c)"

lemma lens_events:
  assumes "reader_event_cb A e c = Some c'"
  shows "lens c' = lens c"
proof (cases e)
  case (Part_begin hs)
  then show ?thesis
    using assms by (auto simp: lens_def part_begin_def set_multipart_headers_def response_back_def set_state_def open_upload_file_def
        save_multipart_key_value_def Let_def)
next
  case (Part_data xs)
  then show ?thesis
    using assms by (auto simp: lens_def part_data_cb_def write_upload_data_def update_multipart_value_def Let_def split: if_splits option.splits)
next
  case Part_end
  then show ?thesis using assms by (auto simp: lens_def part_end_def close_upload_file_def Let_def)
next
  case All_end
  then show ?thesis using assms by (auto simp: lens_def all_end_def handle_multipart_key_value_def)
qed

lemma lens_reader_events: "reader_events A es c = Some c' \<Longrightarrow> lens c' = lens c"
  by (induction es arbitrary: c) (auto split: option.splits dest: lens_events)

lemma parse_multipart_lens:
  assumes "parse_multipart A start n c = Some (c', False)"
  shows "lens c' = (header_len (req c), body_len (req c), left_body_len (req c) - n, cur_size (req c), last_transfer c)"
proof (cases "n = 0")
  case False
  let ?xs = "take (unat n) (drop start (buf (req c)))"
  let ?c = "c\<lparr>req := (req c)\<lparr>part_data := ?xs\<rparr>\<rparr>"
  obtain ev p where fl: "feed_loop (if has_gzip (req ?c) then [] else ?xs) [] (mparser ?c) = Some (ev, p)"
    using assms False by (auto simp: parse_multipart_def Let_def split: if_splits option.splits)
  obtain es rd where rr: "reader_run ev (mreader ?c) = (es, rd)" by fastforce
  obtain d where d: "reader_events A es (?c\<lparr>mparser := p, mreader := rd\<rparr>) = Some d"
    using assms False fl rr by (auto simp: parse_multipart_def Let_def split: if_splits option.splits)
  have "lens d = lens c" using lens_reader_events [OF d] by (simp add: lens_def)
  then show ?thesis
    using assms False fl rr d by (auto simp: parse_multipart_def Let_def lens_def reduce_left_body_size_def split: if_splits)
qed (use assms in \<open>simp add: parse_multipart_def lens_def\<close>)

text \<open>
  A multipart upload that is not complete with the read that brought its head is never answered: the continuation parses
  \<open>last_transfer\<close> bytes, which is always 0, so whatever arrives afterwards is dropped, nothing is sent and the server
  waits until the peer closes or an error ends the read.
\<close>

theorem multipart_second_read_lost:
  assumes "handle_multipart A c = Some (c', need_read)" "upload_check A = None" "last_transfer c = 0"
    "left_body_len (req c) = body_len (req c)" "\<not> at_capacity (req c)" "app_ok A" "conn_ok c"
  shows "case handle_loop A fresh ks sent c' of (sent', how, d) \<Rightarrow> sent' = sent \<and> how \<noteq> Answered"
proof -
  let ?n = "of_nat (cur_size (req c)) - word_of_int (header_len (req c)) :: size_t"
  obtain d where d: "parse_multipart A (nat (header_len (req c))) ?n c = Some (d, False)" "\<not> has_recieved_all_part (req d)"
    "c' = d\<lparr>req := set_current_size 0 (req d), continue_work := Some do_read_multipart_work\<rparr>"
    using assms(1,2) by (auto simp: handle_multipart_def split: option.splits bool.splits if_splits)
  note ls = parse_multipart_lens [OF d(1), unfolded lens_def]
  have "left_body_len (req d) \<noteq> 0" using ls d(2) assms(4) by (auto simp: has_recieved_all_part_def)
  moreover have "\<not> at_capacity (req d)" using ls assms(5) by (auto simp: at_capacity_def total_len_def)
  moreover have "conn_ok d" using conn_ok_parse_multipart [OF assms(7) d(1)] .
  ultimately have "stuck c'"
    using ls assms(3) d(3) at_capacity_cong [of "set_current_size 0 (req d)" "req d"] by (simp add: stuck_def keeps_ok conn_ok_req)
  then show ?thesis using stuck_loop by (auto split: prod.splits)
qed

theorem multipart_second_read_lost_witness:
  "\<exists>c'. handle_multipart echo_app ((connection_new 0 no_content_type False)\<lparr>req := request_new\<lparr>header_len := 90, cur_size := 90, body_len := 5, left_body_len := 5\<rparr>\<rparr>) =
      Some (c', need_read) \<and>
    (case handle_loop echo_app [] (burst ''hello'') [] c' of (sent', how, d) \<Rightarrow> sent' = [] \<and> how \<noteq> Answered)"
proof -
  let ?c = "(connection_new 0 no_content_type False)\<lparr>req := request_new\<lparr>header_len := 90, cur_size := 90, body_len := 5, left_body_len := 5\<rparr>\<rparr>"
  have u: "upload_check echo_app = None" "app_ok echo_app" by (simp_all add: echo_app_def app_ok_def)
  have "\<exists>c'. handle_multipart echo_app ?c = Some (c', need_read)"
    by (simp add: handle_multipart_def u parse_multipart_def has_recieved_all_part_def)
  then obtain c' where c': "handle_multipart echo_app ?c = Some (c', need_read)" by blast
  have "\<not> at_capacity (req ?c)" by (simp add: at_capacity_def total_len_def MaxSize_def)
  moreover have "conn_ok ?c" by (simp add: request_ok_def request_new_def MaxSize_def)
  ultimately show ?thesis
    using multipart_second_read_lost [where fresh = "[]" and ks = "burst ''hello''" and sent = "[]", OF c' u(1) _ _ _ u(2)] c' by (auto simp: connection_new_def)
qed

section \<open>WebSocket frames\<close>

text \<open>The first frame in the buffer, read by \<open>ws_loop\<close>.\<close>

lemma ws_loop_frame:
  assumes "rfc_decode inp = Some (fin, op, key, payload, rest)" "key \<noteq> []" "key \<noteq> [0, 0, 0, 0]" "length payload < 2 ^ 64"
    "take lim store = inp" "lim \<le> length store"
  obtains w hl where "ws_fin w = fin" "ws_opcode w = of_nat op" "drop (hl + length payload) inp = rest"
    "ws_loop A store lim 0 c =
       (case handle_ws_frame A (frame_type w) payload (append_fragment (frame_type w) payload (c\<lparr>ws := w\<rparr>)) of
          None \<Rightarrow> None
        | Some (c, False) \<Rightarrow> Some (c, need_write)
        | Some (c, True) \<Rightarrow>
            if fin then Some (c\<lparr>req := set_current_size 0 (req c)\<rparr>, need_write_then_read) else ws_loop A store lim hl c)"
proof -
  have st: "store = inp @ drop lim store" "lim = length inp" using assms(5,6) append_take_drop_id [of lim store] by auto
  obtain w hl where w: "Websocket.parse_header (ws c) (inp @ drop lim store) (length inp) = Some (w, int hl)" "ws_fin w = fin" "ws_opcode w = of_nat op"
    "parse_payload w (drop hl inp) [] = (frame_type w, payload)" "drop (hl + length payload) inp = rest"
    using receive_frame [OF assms(1-4)] by blast
  have ph: "Websocket.parse_header (ws c) store lim = Some (w, int hl)" using w(1) st by metis
  have d: "take (lim - hl) (drop hl store) = drop hl inp" using assms(5) drop_take [of hl lim store] by simp
  have ne: "frame_type w \<noteq> WS_INCOMPLETE_FRAME" by (simp add: frame_type_def)
  have "ws_loop A store lim 0 c =
       (case handle_ws_frame A (frame_type w) payload (append_fragment (frame_type w) payload (c\<lparr>ws := w\<rparr>)) of
          None \<Rightarrow> None
        | Some (c, False) \<Rightarrow> Some (c, need_write)
        | Some (c, True) \<Rightarrow>
            if fin then Some (c\<lparr>req := set_current_size 0 (req c)\<rparr>, need_write_then_read) else ws_loop A store lim hl c)"
    by (subst ws_loop.simps) (simp add: ph d w(2,4) ne Let_def split: option.splits bool.splits prod.splits)
  then show thesis using that w(2,3,5) by blast
qed

text \<open>
  (C13) On an upgraded connection that holds no fragment of an earlier message and is not at the capacity of its buffer, a read that starts with a complete, final text or binary frame, masked with a key that is not four zero
  bytes, calls the application exactly once, with the unmasked payload, and the connection goes on reading with an empty buffer: whatever follows the frame in the same read
  is dropped.
\<close>

theorem ws_message_delivered:
  assumes "rfc_decode (map char_byte data) = Some (True, op, key, payload, rest)" "op \<in> {1, 2}" "key \<noteq> []" "key \<noteq> [0, 0, 0, 0]"
    "continue_work c = Some handle_ws_data_work" "last_ws_str c = []" "take (cur_size (req c)) (buf (req c)) = data"
    "cur_size (req c) = length data" "request_ok (req c)" "\<not> at_capacity (req c)"
  shows "\<exists>w. let d = call_event A data_continue (c\<lparr>ws := w, req := (req c)\<lparr>part_data := map byte_char payload\<rparr>\<rparr>) in
    process A fresh c = Some (d\<lparr>req := set_current_size 0 (req d)\<rparr>, need_write_then_read)"
proof -
  let ?store = "map char_byte (buf (req c))" and ?lim = "cur_size (req c)"
  have lp: "length payload < 2 ^ 64"
  proof -
    have "length payload \<le> length data"
    proof (rule rfc_decode_masked [OF assms(1,3)])
      fix ext n
      assume "6 + ext + n \<le> length (map char_byte data)" "length payload = n"
      then show "length payload \<le> length data" by simp
    qed
    then show ?thesis using assms(8,9) by (simp add: request_ok_def MaxSize_def)
  qed
  have st: "take (cur_size (req c)) (map char_byte (buf (req c))) = map char_byte data" "cur_size (req c) \<le> length (map char_byte (buf (req c)))"
    using assms(7,9) by (simp_all add: take_map request_ok_def)
  obtain w hl where w: "ws_fin w = True" "ws_opcode w = of_nat op"
    "ws_loop A ?store ?lim 0 c =
       (case handle_ws_frame A (frame_type w) payload (append_fragment (frame_type w) payload (c\<lparr>ws := w\<rparr>)) of
          None \<Rightarrow> None
        | Some (c, False) \<Rightarrow> Some (c, need_write)
        | Some (c, True) \<Rightarrow>
            if True then Some (c\<lparr>req := set_current_size 0 (req c)\<rparr>, need_write_then_read) else ws_loop A ?store ?lim hl c)"
    by (rule ws_loop_frame [OF assms(1,3,4) lp st]) blast
  have "frame_type w \<in> {WS_TEXT_FRAME, WS_BINARY_FRAME}" using assms(2) w(1,2) by (auto simp: frame_type_def)
  moreover have lw: "c\<lparr>ws := w, last_ws_str := []\<rparr> = c\<lparr>ws := w\<rparr>" using assms(6) by simp
  ultimately show ?thesis
    using assms(5,6,10) w(3) by (intro exI [of _ w]) (auto simp: lw process_def handle_ws_data_def append_fragment_def Let_def)
qed

theorem ws_message_delivered_witness:
  "\<exists>c. let d = (\<lambda>w. call_event echo_app data_continue (c\<lparr>ws := w, req := (req c)\<lparr>part_data := ''Hi''\<rparr>\<rparr>)) in
    cur_size (req c) = 9 \<and> (\<exists>w. process echo_app [] c = Some ((d w)\<lparr>req := set_current_size 0 (req (d w))\<rparr>, need_write_then_read))"
proof -
  let ?data = "map byte_char [0x81, 0x82, 1, 2, 3, 4, 0x49, 0x6B, 7]"
  let ?c = "(connection_new 0 no_content_type False)\<lparr>continue_work := Some handle_ws_data_work, req := request_new\<lparr>buf := ?data, cur_size := 9\<rparr>\<rparr>"
  have r: "rfc_decode (map char_byte ?data) = Some (True, 1, [1, 2, 3, 4], [0x48, 0x69], [7])" by code_simp
  have "\<not> at_capacity (req ?c)" "request_ok (req ?c)"
    by (simp_all add: at_capacity_def total_len_def request_new_def request_ok_def MaxSize_def)
  moreover have "last_ws_str ?c = []" by (simp add: connection_new_def)
  ultimately have "\<exists>w. let d = call_event echo_app data_continue (?c\<lparr>ws := w, req := (req ?c)\<lparr>part_data := map byte_char [0x48, 0x69]\<rparr>\<rparr>) in
    process echo_app [] ?c = Some (d\<lparr>req := set_current_size 0 (req d)\<rparr>, need_write_then_read)"
    by (intro ws_message_delivered [OF r]) simp_all
  moreover have "map byte_char [0x48, 0x69] = ''Hi''" by code_simp
  ultimately show ?thesis by (intro exI [of _ ?c]) (simp add: Let_def)
qed

text \<open>
  A message in fragments is not put together: after a frame without the FIN bit the loop goes on behind its header, so that the payload
  is read as the header of the next frame.
\<close>

lemma ws_fragment_reparsed:
  assumes "rfc_decode inp = Some (False, op, key, payload, rest)" "op \<in> {1, 2}" "key \<noteq> []" "key \<noteq> [0, 0, 0, 0]" "length payload < 2 ^ 64"
    "take lim store = inp" "lim \<le> length store"
  shows "\<exists>w hl. drop (hl + length payload) inp = rest \<and>
    ws_loop A store lim 0 c = ws_loop A store lim hl (c\<lparr>ws := w, last_ws_str := last_ws_str c @ payload\<rparr>)"
proof -
  obtain w hl where w: "ws_fin w = False" "ws_opcode w = of_nat op" "drop (hl + length payload) inp = rest"
    "ws_loop A store lim 0 c =
       (case handle_ws_frame A (frame_type w) payload (append_fragment (frame_type w) payload (c\<lparr>ws := w\<rparr>)) of
          None \<Rightarrow> None
        | Some (c, False) \<Rightarrow> Some (c, need_write)
        | Some (c, True) \<Rightarrow>
            if False then Some (c\<lparr>req := set_current_size 0 (req c)\<rparr>, need_write_then_read) else ws_loop A store lim hl c)"
    by (rule ws_loop_frame [OF assms(1,3-7)]) blast
  have "frame_type w \<in> {WS_INCOMPLETE_TEXT_FRAME, WS_INCOMPLETE_BINARY_FRAME}" using assms(2) w(1,2) by (auto simp: frame_type_def)
  then show ?thesis using w(3,4) by (intro exI [of _ w] exI [of _ hl]) (auto simp: append_fragment_def)
qed

end
