(* ===== verification/Router.thy ===== *)
theory Router
  imports Connection_Correct
begin

text \<open>
  Routing (\<^verbatim>\<open>include/netcore/http_router.hpp\<close>) and what the server does with it (\<^verbatim>\<open>http_server::init_conn_callback\<close>, \<^verbatim>\<open>ws_before_ap.hpp\<close>).
  Handlers and the aspects around them are functions on the connection that may throw. Matching a regular expression is an
  argument, as is the place at which the hash table of wildcards puts a new key.
\<close>

section \<open>Handlers and aspects\<close>

datatype exn = Std_exception string | Other_exception

type_synonym handler = "connection \<Rightarrow> connection \<times> exn option"

record 'r aspect =
  ap_before :: "(connection \<Rightarrow> connection \<times> (exn + bool)) option"
  ap_after :: "('r \<Rightarrow> connection \<Rightarrow> connection \<times> (exn + bool)) option"

fun do_ap_before :: "'r aspect list \<Rightarrow> connection \<Rightarrow> connection \<times> (exn + bool)" where
  "do_ap_before [] c = (c, Inr True)"
| "do_ap_before (a # as) c =
     (case ap_before a of
        None \<Rightarrow> do_ap_before as c
      | Some f \<Rightarrow> (case f c of (c, Inr True) \<Rightarrow> do_ap_before as c | (c, r) \<Rightarrow> (c, r)))"

fun run_after :: "'r \<Rightarrow> 'r aspect list \<Rightarrow> connection \<Rightarrow> connection \<times> exn option" where
  "run_after r [] c = (c, None)"
| "run_after r (a # as) c =
     (case ap_after a of
        None \<Rightarrow> run_after r as c
      | Some f \<Rightarrow> (case f r c of (c, Inr True) \<Rightarrow> run_after r as c | (c, Inr False) \<Rightarrow> (c, None) | (c, Inl e) \<Rightarrow> (c, Some e)))"

definition do_after :: "'r \<Rightarrow> 'r aspect list \<Rightarrow> connection \<Rightarrow> connection \<times> exn option" where
  "do_after r ap c = run_after r (rev ap) c"

definition invoke :: "(connection \<Rightarrow> connection \<times> (exn + 'r)) \<Rightarrow> 'r aspect list \<Rightarrow> handler" where
  "invoke f ap c =
     (case do_ap_before ap c of
        (c, Inl e) \<Rightarrow> (c, Some e)
      | (c, Inr False) \<Rightarrow> (c, None)
      | (c, Inr True) \<Rightarrow> (case f c of (c, Inl e) \<Rightarrow> (c, Some e) | (c, Inr r) \<Rightarrow> do_after r ap c))"

section \<open>The tables\<close>

text \<open>\<^verbatim>\<open>std::array<char, 26>\<close>: the letter where a method that starts with it is registered, and NUL elsewhere
  (\<^const>\<open>get_method_arr\<close>).\<close>

type_synonym method_arr = string

record invoker =
  inv_methods :: method_arr
  inv_handler :: handler

record 'rx http_router =
  map_invokers :: "(string \<times> invoker) list"
  wildcard_invokers :: "(string \<times> invoker) list"
  regex_invokers :: "('rx \<times> invoker) list"

definition http_router_new :: "'rx http_router" where
  "http_router_new = \<lparr>map_invokers = [], wildcard_invokers = [], regex_invokers = []\<rparr>"

text \<open>\<^verbatim>\<open>operator[]\<close> of the hash table: an existing key keeps its place, a new one goes where \<open>pos\<close> says.\<close>

definition wild_assign :: "nat \<Rightarrow> string \<Rightarrow> invoker \<Rightarrow> (string \<times> invoker) list \<Rightarrow> (string \<times> invoker) list" where
  "wild_assign pos k v xs =
     (if k \<in> fst ` set xs then map (\<lambda>e. if fst e = k then (k, v) else e) xs else take pos xs @ (k, v) # drop pos xs)"

text \<open>\<^verbatim>\<open>raw_name.back()\<close> of an empty name is undefined: the result \<open>None\<close>.\<close>

definition register_func :: "nat \<Rightarrow> string \<Rightarrow> method_arr \<Rightarrow> handler \<Rightarrow> 'rx http_router \<Rightarrow> 'rx http_router option" where
  "register_func pos raw_name arr h R =
     (let iv = \<lparr>inv_methods = arr, inv_handler = h\<rparr> in
      if raw_name = [] then None
      else if last raw_name = CHR ''*'' then Some (R\<lparr>wildcard_invokers := wild_assign pos (butlast raw_name) iv (wildcard_invokers R)\<rparr>)
      else Some (R\<lparr>map_invokers := map_assign str_less raw_name iv (map_invokers R)\<rparr>))"

text \<open>Without a method the array is \<^verbatim>\<open>{0}\<close>.\<close>

definition register_handler :: "nat \<Rightarrow> http_method list \<Rightarrow> string \<Rightarrow> (connection \<Rightarrow> connection \<times> (exn + 'r)) \<Rightarrow> 'r aspect list \<Rightarrow>
    'rx http_router \<Rightarrow> 'rx http_router option" where
  "register_handler pos ms name f ap R =
     (if ms \<noteq> [] then register_func pos name (get_method_arr ms) (invoke f ap) R
      else register_func pos name (replicate 26 (CHR 0x00)) (invoke f ap) R)"

definition register_handler_for_regex :: "http_method list \<Rightarrow> 'rx \<Rightarrow> (connection \<Rightarrow> connection \<times> (exn + 'r)) \<Rightarrow> 'r aspect list \<Rightarrow>
    'rx http_router \<Rightarrow> 'rx http_router" where
  "register_handler_for_regex ms name f ap R =
     R\<lparr>regex_invokers := regex_invokers R @ [(name, \<lparr>inv_methods = get_method_arr ms, inv_handler = invoke f ap\<rparr>)]\<rparr>"

definition remove_handler :: "string \<Rightarrow> 'rx http_router \<Rightarrow> 'rx http_router" where
  "remove_handler name R = R\<lparr>map_invokers := filter (\<lambda>e. fst e \<noteq> name) (map_invokers R)\<rparr>"

section \<open>Routing\<close>

definition STATIC_RESOURCE :: string where "STATIC_RESOURCE = ''netcore_static_resource''"

lemma rfind_char_iff: "rfind_char c s = None \<longleftrightarrow> c \<notin> set s"
  by (auto simp: rfind_char_def find_char_split split: if_splits)

lemma static_no_dot: "CHR ''.'' \<notin> set STATIC_RESOURCE"
  by (simp add: STATIC_RESOURCE_def)

text \<open>The first character of an empty method is the NUL behind it.\<close>

definition method_letter :: "string \<Rightarrow> char" where
  "method_letter mth = (case mth of [] \<Rightarrow> CHR 0x00 | c # _ \<Rightarrow> c)"

definition run_handler :: "handler \<Rightarrow> bool \<Rightarrow> connection \<Rightarrow> connection \<times> (exn + bool)" where
  "run_handler h route_it c =
     (if route_it then (case h c of (c, None) \<Rightarrow> (c, Inr True) | (c, Some e) \<Rightarrow> (c, Inl e)) else (c, Inr True))"

definition invoke_if :: "invoker \<Rightarrow> string \<Rightarrow> bool \<Rightarrow> connection \<Rightarrow> connection \<times> (exn + bool)" where
  "invoke_if iv mth route_it c =
     (let l = uchar (method_letter mth) in
      if l < 65 \<or> 90 < l then (c, Inr False)
      else if inv_methods iv ! (l - 65) = CHR 0x00 then (c, Inr False)
      else run_handler (inv_handler iv) route_it c)"

definition get_wildcard_function :: "string \<Rightarrow> 'rx http_router \<Rightarrow> bool \<Rightarrow> connection \<Rightarrow> connection \<times> (exn + bool)" where
  "get_wildcard_function key R route_it c =
     (case find (\<lambda>e. str_find (fst e) key \<noteq> None) (wildcard_invokers R) of
        None \<Rightarrow> (c, Inr False)
      | Some e \<Rightarrow> run_handler (inv_handler (snd e)) route_it c)"

function route :: "('rx \<Rightarrow> string \<Rightarrow> bool) \<Rightarrow> 'rx http_router \<Rightarrow> string \<Rightarrow> string \<Rightarrow> bool \<Rightarrow> connection \<Rightarrow> connection \<times> (exn + bool)" where
  "route regex_match R mth url route_it c =
     (case find (\<lambda>e. regex_match (fst e) url) (regex_invokers R) of
        Some e \<Rightarrow> invoke_if (snd e) mth route_it c
      | None \<Rightarrow>
          (case map_lookup str_less url (map_invokers R) of
             Some iv \<Rightarrow> invoke_if iv mth route_it c
           | None \<Rightarrow>
               if rfind_char (CHR ''.'') url \<noteq> None then route regex_match R mth STATIC_RESOURCE route_it c
               else get_wildcard_function url R route_it c))"
  by pat_completeness auto
termination
  by (relation "measure (\<lambda>(rm, R, mth, url, it, c). if rfind_char (CHR ''.'') url \<noteq> None then 1 else 0)")
    (auto simp: rfind_char_iff static_no_dot)

declare route.simps [simp del]

section \<open>The server's callbacks\<close>

record 'rx http_server =
  router :: "'rx http_router"
  ws_before_ap :: "string \<rightharpoonup> (connection \<Rightarrow> connection \<times> bool)"
  sv_not_found :: "(connection \<Rightarrow> connection) option"

text \<open>\<^verbatim>\<open>try_emplace\<close> keeps the check that was registered first.\<close>

definition regist_ws_conn_check :: "string \<Rightarrow> (connection \<Rightarrow> connection \<times> bool) \<Rightarrow> 'rx http_server \<Rightarrow> 'rx http_server" where
  "regist_ws_conn_check name ap S =
     S\<lparr>ws_before_ap := (if ws_before_ap S name = None then (ws_before_ap S)(name \<mapsto> ap) else ws_before_ap S)\<rparr>"

definition ws_connection_check :: "'rx http_server \<Rightarrow> connection \<Rightarrow> connection \<times> bool" where
  "ws_connection_check S c = (case ws_before_ap S (get_url (req c)) of None \<Rightarrow> (c, False) | Some ap \<Rightarrow> ap c)"

definition http_handler_check :: "('rx \<Rightarrow> string \<Rightarrow> bool) \<Rightarrow> time_lib \<Rightarrow> 'rx http_server \<Rightarrow> bool \<Rightarrow> connection \<Rightarrow> connection \<times> bool" where
  "http_handler_check regex_match T S route_it c =
     (case route regex_match (router S) (get_method (req c)) (get_url (req c)) route_it c of
        (c, Inr True) \<Rightarrow> (c, True)
      | (c, Inr False) \<Rightarrow>
          (case sv_not_found S of
             Some f \<Rightarrow> (f c, False)
           | None \<Rightarrow> (c\<lparr>res := the (set_status_and_content T not_found ''404'' no_content_type (res c))\<rparr>, False))
      | (c, Inl (Std_exception what)) \<Rightarrow>
          (c\<lparr>res := the (set_status_and_content T internal_server_error (what @ '' exception in business function'') no_content_type (res c))\<rparr>, False)
      | (c, Inl Other_exception) \<Rightarrow>
          (c\<lparr>res := the (set_status_and_content T internal_server_error ''unknown exception in business function'' no_content_type (res c))\<rparr>, False))"

text \<open>
  The callbacks a connection is given. \<^verbatim>\<open>http_handler_\<close>, which runs the handler, first shows the headers of the request to the response; the check of the route
  is called without that. What else the application supplies is \<open>A\<close>.
\<close>

definition show_headers :: "connection \<Rightarrow> connection" where
  "show_headers c = c\<lparr>res := set_headers (get_headers (req c)) (res c)\<rparr>"

definition server_app :: "('rx \<Rightarrow> string \<Rightarrow> bool) \<Rightarrow> 'rx http_server \<Rightarrow> app \<Rightarrow> app" where
  "server_app regex_match S A = 
     A\<lparr>route_check := (\<lambda>route_it c. http_handler_check regex_match (times A) S route_it (if route_it then show_headers c else c)),
       ws_check := ws_connection_check S\<rparr>"

section \<open>Which handler is called\<close>

definition method_allowed :: "invoker \<Rightarrow> string \<Rightarrow> bool" where
  "method_allowed iv mth \<longleftrightarrow> (let l = uchar (method_letter mth) in 65 \<le> l \<and> l \<le> 90 \<and> inv_methods iv ! (l - 65) \<noteq> CHR 0x00)"

definition table_handler :: "('rx \<Rightarrow> string \<Rightarrow> bool) \<Rightarrow> 'rx http_router \<Rightarrow> string \<Rightarrow> invoker option" where
  "table_handler regex_match R url =
     (case find (\<lambda>e. regex_match (fst e) url) (regex_invokers R) of
        Some e \<Rightarrow> Some (snd e)
      | None \<Rightarrow> map_lookup str_less url (map_invokers R))"

definition wildcard_handler :: "'rx http_router \<Rightarrow> string \<Rightarrow> handler option" where
  "wildcard_handler R url = map_option (\<lambda>e. inv_handler (snd e)) (find (\<lambda>e. str_find (fst e) url \<noteq> None) (wildcard_invokers R))"

text \<open>Regular expressions come before exact names; what neither knows is a static file if it contains a dot, and is looked up among the
  wildcards otherwise.\<close>

definition resolve :: "('rx \<Rightarrow> string \<Rightarrow> bool) \<Rightarrow> 'rx http_router \<Rightarrow> string \<Rightarrow> string \<Rightarrow> handler option" where
  "resolve regex_match R mth url =
     (let url = (if table_handler regex_match R url = None \<and> CHR ''.'' \<in> set url then STATIC_RESOURCE else url)
      in case table_handler regex_match R url of
           Some iv \<Rightarrow> if method_allowed iv mth then Some (inv_handler iv) else None
         | None \<Rightarrow> wildcard_handler R url)"

lemma invoke_if_spec: "invoke_if iv mth it c = (if method_allowed iv mth then run_handler (inv_handler iv) it c else (c, Inr False))"
  by (auto simp: invoke_if_def method_allowed_def Let_def)

lemma wildcard_spec: "get_wildcard_function url R it c = (case wildcard_handler R url of None \<Rightarrow> (c, Inr False) | Some h \<Rightarrow> run_handler h it c)"
  by (simp add: get_wildcard_function_def wildcard_handler_def split: option.splits)

text \<open>One round of \<open>route\<close>, when the name has no dot or is in a table.\<close>

lemma route_table:
  assumes "table_handler rm R url \<noteq> None \<or> CHR ''.'' \<notin> set url"
  shows "route rm R mth url it c =
    (case table_handler rm R url of
       Some iv \<Rightarrow> if method_allowed iv mth then run_handler (inv_handler iv) it c else (c, Inr False)
     | None \<Rightarrow> (case wildcard_handler R url of None \<Rightarrow> (c, Inr False) | Some h \<Rightarrow> run_handler h it c))"
  using assms by (subst route.simps) (auto simp: table_handler_def rfind_char_iff invoke_if_spec wildcard_spec split: option.splits)

lemma route_static:
  assumes "table_handler rm R url = None" "CHR ''.'' \<in> set url"
  shows "route rm R mth url it c = route rm R mth STATIC_RESOURCE it c"
  using assms by (subst route.simps) (auto simp: table_handler_def rfind_char_iff split: option.splits)

lemma route_resolve:
  "route rm R mth url it c = (case resolve rm R mth url of None \<Rightarrow> (c, Inr False) | Some h \<Rightarrow> run_handler h it c)"
proof (cases "table_handler rm R url = None \<and> CHR ''.'' \<in> set url")
  case True
  then show ?thesis
    using route_table [of rm R STATIC_RESOURCE] static_no_dot
    by (simp add: route_static resolve_def split: option.splits)
next
  case False
  then show ?thesis by (auto simp: route_table resolve_def split: option.splits)
qed

text \<open>
  (C15) The recursive search of \<open>route\<close> ends and calls exactly the handler that the order of precedence gives: a regular expression that
  matches, else the exact name, else for a name with a dot the handler of static files, else a wildcard. With \<open>route_it\<close>
  unset nothing is called and the connection is not changed, and the answer is the same.
\<close>

theorem route_refines_resolve:
  "route regex_match R mth url route_it c =
     (case resolve regex_match R mth url of
        None \<Rightarrow> (c, Inr False)
      | Some h \<Rightarrow> if route_it then (case h c of (d, None) \<Rightarrow> (d, Inr True) | (d, Some e) \<Rightarrow> (d, Inl e)) else (c, Inr True))"
  by (simp add: route_resolve run_handler_def split: option.splits)

section \<open>Registering\<close>

definition router_ok :: "'rx http_router \<Rightarrow> bool" where
  "router_ok R \<longleftrightarrow> map_sorted str_less (map_invokers R)"

lemma uchar_letter: "uchar (hd (method_name m)) - 65 < 26" "65 \<le> uchar (hd (method_name m))" "uchar (hd (method_name m)) \<le> 90" "hd (method_name m) \<noteq> CHR 0x00"
  by (cases m; simp add: uchar_def)+

lemma method_arr_foldl:
  assumes "length arr = 26" "UNKNOW \<notin> set ms"
  shows "i < 26 \<Longrightarrow> foldl (\<lambda>arr m. let s = the (type_to_name m) in arr[uchar (hd s) - 65 := hd s]) arr ms ! i \<noteq> CHR 0x00 \<longleftrightarrow>
       arr ! i \<noteq> CHR 0x00 \<or> (\<exists>m \<in> set ms. uchar (hd (method_name m)) - 65 = i)"
  using assms
proof (induction ms arbitrary: arr)
  case (Cons m ms)
  let ?arr = "arr[uchar (hd (method_name m)) - 65 := hd (method_name m)]"
  have "the (type_to_name m) = method_name m" using Cons.prems(3) by (auto simp: type_to_name_def)
  then have st: "(let s = the (type_to_name m) in arr[uchar (hd s) - 65 := hd s]) = ?arr" by (simp add: Let_def)
  have "?arr ! i \<noteq> CHR 0x00 \<longleftrightarrow> arr ! i \<noteq> CHR 0x00 \<or> uchar (hd (method_name m)) - 65 = i"
    using Cons.prems uchar_letter [of m] by (auto simp: nth_list_update)
  then show ?case unfolding foldl_Cons st using Cons.IH [of ?arr] Cons.prems by auto
qed simp

lemma uchar_inject: "uchar a = uchar b \<longleftrightarrow> a = b"
  by (simp add: uchar_def)

lemma method_allowed_arr:
  assumes "UNKNOW \<notin> set ms"
  shows "method_allowed \<lparr>inv_methods = get_method_arr ms, inv_handler = h\<rparr> mth \<longleftrightarrow> mth \<noteq> [] \<and> (\<exists>m \<in> set ms. hd (method_name m) = hd mth)"
proof (cases mth)
  case (Cons l rest)
  show ?thesis
  proof (cases "65 \<le> uchar l \<and> uchar l \<le> 90")
    case True
    then have "uchar l - 65 < 26" by linarith
    moreover have "(\<exists>m \<in> set ms. uchar (hd (method_name m)) - 65 = uchar l - 65) \<longleftrightarrow> (\<exists>m \<in> set ms. hd (method_name m) = l)"
      using True uchar_letter(2) by (metis eq_diff_iff uchar_inject)
    ultimately show ?thesis
      using Cons True method_arr_foldl [of "replicate 26 (CHR 0x00)" ms "uchar l - 65"] assms
      by (simp add: method_allowed_def method_letter_def get_method_arr_def)
  next
    case False
    then show ?thesis using Cons uchar_letter by (auto simp: method_allowed_def method_letter_def Let_def)
  qed
qed (simp add: method_allowed_def method_letter_def uchar_def)

lemma register_exact:
  assumes "name \<noteq> []" "last name \<noteq> CHR ''*''" "ms \<noteq> []"
  shows "register_handler pos ms name f ap R =
    Some (R\<lparr>map_invokers := map_assign str_less name \<lparr>inv_methods = get_method_arr ms, inv_handler = invoke f ap\<rparr> (map_invokers R)\<rparr>)"
  using assms by (simp add: register_handler_def register_func_def)


lemma table_assign:
  assumes "router_ok R" "\<forall>e \<in> set (regex_invokers R). \<not> regex_match (fst e) name"
  shows "table_handler regex_match (R\<lparr>map_invokers := map_assign str_less name iv (map_invokers R)\<rparr>) url =
    (if url = name then Some iv else table_handler regex_match R url)"
proof -
  have "find (\<lambda>e. regex_match (fst e) name) (regex_invokers R) = None" using assms(2) by (auto simp: find_None_iff)
  then show ?thesis
    using assms(1) str.lookup_assign [of "map_invokers R" url name iv] by (auto simp: table_handler_def router_ok_def split: option.splits)
qed



text \<open>A handler registered for an exact name without a method is never called.\<close>

lemma register_without_method:
  assumes "name \<noteq> []" "last name \<noteq> CHR ''*''" "router_ok R" "register_handler pos [] name f ap R = Some R'"
    "\<forall>e \<in> set (regex_invokers R). \<not> regex_match (fst e) name"
  shows "resolve regex_match R' mth name = None"
proof -
  define iv where "iv = \<lparr>inv_methods = get_method_arr [], inv_handler = invoke f ap\<rparr>"
  have "R' = R\<lparr>map_invokers := map_assign str_less name iv (map_invokers R)\<rparr>"
    using assms(1,2,4) by (simp add: register_handler_def register_func_def iv_def get_method_arr_def)
  then have tb: "table_handler regex_match R' name = Some iv"
    using table_assign [where regex_match = regex_match, OF assms(3,5)] by simp
  then show ?thesis using method_allowed_arr [of "[]" "invoke f ap" mth] by (simp add: resolve_def tb flip: iv_def)
qed

section \<open>The server with its routes\<close>

lemma server_admits:
  assumes "resolve rm (router S) m u = Some h" "\<forall>rq. check_request A rq = (rq, True)"
  shows "admits (server_app rm S A) m u"
  using assms by (simp add: admits_def server_app_def http_handler_check_def route_resolve run_handler_def)

lemma show_req: "req (show_headers c) = req c \<and> req_headers (res (show_headers c)) = get_headers (req c)"
  by (simp add: show_headers_def set_headers_def)

lemma server_call_back:
  assumes "resolve rm (router S) (get_method (req c)) (get_url (req c)) = Some h"
  shows "call_back (server_app rm S A) c =
    (case h (show_headers c) of
       (d, None) \<Rightarrow> d
     | (d, Some (Std_exception what)) \<Rightarrow> response_back A internal_server_error (what @ '' exception in business function'') d
     | (d, Some Other_exception) \<Rightarrow> response_back A internal_server_error ''unknown exception in business function'' d)"
  using assms
  by (simp add: call_back_def server_app_def http_handler_check_def route_resolve run_handler_def response_back_def show_req split: prod.splits option.splits exn.splits)

text \<open>
  (C3) A well-formed request without a body whose whole head, of less than 1024 bytes, comes with one read, which asks for no upgrade and passes the check of headers, and for which the router has
  a handler, is answered with the response that handler makes, and with status 500 and the text of the exception when the handler throws; the handler gets the method, path and
  headers of the request, the latter also in the response. (A head that is split can be answered otherwise, see \<open>partial_head_404\<close>.)
\<close>

theorem routed_request_answered:
  assumes "bare_request (server_app regex_match S A) m p v hs" "length (print_request m p v hs) < 1024"
    "resolve regex_match (router S) m (url_path p) = Some h"
  shows "\<exists>c1. get_method (req c1) = m \<and> get_url (req c1) = url_path p \<and> (\<forall>key. get_header_value key (req c1) = hdr_lookup key hs) \<and>
    req_headers (res c1) = get_headers (req c1) \<and>
    (let d = (case h c1 of
         (d, None) \<Rightarrow> d
       | (d, Some (Std_exception what)) \<Rightarrow> response_back A internal_server_error (what @ '' exception in business function'') d
       | (d, Some Other_exception) \<Rightarrow> response_back A internal_server_error ''unknown exception in business function'' d)
     in handle_loop (server_app regex_match S A) fresh (burst (print_request m p v hs) @ ks) [] (connection_new now garbage flag) =
          ([rep_str (res d)], Answered, d))"
proof -
  obtain c1 where c1: "handle_loop (server_app regex_match S A) fresh (burst (print_request m p v hs) @ ks) [] (connection_new now garbage flag) =
      ([rep_str (res (call_back (server_app regex_match S A) c1))], Answered, call_back (server_app regex_match S A) c1)"
    "get_method (req c1) = m" "get_url (req c1) = url_path p" "\<forall>key. get_header_value key (req c1) = hdr_lookup key hs"
    using bare_request_delivered [OF assms(1,2), of fresh ks now garbage flag] by blast
  have "call_back (server_app regex_match S A) c1 = (case h (show_headers c1) of
         (d, None) \<Rightarrow> d
       | (d, Some (Std_exception what)) \<Rightarrow> response_back A internal_server_error (what @ '' exception in business function'') d
       | (d, Some Other_exception) \<Rightarrow> response_back A internal_server_error ''unknown exception in business function'' d)"
    using server_call_back [of regex_match S c1 h A] assms(3) c1(2,3) by simp
  then show ?thesis using c1 by (intro exI [of _ "show_headers c1"]) (simp add: Let_def show_req)
qed

text \<open>An application with one route.\<close>

definition demo_server :: "unit http_server" where
  "demo_server = \<lparr>router = the (register_handler 0 [GET] ''/a'' (\<lambda>c. (c, Inl (Std_exception ''boom'')) :: connection \<times> (exn + unit)) [] http_router_new),
     ws_before_ap = Map.empty, sv_not_found = None\<rparr>"

lemma demo_server_route:
  "resolve (\<lambda>_ _. False) (router demo_server) ''GET'' ''/a'' = Some (invoke (\<lambda>c. (c, Inl (Std_exception ''boom'')) :: connection \<times> (exn + unit)) [])"
proof -
  have "\<not> str_less ''/a'' ''/a''" by (rule str.irrefl)
  then show ?thesis
    using method_allowed_arr [of "[GET]" _ "''GET''"]
    by (simp add: demo_server_def register_exact http_router_new_def resolve_def table_handler_def)
qed

theorem routed_request_answered_witness:
  "\<exists>c1. let d = response_back echo_app internal_server_error (''boom'' @ '' exception in business function'') c1 in
     handle_loop (server_app (\<lambda>_ _. False) demo_server echo_app) [] (burst (print_request ''GET'' ''/a'' 1 [(''Host'', ''h'')])) []
       (connection_new 0 no_content_type False) = ([rep_str (res d)], Answered, d)"
proof -
  let ?hs = "[(''Host'', ''h'')]" and ?A = "server_app (\<lambda>_ _. False) demo_server echo_app"
  have "\<forall>c \<in> set ''GET''. plain_char c" "\<forall>c \<in> set ''/a''. plain_char c" "\<forall>nv \<in> set ?hs. header_ok nv" "hdr_lookup ''content-length'' ?hs = []"
    "hdr_lookup ''transfer-encoding'' ?hs \<noteq> ''chunked''" "hdr_lookup ''upgrade'' ?hs = []" by code_simp+
  moreover have "admits ?A ''GET'' (url_path ''/a'')"
    using server_admits [OF demo_server_route] by (simp add: url_path_def echo_app_def)
  ultimately have "bare_request ?A ''GET'' ''/a'' 1 ?hs" unfolding bare_request_def by simp
  moreover have "length (print_request ''GET'' ''/a'' 1 ?hs) < 1024" by code_simp
  moreover have "resolve (\<lambda>_ _. False) (router demo_server) ''GET'' (url_path ''/a'') = Some (invoke (\<lambda>c. (c, Inl (Std_exception ''boom'')) :: connection \<times> (exn + unit)) [])"
    using demo_server_route by (simp add: url_path_def)
  ultimately show ?thesis
    using routed_request_answered [of "\<lambda>_ _. False" demo_server echo_app "''GET''" "''/a''" 1 ?hs _ "[]" "[]" 0 no_content_type False]
    by (fastforce simp: invoke_def Let_def)
qed

text \<open>
  A first read that ends before the path of the request is complete is answered with 404 at once, unless some route accepts the
  empty path: the route is looked up before it is known whether the head is complete, and the rest of the request is
  never read.
\<close>

theorem partial_head_404:
  assumes "phr_parse_request x 32 0 = (res_out, Ret (- 2))" "phr_path_len res_out = 0" "x \<noteq> []" "length x < 1024"
    "\<forall>mth. resolve regex_match (router S) mth [] = None" "sv_not_found S = None"
  shows "\<exists>rep c'. handle_loop (server_app regex_match S A) fresh (burst x @ ks) [] (connection_new now garbage flag) = ([rep], Answered, c') \<and>
    take 12 rep = ''HTTP/1.1 404'' \<and> drop (length rep - 3) rep = ''404''"
proof -
  let ?c = "connection_new now garbage flag" and ?A = "server_app regex_match S A"
  have lx: "length [] + length x < 1024" using assms(4) by simp
  have rd: "reading (after_read x ?c) 1024 x" using reading_after_read [OF reading_new lx] by simp
  define rq where "rq = take_out res_out (- 2) ((req (after_read x ?c))\<lparr>copy_headers := []\<rparr>)"
  have tx: "take (cur_size (req (after_read x ?c))) (buf (req (after_read x ?c))) = x" "cur_size (req (after_read x ?c)) = length x"
    "max_header_len (req (after_read x ?c)) = 1024 * 1024"
    using rd by (auto simp: reading_def)
  have ph: "Request.parse_header (check_request ?A) (req (after_read x ?c)) = Some (rq, - 2)"
    using assms(1,4) tx by (simp add: Request.parse_header_def rq_def Let_def)
  have url: "get_url rq = []"
    using assms(2) by (simp add: rq_def get_url_def take_out_def after_read_def store_at_end_def connection_new_def request_new_def subrange_def)
  have pk: "\<exists>rs. peek_route ?A ((after_read x ?c)\<lparr>req := rq\<rparr>) = ((after_read x ?c)\<lparr>req := rq, res := rs\<rparr>, False)"
    using assms(5,6) url by (simp add: peek_route_def server_app_def http_handler_check_def route_resolve) blast
  then obtain rs where rs: "peek_route ?A ((after_read x ?c)\<lparr>req := rq\<rparr>) = ((after_read x ?c)\<lparr>req := rq, res := rs\<rparr>, False)" by blast
  let ?d = "response_back ?A not_found ''404'' ((after_read x ?c)\<lparr>req := rq, res := rs\<rparr>)"
  have pr: "process ?A fresh (after_read x ?c) = Some (?d, need_write)"
    using rd ph rs by (simp add: process_def handle_read_def reading_def)
  obtain fields where f: "rep_str (res ?d) = print_response 404 (reason not_found) fields @ ''404''"
    using build_response_str_wire [of "times ?A" "set_content ''404'' (rs\<lparr>status := not_found, res_type := no_content_type\<rparr>)"]
    by (auto simp: response_back_def set_status_and_content_def set_content_def Response.wire_code_def)
  have "handle_loop ?A fresh (burst x @ ks) [] ?c = ([rep_str (res ?d)], Answered, ?d)"
    using handle_loop_burst [OF reading_new lx assms(3), of ?A fresh ks "[]"] pr by (simp add: MaxSize_def)
  moreover have "take 12 (rep_str (res ?d)) = ''HTTP/1.1 404''" unfolding f print_response_def by code_simp
  moreover have "drop (length (rep_str (res ?d)) - 3) (rep_str (res ?d)) = ''404''" unfolding f by simp
  ultimately show ?thesis by blast
qed

theorem partial_head_404_witness:
  "\<exists>rep c'. handle_loop (server_app (\<lambda>_ _. False) demo_server echo_app) [] (burst ''GET /a'' @ burst '' HTTP/1.1'') [] (connection_new 0 no_content_type False) =
      ([rep], Answered, c') \<and> take 12 rep = ''HTTP/1.1 404'' \<and> drop (length rep - 3) rep = ''404''"
proof -
  have p: "snd (phr_parse_request ''GET /a'' 32 0) = Ret (- 2)" "phr_path_len (fst (phr_parse_request ''GET /a'' 32 0)) = 0" by code_simp+
  then have "phr_parse_request ''GET /a'' 32 0 = (fst (phr_parse_request ''GET /a'' 32 0), Ret (- 2))" by (metis prod.collapse)
  moreover have "resolve (\<lambda>_ _. False) (router demo_server) mth [] = None" for mth
  proof -
    have "str_less [] ''/a''" by (simp add: str_less_def)
    then show ?thesis
      by (simp add: demo_server_def register_exact http_router_new_def resolve_def table_handler_def wildcard_handler_def)
  qed
  ultimately show ?thesis
    using partial_head_404 [of "''GET /a''" _ "\<lambda>_ _. False" demo_server echo_app "[]" "burst '' HTTP/1.1''" 0 no_content_type False] p(2)
    by (simp add: demo_server_def)
qed

end
