(* ===== verification/Download.thy ===== *)
theory Download
  imports Connection_Correct
begin

text \<open>
  Static files (\<^verbatim>\<open>include/netcore/hs_utils.hpp\<close> and the handler of \<^verbatim>\<open>http_server::set_static_res_handler\<close>). A file of at most 5 MB is sent in one
  response; a larger one is meant to be sent by a state machine that is called again for every block of 3 MB.

  The file system is an argument: the content of every path that can be opened. \<open>None\<close> is a read through the null pointer
  of a file that was never opened.
\<close>

section \<open>Streams\<close>

definition seekg :: "int \<Rightarrow> in_file \<Rightarrow> in_file" where
  "seekg pos f = (if in_fail f then f else if pos < 0 then f\<lparr>in_fail := True\<rparr> else f\<lparr>in_pos := nat pos\<rparr>)"

definition read_block :: "nat \<Rightarrow> in_file \<Rightarrow> string \<times> in_file" where
  "read_block len f =
     (if in_fail f then ([], f)
      else (let str = take len (drop (in_pos f) (in_data f))
            in (str, f\<lparr>in_pos := in_pos f + length str, in_fail := (length str < len)\<rparr>)))"

definition get_send_data :: "nat \<Rightarrow> connection \<Rightarrow> (string \<times> connection) option" where
  "get_send_data len c =
     (case file_tag c of
        None \<Rightarrow> None
      | Some f \<Rightarrow> (let (str, f) = read_block len f in Some (str, c\<lparr>file_tag := Some f\<rparr>)))"

definition is_small_file :: "in_file \<Rightarrow> bool" where
  "is_small_file f \<longleftrightarrow> length (in_data f) \<le> 5 * 1024 * 1024"

definition int_to_string :: "int \<Rightarrow> string" where
  "int_to_string z = (if z < 0 then CHR ''-'' # dec (nat (- z)) else dec (nat z))"

definition path_filename :: "string \<Rightarrow> string" where
  "path_filename fp = (case rfind_char (CHR ''/'') fp of None \<Rightarrow> fp | Some p \<Rightarrow> drop (p + 1) fp)"

section \<open>Configuration\<close>

datatype transfer_type = CHUNKED | ACCEPT_RANGES

definition config_transfer_type :: transfer_type where "config_transfer_type = ACCEPT_RANGES"

definition static_dir :: string where "static_dir = ''www''"

section \<open>Answers\<close>

definition send_small_file :: "time_lib \<Rightarrow> in_file \<Rightarrow> string \<Rightarrow> connection \<Rightarrow> connection" where
  "send_small_file T f mime c =
     (let rs = add_header ''Content-type'' (mime @ ''; charset=utf8'') (add_header ''Access-Control-Allow-origin'' ''*'' (res c))
      in c\<lparr>file_tag := Some (f\<lparr>in_pos := length (in_data f)\<rparr>),
           res := the (set_status_and_content T status_ok (drop (in_pos f) (in_data f)) no_content_type rs)\<rparr>)"

definition hs_write_chunked_header :: "in_file \<Rightarrow> string \<Rightarrow> connection \<Rightarrow> connection" where
  "hs_write_chunked_header f mime c =
     (let range_header = get_header_value ''range'' (req c);
          rq = set_range_start_pos range_header ((req c)\<lparr>is_range_resource := (range_header \<noteq> [])\<rparr>);
          h = mime @ ''; charset=utf8'' @ crlf @ ''Access-Control-Allow-origin: *'' @ crlf @ ''Accept-Ranges: bytes'';
          file_pos = get_range_start_pos rq;
          size = static_resource_file_size rq;
          c = c\<lparr>req := rq\<rparr>;
          c = (if is_range_resource rq then c\<lparr>file_tag := Some (seekg file_pos f)\<rparr> else c);
          h = (if is_range_resource rq
               then h @ crlf @ ''Content-Range: bytes '' @ int_to_string file_pos @ ''-'' @ int_to_string (size - 1) @ ''/'' @ int_to_string size else h)
      in write_chunked_header h (is_range_resource rq) c)"

definition block_size :: nat where "block_size = 3 * 1024 * 1024"

definition write_chunked_body :: "connection \<Rightarrow> connection option" where
  "write_chunked_body c =
     map_option (\<lambda>(str, c). write_chunked_data str (length str = 0 \<or> length str \<noteq> block_size) c) (get_send_data block_size c)"

definition ranges_header :: "string \<Rightarrow> string \<Rightarrow> string \<Rightarrow> string" where
  "ranges_header mime filename fsize =
     ''HTTP/1.1 200 OK'' @ crlf @ ''Access-Control-Allow-origin: *'' @ crlf @ ''Accept-Ranges: bytes'' @ crlf @
     ''Content-Disposition: attachment;filename='' @ filename @ crlf @ ''Connection: keep-alive'' @ crlf @
     ''Content-Type: '' @ mime @ crlf @ ''Content-Length: '' @ fsize @ crlf @ crlf"

definition hs_write_ranges_header :: "string \<Rightarrow> string \<Rightarrow> string \<Rightarrow> connection \<Rightarrow> connection" where
  "hs_write_ranges_header mime filename fsize c = write_ranges_header (ranges_header mime filename fsize) c"

definition hs_write_ranges_data :: "connection \<Rightarrow> connection option" where
  "hs_write_ranges_data c =
     map_option (\<lambda>(str, c). write_ranges_data str (length str = 0 \<or> length str \<noteq> block_size) c) (get_send_data block_size c)"

section \<open>The state machine\<close>

definition open_file :: "string \<Rightarrow> string \<Rightarrow> in_file" where
  "open_file data start =
     (let f = \<lparr>in_data = data, in_pos = 0, in_fail = False\<rparr>; s = atoll start
      in if start \<noteq> [] \<and> 0 < s \<and> s \<le> int (length data) then seekg s f else f)"

definition process_download :: "transfer_type \<Rightarrow> (string \<Rightarrow> string option) \<Rightarrow> time_lib \<Rightarrow> string \<Rightarrow> connection \<Rightarrow> connection option" where
  "process_download tt F T fp c =
     (case rq_state (req c) of
        data_begin \<Rightarrow>
          (let mime = get_mime fp in
           case F fp of
             None \<Rightarrow> Some (c\<lparr>res := the (set_status_and_content T not_found [] no_content_type (res c))\<rparr>)
           | Some data \<Rightarrow>
               (let f = open_file data (get_header_value ''cinatra_start_pos'' (req c));
                    c = c\<lparr>file_tag := Some f, req := (req c)\<lparr>static_resource_file_size := int (length data)\<rparr>\<rparr>
                in if is_small_file f then Some (send_small_file T f mime c)
                   else if tt = CHUNKED then Some (hs_write_chunked_header f mime c)
                   else Some (hs_write_ranges_header mime (path_filename fp) (dec (length data)) c)))
      | data_continue \<Rightarrow> if tt = CHUNKED then write_chunked_body c else hs_write_ranges_data c
      | data_end \<Rightarrow> Some (c\<lparr>continue_work := None\<rparr>)
      | data_error \<Rightarrow>
          Some (c\<lparr>continue_work := None, res := the (set_status_and_content T bad_request ''data proce data error'' no_content_type (res c))\<rparr>)
      | _ \<Rightarrow> Some c)"

definition static_res_handler :: "(connection \<Rightarrow> connection \<times> bool) option \<Rightarrow> (string \<Rightarrow> string option) \<Rightarrow> time_lib \<Rightarrow> connection \<Rightarrow> connection option" where
  "static_res_handler download_check F T c =
     (let (c, r) = (case download_check of None \<Rightarrow> (c, True) | Some f \<Rightarrow> f c)
      in if \<not> r then Some (c\<lparr>res := the (set_status_and_content_default T bad_request (res c))\<rparr>)
         else process_download config_transfer_type F T (static_dir @ get_relative_filename (req c)) c)"

section \<open>Blocks\<close>




lemma open_file_start: "open_file data [] = \<lparr>in_data = data, in_pos = 0, in_fail = False\<rparr>"
  by (simp add: open_file_def)



section \<open>The handler of static files\<close>

lemma static_answer:
  assumes "rq_state (req c) = data_begin" "get_url (req c) = u" "\<not> is_form_url_encode u"
    "get_header_value ''cinatra_start_pos'' (req c) = []" "F (static_dir @ u) = Some data"
  shows "\<exists>d fields. static_res_handler None F T c = Some d \<and> rep_str (res d) =
    (if length data \<le> 5 * 1024 * 1024 then print_response 200 (reason status_ok) fields @ data
     else ranges_header (get_mime (static_dir @ u)) (path_filename (static_dir @ u)) (dec (length data)))"
proof -
  let ?f = "\<lparr>in_data = data, in_pos = 0, in_fail = False\<rparr>" and ?p = "static_dir @ u"
  let ?c = "c\<lparr>file_tag := Some ?f, req := (req c)\<lparr>static_resource_file_size := int (length data)\<rparr>\<rparr>"
  have p: "get_relative_filename (req c) = u" using assms(2,3) by (simp add: get_relative_filename_def)
  have h: "static_res_handler None F T c =
    Some (if length data \<le> 5 * 1024 * 1024 then send_small_file T ?f (get_mime ?p) ?c
          else hs_write_ranges_header (get_mime ?p) (path_filename ?p) (dec (length data)) ?c)"
    using assms(1,4,5) by (simp add: static_res_handler_def p process_download_def open_file_start is_small_file_def config_transfer_type_def Let_def)
  show ?thesis
  proof (cases "length data \<le> 5 * 1024 * 1024")
    case True
    let ?r = "add_header ''Content-type'' (get_mime ?p @ ''; charset=utf8'') (add_header ''Access-Control-Allow-origin'' ''*'' (res c))"
    obtain r' where "set_status_and_content T status_ok data no_content_type ?r = Some r'"
      "rep_str r' = print_response 200 (reason status_ok) (response_fields T (set_content data (?r\<lparr>status := status_ok, res_type := no_content_type\<rparr>))) @ data"
      using build_response_str_wire [of T "set_content data (?r\<lparr>status := status_ok, res_type := no_content_type\<rparr>)"]
      by (auto simp: set_status_and_content_def set_content_def Response.wire_code_def)
    then show ?thesis using h True by (auto simp: send_small_file_def)
  qed (use h in \<open>simp add: hs_write_ranges_header_def write_ranges_header_def set_state_def\<close>)
qed

text \<open>The path of the URL is not checked: a path with \<open>..\<close> leaves the static directory.\<close>

lemma parent_path_served:
  assumes "get_url (req c) = ''/../'' @ u" "\<not> is_form_url_encode (''/../'' @ u)" "rq_state (req c) = data_begin"
  shows "static_res_handler None F T c = process_download config_transfer_type F T (''www/../'' @ u) c"
proof -
  have "get_relative_filename (req c) = ''/../'' @ u" using assms(1,2) by (simp add: get_relative_filename_def Let_def)
  then show ?thesis by (simp add: static_res_handler_def static_dir_def)
qed

end
