(* ===== verification/Server.thy ===== *)
theory Server
  imports Router Download Connection_Invariant
begin

text \<open>
  The server as its constructor leaves it (\<^verbatim>\<open>include/netcore/http_server.hpp\<close>): a router that knows the handler of static files, and the
  connections made by \<^verbatim>\<open>make_connection\<close>. What a connection needs of the program around it, to keep its buffer in order, is the
  locale \<open>keeping_app\<close>; the server provides it, also after more handlers that keep it have been registered.
\<close>

section \<open>Construction\<close>

text \<open>\<^verbatim>\<open>set_static_res_handler\<close>. A read through the null pointer of a file that was never opened has no defined result; it
  does not occur in the state in which a request starts.\<close>

definition static_handler :: "(string \<Rightarrow> string option) \<Rightarrow> time_lib \<Rightarrow> connection \<Rightarrow> connection \<times> (exn + unit)" where
  "static_handler F T c = (case static_res_handler None F T c of None \<Rightarrow> (c, Inr ()) | Some d \<Rightarrow> (d, Inr ()))"

definition http_server_new :: "(string \<Rightarrow> string option) \<Rightarrow> time_lib \<Rightarrow> 'rx http_server" where
  "http_server_new F T =
     \<lparr>router = the (register_handler 0 [POST, GET] STATIC_RESOURCE (static_handler F T) [] http_router_new),
      ws_before_ap = Map.empty, sv_not_found = None\<rparr>"

text \<open>The rest of what a connection uses: no check of headers or uploads and no event callback is installed; the clock and
  the file system are arguments.\<close>

definition make_connection_app ::
  "('rx \<Rightarrow> string \<Rightarrow> bool) \<Rightarrow> 'rx http_server \<Rightarrow> (nat \<Rightarrow> string \<Rightarrow> string) \<Rightarrow> (string \<Rightarrow> bool) \<Rightarrow> (string \<Rightarrow> string \<Rightarrow> bool) \<Rightarrow> time_lib \<Rightarrow> app" where
  "make_connection_app regex_match S names opens renames T =
     server_app regex_match S
       \<lparr>route_check = (\<lambda>_ c. (c, False)), ws_check = (\<lambda>c. (c, False)), upload_check = None, event_call_back = (\<lambda>_ c. c),
        check_request = (\<lambda>rq. (rq, True)), upload_name = names, can_open = opens, rename_ok = renames, times = T\<rparr>"

section \<open>The buffer\<close>

locale keeping_app =
  fixes A :: app
  assumes route_keeps: "conn_ok c \<Longrightarrow> conn_ok (fst (route_check A route_it c))"
    and ws_keeps: "conn_ok c \<Longrightarrow> conn_ok (fst (ws_check A c))"
    and upload_keeps: "upload_check A = Some f \<Longrightarrow> conn_ok c \<Longrightarrow> conn_ok (fst (f c))"
    and event_keeps: "conn_ok c \<Longrightarrow> conn_ok (event_call_back A ev c)"
    and check_keeps: "request_ok rq \<Longrightarrow> request_ok (fst (check_request A rq))"
begin

lemma ok: "app_ok A"
  using route_keeps ws_keeps upload_keeps event_keeps check_keeps by (simp add: app_ok_def)

lemma served: "handle_loop A fresh ks sent (connection_new now garbage flag) = (sent', how, c) \<Longrightarrow> conn_ok c \<and> how \<noteq> Too_big"
  using handle_loop_ok [OF ok conn_ok_new] by blast

end

text \<open>A handler keeps the buffer in order if it and its aspects do; so does a router whose handlers do.\<close>

definition keeping :: "handler \<Rightarrow> bool" where
  "keeping h \<longleftrightarrow> (\<forall>c. conn_ok c \<longrightarrow> conn_ok (fst (h c)))"

definition invokers :: "'rx http_router \<Rightarrow> invoker set" where
  "invokers R = snd ` set (map_invokers R) \<union> (snd ` set (wildcard_invokers R) \<union> snd ` set (regex_invokers R))"

definition router_keeps :: "'rx http_router \<Rightarrow> bool" where
  "router_keeps R \<longleftrightarrow> (\<forall>iv \<in> invokers R. keeping (inv_handler iv))"

lemma lookup_in_map: "map_lookup lt k m = Some v \<Longrightarrow> v \<in> snd ` set m"
  by (induction m) (auto split: if_splits)

lemma find_in_table: "find P xs = Some e \<Longrightarrow> snd e \<in> snd ` set xs"
  by (auto simp: find_Some_iff)

lemma resolve_keeps:
  assumes "router_keeps R" "resolve rm R mth url = Some h"
  shows "keeping h"
proof -
  have tb: "keeping (inv_handler iv)" if t: "table_handler rm R u = Some iv" for u iv
  proof -
    have "iv \<in> snd ` set (map_invokers R) \<or> iv \<in> snd ` set (regex_invokers R)"
      using t by (auto simp: table_handler_def dest: lookup_in_map find_in_table split: option.splits)
    then have "iv \<in> invokers R" unfolding invokers_def by blast
    then show ?thesis using assms(1) by (simp add: router_keeps_def)
  qed
  have wc: "keeping h" if t: "wildcard_handler R u = Some h" for u h
  proof -
    obtain e where e: "find (\<lambda>e. str_find (fst e) u \<noteq> None) (wildcard_invokers R) = Some e" "h = inv_handler (snd e)"
      using t by (auto simp: wildcard_handler_def)
    have "snd e \<in> invokers R" using find_in_table [OF e(1)] unfolding invokers_def by blast
    then show ?thesis using assms(1) e(2) by (simp add: router_keeps_def)
  qed
  show ?thesis using assms(2) tb wc by (auto simp: resolve_def Let_def split: option.splits if_splits)
qed

lemma process_download_keeps:
  assumes "conn_ok c" "process_download tt F T fp c = Some d"
  shows "conn_ok d"
  using assms
  by (auto simp: process_download_def conn_ok_def request_ok_def send_small_file_def hs_write_chunked_header_def hs_write_ranges_header_def
      write_chunked_header_def write_ranges_header_def write_chunked_body_def hs_write_ranges_data_def write_chunked_data_def write_ranges_data_def
      set_state_def get_send_data_def set_range_start_pos_def Let_def split: data_proc_state.splits option.splits if_splits prod.splits)

lemma static_keeping: "keeping (invoke (static_handler F T) [])"
  using process_download_keeps
  by (auto simp: keeping_def invoke_def static_handler_def static_res_handler_def do_after_def split: option.splits)

lemma in_map_assign: "e \<in> set (map_assign lt k v m) \<Longrightarrow> snd e = v \<or> e \<in> set m"
  by (induction m) (auto split: if_splits)

lemma in_wild_assign: "e \<in> set (wild_assign pos k v m) \<Longrightarrow> snd e = v \<or> e \<in> set m"
  by (auto simp: wild_assign_def dest: in_set_takeD in_set_dropD split: if_splits)

lemma assign_values:
  "snd ` set (map_assign lt k v m) \<subseteq> insert v (snd ` set m)" "snd ` set (wild_assign pos k v m) \<subseteq> insert v (snd ` set m)"
  using in_map_assign [of _ lt k v m] in_wild_assign [of _ pos k v m] by blast+

lemma register_keeps:
  assumes "router_keeps R" "keeping (invoke f ap)" "register_handler pos ms name f ap R = Some R'"
  shows "router_keeps R'"
proof -
  obtain arr where r: "register_func pos name arr (invoke f ap) R = Some R'" using assms(3) by (auto simp: register_handler_def split: if_splits)
  define iv where "iv = \<lparr>inv_methods = arr, inv_handler = invoke f ap\<rparr>"
  have "R' = R\<lparr>map_invokers := map_assign str_less name iv (map_invokers R)\<rparr> \<or> R' = R\<lparr>wildcard_invokers := wild_assign pos (butlast name) iv (wildcard_invokers R)\<rparr>"
    using r by (auto simp: register_func_def iv_def Let_def split: if_splits)
  then have "invokers R' \<subseteq> insert iv (invokers R)"
    using assign_values(1) [of str_less name iv "map_invokers R"] assign_values(2) [of pos "butlast name" iv "wildcard_invokers R"]
    unfolding invokers_def by (elim disjE) (simp, blast)+
  moreover have "keeping (inv_handler iv)" using assms(2) by (simp add: iv_def)
  ultimately show ?thesis using assms(1) unfolding router_keeps_def by blast
qed

lemma check_keeps_ok:
  assumes "router_keeps (router S)" "\<forall>f c. sv_not_found S = Some f \<longrightarrow> conn_ok c \<longrightarrow> conn_ok (f c)" "conn_ok c"
  shows "conn_ok (fst (http_handler_check rm T S it c))"
proof (cases "resolve rm (router S) (get_method (req c)) (get_url (req c))")
  case None
  then show ?thesis using assms(2,3) by (auto simp: http_handler_check_def route_resolve split: option.splits)
next
  case (Some h)
  obtain d e where d: "h c = (d, e)" by fastforce
  have "conn_ok d" using resolve_keeps [OF assms(1) Some] assms(3) d unfolding keeping_def by (metis fst_conv)
  then show ?thesis
    using Some assms(3) d by (cases e) (auto simp: http_handler_check_def route_resolve run_handler_def split: exn.splits)
qed

lemma register_static:
  "register_handler 0 [POST, GET] STATIC_RESOURCE (static_handler F T) [] R =
    Some (R\<lparr>map_invokers := map_assign str_less STATIC_RESOURCE
        \<lparr>inv_methods = get_method_arr [POST, GET], inv_handler = invoke (static_handler F T) []\<rparr> (map_invokers R)\<rparr>)"
  by (rule register_exact) (simp_all add: STATIC_RESOURCE_def)

lemma server_new_keeps: "router_keeps (router (http_server_new F T))"
proof -
  have "router_keeps http_router_new" by (simp add: router_keeps_def invokers_def http_router_new_def)
  then show ?thesis using register_keeps [OF _ static_keeping register_static] by (simp add: http_server_new_def register_static)
qed

lemma show_headers_ok: "conn_ok c \<Longrightarrow> conn_ok (show_headers c)"
  by (simp add: show_headers_def set_headers_def conn_ok_def)

lemma make_connection_keeps:
  assumes "router_keeps (router S)" "\<forall>f c. sv_not_found S = Some f \<longrightarrow> conn_ok c \<longrightarrow> conn_ok (f c)"
    "\<forall>u ap c. ws_before_ap S u = Some ap \<longrightarrow> conn_ok c \<longrightarrow> conn_ok (fst (ap c))"
  shows "keeping_app (make_connection_app rm S names opens renames T)"
proof
  show "conn_ok c \<Longrightarrow> conn_ok (fst (route_check (make_connection_app rm S names opens renames T) it c))" for it c
    using check_keeps_ok [OF assms(1,2)] by (simp add: make_connection_app_def server_app_def show_headers_ok)
  show "conn_ok c \<Longrightarrow> conn_ok (fst (ws_check (make_connection_app rm S names opens renames T) c))" for c
    using assms(3) by (auto simp: make_connection_app_def server_app_def ws_connection_check_def split: option.splits)
qed (simp_all add: make_connection_app_def server_app_def)

interpretation new_server: keeping_app "make_connection_app rm (http_server_new F T) names opens renames T" for rm F T names opens renames
  by (rule make_connection_keeps [OF server_new_keeps]) (simp_all add: http_server_new_def)

lemma new_server_buffer_ok:
  assumes "handle_loop (make_connection_app rm (http_server_new F T) names opens renames T) fresh ks [] (connection_new now garbage flag) = (sent', how, c)"
  shows "conn_ok c \<and> how \<noteq> Too_big"
  by (rule new_server.served [OF assms])

section \<open>Static files\<close>

lemma static_route:
  assumes "CHR ''.'' \<in> set u"
  shows "resolve rm (router (http_server_new F T)) ''GET'' u = Some (invoke (static_handler F T) [])"
proof -
  have ns: "CHR ''.'' \<notin> set STATIC_RESOURCE" by (simp add: STATIC_RESOURCE_def)
  let ?iv = "\<lparr>inv_methods = get_method_arr [POST, GET], inv_handler = invoke (static_handler F T) []\<rparr>"
  have t: "table_handler rm (router (http_server_new F T)) w = (if w = STATIC_RESOURCE then Some ?iv else None)" for w
  proof -
    have "router_ok (http_router_new :: 'a http_router)" "table_handler rm http_router_new w = None" "regex_invokers (http_router_new :: 'a http_router) = []"
      by (simp_all add: router_ok_def http_router_new_def table_handler_def map_sorted_def)
    then show ?thesis using table_assign [of http_router_new rm STATIC_RESOURCE ?iv w] by (simp add: http_server_new_def register_static)
  qed
  have "method_allowed ?iv ''GET''" by code_simp
  then show ?thesis using assms ns by (auto simp: resolve_def t)
qed

text \<open>A request for a static file, up to the call of the handler.\<close>

lemma static_request_answered:
  assumes "bare_request (make_connection_app rm (http_server_new F T) names opens renames T) ''GET'' p v hs"
    "length (print_request ''GET'' p v hs) < 1024" "CHR ''.'' \<in> set (url_path p)" "\<not> is_form_url_encode (url_path p)"
    "hdr_lookup ''cinatra_start_pos'' hs = []" "F (static_dir @ url_path p) = Some data"
  shows "\<exists>fields d. handle_loop (make_connection_app rm (http_server_new F T) names opens renames T) fresh (burst (print_request ''GET'' p v hs) @ ks) []
      (connection_new now garbage flag) =
    ([if length data \<le> 5 * 1024 * 1024 then print_response 200 (reason status_ok) fields @ data
      else ranges_header (get_mime (static_dir @ url_path p)) (path_filename (static_dir @ url_path p)) (dec (length data))], Answered, d)"
proof -
  let ?A = "make_connection_app rm (http_server_new F T) names opens renames T"
  obtain c1 where c1: "handle_loop ?A fresh (burst (print_request ''GET'' p v hs) @ ks) [] (connection_new now garbage flag) =
      ([rep_str (res (call_back ?A c1))], Answered, call_back ?A c1)"
    "get_method (req c1) = ''GET''" "get_url (req c1) = url_path p" "\<forall>key. get_header_value key (req c1) = hdr_lookup key hs" "rq_state (req c1) = data_begin"
    using bare_request_delivered [OF assms(1,2), of fresh ks now garbage flag] by blast
  have pos: "get_header_value ''cinatra_start_pos'' (req c1) = []" using c1(4) assms(5) by simp
  obtain d fields where d: "static_res_handler None F T (show_headers c1) = Some d"
    "rep_str (res d) = (if length data \<le> 5 * 1024 * 1024 then print_response 200 (reason status_ok) fields @ data
       else ranges_header (get_mime (static_dir @ url_path p)) (path_filename (static_dir @ url_path p)) (dec (length data)))"
    using static_answer [where F = F and c = "show_headers c1", OF _ _ assms(4) _ assms(6), of T] c1(3,5) pos show_req [of c1] by auto
  have "call_back ?A c1 = d"
    using server_call_back [of rm "http_server_new F T" c1] static_route [OF assms(3), of rm F T] c1(2,3) d(1)
    by (simp add: make_connection_app_def invoke_def static_handler_def do_after_def)
  then show ?thesis using c1(1) d(2) by auto
qed

lemma static_request_ok:
  assumes "\<forall>c \<in> set p. plain_char c" "CHR ''/'' \<in> set p" "CHR ''.'' \<in> set (url_path p)" "v \<le> 9" "\<forall>nv \<in> set hs. header_ok nv" "length hs \<le> 32"
    "hdr_lookup ''content-length'' hs = []" "hdr_lookup ''transfer-encoding'' hs \<noteq> ''chunked''" "hdr_lookup ''upgrade'' hs = []"
  shows "bare_request (make_connection_app rm (http_server_new F T) names opens renames T) ''GET'' p v hs"
proof -
  have "\<forall>c \<in> set ''GET''. plain_char c" by code_simp
  moreover have "admits (make_connection_app rm (http_server_new F T) names opens renames T) ''GET'' (url_path p)"
    unfolding make_connection_app_def by (rule server_admits [OF static_route [OF assms(3)]]) simp
  ultimately show ?thesis using assms unfolding bare_request_def by simp
qed

text \<open>
  (C24) A GET for a file of at most 5 MB is answered, through the whole server loop of a server without further routes, with status 200 and exactly the
  content of the file at the path of the URL, if the path has a dot and neither a percent sign nor a plus sign, and the request comes in one read of less than 1024 bytes, without a body and
  without the headers \<^verbatim>\<open>cinatra_start_pos\<close> and \<^verbatim>\<open>upgrade\<close>.
\<close>

theorem small_file_served:
  assumes "bare_request (make_connection_app regex_match (http_server_new F T) names opens renames T) ''GET'' p v hs"
    "length (print_request ''GET'' p v hs) < 1024" "CHR ''.'' \<in> set (url_path p)" "\<not> is_form_url_encode (url_path p)"
    "hdr_lookup ''cinatra_start_pos'' hs = []" "F (static_dir @ url_path p) = Some data" "length data \<le> 5 * 1024 * 1024"
  shows "\<exists>fields d. handle_loop (make_connection_app regex_match (http_server_new F T) names opens renames T) fresh
      (burst (print_request ''GET'' p v hs) @ ks) [] (connection_new now garbage flag) =
    ([print_response 200 (reason status_ok) fields @ data], Answered, d)"
  using static_request_answered [OF assms(1-6)] assms(7) by simp

text \<open>The request of the witnesses.\<close>

lemma demo_static:
  "bare_request (make_connection_app rm (http_server_new F T) names opens renames T) ''GET'' ''/a.txt?b=.%20'' 1 [(''Host'', ''h'')]"
  "length (print_request ''GET'' ''/a.txt?b=.%20'' 1 [(''Host'', ''h'')]) < 1024" "CHR ''.'' \<in> set (url_path ''/a.txt?b=.%20'')"
  "\<not> is_form_url_encode (url_path ''/a.txt?b=.%20'')" "hdr_lookup ''cinatra_start_pos'' [(''Host'', ''h'')] = []"
  by (rule static_request_ok; code_simp) code_simp+

theorem small_file_served_witness:
  "\<exists>fields d. handle_loop (make_connection_app (\<lambda>_ _. False) (http_server_new [''www/a.txt'' \<mapsto> ''hello''] demo_times) (\<lambda>_ s. s) (\<lambda>_. True) (\<lambda>_ _. True) demo_times) []
      (burst (print_request ''GET'' ''/a.txt?b=.%20'' 1 [(''Host'', ''h'')]) @ []) [] (connection_new 0 no_content_type False) =
    ([print_response 200 (reason status_ok) fields @ ''hello''], Answered, d)"
  by (rule small_file_served [OF demo_static]) (simp_all add: static_dir_def url_path_def)

text \<open>
  For a file of more than 5 MB the server loop sends only the head, which announces the length of the file, and then stops: the blocks are
  never asked for.
\<close>

theorem large_file_header_only:
  assumes "bare_request (make_connection_app regex_match (http_server_new F T) names opens renames T) ''GET'' p v hs"
    "length (print_request ''GET'' p v hs) < 1024" "CHR ''.'' \<in> set (url_path p)" "\<not> is_form_url_encode (url_path p)"
    "hdr_lookup ''cinatra_start_pos'' hs = []" "F (static_dir @ url_path p) = Some data" "5 * 1024 * 1024 < length data"
  shows "\<exists>d. handle_loop (make_connection_app regex_match (http_server_new F T) names opens renames T) fresh
      (burst (print_request ''GET'' p v hs) @ ks) [] (connection_new now garbage flag) =
    ([ranges_header (get_mime (static_dir @ url_path p)) (path_filename (static_dir @ url_path p)) (dec (length data))], Answered, d)"
  using static_request_answered [OF assms(1-6)] assms(7) by auto

theorem large_file_header_only_witness:
  "\<exists>d. handle_loop (make_connection_app (\<lambda>_ _. False) (http_server_new (\<lambda>_. Some (replicate 6000000 (CHR ''x''))) demo_times) (\<lambda>_ s. s) (\<lambda>_. True) (\<lambda>_ _. True) demo_times) []
      (burst (print_request ''GET'' ''/a.txt?b=.%20'' 1 [(''Host'', ''h'')]) @ []) [] (connection_new 0 no_content_type False) =
    ([ranges_header (get_mime (static_dir @ url_path ''/a.txt?b=.%20'')) (path_filename (static_dir @ url_path ''/a.txt?b=.%20'')) (dec (length (replicate 6000000 (CHR ''x''))))],
     Answered, d)"
  by (rule large_file_header_only [OF demo_static]) simp_all

end
