(* ===== verification/Uri.thy ===== *)
theory Uri
  imports Request_Correct Text_Utils
begin

text \<open>
  The URI parser of the HTTP client (\<^verbatim>\<open>core/uri.hpp\<close>) over a NUL-terminated string. A pointer into the string is the rest of the string from
  there; what it points to at the end is the NUL. The parser writes into an object that may hold the parts of an earlier URI.
\<close>

section \<open>Model\<close>

record uri_t =
  u_schema :: string
  u_uinfo :: string
  u_host :: string
  u_port :: string
  u_path :: string
  u_query :: string
  u_fragment :: string
  u_is_ssl :: bool

definition uri_new :: "bool \<Rightarrow> uri_t" where
  "uri_new garbage = \<lparr>u_schema = [], u_uinfo = [], u_host = [], u_port = [], u_path = [], u_query = [], u_fragment = [], u_is_ssl = garbage\<rparr>"

definition isalpha :: "char \<Rightarrow> bool" where
  "isalpha c \<longleftrightarrow> 65 \<le> uchar c \<and> uchar c \<le> 90 \<or> 97 \<le> uchar c \<and> uchar c \<le> 122"

definition isalnum :: "char \<Rightarrow> bool" where
  "isalnum c \<longleftrightarrow> isalpha c \<or> is_digit c"

definition is_unreserved :: "char \<Rightarrow> bool" where
  "is_unreserved c \<longleftrightarrow> isalnum c \<or> c = CHR ''-'' \<or> c = CHR ''.'' \<or> c = CHR ''_'' \<or> c = CHR ''~''"

definition is_sub_delim :: "char \<Rightarrow> bool" where
  "is_sub_delim c \<longleftrightarrow> c \<in> set ''!$&()*+,;='' \<or> c = CHR 0x27"

definition is_user_info_character :: "char \<Rightarrow> bool" where
  "is_user_info_character c \<longleftrightarrow> is_unreserved c \<or> is_sub_delim c \<or> c = CHR ''%'' \<or> c = CHR '':''"

definition is_path_character :: "char \<Rightarrow> bool" where
  "is_path_character c \<longleftrightarrow> is_unreserved c \<or> is_sub_delim c \<or> c = CHR ''%'' \<or> c = CHR ''/'' \<or> c = CHR '':'' \<or> c = CHR ''@''"

definition is_query_character :: "char \<Rightarrow> bool" where
  "is_query_character c \<longleftrightarrow> is_path_character c \<or> c = CHR ''?''"

definition is_authority_character :: "char \<Rightarrow> bool" where
  "is_authority_character c \<longleftrightarrow>
     is_unreserved c \<or> is_sub_delim c \<or> c = CHR ''%'' \<or> c = CHR ''@'' \<or> c = CHR '':'' \<or> c = CHR ''['' \<or> c = CHR '']''"

definition is_fragment_character :: "char \<Rightarrow> bool" where
  "is_fragment_character c \<longleftrightarrow> is_query_character c"

definition is_scheme_character :: "char \<Rightarrow> bool" where
  "is_scheme_character c \<longleftrightarrow> isalnum c \<or> c = CHR ''+'' \<or> c = CHR ''-'' \<or> c = CHR ''.''"

text \<open>\<open>deref p\<close> is \<^verbatim>\<open>*p\<close>.\<close>

definition deref :: "string \<Rightarrow> char" where
  "deref p = (case p of [] \<Rightarrow> CHR 0x00 | c # _ \<Rightarrow> c)"

fun is_relative_reference :: "string \<Rightarrow> bool" where
  "is_relative_reference [] \<longleftrightarrow> True"
| "is_relative_reference (c # p) \<longleftrightarrow> (if c = CHR ''/'' then True else if c = CHR '':'' then False else is_relative_reference p)"

text \<open>
  The loops of the parser, which move on to one of the characters of \<open>stop\<close> (the NUL is one of them if the loop may end at the end of the string)
  and give up at a character that is not allowed. The NUL is never allowed.
\<close>

fun scan_to :: "char set \<Rightarrow> (char \<Rightarrow> bool) \<Rightarrow> string \<Rightarrow> (string \<times> string) option" where
  "scan_to stop allowed [] = (if CHR 0x00 \<in> stop then Some ([], []) else None)"
| "scan_to stop allowed (c # p) =
     (if c \<in> stop then Some ([], c # p)
      else if allowed c then map_option (\<lambda>(part, p). (c # part, p)) (scan_to stop allowed p)
      else None)"

text \<open>The port, working back from the end.\<close>

fun port_begin :: "string \<Rightarrow> nat \<Rightarrow> nat" where
  "port_begin a 0 = 0"
| "port_begin a (Suc i) = (if is_digit (a ! Suc i) then port_begin a i else Suc i)"

text \<open>The user information is looked for up to the end of the host; the character there decides.\<close>

definition parse_authority :: "string \<Rightarrow> uri_t \<Rightarrow> uri_t" where
  "parse_authority a u =
     (if a = [] then u
      else
        (let i = port_begin a (length a - 1);
             (host_end, u) = (if a ! i = CHR '':'' then (i, u\<lparr>u_port := drop (Suc i) a\<rparr>) else (length a, u));
             u_end = length (takeWhile is_user_info_character (take host_end a));
             (host_begin, u) = (if deref (drop u_end a) = CHR ''@'' then (Suc u_end, u\<lparr>u_uinfo := take u_end a\<rparr>) else (0, u))
         in u\<lparr>u_host := drop host_begin (take host_end a)\<rparr>))"

definition parse_path :: "string \<Rightarrow> uri_t \<Rightarrow> (uri_t \<times> string) option" where
  "parse_path p u =
     (if deref p = CHR ''/'' \<or> is_path_character (deref p)
      then map_option (\<lambda>(part, p). (u\<lparr>u_path := part\<rparr>, p)) (scan_to {CHR ''?'', CHR ''#'', CHR 0x00} is_path_character p)
      else Some (u, p))"

definition parse_query_part :: "string \<Rightarrow> uri_t \<Rightarrow> (uri_t \<times> string) option" where
  "parse_query_part p u =
     (if deref p = CHR ''?''
      then map_option (\<lambda>(part, p). (u\<lparr>u_query := part\<rparr>, p)) (scan_to {CHR ''#'', CHR 0x00} is_query_character (List.tl p))
      else Some (u, p))"

definition parse_fragment :: "string \<Rightarrow> uri_t \<Rightarrow> (uri_t \<times> string) option" where
  "parse_fragment p u =
     (if deref p = CHR ''#''
      then map_option (\<lambda>(part, p). (u\<lparr>u_fragment := part\<rparr>, p)) (scan_to {CHR 0x00} is_fragment_character (List.tl p))
      else Some (u, p))"

text \<open>What follows the authority; a failure keeps the parts found so far.\<close>

definition parse_rest :: "string \<Rightarrow> uri_t \<Rightarrow> uri_t \<times> bool" where
  "parse_rest p u =
     (case parse_path p u of
        None \<Rightarrow> (u, False)
      | Some (u, p) \<Rightarrow>
          (case parse_query_part p u of
             None \<Rightarrow> (u, False)
           | Some (u, p) \<Rightarrow>
               (case parse_fragment p u of None \<Rightarrow> (u, False) | Some (u, p) \<Rightarrow> (u, True))))"

definition parse_after_scheme :: "string \<Rightarrow> uri_t \<Rightarrow> uri_t \<times> bool" where
  "parse_after_scheme p u =
     (if u_schema u = [] then (u, False)
      else if deref p = CHR ''/'' \<and> deref (List.tl p) = CHR ''/'' then
        (case scan_to {CHR ''/'', CHR ''?'', CHR ''#'', CHR 0x00} is_authority_character (drop 2 p) of
           None \<Rightarrow> (u, False)
         | Some (a, p) \<Rightarrow> parse_rest p (parse_authority a u))
      else parse_rest p u)"

definition parse_from :: "string \<Rightarrow> uri_t \<Rightarrow> uri_t \<times> bool" where
  "parse_from encoded u =
     (let p = takeWhile (\<lambda>c. c \<noteq> CHR 0x00) encoded in
      if is_relative_reference p then parse_after_scheme p u
      else if \<not> isalpha (deref p) then (u, False)
      else
        (case scan_to {CHR '':''} is_scheme_character (List.tl p) of
           None \<Rightarrow> (u, False)
         | Some (part, p) \<Rightarrow>
             (let s = deref (takeWhile (\<lambda>c. c \<noteq> CHR 0x00) encoded) # part in
              parse_after_scheme (List.tl p) (u\<lparr>u_schema := s, u_is_ssl := (s = ''https'')\<rparr>))))"

definition get_port :: "uri_t \<Rightarrow> string" where
  "get_port u = (if u_port u = [] then ''80'' else u_port u)"

definition uri_get_path :: "uri_t \<Rightarrow> string" where
  "uri_get_path u = (if u_path u = [] then ''/'' else u_path u)"

text \<open>
  The percent encoding of the client. \<^verbatim>\<open>sprintf("%X", c)\<close> converts a negative \<^verbatim>\<open>char\<close> to an unsigned \<^verbatim>\<open>int\<close>, and a negative \<^verbatim>\<open>ic\<close> is
  less than 16.
\<close>

fun hex_upper :: "nat \<Rightarrow> string" where
  "hex_upper n = (if n < 16 then [hex_chars ! n] else hex_upper (n div 16) @ [hex_chars ! (n mod 16)])"

definition client_pct :: "char \<Rightarrow> string" where
  "client_pct c =
     (let ic = (if uchar c < 128 then int (uchar c) else int (uchar c) - 256) in
      (if ic < 16 then ''%0'' else ''%'') @ hex_upper (nat (ic mod 2 ^ 32)))"

definition client_url_encode :: "string \<Rightarrow> string" where
  "client_url_encode str =
     concat (map (\<lambda>c. if isalnum c \<or> c \<in> set ''-_.~'' then [c] else client_pct c) (takeWhile (\<lambda>c. c \<noteq> CHR 0x00) str))"

record uri_context =
  ctx_host :: string
  ctx_port :: string
  ctx_path :: string
  ctx_query :: string
  ctx_body :: string
  ctx_method :: http_method

definition uri_context_of :: "uri_t \<Rightarrow> http_method \<Rightarrow> string \<Rightarrow> uri_context" where
  "uri_context_of u mthd b =
     \<lparr>ctx_host = u_host u, ctx_port = get_port u, ctx_path = uri_get_path u, ctx_query = u_query u, ctx_body = b, ctx_method = mthd\<rparr>"

section \<open>Printed URIs\<close>

text \<open>An absolute URI with an authority. Absent parts are \<open>None\<close>; a host may be an IPv6 address in brackets.\<close>

record uri_parts =
  sp_schema :: string
  sp_uinfo :: "string option"
  sp_host :: string
  sp_port :: "string option"
  sp_path :: string
  sp_query :: "string option"
  sp_fragment :: "string option"

definition before :: "string option \<Rightarrow> char \<Rightarrow> string" where
  "before x c = (case x of None \<Rightarrow> [] | Some s \<Rightarrow> s @ [c])"

definition behind :: "char \<Rightarrow> string option \<Rightarrow> string" where
  "behind c x = (case x of None \<Rightarrow> [] | Some s \<Rightarrow> c # s)"

definition part :: "string option \<Rightarrow> string" where
  "part x = (case x of None \<Rightarrow> [] | Some s \<Rightarrow> s)"

definition print_authority :: "uri_parts \<Rightarrow> string" where
  "print_authority s = before (sp_uinfo s) (CHR ''@'') @ sp_host s @ behind (CHR '':'') (sp_port s)"

definition print_uri :: "uri_parts \<Rightarrow> string" where
  "print_uri s = sp_schema s @ ''://'' @ print_authority s @ sp_path s @ behind (CHR ''?'') (sp_query s) @ behind (CHR ''#'') (sp_fragment s)"

definition uri_ok :: "uri_parts \<Rightarrow> bool" where
  "uri_ok s \<longleftrightarrow>
     sp_schema s \<noteq> [] \<and> isalpha (hd (sp_schema s)) \<and> list_all is_scheme_character (sp_schema s) \<and>
     list_all is_user_info_character (part (sp_uinfo s)) \<and>
     list_all (\<lambda>c. is_authority_character c \<and> c \<noteq> CHR ''@'') (sp_host s) \<and>
     (sp_port s = None \<longrightarrow> CHR '':'' \<notin> set (sp_host s) \<or> last (sp_host s) = CHR '']'') \<and>
     list_all is_digit (part (sp_port s)) \<and>
     (sp_path s = [] \<or> hd (sp_path s) = CHR ''/'') \<and> list_all is_path_character (sp_path s) \<and>
     list_all is_query_character (part (sp_query s)) \<and> list_all is_fragment_character (part (sp_fragment s))"

lemmas char_classes = isalpha_def isalnum_def is_digit_def is_unreserved_def is_sub_delim_def is_user_info_character_def is_path_character_def
  is_query_character_def is_authority_character_def is_fragment_character_def is_scheme_character_def

text \<open>No class contains the NUL, and none a character that ends its part.\<close>

lemma class_specials:
  "\<not> is_scheme_character (CHR 0x00)" "\<not> is_scheme_character (CHR '':'')" "\<not> is_scheme_character (CHR ''/'')"
  "\<not> is_authority_character (CHR 0x00)" "\<not> is_authority_character (CHR ''/'')" "\<not> is_authority_character (CHR ''?'')" "\<not> is_authority_character (CHR ''#'')"
  "\<not> is_user_info_character (CHR ''@'')" "\<not> is_digit (CHR ''@'')" "\<not> is_digit (CHR '':'')" "\<not> is_digit (CHR '']'')"
  "\<not> is_path_character (CHR 0x00)" "\<not> is_path_character (CHR ''?'')" "\<not> is_path_character (CHR ''#'')" "is_path_character (CHR ''/'')"
  "\<not> is_query_character (CHR 0x00)" "\<not> is_query_character (CHR ''#'')" "\<not> is_fragment_character (CHR 0x00)"
  "is_authority_character (CHR ''@'')" "is_authority_character (CHR '':'')"
  by (simp_all add: char_classes uchar_def)

lemma user_info_authority: "is_user_info_character c \<Longrightarrow> is_authority_character c" "is_digit c \<Longrightarrow> is_authority_character c"
  by (auto simp: is_user_info_character_def is_authority_character_def is_unreserved_def isalnum_def)

lemma scan_to_part:
  assumes "list_all allowed x" "\<forall>c \<in> stop. \<not> allowed c" "deref p \<in> stop"
  shows "scan_to stop allowed (x @ p) = Some (x, p)"
  using assms
proof (induction x)
  case Nil
  then show ?case by (cases p) (simp_all add: deref_def)
qed auto

lemma port_begin_spec: "port_begin a i \<le> i \<and> (\<forall>k. port_begin a i < k \<longrightarrow> k \<le> i \<longrightarrow> is_digit (a ! k))"
  by (induction i) (auto simp: le_Suc_eq)

lemma port_begin_at:
  assumes "j \<le> i" "\<not> is_digit (a ! j)" "\<forall>k. j < k \<longrightarrow> k \<le> i \<longrightarrow> is_digit (a ! k)"
  shows "port_begin a i = j"
  using assms
proof (induction i)
  case (Suc i)
  show ?case
  proof (cases "j = Suc i")
    case False
    then have "is_digit (a ! Suc i)" "j \<le> i" using Suc.prems by auto
    then show ?thesis using Suc by simp
  qed (use Suc in simp)
qed simp

lemma port_found:
  assumes "list_all is_digit d"
  shows "port_begin (x @ CHR '':'' # d) (length (x @ CHR '':'' # d) - 1) = length x"
proof (rule port_begin_at)
  show "\<forall>k. length x < k \<longrightarrow> k \<le> length (x @ CHR '':'' # d) - 1 \<longrightarrow> is_digit ((x @ CHR '':'' # d) ! k)"
    using assms by (auto simp: nth_append nth_Cons' list_all_length)
qed (simp_all add: class_specials)

text \<open>Without a port the search stops at a character that is no colon.\<close>

lemma no_port_found:
  assumes "a = before ui (CHR ''@'') @ h" "a \<noteq> []" "CHR '':'' \<notin> set h \<or> last h = CHR '']''"
  shows "a ! port_begin a (length a - 1) \<noteq> CHR '':''"
proof
  let ?i = "port_begin a (length a - 1)"
  assume c: "a ! ?i = CHR '':''"
  have i: "?i < length a" using port_begin_spec [of a "length a - 1"] assms(2) by (cases a) auto
  have d: "is_digit (a ! k)" if "?i < k" "k < length a" for k using port_begin_spec [of a "length a - 1"] that by auto
  have nd: "c \<notin> set (drop (Suc ?i) a)" if "\<not> is_digit c" for c
    using d that by (fastforce simp: in_set_conv_nth)
  have sp: "a = take ?i a @ CHR '':'' # drop (Suc ?i) a" using c i by (metis id_take_nth_drop)
  show False
  proof (cases "h = [] \<or> CHR '':'' \<notin> set h")
    case True
    then show False
    proof (cases ui)
      case None
      then show ?thesis using True assms(1) i c nth_mem [OF i] by (auto simp: before_def)
    next
      case (Some u)
      have "CHR '':'' \<notin> set h" using True by auto
      moreover have "drop (length u) a = CHR ''@'' # h" using Some assms(1) by (simp add: before_def)
      moreover have "CHR '':'' \<in> set (drop (length u) a)" if "length u \<le> ?i"
        using nth_mem [of "?i - length u" "drop (length u) a"] that c i by simp
      ultimately have "?i < length u" by fastforce
      then have "CHR ''@'' \<in> set (drop (Suc ?i) a)" using Some assms(1) by (simp add: before_def)
      then show ?thesis using nd class_specials by blast
    qed
  next
    case False
    then have l: "last a = CHR '']''" "a \<noteq> []" using assms(1,3) by auto
    have "drop (Suc ?i) a = []"
    proof (rule ccontr)
      assume ne: "drop (Suc ?i) a \<noteq> []"
      then have "last (drop (Suc ?i) a) = CHR '']''" using l(1) by (simp add: last_drop)
      then show False using nd [of "CHR '']''"] ne class_specials by (metis last_in_set)
    qed
    then have "last a = CHR '':''" using sp by (metis last_snoc)
    then show False using l by simp
  qed
qed

lemma takeWhile_none: "(\<forall>c \<in> set x. P c) \<Longrightarrow> \<not> P c \<Longrightarrow> takeWhile P (x @ c # y) = x"
  by (simp add: takeWhile_append)

text \<open>Where the user information ends.\<close>

lemma user_info_end:
  assumes "list_all is_user_info_character (part ui)" "CHR ''@'' \<notin> set h" "x = [] \<or> hd x \<noteq> CHR ''@''"
  shows "let n = length (takeWhile is_user_info_character (before ui (CHR ''@'') @ h)); a = before ui (CHR ''@'') @ h @ x in
    (if ui = None then deref (drop n a) \<noteq> CHR ''@'' else deref (drop n a) = CHR ''@'' \<and> n = length (part ui))"
proof (cases ui)
  case None
  let ?n = "length (takeWhile is_user_info_character h)"
  have "deref (drop ?n (h @ x)) \<noteq> CHR ''@''"
  proof (cases "?n < length h")
    case True
    then have "deref (drop ?n (h @ x)) = h ! ?n" by (simp add: deref_def nth_append split: list.splits) (metis Cons_nth_drop_Suc append_Cons list.inject)
    then show ?thesis using assms(2) True nth_mem by metis
  next
    case False
    then have "?n = length h" using length_takeWhile_le [of is_user_info_character h] by linarith
    then show ?thesis using assms(3) by (auto simp: deref_def split: list.splits)
  qed
  then show ?thesis using None by (simp add: before_def)
next
  case (Some u)
  then have "takeWhile is_user_info_character (u @ CHR ''@'' # h) = u"
    using assms(1) class_specials by (intro takeWhile_none) (auto simp: part_def list_all_iff)
  then show ?thesis using Some by (simp add: before_def part_def deref_def)
qed

lemma parse_authority_parts:
  assumes "a \<noteq> []" "i = port_begin a (length a - 1)" "w = (if a ! i = CHR '':'' then take i a else a)" "n = length (takeWhile is_user_info_character w)"
  shows "parse_authority a u =
    u\<lparr>u_port := (if a ! i = CHR '':'' then drop (Suc i) a else u_port u),
      u_uinfo := (if deref (drop n a) = CHR ''@'' then take n a else u_uinfo u),
      u_host := drop (if deref (drop n a) = CHR ''@'' then Suc n else 0) w\<rparr>"
  using assms(1) by (simp add: parse_authority_def assms(2-4) Let_def)

text \<open>The whole authority, for an object without parts.\<close>

lemma parse_authority_printed:
  assumes "uri_ok s" "u_uinfo u = []" "u_host u = []" "u_port u = []"
  shows "parse_authority (print_authority s) u = u\<lparr>u_uinfo := part (sp_uinfo s), u_host := sp_host s, u_port := part (sp_port s)\<rparr>"
proof (cases "print_authority s = []")
  case True
  then show ?thesis
    using assms(2-4) by (cases u) (auto simp: parse_authority_def print_authority_def before_def behind_def part_def split: option.splits)
next
  case False
  let ?b = "before (sp_uinfo s) (CHR ''@'')" and ?a = "print_authority s" and ?h = "sp_host s"
  define n where "n = length (takeWhile is_user_info_character (?b @ ?h))"
  have at: "CHR ''@'' \<notin> set ?h" using assms(1) by (auto simp: uri_ok_def list_all_iff)
  have ui: "list_all is_user_info_character (part (sp_uinfo s))" using assms(1) by (simp add: uri_ok_def)
  have x: "behind (CHR '':'') (sp_port s) = [] \<or> hd (behind (CHR '':'') (sp_port s)) \<noteq> CHR ''@''" by (simp add: behind_def split: option.splits)
  have un: "if sp_uinfo s = None then deref (drop n ?a) \<noteq> CHR ''@'' else deref (drop n ?a) = CHR ''@'' \<and> n = length (part (sp_uinfo s))"
    using user_info_end [OF ui at x] unfolding Let_def n_def print_authority_def .
  have host: "drop (if sp_uinfo s = None then 0 else Suc n) (?b @ ?h) = ?h" "sp_uinfo s \<noteq> None \<longrightarrow> take n ?a = part (sp_uinfo s)"
    using un by (auto simp: before_def part_def print_authority_def)
  define i where "i = port_begin ?a (length ?a - 1)"
  have w: "?b @ ?h = (if ?a ! i = CHR '':'' then take i ?a else ?a)" "(if ?a ! i = CHR '':'' then drop (Suc i) ?a else []) = part (sp_port s)"
  proof -
    have "(?a ! i = CHR '':'') = (sp_port s \<noteq> None) \<and> (sp_port s \<noteq> None \<longrightarrow> i = length (?b @ ?h))"
    proof (cases "sp_port s")
      case None
      have "CHR '':'' \<notin> set ?h \<or> last ?h = CHR '']''" using assms(1) None by (simp add: uri_ok_def)
      then show ?thesis
        using False None no_port_found [of ?a "sp_uinfo s" ?h] by (simp add: print_authority_def behind_def i_def)
    next
      case (Some d)
      have "list_all is_digit d" using assms(1) Some by (simp add: uri_ok_def part_def)
      then show ?thesis using port_found [of d "?b @ ?h"] Some by (simp add: print_authority_def behind_def i_def nth_append)
    qed
    then show "?b @ ?h = (if ?a ! i = CHR '':'' then take i ?a else ?a)" "(if ?a ! i = CHR '':'' then drop (Suc i) ?a else []) = part (sp_port s)"
      by (cases "sp_port s"; simp add: print_authority_def behind_def part_def)+
  qed
  show ?thesis
    unfolding parse_authority_parts [OF False i_def w(1) n_def, of u]
    using un host w(2) assms(2-4) by (cases u; cases "sp_uinfo s") (simp_all add: part_def split: if_splits)
qed

text \<open>The path and what follows.\<close>

lemma parse_rest_printed:
  assumes "uri_ok s" "u_path u = []" "u_query u = []" "u_fragment u = []"
  shows "parse_rest (sp_path s @ behind (CHR ''?'') (sp_query s) @ behind (CHR ''#'') (sp_fragment s)) u =
    (u\<lparr>u_path := sp_path s, u_query := part (sp_query s), u_fragment := part (sp_fragment s)\<rparr>, True)"
proof -
  let ?f = "behind (CHR ''#'') (sp_fragment s)"
  let ?q = "behind (CHR ''?'') (sp_query s) @ ?f"
  have fd: "deref ?f \<in> {CHR ''#'', CHR 0x00}" "?f \<noteq> [] \<longrightarrow> ?f = CHR ''#'' # part (sp_fragment s)" "?f = [] \<longrightarrow> part (sp_fragment s) = []"
    by (auto simp: behind_def deref_def part_def split: option.splits)
  have qd: "deref ?q \<in> {CHR ''?'', CHR ''#'', CHR 0x00}" using fd by (auto simp: behind_def deref_def split: option.splits list.splits)
  have ok: "list_all is_path_character (sp_path s)" "list_all is_query_character (part (sp_query s))" "list_all is_fragment_character (part (sp_fragment s))"
    "sp_path s = [] \<or> hd (sp_path s) = CHR ''/''" using assms(1) by (simp_all add: uri_ok_def)
  have p: "parse_path (sp_path s @ ?q) u = Some (u\<lparr>u_path := sp_path s\<rparr>, ?q)"
  proof (cases "sp_path s = []")
    case True
    have "\<not> is_path_character (deref ?q)" "deref ?q \<noteq> CHR ''/''" using qd by (auto simp: class_specials)
    then show ?thesis using True assms(2) by (cases u) (simp add: parse_path_def)
  next
    case False
    then have "deref (sp_path s @ ?q) = CHR ''/''" using ok(4) by (cases "sp_path s") (auto simp: deref_def)
    then show ?thesis using scan_to_part [OF ok(1) _ qd] by (simp add: parse_path_def class_specials)
  qed
  have q: "parse_query_part ?q v = Some (v\<lparr>u_query := part (sp_query s)\<rparr>, ?f)" if "u_query v = []" for v
  proof (cases "sp_query s")
    case None
    have "deref ?f \<noteq> CHR ''?''" using fd(1) by auto
    then show ?thesis using None that by (cases v) (simp add: parse_query_part_def behind_def part_def)
  next
    case (Some t)
    then show ?thesis using scan_to_part [OF _ _ fd(1), of is_query_character t] ok(2) by (simp add: parse_query_part_def behind_def part_def deref_def class_specials)
  qed
  have f: "\<exists>p. parse_fragment ?f v = Some (v\<lparr>u_fragment := part (sp_fragment s)\<rparr>, p)" if "u_fragment v = []" for v
  proof (cases "sp_fragment s")
    case None
    then show ?thesis using that by (cases v) (simp add: parse_fragment_def behind_def part_def deref_def)
  next
    case (Some t)
    then show ?thesis using scan_to_part [of is_fragment_character t "{CHR 0x00}" "[]"] ok(3)
      by (simp add: parse_fragment_def behind_def part_def deref_def class_specials)
  qed
  show ?thesis
    using p q [of "u\<lparr>u_path := sp_path s\<rparr>"] f [of "u\<lparr>u_path := sp_path s, u_query := part (sp_query s)\<rparr>"] assms(3,4)
    by (auto simp: parse_rest_def)
qed

lemma print_uri_no_nul:
  assumes "uri_ok s"
  shows "takeWhile (\<lambda>c. c \<noteq> CHR 0x00) (print_uri s) = print_uri s"
proof -
  have "c \<noteq> CHR 0x00" if "c \<in> set (print_uri s)" for c
    using that assms class_specials user_info_authority
    by (auto simp: print_uri_def print_authority_def uri_ok_def before_def behind_def part_def list_all_iff split: option.splits)
  then show ?thesis by simp
qed

lemma parse_from_printed:
  assumes "uri_ok s"
  shows "parse_from (print_uri s) (uri_new garbage) =
    (\<lparr>u_schema = sp_schema s, u_uinfo = part (sp_uinfo s), u_host = sp_host s, u_port = part (sp_port s), u_path = sp_path s,
       u_query = part (sp_query s), u_fragment = part (sp_fragment s), u_is_ssl = (sp_schema s = ''https'')\<rparr>, True)"
proof -
  let ?r = "sp_path s @ behind (CHR ''?'') (sp_query s) @ behind (CHR ''#'') (sp_fragment s)"
  obtain c t where ct: "sp_schema s = c # t" "isalpha c" "is_scheme_character c" "list_all is_scheme_character t"
    using assms by (cases "sp_schema s") (auto simp: uri_ok_def)
  have rel: "\<not> is_relative_reference (x @ CHR '':'' # y)" if "list_all is_scheme_character x" for x y
    using that class_specials by (induction x) auto
  have auth: "list_all is_authority_character (print_authority s)"
    using assms class_specials user_info_authority
    by (auto simp: print_authority_def uri_ok_def before_def behind_def part_def list_all_iff split: option.splits)
  have rd: "deref ?r \<in> {CHR ''/'', CHR ''?'', CHR ''#'', CHR 0x00}"
    using assms by (cases "sp_path s") (auto simp: uri_ok_def behind_def deref_def split: option.splits)
  let ?u = "uri_new garbage\<lparr>u_schema := c # t, u_is_ssl := (c # t = ''https'')\<rparr>"
  have "parse_from (print_uri s) (uri_new garbage) = parse_after_scheme (''//'' @ print_authority s @ ?r) ?u"
    using rel [of "c # t"] ct scan_to_part [OF ct(4), of "{CHR '':''}" "CHR '':'' # ''//'' @ print_authority s @ ?r"]
    unfolding parse_from_def print_uri_no_nul [OF assms] by (simp add: print_uri_def deref_def class_specials)
  also have "\<dots> = parse_rest ?r (parse_authority (print_authority s) ?u)"
    using scan_to_part [OF auth _ rd] by (simp add: parse_after_scheme_def deref_def class_specials)
  finally show ?thesis
    using parse_authority_printed [OF assms, of ?u] parse_rest_printed [OF assms] ct(1) by (simp add: uri_new_def)
qed

text \<open>
  (C35) The URI parser of the client inverts printing: from an absolute URI with well-formed parts, among them IPv6 hosts, it gets exactly these
  parts. Two comments of \<^verbatim>\<open>uri.hpp\<close> say otherwise: it does accept schemes other than http and https (\<open>other_scheme\<close>), and it does read a user in the authority.
\<close>

theorem uri_roundtrip:
  assumes "uri_ok s"
  shows "parse_from (print_uri s) (uri_new garbage) =
    (\<lparr>u_schema = sp_schema s, u_uinfo = part (sp_uinfo s), u_host = sp_host s, u_port = part (sp_port s), u_path = sp_path s,
       u_query = part (sp_query s), u_fragment = part (sp_fragment s), u_is_ssl = (sp_schema s = ''https'')\<rparr>, True)"
  by (rule parse_from_printed [OF assms])

theorem uri_roundtrip_witness:
  "parse_from ''http://me@[::1]:8080/a/b?x=1#top'' (uri_new False) =
    (\<lparr>u_schema = ''http'', u_uinfo = ''me'', u_host = ''[::1]'', u_port = ''8080'', u_path = ''/a/b'', u_query = ''x=1'', u_fragment = ''top'', u_is_ssl = False\<rparr>, True)"
proof -
  let ?s = "\<lparr>sp_schema = ''http'', sp_uinfo = Some ''me'', sp_host = ''[::1]'', sp_port = Some ''8080'', sp_path = ''/a/b'', sp_query = Some ''x=1'', sp_fragment = Some ''top''\<rparr>"
  have "uri_ok ?s" by code_simp
  then show ?thesis using uri_roundtrip [of ?s False] by (simp add: print_uri_def print_authority_def before_def behind_def part_def)
qed

text \<open>A scheme that is neither http nor https, with user information.\<close>

lemma other_scheme:
  "parse_from ''ftp://me@h/x'' (uri_new False) =
    (\<lparr>u_schema = ''ftp'', u_uinfo = ''me'', u_host = ''h'', u_port = [], u_path = ''/x'', u_query = [], u_fragment = [], u_is_ssl = False\<rparr>, True)"
  by code_simp

text \<open>The parts of an earlier URI stay: a relative reference is accepted with the old host.\<close>

lemma stale_parts: "parse_from ''/b'' (fst (parse_from ''http://a/'' (uri_new False))) = ((uri_new False)\<lparr>u_schema := ''http'', u_host := ''a'', u_path := ''/b''\<rparr>, True)"
  by code_simp

text \<open>A byte of 128 or more is encoded by eight digits after a zero, which no decoder reads back.\<close>

lemma client_pct_negative: "client_url_encode [CHR 0xE4] = ''%0FFFFFFE4''"
  by (simp add: client_url_encode_def client_pct_def uchar_def char_classes hex_chars_def)

end
