(* ===== verification/Jeaiii.thy ===== *)
theory Jeaiii
  imports Itoa
begin

text \<open>
  The decimal output of the HTTP client (\<^verbatim>\<open>core/itoa_jeaiii.hpp\<close>): the number is turned into a fixed point number with 32 bits behind the point by one
  multiplication, and the digits are read off two at a time. The macros are compiled with their two-digit variant.
\<close>

section \<open>Model\<close>

text \<open>\<^verbatim>\<open>s_pairs\<close>; an index of 100 or more is outside the table.\<close>

definition s_pairs :: "size_t \<Rightarrow> string option" where
  "s_pairs i = (if i < 100 then Some [ascii (unat i div 10), ascii (unat i mod 10)] else None)"

text \<open>\<^verbatim>\<open>CINATRAA(N)\<close>: the fixed point number; its upper half are the first two digits.\<close>

definition cinatra_A :: "nat \<Rightarrow> u32 \<Rightarrow> size_t" where
  "cinatra_A N u =
     (let sh = N div 5 * N * 53 div 16;
          t = push_bit (32 + sh) 1 div of_nat (10 ^ N) + 1 + of_nat (N div 6) - of_nat (N div 8);
          t = drop_bit sh (t * ucast u)
      in t + of_nat (N div 6 * 4))"

text \<open>\<^verbatim>\<open>CINATRAD\<close> for two more digits, \<^verbatim>\<open>CINATRAS\<close> for a last one.\<close>

fun cinatra_digits :: "nat \<Rightarrow> size_t \<Rightarrow> string option" where
  "cinatra_digits 0 t = Some []"
| "cinatra_digits (Suc 0) t = Some [ascii (unat (drop_bit 32 (10 * ucast (ucast t :: u32) :: size_t)))]"
| "cinatra_digits (Suc (Suc n)) t =
     (let t = 100 * ucast (ucast t :: u32) in
      case s_pairs (drop_bit 32 t) of
        None \<Rightarrow> None
      | Some p \<Rightarrow> map_option (\<lambda>ds. p @ ds) (cinatra_digits n t))"

definition cinatra_L :: "nat \<Rightarrow> u32 \<Rightarrow> string option" where
  "cinatra_L n u =
     (if n = 0 then Some [ascii (unat u)]
      else if n = 1 then s_pairs (ucast u)
      else (let t = cinatra_A (n - 1) u in
            case s_pairs (drop_bit 32 t) of
              None \<Rightarrow> None
            | Some p \<Rightarrow> map_option (\<lambda>ds. p @ ds) (cinatra_digits (n - 1) t)))"

definition LG :: "u32 \<Rightarrow> string option" where
  "LG u =
     cinatra_L
       (if u < 100 then (if u < 10 then 0 else 1)
        else if u < 1000000 then (if u < 10000 then (if u < 1000 then 2 else 3) else if u < 100000 then 4 else 5)
        else if u < 100000000 then (if u < 10000000 then 6 else 7)
        else if u < 1000000000 then 8 else 9) u"

definition u32toa_jeaiii :: "u32 \<Rightarrow> string option" where
  "u32toa_jeaiii u = LG u"

definition i32toa_jeaiii :: "32 word \<Rightarrow> string option" where
  "i32toa_jeaiii i = (if sint i < 0 then map_option (\<lambda>ds. CHR ''-'' # ds) (LG (0 - i)) else LG i)"

definition then_write :: "string option \<Rightarrow> string option \<Rightarrow> string option" where
  "then_write a b = Option.bind a (\<lambda>x. map_option (\<lambda>y. x @ y) b)"

definition u64toa_jeaiii :: "size_t \<Rightarrow> string option" where
  "u64toa_jeaiii n =
     (if (ucast (drop_bit 32 n) :: u32) = 0 then LG (ucast n)
      else
        (let a = n div 100000000 in
         then_write
           (if (ucast (drop_bit 32 a) :: u32) = 0 then LG (ucast a)
            else then_write (LG (ucast (a div 100000000))) (cinatra_L 7 (ucast (a mod 100000000))))
           (cinatra_L 7 (ucast (n mod 100000000)))))"

definition i64toa_jeaiii :: "size_t \<Rightarrow> string option" where
  "i64toa_jeaiii i = (if sint i < 0 then map_option (\<lambda>ds. CHR ''-'' # ds) (u64toa_jeaiii (0 - i)) else u64toa_jeaiii i)"

section \<open>The fixed point number\<close>

text \<open>\<open>t / B\<close> lies between \<open>u / P\<close> and \<open>(u + 1) / P\<close>.\<close>

definition near :: "nat \<Rightarrow> nat \<Rightarrow> nat \<Rightarrow> nat \<Rightarrow> bool" where
  "near B P u t \<longleftrightarrow> u * B \<le> t * P \<and> t * P < (u + 1) * B"

lemma near_div:
  assumes "near B P u t" "0 < B" "0 < P"
  shows "t div B = u div P"
proof -
  let ?q = "t div B"
  have q: "?q * B \<le> t" "t < (?q + 1) * B" using dividend_less_div_times [OF assms(2), of t] by (simp_all add: add.commute)
  have "(?q * P) * B = (?q * B) * P" by (simp only: ac_simps)
  also have "\<dots> \<le> t * P" by (rule mult_right_mono [OF q(1)]) simp
  also have "\<dots> < (u + 1) * B" using assms(1) by (simp add: near_def)
  finally have lo: "?q * P \<le> u" by (simp only: mult_less_cancel2) simp
  have "u * B \<le> t * P" using assms(1) by (simp add: near_def)
  also have "\<dots> < (?q + 1) * B * P" by (rule mult_strict_right_mono [OF q(2) assms(3)])
  also have "\<dots> = ((?q + 1) * P) * B" by (simp only: ac_simps)
  finally have hi: "u < (?q + 1) * P" by (simp only: mult_less_cancel2)
  show ?thesis using lo hi by (intro div_nat_eqI [symmetric]) (simp_all add: mult.commute)
qed

lemma near_step:
  assumes "near B (J * P) u t" "0 < B" "0 < J * P"
  shows "near B P (u mod (J * P)) (J * (t mod B))"
proof -
  let ?M = "J * P"
  have q: "t div B = u div ?M" by (rule near_div [OF assms])
  have t: "t * ?M = (t div B) * B * ?M + (t mod B) * ?M" by (metis add_mult_distrib div_mult_mod_eq)
  have "u * B = ((u div ?M) * ?M + u mod ?M) * B" by (simp only: div_mult_mod_eq)
  then have u: "u * B = (t div B) * B * ?M + (u mod ?M) * B" unfolding q by (simp only: distrib_left ac_simps)
  have p: "J * (t mod B) * P = (t mod B) * ?M" by (simp only: ac_simps)
  show ?thesis using assms(1) t u unfolding near_def p by (simp only: add_mult_distrib) linarith
qed

lemma unat_scaled: "unat (of_nat k * ucast (ucast t :: u32) :: size_t) = k * (unat t mod 2 ^ 32)" if "k \<le> 100" for t :: size_t
proof -
  have l: "unat (ucast (ucast t :: u32) :: size_t) = unat t mod 2 ^ 32"
    by (simp add: unsigned_ucast_eq take_bit_eq_mod unat_mod)
  have "k * (unat t mod 2 ^ 32) \<le> 100 * 2 ^ 32" using that by (intro mult_mono) (simp_all add: less_imp_le)
  then have "k * (unat t mod 2 ^ 32) < 2 ^ 64" by (rule le_less_trans) simp
  then show ?thesis using that by (simp add: unat_word_ariths unat_of_nat l)
qed

lemma s_pairs_dec: "unat i < 100 \<Longrightarrow> s_pairs i = Some (dec_pad 2 (unat i))"
proof -
  have "dec_pad 2 n = [ascii (n div 10 mod 10), ascii (n mod 10)]" for n by (simp add: numeral_2_eq_2)
  moreover assume "unat i < 100"
  ultimately show ?thesis by (simp add: s_pairs_def word_less_nat_alt)
qed

lemma upper_half: "unat (drop_bit 32 t) = unat t div 2 ^ 32" for t :: size_t
  by (simp add: drop_bit_eq_div unat_div)

lemma near_pair:
  assumes "near (2 ^ 32) (10 ^ N) u (unat t)" "u < 10 ^ (N + 2)"
  shows "s_pairs (drop_bit 32 t) = Some (dec_pad 2 (u div 10 ^ N))"
proof -
  have q: "unat (drop_bit 32 t) = u div 10 ^ N"
    using near_div [OF assms(1)] unfolding upper_half by simp
  have "u < 100 * 10 ^ N" using assms(2) by (simp add: power_add)
  then have "u div 10 ^ N < 100" by (simp add: less_mult_imp_div_less)
  then show ?thesis using s_pairs_dec [of "drop_bit 32 t"] q by simp
qed

lemma cinatra_digits_dec:
  assumes "near (2 ^ 32) (10 ^ N) u (unat t)"
  shows "cinatra_digits N t = Some (dec_pad N (u mod 10 ^ N))"
  using assms
proof (induction N t arbitrary: u rule: cinatra_digits.induct)
  case (2 t)
  have "near (2 ^ 32) 1 (u mod 10) (10 * (unat t mod 2 ^ 32))" using near_step [of "2 ^ 32" 10 1 u "unat t"] 2 by simp
  then have "(10 * (unat t mod 2 ^ 32)) div 2 ^ 32 = u mod 10" using near_div by fastforce
  moreover have "unat (10 * ucast (ucast t :: u32) :: size_t) = 10 * (unat t mod 2 ^ 32)" using unat_scaled [of 10 t] by simp
  ultimately have "unat (drop_bit 32 (10 * ucast (ucast t :: u32) :: size_t)) = u mod 10" unfolding upper_half by simp
  then show ?case by simp
next
  case (3 n t)
  let ?t = "100 * ucast (ucast t :: u32) :: size_t" and ?u = "u mod 10 ^ Suc (Suc n)"
  have "unat ?t = 100 * (unat t mod 2 ^ 32)" using unat_scaled [of 100 t] by simp
  then have near: "near (2 ^ 32) (10 ^ n) ?u (unat ?t)" using near_step [of "2 ^ 32" 100 "10 ^ n" u "unat t"] 3(2) by simp
  have "s_pairs (drop_bit 32 ?t) = Some (dec_pad 2 (?u div 10 ^ n))" using near_pair [OF near] by simp
  moreover have "cinatra_digits n ?t = Some (dec_pad n (?u mod 10 ^ n))" using 3(1) [OF refl, of "dec_pad 2 (?u div 10 ^ n)"] near calculation by simp
  moreover have "dec_pad 2 (?u div 10 ^ n) @ dec_pad n (?u mod 10 ^ n) = dec_pad (2 + n) ?u"
    using dec_pad_append [of "?u mod 10 ^ n" n 2 "?u div 10 ^ n"] by (simp add: mult.commute)
  ultimately show ?case by simp
qed simp

text \<open>The multiplication: no overflow, and the rounding keeps the number between its bounds, for each of the eight sizes.\<close>

lemma near_product:
  assumes "M * P = B * S + D" "(S - 1) * P \<le> D * v + a * S * P" "D * v + a * S * P < B * S" "0 < S"
  shows "near B P v (M * v div S + a)"
proof -
  define k r where "k = M * v div S" and "r = M * v mod S"
  have kr: "M * v = k * S + r" "r \<le> S - 1" using mod_less_divisor [OF assms(4), of "M * v"] unfolding k_def r_def by simp_all
  have e: "B * S * v + D * v = k * S * P + r * P"
  proof -
    have "(B * S + D) * v = (M * v) * P" unfolding assms(1) [symmetric] by (simp only: ac_simps)
    then show ?thesis unfolding kr(1) by (simp only: add_mult_distrib)
  qed
  have rP: "r * P \<le> (S - 1) * P" by (rule mult_right_mono [OF kr(2)]) simp
  have "(v * B) * S \<le> ((k + a) * P) * S"
  proof -
    have "B * S * v \<le> k * S * P + a * S * P" using e rP assms(2) by linarith
    then show ?thesis by (simp only: distrib_left ac_simps)
  qed
  moreover have "((k + a) * P) * S < ((v + 1) * B) * S"
  proof -
    have "k * S * P + a * S * P < B * S * v + B * S" using e assms(3) by linarith
    then show ?thesis by (simp only: distrib_left ac_simps mult_1 mult_1_right)
  qed
  ultimately show ?thesis using assms(4) unfolding near_def k_def [symmetric] by (simp only: mult_le_cancel2 mult_less_cancel2)
qed

lemma shifted_product:
  fixes u :: u32
  assumes "unat M * unat u < 2 ^ 64" "(unat M * unat u) div 2 ^ sh + a < 2 ^ 64"
  shows "unat (drop_bit sh (M * ucast u) + of_nat a :: size_t) = (unat M * unat u) div 2 ^ sh + a"
proof -
  have "unat u < 2 ^ 64" using unsigned_less [of u, where 'a = nat] by simp
  then have u: "unat (ucast u :: size_t) = unat u" by (simp add: unsigned_ucast_eq take_bit_nat_eq_self)
  have m: "unat (M * ucast u) = unat M * unat u" using assms(1) by (simp add: unat_word_ariths u)
  have d: "unat (drop_bit sh (M * ucast u)) = (unat M * unat u) div 2 ^ sh" by (simp only: unat_drop_bit_eq m) (simp only: drop_bit_eq_div)
  have "a < 2 ^ 64" using assms(2) by linarith
  then show ?thesis using assms(2) by (simp add: unat_word_ariths unat_of_nat d)
qed

lemma near_A:
  assumes "N \<in> {1 .. 8}" "unat u < 10 ^ (N + 2)" "N = 5 \<longrightarrow> 10 ^ 6 \<le> unat u"
  shows "near (2 ^ 32) (10 ^ N) (unat u) (unat (cinatra_A N u))"
proof -
  have u: "unat u < 2 ^ 32" using unsigned_less [of u] by simp
  have A: "near (2 ^ 32) (10 ^ N) (unat u) (unat (cinatra_A N u))"
    if "cinatra_A N u = drop_bit sh (of_nat M * ucast u) + of_nat a" "M * 10 ^ N = 2 ^ 32 * 2 ^ sh + D" "M * unat u < 2 ^ 64 - 4" "a \<le> 4"
      "(2 ^ sh - 1) * 10 ^ N \<le> D * unat u + a * 2 ^ sh * 10 ^ N" "D * unat u + a * 2 ^ sh * 10 ^ N < 2 ^ 32 * 2 ^ sh" "M < 2 ^ 64" for M sh a D
  proof -
    have "M * unat u div 2 ^ sh \<le> M * unat u" by (rule div_le_dividend)
    then have "M * unat u div 2 ^ sh + a < 2 ^ 64" using that(3,4) by linarith
    then have "unat (cinatra_A N u) = M * unat u div 2 ^ sh + a"
      using shifted_product [of "of_nat M" u sh a] that(1,3,4,7) by (simp add: unat_of_nat)
    then show ?thesis using near_product [OF that(2,5,6)] by simp
  qed
  consider "N = 1" | "N = 2" | "N = 3" | "N = 4" | "N = 5" | "N = 6" | "N = 7" | "N = 8" using assms(1) by (auto simp: numeral_eq_Suc le_Suc_eq)
  then show ?thesis
  proof cases
    case 1
    then show ?thesis using assms(2,3) A [of 0 429496730 0 4] by (simp add: cinatra_A_def)
  next
    case 2
    then show ?thesis using assms(2,3) A [of 0 42949673 0 4] by (simp add: cinatra_A_def)
  next
    case 3
    then show ?thesis using assms(2,3) A [of 0 4294968 0 704] by (simp add: cinatra_A_def)
  next
    case 4
    then show ?thesis using assms(2,3) A [of 0 429497 0 2704] by (simp add: cinatra_A_def)
  next
    case 5
    then show ?thesis using assms(2,3) A [of 16 2814749768 0 89344] by (simp add: cinatra_A_def)
  next
    case 6
    then show ?thesis using assms(2,3) A [of 19 2251799815 4 1314752] by (simp add: cinatra_A_def)
  next
    case 7
    then show ?thesis using assms(2,3) A [of 23 3602879703 4 11036032] by (simp add: cinatra_A_def)
  next
    case 8
    then show ?thesis using u A [of 26 2882303762 4 48288256] by (simp add: cinatra_A_def)
  qed
qed

section \<open>Decimal notation\<close>

lemma dec_pad_dec: "n = 0 \<or> 10 ^ n \<le> u \<Longrightarrow> u < 10 ^ Suc n \<Longrightarrow> dec_pad (Suc n) u = dec u"
proof -
  assume u: "n = 0 \<or> 10 ^ n \<le> u" "u < 10 ^ Suc n"
  let ?q = "u div 10 ^ n" and ?r = "u mod 10 ^ n"
  have q: "?q < 10" using u(2) by (simp add: less_mult_imp_div_less)
  have pad: "dec_pad (1 + n) (?q * 10 ^ n + ?r) = dec_pad 1 ?q @ dec_pad n ?r" by (rule dec_pad_append) simp
  show "dec_pad (Suc n) u = dec u"
  proof (cases "n = 0")
    case False
    then have "0 < ?q" using u(1) by (simp add: div_greater_zero_iff)
    then have "dec (?q * 10 ^ n + ?r) = dec ?q @ dec_pad n ?r" by (rule dec_append) simp
    then show ?thesis using pad q dec_small(1) [OF q] by (simp add: div_mult_mod_eq)
  qed (use u(2) in \<open>simp add: dec_small\<close>)
qed

lemma cinatra_L_pad:
  assumes "n \<le> 9" "unat u < 10 ^ Suc n" "n = 6 \<longrightarrow> 10 ^ 6 \<le> unat u"
  shows "cinatra_L n u = Some (dec_pad (Suc n) (unat u))"
proof -
  consider "n = 0" | "n = 1" | N where "n = Suc N" "N \<in> {1 .. 8}" using assms(1) by (cases n) (auto simp: Suc_le_eq)
  then show ?thesis
  proof cases
    case 2
    have "unat (ucast u :: size_t) = unat u" using assms(2) 2 by (simp add: unsigned_ucast_eq take_bit_nat_eq_self)
    then show ?thesis using s_pairs_dec [of "ucast u"] assms(2) 2 by (simp add: cinatra_L_def numeral_2_eq_2)
  next
    case 3
    have near: "near (2 ^ 32) (10 ^ N) (unat u) (unat (cinatra_A N u))" using near_A [OF 3(2)] assms(2,3) 3(1) by simp
    have "dec_pad 2 (unat u div 10 ^ N) @ dec_pad N (unat u mod 10 ^ N) = dec_pad (2 + N) (unat u)"
      using dec_pad_append [of "unat u mod 10 ^ N" N 2 "unat u div 10 ^ N"] by (simp add: mult.commute)
    then show ?thesis
      using near_pair [OF near] cinatra_digits_dec [OF near] assms(2) 3 by (simp add: cinatra_L_def Let_def del: dec_pad.simps)
  qed (use assms(2) in \<open>simp add: cinatra_L_def\<close>)
qed

lemma LG_dec: "LG u = Some (dec (unat u))"
proof -
  define n :: nat where
    "n = (if u < 100 then (if u < 10 then 0 else 1)
        else if u < 1000000 then (if u < 10000 then (if u < 1000 then 2 else 3) else if u < 100000 then 4 else 5)
        else if u < 100000000 then (if u < 10000000 then 6 else 7)
        else if u < 1000000000 then 8 else 9)"
  have n: "n \<le> 9" "n = 0 \<or> 10 ^ n \<le> unat u" "unat u < 10 ^ Suc n"
    using unsigned_less [of u, where 'a = nat] by (simp_all add: n_def word_less_nat_alt split: if_splits)
  then have "n = 6 \<longrightarrow> 10 ^ 6 \<le> unat u" by auto
  then show ?thesis using cinatra_L_pad [OF n(1,3)] dec_pad_dec [OF n(2,3)] unfolding LG_def n_def [symmetric] by (simp del: dec_pad.simps)
qed

lemma low_ucast: "unat n < 2 ^ 32 \<Longrightarrow> unat (ucast n :: u32) = unat n" for n :: size_t
  by (simp add: unsigned_ucast_eq take_bit_nat_eq_self)

lemma upper_zero: "(ucast (drop_bit 32 n) :: u32) = 0 \<longleftrightarrow> unat n < 2 ^ 32" for n :: size_t
proof -
  have "unat (drop_bit 32 n) < 2 ^ 32" unfolding upper_half using unsigned_less [of n, where 'a = nat] by (simp add: less_mult_imp_div_less)
  then have "unat (ucast (drop_bit 32 n) :: u32) = unat n div 2 ^ 32" using low_ucast upper_half by metis
  moreover have "w = 0 \<longleftrightarrow> unat w = 0" for w :: u32 by (simp add: unat_eq_zero)
  ultimately show ?thesis by (simp add: div_eq_0_iff)
qed

lemma u64toa_dec: "u64toa_jeaiii n = Some (dec (unat n))"
proof -
  let ?a = "n div 100000000" and ?v = "unat n div 100000000"
  have a: "unat ?a = ?v" by (simp add: unat_div)
  have r: "cinatra_L 7 (ucast (m mod 100000000)) = Some (dec_pad 8 (unat m mod 100000000))" for m :: size_t
    using cinatra_L_pad [of 7 "ucast (m mod 100000000)"] low_ucast [of "m mod 100000000"] by (simp add: unat_mod del: dec_pad.simps)
  have ap: "dec (unat m) = dec (unat m div 100000000) @ dec_pad 8 (unat m mod 100000000)" if "100000000 \<le> unat m" for m :: size_t
    using dec_append [of "unat m div 100000000" "unat m mod 100000000" 8] that by (simp add: div_greater_zero_iff)
  show ?thesis
  proof (cases "unat n < 2 ^ 32")
    case True
    then show ?thesis by (simp add: u64toa_jeaiii_def upper_zero LG_dec low_ucast)
  next
    case False
    then have n: "dec (unat n) = dec ?v @ dec_pad 8 (unat n mod 100000000)" by (intro ap) simp
    show ?thesis
    proof (cases "?v < 2 ^ 32")
      case True
      then show ?thesis using False n by (simp add: u64toa_jeaiii_def upper_zero a LG_dec low_ucast r then_write_def Let_def)
    next
      case w: False
      have "?v div 100000000 < 2 ^ 32" using unsigned_less [of n, where 'a = nat] by (simp add: less_mult_imp_div_less)
      then have "unat (ucast (?a div 100000000) :: u32) = ?v div 100000000" using low_ucast [of "?a div 100000000"] by (simp add: unat_div)
      moreover have "dec ?v = dec (?v div 100000000) @ dec_pad 8 (?v mod 100000000)" using ap [of ?a] w unfolding a by simp
      ultimately show ?thesis using False w n by (simp add: u64toa_jeaiii_def upper_zero a LG_dec r then_write_def Let_def)
    qed
  qed
qed

text \<open>
  (C34) The conversions of the client produce decimal notation, for every argument and with every index inside the table of digit pairs: the fixed point
  number is exact enough for all its sizes.
\<close>

theorem jeaiii_decimal:
  "u32toa_jeaiii u = Some (dec (unat u)) \<and> i32toa_jeaiii i = Some (dec_int (sint i)) \<and>
   u64toa_jeaiii n = Some (dec (unat n)) \<and> i64toa_jeaiii m = Some (dec_int (sint m))"
  by (simp add: u32toa_jeaiii_def i32toa_jeaiii_def i64toa_jeaiii_def LG_dec u64toa_dec dec_int_def negate_negative nonneg_unat not_less)

end
