(* ===== verification/Http_Client.thy ===== *)
theory Http_Client
  imports Uri Jeaiii Download
begin

text \<open>
  The HTTP client (\<^verbatim>\<open>core/http_client.hpp\<close>, \<^verbatim>\<open>core/http_parser.hpp\<close>) over a blocking socket: it prints a request, reads the head of the response up to the empty
  line, and then the body by its length. The calls of the network are lists of answers; a callback of the caller is recorded with its argument.
\<close>

section \<open>The response parser\<close>

record http_parser =
  hp_status :: int
  hp_msg :: string
  hp_header_len :: int
  hp_body_len :: int
  hp_headers :: "(string \<times> string) list"

definition http_parser_new :: http_parser where
  "http_parser_new = \<lparr>hp_status = 0, hp_msg = [], hp_header_len = 0, hp_body_len = 0, hp_headers = []\<rparr>"

text \<open>A header as two strings; the name of a continuation line is a null pointer with length 0.\<close>

definition hp_header :: "string \<Rightarrow> phr_header \<Rightarrow> string \<times> string" where
  "hp_header data h =
     ((case hdr_name h of None \<Rightarrow> [] | Some i \<Rightarrow> subrange data i (hdr_name_len h)), subrange data (hdr_value h) (hdr_value_len h))"

definition hp_get_header_value :: "string \<Rightarrow> http_parser \<Rightarrow> string" where
  "hp_get_header_value key p = (case find (\<lambda>nv. iequal (fst nv) key) (hp_headers p) of None \<Rightarrow> [] | Some nv \<Rightarrow> snd nv)"

text \<open>\<^verbatim>\<open>atoi\<close> reads on from the start of the value and cuts the result to 32 bits.\<close>

definition atoi :: "string \<Rightarrow> int" where
  "atoi s = sint (word_of_int (atoll s) :: 32 word)"

definition hp_parse_response :: "string \<Rightarrow> nat \<Rightarrow> http_parser \<Rightarrow> (http_parser \<times> int) option" where
  "hp_parse_response data from_len p =
     (let (out, r) = phr_parse_response data 100 from_len;
          p = p\<lparr>hp_status := resp_status out,
                hp_msg := (case resp_msg out of None \<Rightarrow> [] | Some i \<Rightarrow> subrange data i (resp_msg_len out)),
                hp_headers := map (hp_header data) (resp_headers out)\<rparr>;
          len = (case find (\<lambda>h. iequal (fst (hp_header data h)) ''content-length'') (resp_headers out) of
                   None \<Rightarrow> 0
                 | Some h \<Rightarrow> if snd (hp_header data h) = [] then 0 else atoi (drop (hdr_value h) data))
      in case r of
           Fault \<Rightarrow> None
         | Ok n \<Rightarrow> Some (p\<lparr>hp_header_len := int n, hp_body_len := len\<rparr>, int n)
         | Ret e \<Rightarrow> Some (p\<lparr>hp_header_len := e, hp_body_len := len\<rparr>, e))"

definition hp_is_chunked :: "http_parser \<Rightarrow> bool" where
  "hp_is_chunked p \<longleftrightarrow> hp_get_header_value ''transfer-encoding'' p = ''chunked''"

definition hp_keep_alive :: "http_parser \<Rightarrow> bool" where
  "hp_keep_alive p \<longleftrightarrow> (let val = hp_get_header_value ''connection'' p in val = [] \<or> iequal val ''keep-alive'')"

definition hp_total_len :: "http_parser \<Rightarrow> int" where
  "hp_total_len p = hp_header_len p + hp_body_len p"

section \<open>The socket\<close>

text \<open>\<^verbatim>\<open>Writen\<close>: an answer is the result of one call of \<^verbatim>\<open>send\<close>; the bytes put on the wire, the result and the answers left. Without an
  answer the call fails.\<close>

fun Writen :: "int list \<Rightarrow> int \<Rightarrow> string \<Rightarrow> string \<times> int \<times> int list" where
  "Writen ks n [] = ([], n, ks)"
| "Writen [] n buffer = ([], - 1, [])"
| "Writen (k # ks) n buffer =
     (if k \<le> 0 then ([], k, ks)
      else (let (w, r, ks) = Writen ks n (drop (nat k) buffer) in (take (nat k) buffer @ w, r, ks)))"

text \<open>What has arrived, in pieces; a call returns at most 1024 bytes, and an empty piece or none at all is the end of the stream.\<close>

fun Recv :: "string list \<Rightarrow> string \<times> string list" where
  "Recv [] = ([], [])"
| "Recv (x # xs) = (if length x \<le> 1024 then (x, xs) else (take 1024 x, drop 1024 x # xs))"

definition pending :: "string list \<Rightarrow> nat" where
  "pending xs = sum_list (map (\<lambda>x. Suc (length x)) xs)"

lemma Recv_less: "fst (Recv xs) \<noteq> [] \<Longrightarrow> pending (snd (Recv xs)) < pending xs"
  by (cases xs rule: Recv.cases) (auto simp: pending_def)

definition ends_with :: "string \<Rightarrow> string \<Rightarrow> bool" where
  "ends_with lit s \<longleftrightarrow> length lit \<le> length s \<and> drop (length s - length lit) s = lit"

text \<open>The characters of one piece: found, with what is left of the piece, or not found.\<close>

fun until_piece :: "string \<Rightarrow> string \<Rightarrow> string \<Rightarrow> (string \<times> string) + string" where
  "until_piece lit acc [] = Inr acc"
| "until_piece lit acc (c # b) = (if ends_with lit (acc @ [c]) then Inl (acc @ [c], b) else until_piece lit (acc @ [c]) b)"

text \<open>\<^verbatim>\<open>read_until\<close>: \<open>None\<close> is a failure; the second string is the new \<^verbatim>\<open>m_recv_str_buf\<close>.\<close>

function read_until :: "string \<Rightarrow> string \<Rightarrow> string list \<Rightarrow> (string \<times> string) option \<times> string list" where
  "read_until lit acc xs =
     (let (b, ys) = Recv xs in
      if b = [] then (None, ys)
      else case until_piece lit acc b of Inl r \<Rightarrow> (Some r, ys) | Inr acc \<Rightarrow> read_until lit acc ys)"
  by pat_completeness auto
termination
proof (relation "measure (\<lambda>(lit, acc, xs). pending xs)", goal_cases)
  case (2 lit acc xs r b ys c)
  then show ?case using Recv_less [of xs] by (cases "Recv xs") auto
qed simp

function readN :: "int \<Rightarrow> string \<Rightarrow> string list \<Rightarrow> string option \<times> string list" where
  "readN Siz acc xs =
     (if Siz \<le> 0 then (Some acc, xs)
      else
        (let (b, ys) = Recv xs in
         if b = [] then (None, ys) else readN (Siz - int (length b)) (acc @ b) ys))"
  by pat_completeness auto
termination
proof (relation "measure (\<lambda>(n, acc, xs). pending xs)", goal_cases)
  case (2 Siz acc xs r b ys)
  then show ?case using Recv_less [of xs] by (cases "Recv xs") auto
qed simp

declare read_until.simps [simp del] readN.simps [simp del]

section \<open>The client\<close>

text \<open>The headers of a response are views. \<open>None\<close> are views of a string that has been freed.\<close>

record response_data =
  rd_ec :: int
  rd_status :: int
  rd_body :: string
  rd_headers :: "(string \<times> string) list option"

text \<open>A promise of a synchronous request, and the value it has been given.\<close>

datatype client_promise = Unset | Given response_data

text \<open>\<open>cl_head_live\<close> says that the head which the views of the parser point into still exists: it is a local variable of \<^verbatim>\<open>do_read\<close>.\<close>

record http_client =
  cl_connected :: bool
  cl_cb :: bool
  cl_in_progress :: bool
  cl_timeout :: nat
  cl_parser :: http_parser
  cl_copy_headers :: "(string \<times> string) list"
  cl_head_live :: bool
  cl_header_str :: string
  cl_headers :: "(string \<times> string) list"
  cl_type :: req_content_type
  cl_on_chunk :: bool
  cl_multipart_str :: string
  cl_start :: size_t
  cl_last_domain :: string
  cl_future_ready :: bool
  cl_mem_file_size :: int
  cl_promise :: "client_promise option"
  cl_weak :: bool
  cl_sync :: bool
  cl_recv_buf :: string
  cl_called :: "response_data list"
  cl_chunks :: "(int \<times> string) list"
  cl_wire :: string
  cl_connects :: "bool list"
  cl_sends :: "int list"
  cl_recvs :: "string list"

text \<open>\<^verbatim>\<open>start_\<close> has no initialiser.\<close>

definition http_client_new :: "size_t \<Rightarrow> bool list \<Rightarrow> int list \<Rightarrow> string list \<Rightarrow> http_client" where
  "http_client_new garbage connects sends recvs =
     \<lparr>cl_connected = False, cl_cb = False, cl_in_progress = False, cl_timeout = 60, cl_parser = http_parser_new, cl_copy_headers = [], cl_head_live = False,
      cl_header_str = [], cl_headers = [], cl_type = json, cl_on_chunk = False, cl_multipart_str = [], cl_start = garbage,
      cl_last_domain = [], cl_future_ready = False, cl_mem_file_size = - 1, cl_promise = None, cl_weak = False, cl_sync = False,
      cl_recv_buf = [], cl_called = [], cl_chunks = [], cl_wire = [], cl_connects = connects, cl_sends = sends, cl_recvs = recvs\<rparr>"

text \<open>How a call ends: normally, waiting for ever, in an assertion, out of memory, or with a read of freed memory.\<close>

datatype 'a run = Done 'a | Hangs | Aborts | No_memory | Dangling

definition EC_FAIL :: int where "EC_FAIL = 1"
definition EC_in_progress :: int where "EC_in_progress = 2"
definition EC_invalid_argument :: int where "EC_invalid_argument = 3"

definition client_add_header :: "string \<Rightarrow> string \<Rightarrow> http_client \<Rightarrow> http_client" where
  "client_add_header key val c = (if key = [] \<or> key = ''Host'' then c else c\<lparr>cl_headers := cl_headers c @ [(key, val)]\<rparr>)"

definition add_header_str :: "string \<Rightarrow> http_client \<Rightarrow> http_client" where
  "add_header_str pair_str c =
     (if pair_str = [] \<or> str_find ''Host:'' pair_str \<noteq> None then c else c\<lparr>cl_header_str := cl_header_str c @ pair_str\<rparr>)"

definition clear_headers :: "http_client \<Rightarrow> http_client" where
  "clear_headers c = c\<lparr>cl_headers := [], cl_header_str := []\<rparr>"

definition get_resp_headers :: "http_client \<Rightarrow> http_client \<times> (string \<times> string) list option" where
  "get_resp_headers c =
     (let c = (if cl_copy_headers c \<noteq> [] then c\<lparr>cl_parser := (cl_parser c)\<lparr>hp_headers := cl_copy_headers c\<rparr>\<rparr> else c)
      in (c, if cl_copy_headers c \<noteq> [] \<or> cl_head_live c \<or> hp_headers (cl_parser c) = [] then Some (hp_headers (cl_parser c)) else None))"

definition callback :: "int \<Rightarrow> int \<Rightarrow> string \<Rightarrow> http_client \<Rightarrow> http_client" where
  "callback ec st result c =
     (if cl_weak c then
        (let (c, hs) = get_resp_headers c
         in c\<lparr>cl_promise := Some (Given \<lparr>rd_ec = ec, rd_status = st, rd_body = result, rd_headers = hs\<rparr>), cl_weak := False\<rparr>)
      else
        (let c = (if cl_cb c then
                    (let (c, hs) = get_resp_headers c
                     in c\<lparr>cl_called := cl_called c @ [\<lparr>rd_ec = ec, rd_status = st, rd_body = result, rd_headers = hs\<rparr>], cl_cb := False\<rparr>)
                  else c);
             c = (if cl_on_chunk c then c\<lparr>cl_chunks := cl_chunks c @ [(ec, result)]\<rparr> else c)
         in c\<lparr>cl_in_progress := False\<rparr>))"

text \<open>\<^verbatim>\<open>close\<close>; what the socket had buffered stays.\<close>

definition client_close :: "http_client \<Rightarrow> http_client" where
  "client_close c = c\<lparr>cl_connected := False\<rparr>"

text \<open>\<^verbatim>\<open>get_uri\<close>: a URI that cannot be parsed is encoded and parsed again into the same object, which then points into the local copy.\<close>

definition get_uri :: "string \<Rightarrow> (bool \<times> uri_t) run" where
  "get_uri uri =
     (let (u, r) = parse_from uri (uri_new False) in
      if \<not> r \<and> u_schema u = [] then Done (False, uri_new False)
      else if \<not> r then
        (case parse_from (client_url_encode uri) u of
           (u, False) \<Rightarrow> Done (False, uri_new False)
         | (u, True) \<Rightarrow> if u_schema u = ''https'' then Aborts else Dangling)
      else if u_schema u = ''https'' then Aborts
      else Done (True, u))"

definition Write :: "string \<Rightarrow> http_client \<Rightarrow> http_client" where
  "Write msg c =
     (let (w, ret, ks) = Writen (cl_sends c) (int (length msg)) msg;
          c = c\<lparr>cl_wire := cl_wire c @ w, cl_sends := ks\<rparr>
      in if ret < 0 then callback EC_FAIL 404 [] c else c)"

definition decimal32 :: "nat \<Rightarrow> string" where
  "decimal32 n = the (i32toa_jeaiii (of_nat n))"

text \<open>\<^verbatim>\<open>build_write_msg\<close>. The content type stays in the list of headers.\<close>

definition build_write_msg :: "uri_context \<Rightarrow> nat \<Rightarrow> http_client \<Rightarrow> http_client \<times> string" where
  "build_write_msg ctx content_len c =
     (let type_str = get_content_type_str (cl_type c);
          c = (if str_find ''Content-Type'' (cl_header_str c) = None \<and> type_str \<noteq> []
               then c\<lparr>cl_headers := cl_headers c @ [(''Content-Type'', type_str)]\<rparr> else c);
          has_connection = ((\<exists>h \<in> set (cl_headers c). fst h = ''Connection'') \<or> str_find ''Connection'' (cl_header_str c) \<noteq> None)
      in (c,
          method_name (ctx_method ctx) @ '' '' @ ctx_path ctx @ (if ctx_query ctx \<noteq> [] then ''?'' @ ctx_query ctx else []) @
          '' HTTP/1.1'' @ crlf @ ''Host:'' @ ctx_host ctx @ crlf @
          concat (map (\<lambda>h. fst h @ '': '' @ snd h @ crlf) (cl_headers c)) @
          (if cl_header_str c \<noteq> [] then cl_header_str c @ crlf else []) @
          (if ctx_body ctx \<noteq> [] then ''Content-Length: '' @ decimal32 (length (ctx_body ctx)) @ crlf
           else if ctx_method ctx = POST then
             (if 0 < content_len then ''Content-Length: '' @ decimal32 content_len @ crlf else ''Content-Length: 0'' @ crlf)
           else []) @
          (if has_connection then [] else ''Connection: keep-alive'' @ crlf) @ crlf @ ctx_body ctx))"

definition send_msg :: "uri_context \<Rightarrow> http_client \<Rightarrow> http_client" where
  "send_msg ctx c = (let (c, msg) = build_write_msg ctx 0 c in Write msg c)"

definition BOUNDARY :: string where "BOUNDARY = ''--netcoreBoundary2B8FAF4A80EDB307''"

definition MULTIPART_END :: string where "MULTIPART_END = crlf @ ''--'' @ BOUNDARY @ ''--'' @ crlf @ crlf"

definition multipart_file_start :: "string \<Rightarrow> string" where
  "multipart_file_start filename =
     ''--'' @ BOUNDARY @ crlf @ ''Content-Disposition: form-data; name='' @ [CHR 0x22] @ ''test'' @ [CHR 0x22] @
     ''; filename='' @ [CHR 0x22] @ filename @ [CHR 0x22] @ crlf @ crlf"

definition total_multipart_size :: "size_t \<Rightarrow> nat \<Rightarrow> size_t" where
  "total_multipart_size left_file_size multipart_start_size = left_file_size + of_nat multipart_start_size + of_nat (length MULTIPART_END)"

text \<open>
  \<^verbatim>\<open>make_upload_data\<close> and \<^verbatim>\<open>send_file_data\<close>: of an empty rest nothing is sent. Otherwise one block is sent; the handler that would send the next one is
  not called by \<^verbatim>\<open>Write\<close>.
\<close>

definition send_file_data :: "string \<Rightarrow> http_client \<Rightarrow> http_client" where
  "send_file_data rest c =
     (if rest = [] then c
      else
        (let size = 3 * 1024 * 1024;
             c = c\<lparr>cl_multipart_str := cl_multipart_str c @ take size rest @ (if length rest \<le> size then MULTIPART_END else [])\<rparr>
         in Write (cl_multipart_str c) c))"

text \<open>The head of an upload and the start of its part are put into \<^verbatim>\<open>multipart_str_\<close>.\<close>

definition start_multipart :: "uri_context \<Rightarrow> string \<Rightarrow> size_t \<Rightarrow> http_client \<Rightarrow> http_client" where
  "start_multipart ctx filename left_file_size c =
     (let c = c\<lparr>cl_header_str := cl_header_str c @ ''Content-Type: multipart/form-data; boundary='' @ BOUNDARY\<rparr>;
          multipart_str = multipart_file_start (path_filename filename);
          (c, write_str) = build_write_msg ctx (unat (total_multipart_size left_file_size (length multipart_str))) c
      in c\<lparr>cl_multipart_str := write_str @ multipart_str\<rparr>)"

text \<open>A negative \<^verbatim>\<open>memFileSize\<close> is compared as an unsigned number: the loop does not end before the memory does.\<close>

definition send_multipart_msg :: "(string \<Rightarrow> string option) \<Rightarrow> uri_context \<Rightarrow> http_client \<Rightarrow> http_client run" where
  "send_multipart_msg F ctx c =
     (let filename = cl_multipart_str c; c = c\<lparr>cl_multipart_str := []\<rparr> in
      if cl_mem_file_size c \<noteq> 0 then
        (let c = start_multipart ctx filename (word_of_int (cl_mem_file_size c)) c in
         if cl_mem_file_size c < 0 then No_memory
         else
           (let c = c\<lparr>cl_multipart_str := cl_multipart_str c @ replicate (nat (cl_mem_file_size c)) (CHR ''a'') @ MULTIPART_END\<rparr>
            in Done (Write (cl_multipart_str c) c)))
      else
        (case F filename of
           None \<Rightarrow> Done (callback EC_invalid_argument 404 ''filesize error'' c)
         | Some data \<Rightarrow>
             (if cl_start c = - 1 then Done (callback EC_invalid_argument 404 ''filesize error'' c)
              else
                Done (send_file_data (drop (unat (cl_start c)) data)
                  (start_multipart ctx filename (of_nat (length data) - cl_start c) c)))))"

definition copy_headers :: "http_client \<Rightarrow> http_client" where
  "copy_headers c = c\<lparr>cl_copy_headers := hp_headers (cl_parser c)\<rparr>"

definition do_read_body :: "int \<Rightarrow> size_t \<Rightarrow> http_client \<Rightarrow> http_client" where
  "do_read_body st size_to_read c =
     (let (body, xs) = readN (sint (ucast size_to_read :: 32 word)) (cl_recv_buf c) (cl_recvs c); c = c\<lparr>cl_recvs := xs\<rparr>
      in callback 0 st (case body of None \<Rightarrow> [] | Some b \<Rightarrow> b) c)"

text \<open>At the end of \<^verbatim>\<open>do_read\<close> the head is freed. A promise is read after that, so that its views of the head, if the headers were not copied, have become invalid.\<close>

definition free_head :: "http_client \<Rightarrow> http_client" where
  "free_head c =
     c\<lparr>cl_head_live := False,
       cl_promise := (case cl_promise c of
                        Some (Given d) \<Rightarrow> Some (Given (if cl_copy_headers c = [] \<and> rd_headers d \<noteq> Some [] then d\<lparr>rd_headers := None\<rparr> else d))
                      | p \<Rightarrow> p)\<rparr>"

text \<open>\<^verbatim>\<open>do_read\<close>: the head, then the body. Whether the response is chunked is asked, but not used. The headers are copied only if there is a body.\<close>

definition do_read :: "http_client \<Rightarrow> http_client option" where
  "do_read c =
     (case read_until (crlf @ crlf) (cl_recv_buf c) (cl_recvs c) of
        (None, xs) \<Rightarrow> Some (client_close (c\<lparr>cl_recvs := xs\<rparr>))
      | (Some (headers, rest), xs) \<Rightarrow>
          (let c = c\<lparr>cl_recvs := xs, cl_recv_buf := rest, cl_head_live := True\<rparr> in
           case hp_parse_response headers 0 (cl_parser c) of
             None \<Rightarrow> None
           | Some (p, ret) \<Rightarrow>
               (let c = c\<lparr>cl_parser := p\<rparr> in
                Some (free_head
                 (if ret < 0 then client_close (callback EC_invalid_argument 404 ''http response parse error'' c)
                  else if hp_body_len p = 0 then client_close (callback 0 (hp_status p) [] c)
                  else do_read_body (hp_status p) (word_of_int (hp_body_len p) - of_nat (length (cl_recv_buf c))) (copy_headers c))))))"

definition do_write :: "(string \<Rightarrow> string option) \<Rightarrow> uri_context \<Rightarrow> http_client \<Rightarrow> http_client run" where
  "do_write F ctx c = (if cl_type c = multipart then send_multipart_msg F ctx c else Done (send_msg ctx c))"

definition do_read_write :: "(string \<Rightarrow> string option) \<Rightarrow> uri_context \<Rightarrow> http_client \<Rightarrow> http_client run" where
  "do_read_write F ctx c =
     (case do_write F ctx c of
        Done c \<Rightarrow> (case do_read c of None \<Rightarrow> Dangling | Some c \<Rightarrow> Done c)
      | r \<Rightarrow> r)"

definition async_connect :: "(string \<Rightarrow> string option) \<Rightarrow> uri_context \<Rightarrow> http_client \<Rightarrow> http_client run" where
  "async_connect F ctx c =
     (let succ = (cl_connects c \<noteq> [] \<and> hd (cl_connects c)); c = c\<lparr>cl_connects := List.tl (cl_connects c)\<rparr> in
      if \<not> succ then Done (callback EC_FAIL 404 [] c)
      else do_read_write F ctx (c\<lparr>cl_connected := True\<rparr>))"

text \<open>The error code it is given is not passed on; the old state of the future is abandoned, which makes it ready.\<close>

definition set_error_value :: "bool \<Rightarrow> int \<Rightarrow> string \<Rightarrow> http_client \<Rightarrow> http_client" where
  "set_error_value cb ec error_msg c =
     (let d = \<lparr>rd_ec = EC_invalid_argument, rd_status = 404, rd_body = error_msg, rd_headers = Some []\<rparr>;
          c = (if cl_promise c \<noteq> None then c\<lparr>cl_promise := Some (Given d)\<rparr> else c);
          c = (if cb then c\<lparr>cl_called := cl_called c @ [d]\<rparr> else c)
      in c\<lparr>cl_future_ready := True\<rparr>)"

definition async_request_impl ::
  "(string \<Rightarrow> string option) \<Rightarrow> http_method \<Rightarrow> string \<Rightarrow> bool \<Rightarrow> req_content_type \<Rightarrow> nat \<Rightarrow> string \<Rightarrow> http_client \<Rightarrow> http_client run" where
  "async_request_impl F mth uri cb ty seconds bdy c =
     (let need_switch = (cl_promise c = None \<and> cl_sync c); c = (if cl_promise c = None then c\<lparr>cl_sync := False\<rparr> else c) in
      if cl_in_progress c then Done (set_error_value cb EC_in_progress ''last async request not finished'' c)
      else
        (let c = c\<lparr>cl_in_progress := True\<rparr> in
         if mth \<noteq> POST \<and> bdy \<noteq> [] then Done (set_error_value cb EC_invalid_argument ''method error'' c)
         else
           (let need_reset = (need_switch \<or> cl_last_domain c \<noteq> [] \<and> str_find (cl_last_domain c) uri = None) in
            if need_reset \<and> \<not> cl_future_ready c then Hangs
            else
              (let c = (if need_reset then (client_close c)\<lparr>cl_future_ready := False\<rparr> else c) in
               case get_uri uri of
                 Done (False, _) \<Rightarrow> Done (set_error_value cb EC_invalid_argument ''invalid_uri'' c)
               | Done (True, u) \<Rightarrow>
                   (let c = c\<lparr>cl_last_domain := u_schema u @ ''://'' @ u_host u, cl_timeout := seconds, cl_type := ty, cl_cb := cb,
                              cl_weak := (cl_weak c \<or> cl_promise c \<noteq> None)\<rparr>;
                        ctx = uri_context_of u mth bdy
                    in if cl_connected c then do_write F ctx c else async_connect F ctx c)
               | Hangs \<Rightarrow> Hangs | Aborts \<Rightarrow> Aborts | No_memory \<Rightarrow> No_memory | Dangling \<Rightarrow> Dangling))))"

text \<open>
  \<^verbatim>\<open>request\<close>: everything happens in the calling thread, so that a promise that has no value after \<^verbatim>\<open>async_request\<close> never gets one and the wait times out.
\<close>

definition client_request ::
  "(string \<Rightarrow> string option) \<Rightarrow> http_method \<Rightarrow> string \<Rightarrow> req_content_type \<Rightarrow> nat \<Rightarrow> string \<Rightarrow> http_client \<Rightarrow> (http_client \<times> response_data) run" where
  "client_request F mth uri ty seconds bdy c =
     (case async_request_impl F mth uri False ty seconds bdy (c\<lparr>cl_promise := Some Unset, cl_sync := True\<rparr>) of
        Done c \<Rightarrow>
          (let d = (case cl_promise c of
                      Some (Given d) \<Rightarrow> d
                    | _ \<Rightarrow> \<lparr>rd_ec = EC_invalid_argument, rd_status = 404, rd_body = ''request timeout'', rd_headers = Some []\<rparr>)
           in Done (c\<lparr>cl_in_progress := False, cl_promise := None, cl_weak := False\<rparr>, d))
      | Hangs \<Rightarrow> Hangs | Aborts \<Rightarrow> Aborts | No_memory \<Rightarrow> No_memory | Dangling \<Rightarrow> Dangling)"

definition client_get :: "string \<Rightarrow> http_client \<Rightarrow> (http_client \<times> response_data) run" where
  "client_get uri c = client_request Map.empty GET uri json (cl_timeout c) [] c"

definition client_post :: "string \<Rightarrow> string \<Rightarrow> http_client \<Rightarrow> (http_client \<times> response_data) run" where
  "client_post uri bdy c = client_request Map.empty POST uri json (cl_timeout c) bdy c"

definition upload_string :: "string \<Rightarrow> string \<Rightarrow> nat \<Rightarrow> http_client \<Rightarrow> http_client run" where
  "upload_string uri filename sz c =
     async_request_impl Map.empty POST uri True multipart 60 [] (c\<lparr>cl_multipart_str := filename, cl_mem_file_size := int sz\<rparr>)"

definition upload :: "(string \<Rightarrow> string option) \<Rightarrow> string \<Rightarrow> string \<Rightarrow> size_t \<Rightarrow> http_client \<Rightarrow> http_client run" where
  "upload F uri filename start c =
     async_request_impl F POST uri True multipart 60 [] (c\<lparr>cl_multipart_str := filename, cl_start := start\<rparr>)"

text \<open>
  \<^verbatim>\<open>download_impl\<close>: whether the directory could be made, the size of the file that is there and whether it could be opened are arguments. The position
  is added to the headers twice.
\<close>

definition start_pos_header :: "int \<Rightarrow> int option \<Rightarrow> http_client \<Rightarrow> http_client" where
  "start_pos_header sz there c =
     (if 0 < sz then client_add_header ''cinatra_start_pos'' (the (i64toa_jeaiii (word_of_int sz))) c
      else case there of
             Some n \<Rightarrow> if 0 < n then client_add_header ''cinatra_start_pos'' (the (i64toa_jeaiii (word_of_int n))) c else c
           | None \<Rightarrow> c)"

definition download_impl :: "bool \<Rightarrow> int option \<Rightarrow> bool \<Rightarrow> string \<Rightarrow> int \<Rightarrow> bool \<Rightarrow> nat \<Rightarrow> http_client \<Rightarrow> http_client run" where
  "download_impl made there opened src_file sz cb seconds c =
     (if \<not> made then Done (callback EC_invalid_argument 404 ''invalid file path'' (c\<lparr>cl_cb := cb\<rparr>))
      else
        (let c = start_pos_header sz there c in
         if \<not> opened then Done (callback EC_invalid_argument 404 ''open file failed'' (c\<lparr>cl_cb := cb\<rparr>))
         else async_request_impl Map.empty GET src_file cb no_content_type seconds [] (start_pos_header sz (case there of None \<Rightarrow> Some 0 | Some n \<Rightarrow> Some n) c)))"

end
