(* ===== verification/Http_Client_Correct.thy ===== *)
theory Http_Client_Correct
  imports Http_Client Server
begin

text \<open>
  What the client reads and writes: a response is found in the stream however it is cut into pieces, and a request is printed in the form the
  server's parser reads. The lemmas at the end say what happens with a second request and with uploads.
\<close>

section \<open>Reading\<close>

text \<open>The pieces of a stream, none of them empty.\<close>

definition in_pieces :: "string list \<Rightarrow> bool" where
  "in_pieces xs \<longleftrightarrow> [] \<notin> set xs"

lemma Recv_pieces:
  assumes "in_pieces xs" "Recv xs = (b, ys)"
  shows "b @ concat ys = concat xs" "in_pieces ys" "b = [] \<longleftrightarrow> concat xs = []"
  using assms by (cases xs rule: Recv.cases; auto simp: in_pieces_def split: if_splits)+

lemma until_piece_skip:
  assumes "\<forall>k. 0 < k \<longrightarrow> k \<le> length b \<longrightarrow> \<not> ends_with lit (acc @ take k b)"
  shows "until_piece lit acc b = Inr (acc @ b)"
  using assms
proof (induction b arbitrary: acc)
  case (Cons c b)
  have "\<not> ends_with lit (acc @ [c])" using Cons.prems [rule_format, of 1] by simp
  moreover have "\<not> ends_with lit ((acc @ [c]) @ take k b)" if "0 < k" "k \<le> length b" for k
    using Cons.prems [rule_format, of "Suc k"] that by simp
  ultimately show ?case using Cons.IH [of "acc @ [c]"] by simp
qed simp

lemma until_piece_found:
  assumes "ends_with lit (acc @ g)" "g \<noteq> []" "\<forall>k. 0 < k \<longrightarrow> k < length g \<longrightarrow> \<not> ends_with lit (acc @ take k g)"
  shows "until_piece lit acc (g @ b) = Inl (acc @ g, b)"
  using assms
proof (induction g arbitrary: acc)
  case (Cons c g)
  show ?case
  proof (cases "g = []")
    case False
    then have "\<not> ends_with lit (acc @ [c])" using Cons.prems(3) [rule_format, of 1] by simp
    moreover have "\<not> ends_with lit ((acc @ [c]) @ take k g)" if "0 < k" "k < length g" for k
      using Cons.prems(3) [rule_format, of "Suc k"] that by simp
    ultimately show ?thesis using Cons.IH [of "acc @ [c]"] Cons.prems(1) False by simp
  qed (use Cons in simp)
qed simp

lemma read_until_found:
  assumes "in_pieces xs" "concat xs = g @ rest" "ends_with lit (acc @ g)" "g \<noteq> []"
    "\<forall>k. 0 < k \<longrightarrow> k < length g \<longrightarrow> \<not> ends_with lit (acc @ take k g)"
  shows "\<exists>left ys. read_until lit acc xs = (Some (acc @ g, left), ys) \<and> left @ concat ys = rest \<and> in_pieces ys"
  using assms
proof (induction lit acc xs arbitrary: g rule: read_until.induct)
  case (1 lit acc xs)
  obtain b ys where r: "Recv xs = (b, ys)" by fastforce
  note p = Recv_pieces [OF 1(2) r]
  have ne: "b \<noteq> []" using p(3) 1(3,5) by simp
  show ?case
  proof (cases "length g \<le> length b")
    case True
    then obtain b' where b: "b = g @ b'" using p(1) 1(3) by (metis append_eq_append_conv_if append_take_drop_id)
    then have "until_piece lit acc b = Inl (acc @ g, b')" using until_piece_found [OF 1(4-6)] by simp
    then show ?thesis using r ne p(1,2) b 1(3) by (subst read_until.simps) simp
  next
    case False
    then obtain g' where g: "g = b @ g'" "g' \<noteq> []" using p(1) 1(3) by (metis append_eq_append_conv2 append_Nil2 le_refl length_append le_add1)
    have nf: "\<forall>k. 0 < k \<longrightarrow> k \<le> length b \<longrightarrow> \<not> ends_with lit (acc @ take k b)"
    proof (intro allI impI)
      fix k assume "0 < k" "k \<le> length b"
      moreover from this have "k < length g" using g by (cases g') auto
      ultimately show "\<not> ends_with lit (acc @ take k b)" using 1(6) [rule_format, of k] g(1) by simp
    qed
    have up: "until_piece lit acc b = Inr (acc @ b)" by (rule until_piece_skip [OF nf])
    have nx: "\<forall>k. 0 < k \<longrightarrow> k < length g' \<longrightarrow> \<not> ends_with lit ((acc @ b) @ take k g')"
    proof (intro allI impI)
      fix k assume "0 < k" "k < length g'"
      then show "\<not> ends_with lit ((acc @ b) @ take k g')" using 1(6) [rule_format, of "length b + k"] g by simp
    qed
    have "\<exists>left zs. read_until lit (acc @ b) ys = (Some ((acc @ b) @ g', left), zs) \<and> left @ concat zs = rest \<and> in_pieces zs"
      using 1(1) [OF refl r [symmetric] ne up p(2) _ _ g(2) nx] p(1) 1(3,4) g(1) by simp
    then show ?thesis using r ne up g(1) by (subst read_until.simps) simp
  qed
qed

lemma readN_all:
  assumes "in_pieces xs"
  shows "readN (int (length (concat xs))) acc xs = (Some (acc @ concat xs), [])"
  using assms
proof (induction "int (length (concat xs))" acc xs rule: readN.induct)
  case (1 acc xs)
  obtain b ys where r: "Recv xs = (b, ys)" by fastforce
  note p = Recv_pieces [OF 1(2) r]
  show ?case
  proof (cases "concat xs = []")
    case True
    then have "xs = []" using 1(2) by (cases xs) (auto simp: in_pieces_def)
    then show ?thesis by (simp add: readN.simps)
  next
    case False
    have l: "int (length (concat xs)) - int (length b) = int (length (concat ys))" using p(1) by (metis add_diff_cancel_left' length_append of_nat_add)
    have "readN (int (length (concat ys))) (acc @ b) ys = (Some ((acc @ b) @ concat ys), [])"
      using 1(1) [OF _ refl r [symmetric] _ l p(2)] False p(3) by simp
    moreover have "b \<noteq> []" using False p(3) by blast
    moreover have "\<not> int (length (concat xs)) \<le> 0" using False by simp
    ultimately show ?thesis using r p(1) l by (subst readN.simps) (simp add: Let_def del: concat_eq_Nil_conv)
  qed
qed

section \<open>The end of a head\<close>

text \<open>In lines without line ends, a line feed is followed by a carriage return only at the empty line.\<close>

lemma first_empty_line:
  assumes "\<forall>l \<in> set ls. l \<noteq> [] \<and> CR \<notin> set l \<and> LF \<notin> set l" "concat (map (\<lambda>l. l @ crlf) ls) @ crlf = xs @ LF # CR # ys"
  shows "ys = [LF]"
  using assms
proof (induction ls arbitrary: xs)
  case Nil
  then show ?case by (cases xs; cases "List.tl xs") auto
next
  case (Cons l ls)
  let ?t = "concat (map (\<lambda>l. l @ crlf) ls) @ crlf"
  have e: "(l @ [CR, LF]) @ ?t = xs @ LF # CR # ys" using Cons.prems(2) by simp
  show ?case
  proof (cases "length xs \<le> length l + 1")
    case True
    have "((l @ [CR, LF]) @ ?t) ! length xs = LF" unfolding e by simp
    moreover have "l ! length xs \<noteq> LF" if "length xs < length l" using nth_mem [OF that] Cons.prems(1) by auto
    ultimately have "length xs = length (l @ [CR])" using True by (auto simp: nth_append nth_Cons' le_Suc_eq split: if_splits)
    moreover have "(l @ [CR]) @ (LF # ?t) = xs @ (LF # CR # ys)" using e by simp
    ultimately have t: "?t = CR # ys" by (metis append_eq_append_conv list.inject)
    show ?thesis
    proof (cases ls)
      case n: (Cons l' ls')
      then have "l' \<noteq> []" "CR \<notin> set l'" using Cons.prems(1) by simp_all
      then show ?thesis using t n by (cases l') auto
    qed (use t in simp)
  next
    case False
    have "xs = (l @ [CR, LF]) @ drop (length l + 2) xs"
      using arg_cong [OF e, of "take (length l + 2)"] False append_take_drop_id [of "length l + 2" xs] by simp
    then obtain zs where "xs = (l @ [CR, LF]) @ zs" by blast
    then show ?thesis using Cons e by simp
  qed
qed

text \<open>The lines of a printed response head.\<close>

definition head_lines :: "nat \<Rightarrow> string \<Rightarrow> (string \<times> string \<times> string) list \<Rightarrow> string list" where
  "head_lines st msg fs =
     (''HTTP/1.1'' @ [SP, char_of (48 + st div 100), char_of (48 + st div 10 mod 10), char_of (48 + st mod 10), SP] @ msg) #
     map (\<lambda>(n, ws, v). n @ '':'' @ ws @ v) fs"

lemma print_response_lines: "print_response st msg fs = concat (map (\<lambda>l. l @ crlf) (head_lines st msg fs)) @ crlf"
proof -
  have "print_field = (\<lambda>f. (case f of (n, bl, v) \<Rightarrow> n @ '':'' @ bl @ v) @ crlf)" by (auto simp: print_field_def fun_eq_iff)
  then show ?thesis by (simp add: print_response_def head_lines_def comp_def)
qed

lemma head_lines_plain:
  assumes "st < 1000" "\<forall>c \<in> set msg. \<not> eol_ctl c" "\<forall>f \<in> set fs. field_ok f"
  shows "\<forall>l \<in> set (head_lines st msg fs). l \<noteq> [] \<and> CR \<notin> set l \<and> LF \<notin> set l"
proof -
  have e: "eol_ctl CR" "eol_ctl LF" by (simp_all add: eol_ctl_def uchar_def)
  have d: "char_of (48 + n) \<noteq> CR \<and> char_of (48 + n) \<noteq> LF" if "n \<le> 9" for n :: nat
  proof -
    have "uchar (char_of (48 + n)) = 48 + n" "uchar CR = 13" "uchar LF = 10" using that by (simp_all add: uchar_def)
    then have "uchar (char_of (48 + n)) \<noteq> uchar CR" "uchar (char_of (48 + n)) \<noteq> uchar LF" by linarith+
    then show ?thesis by metis
  qed
  have "st div 100 \<le> 9" "st div 10 mod 10 \<le> 9" "st mod 10 \<le> 9" using assms(1) by auto
  note ds = d [OF this(1)] d [OF this(2)] d [OF this(3)]
  have "l \<noteq> [] \<and> CR \<notin> set l \<and> LF \<notin> set l" if f: "f \<in> set fs" "l = (case f of (n, bl, v) \<Rightarrow> n @ '':'' @ bl @ v)" for f l
  proof -
    obtain n bl v where nv: "f = (n, bl, v)" by (cases f)
    then have ok: "\<forall>c \<in> set n. name_char c" "set bl \<subseteq> {SP, TAB}" "\<forall>c \<in> set v. \<not> eol_ctl c"
      using f(1) assms(3) by (auto simp: field_ok_def header_ok_def Pico_Roundtrip.value_ok_def)
    then have "CR \<notin> set n" "LF \<notin> set n" using name_char_not_blank by blast+
    moreover have "CR \<notin> set bl" "LF \<notin> set bl" "CR \<notin> set v" "LF \<notin> set v" using ok e by auto
    ultimately show ?thesis using f(2) nv by simp
  qed
  then show ?thesis using assms(2) e ds by (auto simp: head_lines_def)
qed

lemma head_ends:
  assumes "st < 1000" "\<forall>c \<in> set msg. \<not> eol_ctl c" "\<forall>f \<in> set fs. field_ok f"
  shows "ends_with (crlf @ crlf) (print_response st msg fs)"
    "k < length (print_response st msg fs) \<Longrightarrow> \<not> ends_with (crlf @ crlf) (take k (print_response st msg fs))"
proof -
  let ?h = "print_response st msg fs"
  have ls: "head_lines st msg fs \<noteq> []" by (simp add: head_lines_def)
  then obtain x where "concat (map (\<lambda>l. l @ crlf) (head_lines st msg fs)) = x @ crlf"
    by (cases "head_lines st msg fs" rule: rev_cases) auto
  then show "ends_with (crlf @ crlf) ?h" by (simp add: print_response_lines ends_with_def)
  assume k: "k < length ?h"
  show "\<not> ends_with (crlf @ crlf) (take k ?h)"
  proof
    assume "ends_with (crlf @ crlf) (take k ?h)"
    then obtain x where "take k ?h = x @ crlf @ crlf" unfolding ends_with_def by (metis append_take_drop_id)
    then have "?h = (x @ [CR]) @ LF # CR # (LF # drop k ?h)" by (metis append_take_drop_id append.assoc append_Cons append_Nil)
    then have "LF # drop k ?h = [LF]"
      using first_empty_line [OF head_lines_plain [OF assms]] unfolding print_response_lines by blast
    then show False using k by simp
  qed
qed

section \<open>Responses\<close>

lemma hp_header_at: "header_at data h nv \<Longrightarrow> hp_header data h = nv"
  by (auto simp: header_at_def header_strings_def hp_header_def)

lemma header_at_hp: "list_all2 (header_at data) ts hs \<Longrightarrow> map (hp_header data) ts = hs"
  by (induction ts hs rule: list_all2_induct) (auto simp: hp_header_at)

lemma find_hp_header:
  "list_all2 (header_at data) ts hs \<Longrightarrow>
     rel_option (header_at data) (find (\<lambda>h. iequal (fst (hp_header data h)) key) ts) (find (\<lambda>nv. iequal (fst nv) key) hs)"
  by (induction ts hs rule: list_all2_induct) (auto simp: hp_header_at)

lemma hp_parse_response_print:
  assumes "st < 1000" "\<forall>c \<in> set msg. \<not> eol_ctl c" "\<forall>f \<in> set fs. field_ok f" "length fs \<le> 100"
    "hdr_lookup ''content-length'' (map (\<lambda>(n, ws, v). (n, v)) fs) = dec n" "n < 2 ^ 31"
  shows "\<exists>p'. hp_parse_response (print_response st msg fs) 0 p = Some (p', int (length (print_response st msg fs))) \<and>
    hp_status p' = int st \<and> hp_body_len p' = int n \<and> hp_headers p' = map (\<lambda>(n, ws, v). (n, v)) fs"
proof -
  let ?d = "print_response st msg fs" and ?hs = "map (\<lambda>(n, ws, v). (n, v)) fs"
  obtain res where out: "phr_parse_response ?d 100 0 = (res, Ok (length ?d))" "resp_status res = int st" "list_all2 (header_at ?d) (resp_headers res) ?hs"
    using phr_parse_response_print [OF assms(1-4), of ?d "[]"] by auto
  have hs: "map (hp_header ?d) (resp_headers res) = ?hs"
    using out(3) by (rule header_at_hp)
  obtain c w where c: "dec n = c # w" using dec_first [of n] by blast
  from find_hp_header [OF out(3), of "''content-length''"] assms(5) c obtain h nv where
    h: "find (\<lambda>h. iequal (fst (hp_header ?d h)) ''content-length'') (resp_headers res) = Some h" "header_at ?d h nv" "snd nv = dec n"
    by (auto simp: hdr_lookup_def elim!: option.rel_cases split: option.splits)
  obtain rest where "drop (hdr_value h) ?d = dec n @ CR # rest" using h(2,3) by (auto simp: header_at_def)
  moreover have "Pico_Roundtrip.value_ok (dec n)" using dec_int_value [of "int n"] by (simp add: dec_int_def)
  ultimately have "atoll (drop (hdr_value h) ?d) = atoll (dec n)" using atoll_value [of "dec n" rest] c by simp
  then have "atoi (drop (hdr_value h) ?d) = int n" using atoll_dec [of n] assms(6) by (simp add: atoi_def signed_of_nat signed_take_bit_int_eq_self)
  then show ?thesis using out hs h c hp_header_at [OF h(2)] by (simp add: hp_parse_response_def Let_def)
qed

text \<open>A response that is well formed on the wire.\<close>

definition wire_response :: "nat \<Rightarrow> string \<Rightarrow> (string \<times> string \<times> string) list \<Rightarrow> string \<Rightarrow> bool" where
  "wire_response st msg fs b \<longleftrightarrow>
     st < 1000 \<and> (\<forall>c \<in> set msg. \<not> eol_ctl c) \<and> (\<forall>f \<in> set fs. field_ok f) \<and> length fs \<le> 100 \<and>
     hdr_lookup ''content-length'' (map (\<lambda>(n, ws, v). (n, v)) fs) = dec (length b) \<and> length b < 2 ^ 31"

text \<open>What the client makes of it: without a body the headers are gone.\<close>

definition received_data :: "nat \<Rightarrow> string \<Rightarrow> (string \<times> string \<times> string) list \<Rightarrow> response_data" where
  "received_data st b fs =
     \<lparr>rd_ec = 0, rd_status = int st, rd_body = b, rd_headers = (if b = [] then None else Some (map (\<lambda>(n, ws, v). (n, v)) fs))\<rparr>"

definition client_same :: "http_client \<Rightarrow> http_client \<Rightarrow> bool" where
  "client_same c c' \<longleftrightarrow> cl_wire c' = cl_wire c \<and> cl_last_domain c' = cl_last_domain c \<and> cl_future_ready c' = cl_future_ready c \<and>
     cl_headers c' = cl_headers c \<and> cl_header_str c' = cl_header_str c"

lemma do_read_printed:
  assumes "wire_response st msg fs b" "in_pieces (cl_recvs c)" "concat (cl_recvs c) = print_response st msg fs @ b"
    "cl_recv_buf c = []" "cl_copy_headers c = []" "cl_weak c"
  shows "\<exists>c'. do_read c = Some c' \<and> cl_connected c' = (b \<noteq> [] \<and> cl_connected c) \<and> client_same c c' \<and>
    cl_promise c' = Some (Given (received_data st b fs))"
proof -
  let ?h = "print_response st msg fs"
  note w = assms(1) [unfolded wire_response_def]
  have fs: "fs \<noteq> []" using w dec_first [of "length b"] by (auto simp: hdr_lookup_def)
  have he: "ends_with (crlf @ crlf) ([] @ ?h)" "?h \<noteq> []" "\<forall>k. 0 < k \<longrightarrow> k < length ?h \<longrightarrow> \<not> ends_with (crlf @ crlf) ([] @ take k ?h)"
    using head_ends [of st msg fs] w by (auto simp: print_response_def)
  obtain rest ys where ru: "read_until (crlf @ crlf) [] (cl_recvs c) = (Some (?h, rest), ys)" "rest @ concat ys = b" "in_pieces ys"
    using read_until_found [OF assms(2,3) he] by auto
  obtain p' where p': "hp_parse_response ?h 0 (cl_parser c) = Some (p', int (length ?h))" "hp_status p' = int st" "hp_body_len p' = int (length b)"
    "hp_headers p' = map (\<lambda>(n, ws, v). (n, v)) fs"
    using hp_parse_response_print [of st msg fs "length b" "cl_parser c"] w by blast
  show ?thesis
  proof (cases "b = []")
    case True
    then show ?thesis using ru p' assms(4-6) fs
      by (simp add: do_read_def callback_def get_resp_headers_def client_close_def free_head_def received_data_def client_same_def Let_def)
  next
    case False
    have len: "length rest \<le> length b" using arg_cong [OF ru(2), of length] by simp
    have "(word_of_int (int (length b)) - of_nat (length rest) :: size_t) = of_nat (length b - length rest)" using len by (simp add: of_nat_diff)
    moreover have "sint (ucast (of_nat (length b - length rest) :: size_t) :: 32 word) = int (length (concat ys))"
    proof -
      have l: "length b - length rest = length (concat ys)" using arg_cong [OF ru(2), of length] by simp
      have "length (concat ys) < 2 ^ 31" using w l by linarith
      then have "signed_take_bit 31 (int (length (concat ys))) = int (length (concat ys))" by (simp add: signed_take_bit_int_eq_self)
      moreover have "uint (of_nat (length (concat ys)) :: size_t) = int (length (concat ys))"
        using \<open>length (concat ys) < 2 ^ 31\<close> by (simp only: unsigned_of_nat) (simp add: take_bit_nat_eq_self)
      ultimately show ?thesis unfolding l by (simp only: signed_ucast_eq) simp
    qed
    ultimately have "do_read_body (int st) (word_of_int (int (length b)) - of_nat (length rest)) d = callback 0 (int st) b (d\<lparr>cl_recvs := []\<rparr>)"
      if "cl_recv_buf d = rest" "cl_recvs d = ys" for d
      using readN_all [OF ru(3), of rest] ru(2) that by (simp add: do_read_body_def)
    then show ?thesis using False ru p' assms(4-6) fs
      by (simp add: do_read_def callback_def get_resp_headers_def copy_headers_def free_head_def received_data_def client_same_def Let_def)
  qed
qed

section \<open>Requests\<close>

lemma Writen_all:
  assumes "\<forall>k \<in> set ks. 0 < k" "int (length xs) \<le> sum_list ks"
  shows "\<exists>ks'. Writen ks n xs = (xs, n, ks')"
  using assms
proof (induction ks n xs rule: Writen.induct)
  case (3 k ks n v va)
  have "0 \<le> sum_list ks" using 3(2) by (intro sum_list_nonneg) (simp add: less_imp_le)
  then have "int (length (drop (nat k) (v # va))) \<le> sum_list ks" using 3(2,3) by simp
  then have "\<exists>ks'. Writen ks n (drop (nat k) (v # va)) = (drop (nat k) (v # va), n, ks')" using 3(2) by (intro 3(1)) auto
  then show ?case using 3(2) by (auto simp: append_take_drop_id simp del: drop_Cons_numeral take_Cons_numeral)
qed auto

text \<open>What a request line names, and the headers the client sends.\<close>

definition uri_target :: "uri_parts \<Rightarrow> string" where
  "uri_target s = (if sp_path s = [] then ''/'' else sp_path s) @ (if part (sp_query s) = [] then [] else CHR ''?'' # part (sp_query s))"

definition type_headers :: "req_content_type \<Rightarrow> (string \<times> string) list" where
  "type_headers ty = (if get_content_type_str ty = [] then [] else [(''Content-Type'', get_content_type_str ty)])"

definition sent_fields :: "uri_parts \<Rightarrow> (string \<times> string) list \<Rightarrow> (string \<times> string \<times> string) list" where
  "sent_fields s hs = (''Host'', [], sp_host s) # map (\<lambda>(n, v). (n, '' '', v)) hs @ [(''Connection'', '' '', ''keep-alive'')]"

definition get_fields :: "uri_parts \<Rightarrow> req_content_type \<Rightarrow> (string \<times> string \<times> string) list" where
  "get_fields s ty = sent_fields s (type_headers ty)"

definition get_text :: "uri_parts \<Rightarrow> req_content_type \<Rightarrow> string" where
  "get_text s ty = request_text ''GET'' (uri_target s) 1 (get_fields s ty)"

lemma str_find_Nil: "needle \<noteq> [] \<Longrightarrow> str_find needle [] = None"
  by (subst str_find.simps) simp

lemma build_request_text:
  assumes "cl_header_str c = []" "\<forall>h \<in> set (cl_headers c). fst h \<noteq> ''Connection''" "ctx = uri_context_of u GET []"
    "u_host u = sp_host s" "u_path u = sp_path s" "u_query u = part (sp_query s)"
  shows "build_write_msg ctx 0 c = (c\<lparr>cl_headers := cl_headers c @ type_headers (cl_type c)\<rparr>,
    request_text ''GET'' (uri_target s) 1 (sent_fields s (cl_headers c @ type_headers (cl_type c))))"
proof -
  have one: "char_of (49 :: nat) = CHR ''1''" by code_simp
  have n: "str_find ''Content-Type'' (cl_header_str c) = None" "str_find ''Connection'' (cl_header_str c) = None"
    using assms(1) by (simp_all add: str_find_Nil)
  have conn: "\<not> (\<exists>h \<in> set (cl_headers c @ type_headers (cl_type c)). fst h = ''Connection'')" using assms(2) by (auto simp: type_headers_def)
  have lines: "concat (map (\<lambda>h. fst h @ CHR '':'' # CHR '' '' # snd h @ crlf) hs) = concat (map (print_field \<circ> (\<lambda>(n, v). (n, [CHR '' ''], v))) hs)" for hs
    by (induction hs) (auto simp: print_field_def)
  have c: "(if str_find ''Content-Type'' (cl_header_str c) = None \<and> get_content_type_str (cl_type c) \<noteq> []
      then c\<lparr>cl_headers := cl_headers c @ [(''Content-Type'', get_content_type_str (cl_type c))]\<rparr> else c) = c\<lparr>cl_headers := cl_headers c @ type_headers (cl_type c)\<rparr>"
    using n(1) by (simp add: type_headers_def)
  show ?thesis unfolding build_write_msg_def Let_def c using conn n(2) assms one
    by (simp add: request_text_def sent_fields_def print_field_def uri_target_def uri_context_of_def uri_get_path_def lines)
qed

lemma get_uri_printed:
  assumes "uri_ok s" "sp_schema s = ''http''"
  shows "\<exists>u. get_uri (print_uri s) = Done (True, u) \<and> u_schema u = ''http'' \<and> u_host u = sp_host s \<and> u_path u = sp_path s \<and> u_query u = part (sp_query s)"
  using parse_from_printed [OF assms(1), of False] assms(2) by (simp add: get_uri_def)

lemma client_get_run:
  assumes "uri_ok s" "sp_schema s = ''http''" "ty \<noteq> multipart" "\<forall>k \<in> set ks. 0 < k" "int (length (get_text s ty)) \<le> sum_list ks"
    "wire_response st msg fs b" "in_pieces xs" "concat xs = print_response st msg fs @ b"
  shows "\<exists>c'. client_request F GET (print_uri s) ty secs [] (http_client_new g (True # bs) ks xs) = Done (c', received_data st b fs) \<and>
    cl_wire c' = get_text s ty \<and> cl_connected c' = (b \<noteq> []) \<and> cl_last_domain c' = ''http://'' @ sp_host s \<and> \<not> cl_future_ready c' \<and>
    cl_headers c' = type_headers ty \<and> cl_header_str c' = []"
proof -
  obtain u where u: "get_uri (print_uri s) = Done (True, u)" "u_schema u = ''http''" "u_host u = sp_host s" "u_path u = sp_path s" "u_query u = part (sp_query s)"
    using get_uri_printed [OF assms(1,2)] by blast
  define c0 where "c0 = (http_client_new g bs ks xs)\<lparr>cl_promise := Some Unset, cl_sync := True, cl_in_progress := True, cl_last_domain := ''http://'' @ sp_host s,
    cl_timeout := secs, cl_type := ty, cl_weak := True, cl_connected := True\<rparr>"
  have hs: "build_write_msg (uri_context_of u GET []) 0 c0 = (c0\<lparr>cl_headers := type_headers ty\<rparr>, get_text s ty)"
    using build_request_text [OF _ _ refl u(3-5), of c0] by (simp add: c0_def http_client_new_def get_text_def get_fields_def)
  obtain ks' where ks': "Writen ks (int (length (get_text s ty))) (get_text s ty) = (get_text s ty, int (length (get_text s ty)), ks')"
    using Writen_all [OF assms(4,5)] by blast
  define c1 where "c1 = c0\<lparr>cl_headers := type_headers ty, cl_wire := get_text s ty, cl_sends := ks'\<rparr>"
  have sm: "send_msg (uri_context_of u GET []) c0 = c1" using hs ks' by (simp add: send_msg_def Write_def c1_def) (simp add: c0_def http_client_new_def)
  obtain c2 where c2: "do_read c1 = Some c2" "cl_connected c2 = (b \<noteq> [])" "client_same c1 c2" "cl_promise c2 = Some (Given (received_data st b fs))"
    using do_read_printed [OF assms(6), of c1] assms(7,8) by (auto simp: c1_def c0_def http_client_new_def)
  have "async_request_impl F GET (print_uri s) False ty secs [] ((http_client_new g (True # bs) ks xs)\<lparr>cl_promise := Some Unset, cl_sync := True\<rparr>) = Done c2"
    using u sm c2(1) assms(3)
    by (simp add: async_request_impl_def http_client_new_def async_connect_def do_read_write_def do_write_def Let_def) (simp add: c0_def http_client_new_def)
  then show ?thesis using c2 by (simp add: client_request_def client_same_def c1_def c0_def http_client_new_def)
qed

section \<open>Client and server\<close>

lemma class_range:
  "is_query_character c \<Longrightarrow> 33 \<le> uchar c \<and> uchar c \<le> 126" "is_authority_character c \<Longrightarrow> 33 \<le> uchar c \<and> uchar c \<le> 126"
  by (auto simp: char_classes uchar_def)

lemma range_plain:
  assumes "33 \<le> uchar c" "uchar c \<le> 126"
  shows "plain_char c" "\<not> eol_ctl c" "c \<noteq> SP" "c \<noteq> TAB"
proof -
  have u: "uchar SP = 32" "uchar TAB = 9" "uchar (CHR 0x7F) = 127" by (simp_all add: uchar_def)
  have "uchar c \<noteq> uchar SP" "uchar c \<noteq> uchar TAB" "uchar c \<noteq> uchar (CHR 0x7F)" using assms unfolding u by linarith+
  then show "plain_char c" "\<not> eol_ctl c" "c \<noteq> SP" "c \<noteq> TAB" using assms by (auto simp: plain_char_def eol_ctl_def)
qed

lemma uri_target_plain:
  assumes "uri_ok s"
  shows "\<forall>c \<in> set (uri_target s). plain_char c" "CHR ''/'' \<in> set (uri_target s)"
    "url_path (uri_target s) = (if sp_path s = [] then ''/'' else sp_path s)"
proof -
  have q: "plain_char c" if "is_query_character c" for c using range_plain class_range(1) [OF that] by blast
  have pc: "is_query_character c" if "is_path_character c" for c using that by (simp add: is_query_character_def)
  have x: "is_query_character (CHR ''/'')" "is_query_character (CHR ''?'')" by (simp_all add: is_query_character_def is_path_character_def)
  have c: "\<forall>c \<in> set (uri_target s). is_query_character c"
    using assms pc x by (auto simp: uri_target_def uri_ok_def list_all_iff)
  then show "\<forall>c \<in> set (uri_target s). plain_char c" using q by blast
  show "CHR ''/'' \<in> set (uri_target s)" using assms by (cases "sp_path s") (auto simp: uri_target_def uri_ok_def)
  have np: "takeWhile (\<lambda>c. c \<noteq> CHR ''?'') (sp_path s) = sp_path s" "CHR ''?'' \<notin> set (sp_path s)"
    using assms class_specials by (auto simp: uri_ok_def list_all_iff)
  show "url_path (uri_target s) = (if sp_path s = [] then ''/'' else sp_path s)"
    using np by (auto simp: uri_target_def url_path_def takeWhile_append takeWhile_eq_all_conv)
qed

lemma get_fields_ok:
  assumes "uri_ok s"
  shows "\<forall>f \<in> set (get_fields s ty). field_ok f"
proof -
  have h: "\<not> eol_ctl c" "c \<noteq> SP" "c \<noteq> TAB" if "c \<in> set (sp_host s)" for c
    using assms that range_plain class_range(2) [of c] by (auto simp: uri_ok_def list_all_iff)
  then have "Pico_Roundtrip.value_ok (sp_host s)" by (auto simp: Pico_Roundtrip.value_ok_def dest: hd_in_set)
  moreover have "\<forall>c \<in> set ''Host''. name_char c" "\<forall>c \<in> set ''Content-Type''. name_char c" "\<forall>c \<in> set ''Connection''. name_char c"
    "Pico_Roundtrip.value_ok ''keep-alive''" by code_simp+
  moreover have "Pico_Roundtrip.value_ok (get_content_type_str ty)" by (cases ty) (simp_all add: Pico_Roundtrip.value_ok_def eol_ctl_def uchar_def)
  ultimately show ?thesis by (auto simp: get_fields_def sent_fields_def type_headers_def field_ok_def header_ok_def)
qed

lemma get_fields_lookup:
  assumes "\<not> iequal ''Host'' key" "\<not> iequal ''Content-Type'' key" "\<not> iequal ''Connection'' key"
  shows "hdr_lookup key (map (\<lambda>(n, ws, v). (n, v)) (get_fields s ty)) = []"
  using assms by (simp add: get_fields_def sent_fields_def type_headers_def hdr_lookup_def)

text \<open>A handler that answers with a fixed text, as an application writes it: \<^verbatim>\<open>res.set_status_and_content(...)\<close>.\<close>

definition reply :: "time_lib \<Rightarrow> status_type \<Rightarrow> string \<Rightarrow> req_content_type \<Rightarrow> connection \<Rightarrow> connection \<times> (exn + unit)" where
  "reply T st b rt c = (c\<lparr>res := the (set_status_and_content T st b rt (res c))\<rparr>, Inr ())"

lemma reply_wire:
  assumes "\<exists>ka hs. res c = (response_new now garbage)\<lparr>res_keep_alive := ka, req_headers := hs\<rparr>" "length b < 2 ^ 31"
  shows "\<exists>d fs. invoke (reply T st b rt) [] c = (d, None) \<and> rep_str (res d) = print_response (Response.wire_code st) (reason st) fs @ b \<and>
    wire_response (Response.wire_code st) (reason st) fs b"
proof -
  obtain ka hs where ka: "res c = (response_new now garbage)\<lparr>res_keep_alive := ka, req_headers := hs\<rparr>" using assms(1) by blast
  let ?r = "set_content b ((res c)\<lparr>status := st, res_type := rt\<rparr>)"
  let ?fs = "response_fields T ?r"
  have w: "wire_ok T ?r" by (simp add: wire_ok_def set_content_def ka response_new_def)
  have i: "\<not> iequal ''Content-Type'' ''content-length''" "iequal ''Content-Length'' ''content-length''" by code_simp+
  have "sint (of_nat (length b) :: 32 word) = int (length b)" using assms(2) by (simp add: signed_of_nat signed_take_bit_int_eq_self)
  then have l: "hdr_lookup ''content-length'' (map (\<lambda>(n, ws, v). (n, v)) ?fs) = dec (length b)"
    by (simp add: response_fields_def set_content_def ka response_new_def hdr_lookup_def i dec_int_def)
  have n: "length ?fs \<le> 100" by (cases rt) (simp_all add: response_fields_def type_fields_def set_content_def ka response_new_def)
  obtain r' where "build_response_str T ?r = Some r'" "rep_str r' = print_response (Response.wire_code st) (reason st) ?fs @ b"
    using build_response_str_wire [of T ?r] by (auto simp: set_content_def)
  moreover have "wire_response (Response.wire_code st) (reason st) ?fs b"
    using wire_code_less reason_plain response_fields_ok [OF w] l n assms(2) by (simp add: wire_response_def)
  ultimately show ?thesis by (auto simp: invoke_def reply_def set_status_and_content_def do_after_def)
qed

text \<open>
  (C1) Client and server together, over plain HTTP: if the router of the server has for the path of a well-formed URI a handler that answers with a fixed status and text of less than \<open>2 ^ 31\<close> bytes (\<open>reply\<close>), the check of
  headers passes, and the request, not of type multipart, that the client prints for this URI has less than 1024 bytes and reaches the server in one read, then the server loop sends one
  well-formed response with that status and text; and from these bytes, cut into pieces in any way, a new client whose calls of connect and send succeed returns no error, the code of the
  status, exactly the text, and the headers that were sent. If the text is empty the headers that the client returns are views of freed memory (\<open>None\<close>).
\<close>

theorem client_server_get:
  assumes "uri_ok s" "sp_schema s = ''http''" "ty \<noteq> multipart" "\<forall>k \<in> set ks. 0 < k" "int (length (get_text s ty)) \<le> sum_list ks"
    "length (get_text s ty) < 1024" "length b < 2 ^ 31" "\<forall>rq. check_request A rq = (rq, True)"
    "resolve regex_match (router S) ''GET'' (if sp_path s = [] then ''/'' else sp_path s) = Some (invoke (reply T st b rt) [])"
  shows "\<exists>fs d. wire_response (Response.wire_code st) (reason st) fs b \<and>
    handle_loop (server_app regex_match S A) fresh (burst (get_text s ty) @ answers) [] (connection_new now garbage flag) =
      ([print_response (Response.wire_code st) (reason st) fs @ b], Answered, d) \<and>
    (\<forall>xs. in_pieces xs \<longrightarrow> concat xs = print_response (Response.wire_code st) (reason st) fs @ b \<longrightarrow>
      (\<exists>c. client_request F GET (print_uri s) ty secs [] (http_client_new g (True # bs) ks xs) =
         Done (c, \<lparr>rd_ec = 0, rd_status = int (Response.wire_code st), rd_body = b,
           rd_headers = (if b = [] then None else Some (map (\<lambda>(n, ws, v). (n, v)) fs))\<rparr>) \<and> cl_wire c = get_text s ty))"
proof -
  let ?hs = "map (\<lambda>(n, ws, v). (n, v)) (get_fields s ty)" and ?A = "server_app regex_match S A"
  note t = uri_target_plain [OF assms(1)]
  have ne: "\<not> iequal n key" if "n \<in> {''Host'', ''Content-Type'', ''Connection''}" "key \<in> {''content-length'', ''transfer-encoding'', ''upgrade''}" for n key
    using that by (auto simp: iequal_def)
  have ht: "head_text ''GET'' (uri_target s) 1 ?hs (get_text s ty)"
    using get_fields_ok [OF assms(1)] unfolding head_text_def get_text_def by blast
  have "\<forall>c \<in> set ''GET''. plain_char c" by code_simp
  moreover have "admits ?A ''GET'' (url_path (uri_target s))" using server_admits [OF assms(9,8)] t(3) by simp
  ultimately have bare: "bare_request ?A ''GET'' (uri_target s) 1 ?hs"
    using t(1,2) head_text_headers [OF ht] get_fields_lookup ne by (simp add: bare_request_def get_fields_def sent_fields_def type_headers_def)
  obtain c1 where c1: "handle_loop ?A fresh (burst (get_text s ty) @ answers) [] (connection_new now garbage flag) =
      ([rep_str (res (call_back ?A c1))], Answered, call_back ?A c1)" "get_method (req c1) = ''GET''" "get_url (req c1) = url_path (uri_target s)"
    "\<exists>ka. res c1 = (response_new now garbage)\<lparr>res_keep_alive := ka\<rparr>"
    using bare_text_delivered [OF bare assms(6) ht, of fresh answers now garbage flag] by blast
  obtain ka where ka: "res c1 = (response_new now garbage)\<lparr>res_keep_alive := ka\<rparr>" using c1(4) by blast
  have "res (show_headers c1) = (response_new now garbage)\<lparr>res_keep_alive := ka, req_headers := get_headers (req c1)\<rparr>"
    by (simp add: show_headers_def set_headers_def ka)
  then obtain d fs where d: "invoke (reply T st b rt) [] (show_headers c1) = (d, None)" "rep_str (res d) = print_response (Response.wire_code st) (reason st) fs @ b"
    "wire_response (Response.wire_code st) (reason st) fs b"
    using reply_wire [OF _ assms(7)] by blast
  have "call_back ?A c1 = d" using server_call_back [of regex_match S c1 "invoke (reply T st b rt) []" A] assms(9) c1(2,3) t(3) d(1) by simp
  then show ?thesis using c1(1) d(2,3) client_get_run [OF assms(1-5) d(3), unfolded received_data_def] by fastforce
qed

definition reply_server :: "unit http_server" where
  "reply_server = \<lparr>router = the (register_handler 0 [GET] ''/a'' (reply demo_times status_ok ''hi'' json) [] http_router_new),
     ws_before_ap = Map.empty, sv_not_found = None\<rparr>"

definition demo_uri :: uri_parts where
  "demo_uri = \<lparr>sp_schema = ''http'', sp_uinfo = None, sp_host = ''h'', sp_port = Some ''8080'', sp_path = ''/a'', sp_query = Some ''x=1'', sp_fragment = None\<rparr>"

lemma reply_server_route: "resolve (\<lambda>_ _. False) (router reply_server) ''GET'' ''/a'' = Some (invoke (reply demo_times status_ok ''hi'' json) [])"
proof -
  have "\<not> str_less ''/a'' ''/a''" by (rule str.irrefl)
  moreover have "method_allowed \<lparr>inv_methods = get_method_arr [GET], inv_handler = h\<rparr> ''GET''" for h by code_simp
  ultimately show ?thesis by (simp add: reply_server_def register_exact http_router_new_def resolve_def table_handler_def)
qed

lemma demo_uri_facts:
  "uri_ok demo_uri" "sp_schema demo_uri = ''http''" "print_uri demo_uri = ''http://h:8080/a?x=1''" "length (get_text demo_uri json) < 1000" "sp_path demo_uri = ''/a''"
  by code_simp+

theorem client_server_get_witness:
  "\<exists>fs d xs c. handle_loop (server_app (\<lambda>_ _. False) reply_server echo_app) [] (burst (get_text demo_uri json)) [] (connection_new 0 no_content_type False) =
      ([print_response 200 (reason status_ok) fs @ ''hi''], Answered, d) \<and> concat xs = print_response 200 (reason status_ok) fs @ ''hi'' \<and>
    client_request Map.empty GET ''http://h:8080/a?x=1'' json 15 [] (http_client_new 0 [True] [1000] xs) =
      Done (c, \<lparr>rd_ec = 0, rd_status = 200, rd_body = ''hi'', rd_headers = Some (map (\<lambda>(n, ws, v). (n, v)) fs)\<rparr>) \<and> cl_wire c = get_text demo_uri json"
proof -
  have chk: "\<forall>rq. check_request echo_app rq = (rq, True)" by (simp add: echo_app_def)
  have ks: "json \<noteq> multipart" "\<forall>k \<in> set [1000 :: int]. 0 < k" "int (length (get_text demo_uri json)) \<le> sum_list [1000]"
    "length (get_text demo_uri json) < 1024" "length ''hi'' < 2 ^ 31" using demo_uri_facts(4) by simp_all
  have rt: "resolve (\<lambda>_ _. False) (router reply_server) ''GET'' (if sp_path demo_uri = [] then ''/'' else sp_path demo_uri) =
      Some (invoke (reply demo_times status_ok ''hi'' json) [])" using reply_server_route by (simp add: demo_uri_facts(5))
  have code: "Response.wire_code status_ok = 200" by (simp add: Response.wire_code_def)
  obtain fs d where r: "handle_loop (server_app (\<lambda>_ _. False) reply_server echo_app) [] (burst (get_text demo_uri json) @ []) [] (connection_new 0 no_content_type False) =
      ([print_response 200 (reason status_ok) fs @ ''hi''], Answered, d)"
    "\<And>xs. in_pieces xs \<Longrightarrow> concat xs = print_response 200 (reason status_ok) fs @ ''hi'' \<Longrightarrow>
      \<exists>c. client_request Map.empty GET (print_uri demo_uri) json 15 [] (http_client_new 0 [True] [1000] xs) =
         Done (c, \<lparr>rd_ec = 0, rd_status = 200, rd_body = ''hi'', rd_headers = Some (map (\<lambda>(n, ws, v). (n, v)) fs)\<rparr>) \<and> cl_wire c = get_text demo_uri json"
    using client_server_get [OF demo_uri_facts(1,2) ks chk rt, of "[]" "[]" 0 no_content_type False Map.empty 15 0 "[]"] unfolding code by auto
  let ?xs = "[print_response 200 (reason status_ok) fs @ ''hi'']"
  have "in_pieces ?xs" and xs: "concat ?xs = print_response 200 (reason status_ok) fs @ ''hi''" by (simp_all add: in_pieces_def)
  from r(2) [OF this] show ?thesis using r(1) xs unfolding demo_uri_facts(3) append_Nil2 by blast
qed

section \<open>A second request\<close>

text \<open>The text of a second request: the content type of the first is still among the headers.\<close>

definition again_text :: "uri_parts \<Rightarrow> req_content_type \<Rightarrow> req_content_type \<Rightarrow> string" where
  "again_text s ty ty' = request_text ''GET'' (uri_target s) 1 (sent_fields s (type_headers ty @ type_headers ty'))"

definition timeout_data :: response_data where
  "timeout_data = \<lparr>rd_ec = EC_invalid_argument, rd_status = 404, rd_body = ''request timeout'', rd_headers = Some []\<rparr>"

lemma second_request_other_host:
  assumes "\<not> cl_in_progress c" "\<not> cl_future_ready c" "cl_last_domain c \<noteq> []" "str_find (cl_last_domain c) uri = None"
  shows "client_request F GET uri ty secs [] c = Hangs"
  using assms by (simp add: client_request_def async_request_impl_def Let_def)

lemma second_request_same_host:
  assumes "uri_ok s" "sp_schema s = ''http''" "ty' \<noteq> multipart" "cl_connected c" "\<not> cl_in_progress c" "str_find (cl_last_domain c) (print_uri s) \<noteq> None"
    "cl_headers c = type_headers ty" "cl_header_str c = []" "\<forall>k \<in> set (cl_sends c). 0 < k" "int (length (again_text s ty ty')) \<le> sum_list (cl_sends c)"
  shows "\<exists>c'. client_request F GET (print_uri s) ty' secs [] c = Done (c', timeout_data) \<and>
    cl_wire c' = cl_wire c @ again_text s ty ty' \<and> cl_recvs c' = cl_recvs c"
proof -
  obtain u where u: "get_uri (print_uri s) = Done (True, u)" "u_host u = sp_host s" "u_path u = sp_path s" "u_query u = part (sp_query s)"
    using get_uri_printed [OF assms(1,2)] by blast
  obtain i where i: "str_find (cl_last_domain c) (print_uri s) = Some i" using assms(6) by auto
  define c1 where "c1 = c\<lparr>cl_promise := Some Unset, cl_sync := True, cl_in_progress := True, cl_last_domain := u_schema u @ ''://'' @ u_host u, cl_timeout := secs,
    cl_type := ty', cl_cb := False, cl_weak := True\<rparr>"
  have "\<forall>h \<in> set (cl_headers c1). fst h \<noteq> ''Connection''" using assms(7) by (simp add: c1_def type_headers_def)
  then have m: "build_write_msg (uri_context_of u GET []) 0 c1 = (c1\<lparr>cl_headers := type_headers ty @ type_headers ty'\<rparr>, again_text s ty ty')"
    using build_request_text [OF _ _ refl u(2-4), of c1] assms(7,8) by (simp add: c1_def again_text_def)
  obtain ks' where w: "Writen (cl_sends c) (int (length (again_text s ty ty'))) (again_text s ty ty') = (again_text s ty ty', int (length (again_text s ty ty')), ks')"
    using Writen_all [OF assms(9,10)] by blast
  have "async_request_impl F GET (print_uri s) False ty' secs [] (c\<lparr>cl_promise := Some Unset, cl_sync := True\<rparr>) = Done (send_msg (uri_context_of u GET []) c1)"
    using assms(3-5) i u by (simp add: async_request_impl_def do_write_def Let_def flip: c1_def) (simp add: c1_def)
  moreover have "send_msg (uri_context_of u GET []) c1 =
      c1\<lparr>cl_headers := type_headers ty @ type_headers ty', cl_wire := cl_wire c @ again_text s ty ty', cl_sends := ks'\<rparr>"
    using m w by (simp add: send_msg_def Write_def) (simp add: c1_def)
  ultimately show ?thesis by (simp add: client_request_def timeout_data_def c1_def)
qed

text \<open>
  (C40) A client is good for one response with a body: after it, a GET for a URI that contains the scheme and host of the first is written completely (if the calls of
  send succeed), with the content type of the first request among its headers, but no answer is read: whatever the server sends, the result is the error of a
  request that has timed out, with status 404. A GET for a URI without the scheme and host of the first waits for ever.
\<close>

theorem client_second_request:
  assumes "uri_ok s" "sp_schema s = ''http''" "ty \<noteq> multipart" "\<forall>k \<in> set ks. 0 < k" "int (length (get_text s ty)) \<le> sum_list ks"
    "wire_response st msg fs b" "in_pieces xs" "concat xs = print_response st msg fs @ b" "b \<noteq> []" "uri_ok s'" "sp_schema s' = ''http''" "ty' \<noteq> multipart"
    "\<forall>k \<in> set ks'. 0 < k" "int (length (again_text s' ty ty')) \<le> sum_list ks'"
  shows "\<exists>c d. client_request F GET (print_uri s) ty secs [] (http_client_new g (True # bs) ks xs) = Done (c, d) \<and> rd_ec d = 0 \<and> rd_status d = int st \<and> rd_body d = b \<and>
    (if str_find (''http://'' @ sp_host s) (print_uri s') = None
     then client_request F' GET (print_uri s') ty' secs' [] (c\<lparr>cl_sends := ks', cl_recvs := xs'\<rparr>) = Hangs
     else \<exists>c'. client_request F' GET (print_uri s') ty' secs' [] (c\<lparr>cl_sends := ks', cl_recvs := xs'\<rparr>) =
            Done (c', \<lparr>rd_ec = EC_invalid_argument, rd_status = 404, rd_body = ''request timeout'', rd_headers = Some []\<rparr>) \<and>
          cl_wire c' = get_text s ty @ again_text s' ty ty' \<and> cl_recvs c' = xs')"
proof -
  obtain c where c: "client_request F GET (print_uri s) ty secs [] (http_client_new g (True # bs) ks xs) = Done (c, received_data st b fs)"
    "cl_connected c" "cl_last_domain c = ''http://'' @ sp_host s" "\<not> cl_future_ready c" "cl_headers c = type_headers ty" "cl_header_str c = []" "cl_wire c = get_text s ty"
    using client_get_run [OF assms(1-8), of F secs g bs] assms(9) by auto
  have p: "\<not> cl_in_progress c" using c(1) by (auto simp: client_request_def Let_def split: run.splits)
  let ?c = "c\<lparr>cl_sends := ks', cl_recvs := xs'\<rparr>"
  have "client_request F' GET (print_uri s') ty' secs' [] ?c = Hangs" if "str_find (''http://'' @ sp_host s) (print_uri s') = None"
    using second_request_other_host [of ?c] c p that by simp
  moreover have "\<exists>c'. client_request F' GET (print_uri s') ty' secs' [] ?c = Done (c', timeout_data) \<and>
      cl_wire c' = get_text s ty @ again_text s' ty ty' \<and> cl_recvs c' = xs'" if "str_find (''http://'' @ sp_host s) (print_uri s') \<noteq> None"
    using second_request_same_host [OF assms(10-12), of ?c ty F' secs'] c p that assms(13,14) by simp
  ultimately show ?thesis using c(1) by (auto simp: received_data_def timeout_data_def)
qed

theorem client_second_request_witness:
  "\<exists>c d c'. client_request Map.empty GET ''http://h:8080/a?x=1'' json 15 []
      (http_client_new 0 [True] [1000] [print_response 200 ''OK'' [(''Content-Length'', '' '', ''2'')], ''hi'']) = Done (c, d) \<and> rd_body d = ''hi'' \<and>
    client_request Map.empty GET ''http://h:8080/a?x=1'' json 15 [] (c\<lparr>cl_sends := [1000], cl_recvs := [''HTTP/1.1 200 OK'']\<rparr>) =
      Done (c', \<lparr>rd_ec = EC_invalid_argument, rd_status = 404, rd_body = ''request timeout'', rd_headers = Some []\<rparr>) \<and>
    cl_wire c' = get_text demo_uri json @ again_text demo_uri json json \<and> cl_recvs c' = [''HTTP/1.1 200 OK'']"
proof -
  let ?fs = "[(''Content-Length'', '' '', ''2'')]"
  have "\<forall>c \<in> set ''OK''. \<not> eol_ctl c" "\<forall>f \<in> set ?fs. field_ok f" "hdr_lookup ''content-length'' (map (\<lambda>(n, ws, v). (n, v)) ?fs) = dec (length ''hi'')" by code_simp+
  then have "wire_response 200 ''OK'' ?fs ''hi''" by (simp add: wire_response_def)
  moreover have "in_pieces [print_response 200 ''OK'' ?fs, ''hi'']" by (simp add: in_pieces_def print_response_def)
  moreover have ks: "\<forall>k \<in> set [1000 :: int]. 0 < k" "int (length (get_text demo_uri json)) \<le> sum_list [1000]" using demo_uri_facts(4) by simp_all
  moreover have "length (again_text demo_uri json json) < 1000" by code_simp
  then have "int (length (again_text demo_uri json json)) \<le> sum_list [1000]" by simp
  moreover have "\<not> Option.is_none (str_find (''http://'' @ sp_host demo_uri) (print_uri demo_uri))" by code_simp
  then have "str_find (''http://'' @ sp_host demo_uri) (print_uri demo_uri) \<noteq> None" by (simp add: Option.is_none_def)
  ultimately show ?thesis
    using client_second_request [OF demo_uri_facts(1,2) _ _ _ _ _ _ _ demo_uri_facts(1,2) _ ks(1), of json "[1000]" 200 "''OK''" ?fs "''hi''"
        "[print_response 200 ''OK'' ?fs, ''hi'']" json Map.empty 15 0 "[]" Map.empty 15 "[''HTTP/1.1 200 OK'']"] demo_uri_facts(3) by auto
qed

section \<open>Uploads\<close>

text \<open>The upload of a file runs the branch for generated content, because \<^verbatim>\<open>memFileSize\<close> starts as -1, and exhausts the memory.\<close>

lemma plain_upload_no_memory:
  assumes "uri_ok s" "sp_schema s = ''http''"
  shows "upload F (print_uri s) filename start (http_client_new g (True # bs) ks xs) = No_memory"
proof -
  obtain u where u: "get_uri (print_uri s) = Done (True, u)" using get_uri_printed [OF assms] by blast
  have "cl_mem_file_size (start_multipart ctx fn n c) = cl_mem_file_size c" for ctx fn n c
    by (simp add: start_multipart_def build_write_msg_def Let_def)
  then show ?thesis
    by (simp add: upload_def async_request_impl_def http_client_new_def u async_connect_def do_read_write_def do_write_def send_multipart_msg_def Let_def)
qed

text \<open>A body that ends early is reported as a success with an empty body.\<close>

lemma truncated_body_success:
  assumes "readN (sint (ucast n :: 32 word)) (cl_recv_buf c) (cl_recvs c) = (None, ys)" "cl_weak c" "cl_copy_headers c \<noteq> []"
  shows "cl_promise (do_read_body st n c) = Some (Given \<lparr>rd_ec = 0, rd_status = st, rd_body = [], rd_headers = Some (cl_copy_headers c)\<rparr>)"
  using assms by (simp add: do_read_body_def callback_def get_resp_headers_def)

end
