(* ===== verification/Key_Store.thy ===== *)
theory Key_Store
  imports Netcore_Prelude
begin

text \<open>
  The contract of the tables of the program that many callers share: an operation leaves alone what it is not about. The sharded cache and the registry
  of WebSocket connections are instances.
\<close>

locale key_store =
  fixes ok :: "'s \<Rightarrow> bool" and look :: "'s \<Rightarrow> 'k \<Rightarrow> 'v option" and step :: "'op \<Rightarrow> 's \<Rightarrow> 's" and touches :: "'op \<Rightarrow> 'k \<Rightarrow> bool"
  assumes step_ok: "ok s \<Longrightarrow> ok (step op s)"
    and step_frame: "ok s \<Longrightarrow> \<not> touches op k \<Longrightarrow> look (step op s) k = look s k"
begin

lemma run_ok: "ok s \<Longrightarrow> ok (fold step ops s)"
  by (induction ops arbitrary: s) (simp_all add: step_ok)

lemma run_frame: "ok s \<Longrightarrow> \<forall>op \<in> set ops. \<not> touches op k \<Longrightarrow> look (fold step ops s) k = look s k"
  by (induction ops arbitrary: s) (simp_all add: step_ok step_frame)

text \<open>The last operation on a key decides, whatever happens to the other keys.\<close>

lemma run_last:
  assumes "ok s" "\<forall>op \<in> set ops. \<not> touches op k"
  shows "look (fold step (before @ op # ops) s) k = look (step op (fold step before s)) k"
  using run_frame [OF step_ok [OF run_ok [OF assms(1)]] assms(2)] by simp

end

end
