(* ===== verification/Cache.thy ===== *)
theory Cache
  imports Key_Store "HOL-Library.AList" Itoa
begin

text \<open>
  The caches: \<^verbatim>\<open>include/netcore/fastCache.hpp\<close>, a table with expiring entries in shards that are locked one by one, with string values as the instance
  \<^verbatim>\<open>Cache\<close> has them, and \<^verbatim>\<open>include/netcore/http_cache.hpp\<close>. A hash table is its list of entries; its order is not observable here. The clock in seconds and
  the hash function are arguments.
\<close>

section \<open>The sharded cache\<close>

record CacheItem =
  item_data :: string
  expiration :: size_t

type_synonym 'k shard = "('k \<times> CacheItem) list"

record 'k Fastcache =
  m_shards :: "'k shard list"
  run_flag :: bool

definition CacheItem_new :: "size_t \<Rightarrow> string \<Rightarrow> size_t \<Rightarrow> CacheItem" where
  "CacheItem_new now d expired_duration_time = \<lparr>item_data = d, expiration = now + expired_duration_time\<rparr>"

definition item_append :: "string \<Rightarrow> size_t \<Rightarrow> bool \<Rightarrow> CacheItem \<Rightarrow> CacheItem" where
  "item_append d new_exp use_pre_split_char it =
     \<lparr>item_data = item_data it @ (if use_pre_split_char then '','' else []) @ d, expiration = new_exp\<rparr>"

definition dumps :: "CacheItem \<Rightarrow> string" where
  "dumps it = dec (unat (expiration it)) @ '' '' @ item_data it"

definition expired :: "size_t \<Rightarrow> CacheItem \<Rightarrow> bool" where
  "expired now_time it \<longleftrightarrow> (if expiration it = 0 then False else expiration it < now_time)"

fun del_expired_keys :: "size_t \<Rightarrow> 'k shard \<Rightarrow> 'k shard" where
  "del_expired_keys now_time [] = []"
| "del_expired_keys now_time (e # s) = (if expired now_time (snd e) then del_expired_keys now_time s else e # del_expired_keys now_time s)"

definition Fastcache_new :: "nat \<Rightarrow> 'k Fastcache" where
  "Fastcache_new Shard_size = \<lparr>m_shards = replicate Shard_size [], run_flag = True\<rparr>"

definition Fastcache_destroy :: "'k Fastcache \<Rightarrow> 'k Fastcache" where
  "Fastcache_destroy C = C\<lparr>run_flag := False\<rparr>"

definition calc_index :: "('k \<Rightarrow> size_t) \<Rightarrow> 'k Fastcache \<Rightarrow> 'k \<Rightarrow> nat" where
  "calc_index hash C key = unat (hash key mod of_nat (length (m_shards C)))"

definition at_shard :: "nat \<Rightarrow> ('k shard \<Rightarrow> 'k shard) \<Rightarrow> 'k Fastcache \<Rightarrow> 'k Fastcache" where
  "at_shard i f C = C\<lparr>m_shards := (m_shards C)[i := f (m_shards C ! i)]\<rparr>"

definition total_size :: "'k Fastcache \<Rightarrow> nat" where
  "total_size C = foldl (\<lambda>tot e. tot + length e) 0 (m_shards C)"

definition cache_set :: "('k \<Rightarrow> size_t) \<Rightarrow> size_t \<Rightarrow> 'k \<Rightarrow> string \<Rightarrow> size_t \<Rightarrow> 'k Fastcache \<Rightarrow> 'k Fastcache" where
  "cache_set hash now key val e C = at_shard (calc_index hash C key) (AList.update key (CacheItem_new now val e)) C"

definition cache_exists :: "('k \<Rightarrow> size_t) \<Rightarrow> 'k \<Rightarrow> 'k Fastcache \<Rightarrow> bool" where
  "cache_exists hash key C \<longleftrightarrow> map_of (m_shards C ! calc_index hash C key) key \<noteq> None"

definition cache_del :: "('k \<Rightarrow> size_t) \<Rightarrow> 'k \<Rightarrow> 'k Fastcache \<Rightarrow> 'k Fastcache \<times> nat" where
  "cache_del hash key C =
     (at_shard (calc_index hash C key) (AList.delete key) C, if cache_exists hash key C then 1 else 0)"

definition new_expire :: "('k \<Rightarrow> size_t) \<Rightarrow> size_t \<Rightarrow> 'k \<Rightarrow> size_t \<Rightarrow> 'k Fastcache \<Rightarrow> 'k Fastcache" where
  "new_expire hash now key e C =
     (let i = calc_index hash C key in
      case map_of (m_shards C ! i) key of
        None \<Rightarrow> C
      | Some it \<Rightarrow> at_shard i (AList.update key (it\<lparr>expiration := now + e\<rparr>)) C)"

definition cache_get :: "('k \<Rightarrow> size_t) \<Rightarrow> size_t \<Rightarrow> 'k \<Rightarrow> 'k Fastcache \<Rightarrow> 'k Fastcache \<times> bool \<times> string" where
  "cache_get hash now key C =
     (let i = calc_index hash C key in
      case map_of (m_shards C ! i) key of
        None \<Rightarrow> (C, False, [])
      | Some val \<Rightarrow> if expired now val then (at_shard i (AList.delete key) C, False, []) else (C, True, item_data val))"

definition cache_append :: "('k \<Rightarrow> size_t) \<Rightarrow> size_t \<Rightarrow> 'k \<Rightarrow> string \<Rightarrow> size_t \<Rightarrow> 'k Fastcache \<Rightarrow> 'k Fastcache" where
  "cache_append hash now key val e C =
     (let i = calc_index hash C key in
      case map_of (m_shards C ! i) key of
        None \<Rightarrow> at_shard i (AList.update key (CacheItem_new now val e)) C
      | Some it \<Rightarrow> at_shard i (AList.update key (item_append val (now + e) True it)) C)"

text \<open>One round of the thread that removes expired keys; it locks a shard at a time.\<close>

definition expired_check_round :: "size_t \<Rightarrow> 'k Fastcache \<Rightarrow> 'k Fastcache" where
  "expired_check_round now_time C =
     (if run_flag C then fold (\<lambda>i. at_shard i (del_expired_keys now_time)) [0 ..< length (m_shards C)] C else C)"

text \<open>The atomic actions of all threads, each under the lock of one shard, with the time the thread has read.\<close>

datatype 'k cache_op = Set_op size_t 'k string size_t | Del_op 'k | Expire_op size_t 'k size_t | Get_op size_t 'k | Append_op size_t 'k string size_t | Sweep_op size_t nat

fun cache_step :: "('k \<Rightarrow> size_t) \<Rightarrow> 'k cache_op \<Rightarrow> 'k Fastcache \<Rightarrow> 'k Fastcache" where
  "cache_step hash (Set_op now key val e) C = cache_set hash now key val e C"
| "cache_step hash (Del_op key) C = fst (cache_del hash key C)"
| "cache_step hash (Expire_op now key e) C = new_expire hash now key e C"
| "cache_step hash (Get_op now key) C = fst (cache_get hash now key C)"
| "cache_step hash (Append_op now key val e) C = cache_append hash now key val e C"
| "cache_step hash (Sweep_op now i) C = at_shard i (del_expired_keys now) C"

section \<open>The abstract table\<close>

definition shard_ok :: "('k \<Rightarrow> nat) \<Rightarrow> nat \<Rightarrow> 'k shard \<Rightarrow> bool" where
  "shard_ok place i s \<longleftrightarrow> distinct (map fst s) \<and> (\<forall>k \<in> set (map fst s). place k = i)"

definition cache_ok :: "('k \<Rightarrow> size_t) \<Rightarrow> 'k Fastcache \<Rightarrow> bool" where
  "cache_ok hash C \<longleftrightarrow> m_shards C \<noteq> [] \<and> length (m_shards C) < 2 ^ 64 \<and> (\<forall>i < length (m_shards C). shard_ok (calc_index hash C) i (m_shards C ! i))"

definition table :: "('k \<Rightarrow> size_t) \<Rightarrow> 'k Fastcache \<Rightarrow> 'k \<Rightarrow> CacheItem option" where
  "table hash C k = map_of (m_shards C ! calc_index hash C k) k"

lemma calc_index_less: "cache_ok hash C \<Longrightarrow> calc_index hash C k < length (m_shards C)"
proof -
  assume ok: "cache_ok hash C"
  have u: "unat (of_nat (length (m_shards C)) :: size_t) = length (m_shards C)" using ok by (intro unat_size_t) (simp add: cache_ok_def)
  have "0 < length (m_shards C)" using ok by (simp add: cache_ok_def)
  then show ?thesis by (simp add: calc_index_def unat_mod u)
qed

lemma calc_index_at_shard [simp]: "calc_index hash (at_shard i f C) = calc_index hash C"
  by (simp add: calc_index_def at_shard_def fun_eq_iff)

lemma shards_at_shard: "m_shards (at_shard i f C) = (m_shards C)[i := f (m_shards C ! i)]"
  by (simp add: at_shard_def)

text \<open>A change of one shard that only involves keys of the shard.\<close>

lemma at_shard_ok:
  assumes "cache_ok hash C" "shard_ok (calc_index hash C) i (m_shards C ! i) \<Longrightarrow> shard_ok (calc_index hash C) i (f (m_shards C ! i))"
  shows "cache_ok hash (at_shard i f C)"
  using assms unfolding cache_ok_def calc_index_at_shard shards_at_shard
  by (metis length_list_update list_update_nonempty nth_list_update_eq nth_list_update_neq)

lemma table_at_shard:
  assumes "cache_ok hash C"
  shows "table hash (at_shard i f C) k = (if calc_index hash C k = i then map_of (f (m_shards C ! calc_index hash C k)) k else table hash C k)"
  using calc_index_less [OF assms, of k] by (auto simp: table_def shards_at_shard)

lemma del_expired_filter: "del_expired_keys now s = filter (\<lambda>e. \<not> expired now (snd e)) s"
  by (induction s) auto

lemma map_of_del_expired:
  "distinct (map fst s) \<Longrightarrow> map_of (del_expired_keys now s) k = (case map_of s k of None \<Rightarrow> None | Some it \<Rightarrow> if expired now it then None else Some it)"
  unfolding del_expired_filter by (induction s) (auto split: option.splits simp: map_of_eq_None_iff image_iff)

section \<open>Every action implements an operation on the table\<close>

fun table_step :: "('k \<Rightarrow> nat) \<Rightarrow> 'k cache_op \<Rightarrow> ('k \<Rightarrow> CacheItem option) \<Rightarrow> 'k \<Rightarrow> CacheItem option" where
  "table_step place (Set_op now k v e) T = T(k \<mapsto> \<lparr>item_data = v, expiration = now + e\<rparr>)"
| "table_step place (Del_op k) T = T(k := None)"
| "table_step place (Expire_op now k e) T = T(k := map_option (expiration_update (\<lambda>_. now + e)) (T k))"
| "table_step place (Get_op now k) T = (if \<exists>it. T k = Some it \<and> expired now it then T(k := None) else T)"
| "table_step place (Append_op now k v e) T =
     T(k \<mapsto> \<lparr>item_data = (case T k of None \<Rightarrow> v | Some it \<Rightarrow> item_data it @ '','' @ v), expiration = now + e\<rparr>)"
| "table_step place (Sweep_op now i) T = (\<lambda>k. if place k = i \<and> (\<exists>it. T k = Some it \<and> expired now it) then None else T k)"

lemma shard_keys: "cache_ok hash C \<Longrightarrow> distinct (map fst (m_shards C ! calc_index hash C k))"
  using calc_index_less [of hash C k] by (simp add: cache_ok_def shard_ok_def)

lemma shard_update_ok:
  assumes "cache_ok hash C"
  shows "cache_ok hash (at_shard (calc_index hash C k) (AList.update k it) C)"
  by (rule at_shard_ok [OF assms]) (auto simp: shard_ok_def dom_update distinct_update)

lemma delete_ok:
  assumes "cache_ok hash C"
  shows "cache_ok hash (at_shard (calc_index hash C k) (AList.delete k) C)"
  by (rule at_shard_ok [OF assms]) (auto simp: shard_ok_def delete_keys distinct_removeAll)

lemma update_table:
  assumes "cache_ok hash C"
  shows "table hash (at_shard (calc_index hash C k) (AList.update k it) C) = (table hash C)(k \<mapsto> it)"
  unfolding fun_eq_iff table_at_shard [OF assms] by (simp add: update_conv' table_def)

lemma delete_table:
  assumes "cache_ok hash C"
  shows "table hash (at_shard (calc_index hash C k) (AList.delete k) C) = (table hash C)(k := None)"
  unfolding fun_eq_iff table_at_shard [OF assms] by (simp add: delete_conv' table_def)

lemma sweep_ok: "cache_ok hash C \<Longrightarrow> cache_ok hash (at_shard i (del_expired_keys now) C)"
  by (erule at_shard_ok) (auto simp: shard_ok_def del_expired_filter distinct_map_filter)

lemma sweep_table:
  assumes "cache_ok hash C"
  shows "table hash (at_shard i (del_expired_keys now) C) = (\<lambda>k. if calc_index hash C k = i \<and> (\<exists>it. table hash C k = Some it \<and> expired now it) then None else table hash C k)"
  unfolding fun_eq_iff table_at_shard [OF assms] map_of_del_expired [OF shard_keys [OF assms]]
  unfolding table_def by (auto split: option.split)

lemma cache_step_ok: "cache_ok hash C \<Longrightarrow> cache_ok hash (cache_step hash op C)"
  by (cases op) (simp_all add: cache_set_def cache_del_def new_expire_def cache_get_def cache_append_def Let_def shard_update_ok delete_ok sweep_ok split: option.split)

lemma table_step_refines:
  assumes "cache_ok hash C"
  shows "table hash (cache_step hash op C) = table_step (calc_index hash C) op (table hash C)"
proof (cases op)
  case (Sweep_op now i)
  then show ?thesis by (simp add: sweep_table [OF assms])
next
  case (Set_op now k v e)
  then show ?thesis by (simp add: cache_set_def CacheItem_new_def update_table [OF assms])
next
  case (Del_op k)
  then show ?thesis by (simp add: cache_del_def delete_table [OF assms])
next
  case (Expire_op now k e)
  then show ?thesis by (auto simp: new_expire_def Let_def update_table [OF assms] table_def [symmetric] split: option.split)
next
  case (Get_op now k)
  then show ?thesis by (auto simp: cache_get_def Let_def delete_table [OF assms] table_def [symmetric] split: option.split)
next
  case (Append_op now k v e)
  then show ?thesis
    by (auto simp: cache_append_def Let_def update_table [OF assms] table_def [symmetric] CacheItem_new_def item_append_def split: option.split)
qed

text \<open>What a reader at time \<open>t\<close> can see of a key, and the actions that may change it: a write to the key, or a removal by a later clock.\<close>

definition live :: "('k \<Rightarrow> size_t) \<Rightarrow> size_t \<Rightarrow> 'k Fastcache \<Rightarrow> 'k \<Rightarrow> string option" where
  "live hash t C k = (case table hash C k of None \<Rightarrow> None | Some it \<Rightarrow> if expired t it then None else Some (item_data it))"

fun may_change :: "size_t \<Rightarrow> 'k cache_op \<Rightarrow> 'k \<Rightarrow> bool" where
  "may_change t (Set_op now key v e) k \<longleftrightarrow> key = k"
| "may_change t (Del_op key) k \<longleftrightarrow> key = k"
| "may_change t (Expire_op now key e) k \<longleftrightarrow> key = k"
| "may_change t (Append_op now key v e) k \<longleftrightarrow> key = k"
| "may_change t (Get_op now key) k \<longleftrightarrow> key = k \<and> t < now"
| "may_change t (Sweep_op now i) k \<longleftrightarrow> t < now"

lemma expired_mono: "expired now it \<Longrightarrow> now \<le> t \<Longrightarrow> expired t it"
  by (auto simp: expired_def split: if_splits)

interpretation cache_store: key_store "cache_ok hash" "live hash t" "cache_step hash" "may_change t" for hash t
proof
  show "cache_ok hash (cache_step hash op C)" if "cache_ok hash C" for C :: "'a Fastcache" and op
    by (rule cache_step_ok [OF that])
  show "live hash t (cache_step hash op C) k = live hash t C k" if "cache_ok hash C" "\<not> may_change t op k" for C :: "'a Fastcache" and op k
    using that(2) expired_mono [of _ _ t] unfolding live_def table_step_refines [OF that(1)]
    by (cases op) (auto split: option.split if_splits simp: not_less)
qed

lemma cache_new_ok: "0 < n \<Longrightarrow> n < 2 ^ 64 \<Longrightarrow> cache_ok hash (Fastcache_new n)"
  by (simp add: cache_ok_def Fastcache_new_def shard_ok_def)

lemma table_new: "0 < n \<Longrightarrow> n < 2 ^ 64 \<Longrightarrow> table hash (Fastcache_new n) = Map.empty"
  using calc_index_less [OF cache_new_ok, of n hash] by (simp add: table_def Fastcache_new_def fun_eq_iff)

lemma get_live: "snd (cache_get hash t k C) = (case live hash t C k of None \<Rightarrow> (False, []) | Some v \<Rightarrow> (True, v))"
  by (simp add: cache_get_def live_def Let_def table_def split: option.split)

lemma live_set:
  assumes "cache_ok hash C"
  shows "live hash t (cache_set hash now k v e C) k = (if now + e = 0 \<or> t \<le> now + e then Some v else None)"
  by (auto simp: cache_set_def CacheItem_new_def live_def update_table [OF assms] expired_def)

text \<open>
  (C36) The lifetime of an entry. Whatever the threads did before, after a \<open>set\<close> with duration \<open>e\<close> at time \<open>now\<close> (the sum not zero and not wrapping) and any actions on
  other keys, reads of the key and removal rounds by clocks that have not passed \<open>t\<close>, in any order, a \<open>get\<close> at time \<open>t\<close> finds the value just when \<open>t\<close> is at most \<open>now + e\<close>.
\<close>

theorem fastcache_lifetime:
  assumes "0 < n" "n < 2 ^ 64" "0 < unat now + unat e" "unat now + unat e < 2 ^ 64" "list_all (\<lambda>op. \<not> may_change t op k) later"
  shows "snd (cache_get hash t k (fold (cache_step hash) (earlier @ Set_op now k v e # later) (Fastcache_new n))) =
    (if unat t \<le> unat now + unat e then (True, v) else (False, []))"
proof -
  have u: "unat (now + e) = unat now + unat e" using assms(4) by (simp add: unat_add_lem [symmetric])
  then have nz: "now + e \<noteq> 0" using assms(3) by (metis less_irrefl unat_0)
  have "live hash t (fold (cache_step hash) (earlier @ Set_op now k v e # later) (Fastcache_new n)) k = (if unat t \<le> unat now + unat e then Some v else None)"
    using cache_store.run_last [OF cache_new_ok [OF assms(1,2)], of later t k hash earlier "Set_op now k v e"] assms(5)
      live_set [OF cache_store.run_ok [OF cache_new_ok [OF assms(1,2)]], of hash t now k v e] nz u
    by (simp add: list_all_iff word_le_nat_alt)
  then show ?thesis by (simp add: get_live)
qed

theorem fastcache_lifetime_witness:
  "snd (cache_get of_nat 12 1 (fold (cache_step of_nat) ([Set_op 1 1 ''a'' 5] @ Set_op 2 1 ''b'' 10 # [Set_op 3 (33::nat) ''c'' 1, Sweep_op 12 1, Get_op 12 1]) (Fastcache_new 32))) = (True, ''b'') \<and>
   snd (cache_get of_nat 13 1 (fold (cache_step of_nat) ([] @ Set_op 2 1 ''b'' 10 # [Sweep_op 13 (1::nat)]) (Fastcache_new 32 :: nat Fastcache))) = (False, [])"
  using fastcache_lifetime [of 32 2 10 12 1 "[Set_op 3 33 ''c'' 1, Sweep_op 12 1, Get_op 12 1]" of_nat "[Set_op 1 1 ''a'' 5]" "''b''"]
    fastcache_lifetime [of 32 2 10 13 "1::nat" "[Sweep_op 13 1]" of_nat "[]" "''b''"]
  by simp

text \<open>The table the threads share is the abstract one, and the number of keys the cache reports is the size of its domain.\<close>

lemma cache_run_refines:
  assumes "cache_ok hash C"
  shows "table hash (fold (cache_step hash) ops C) = fold (table_step (calc_index hash C)) ops (table hash C)"
  using assms
proof (induction ops arbitrary: C)
  case (Cons op ops)
  have "length (m_shards (cache_step hash op C)) = length (m_shards C)"
    by (cases op) (simp_all add: cache_set_def cache_del_def new_expire_def cache_get_def cache_append_def Let_def shards_at_shard split: option.split)
  then have "calc_index hash (cache_step hash op C) = calc_index hash C" by (simp add: calc_index_def fun_eq_iff)
  then show ?case using Cons by (simp add: cache_step_ok table_step_refines)
qed simp

lemma total_size_sum: "total_size C = (\<Sum>i < length (m_shards C). length (m_shards C ! i))"
proof -
  have "foldl (\<lambda>tot e. tot + length e) a xs = a + sum_list (map length xs)" for a and xs :: "'a shard list"
    by (induction xs arbitrary: a) simp_all
  then have "total_size C = sum_list (map length (m_shards C))" by (simp add: total_size_def)
  then show ?thesis by (simp add: sum_list_sum_nth atLeast0LessThan)
qed

lemma total_size_table:
  assumes "cache_ok hash C"
  shows "total_size C = card (dom (table hash C))"
proof -
  let ?K = "\<lambda>i. set (map fst (m_shards C ! i))"
  have shard: "distinct (map fst (m_shards C ! i))" "\<forall>k \<in> ?K i. calc_index hash C k = i" if "i < length (m_shards C)" for i
    using assms that by (simp_all add: cache_ok_def shard_ok_def)
  have "k \<in> dom (table hash C) \<longleftrightarrow> k \<in> (\<Union>i < length (m_shards C). ?K i)" for k
  proof
    assume "k \<in> dom (table hash C)"
    then have "k \<in> ?K (calc_index hash C k)" by (simp add: table_def domIff map_of_eq_None_iff)
    then show "k \<in> (\<Union>i < length (m_shards C). ?K i)" using calc_index_less [OF assms, of k] by blast
  next
    assume "k \<in> (\<Union>i < length (m_shards C). ?K i)"
    then obtain i where "i < length (m_shards C)" "k \<in> ?K i" by blast
    moreover from this have "calc_index hash C k = i" using shard(2) by blast
    ultimately show "k \<in> dom (table hash C)" by (simp add: table_def domIff map_of_eq_None_iff)
  qed
  then have "dom (table hash C) = (\<Union>i < length (m_shards C). ?K i)" by blast
  moreover have disjoint: "?K i \<inter> ?K j = {}" if "i < length (m_shards C)" "j < length (m_shards C)" "i \<noteq> j" for i j
    using shard(2) [OF that(1)] shard(2) [OF that(2)] that(3) by (metis disjoint_iff)
  moreover have "card (\<Union>i < length (m_shards C). ?K i) = (\<Sum>i < length (m_shards C). card (?K i))"
    by (rule card_UN_disjoint) (use disjoint in \<open>blast+\<close>)
  moreover have "card (?K i) = length (m_shards C ! i)" if "i < length (m_shards C)" for i
    using distinct_card [OF shard(1) [OF that]] by simp
  ultimately show ?thesis by (simp add: total_size_sum)
qed

text \<open>The instance the program has is a table with 32 shards and text keys, which starts out empty.\<close>

definition Cache_get :: "string Fastcache" where
  "Cache_get = Fastcache_new 32"

text \<open>
  What the interface does not say: \<open>exists\<close> still reports an expired key, \<open>append\<close> revives its old content, and a duration that wraps, such as the largest
  number of seconds, expires at once; only an expiration of exactly zero would be read as never.
\<close>

lemma exists_expired: "cache_exists of_nat 1 (cache_set of_nat 10 (1::nat) ''a'' 5 (Fastcache_new 4)) \<and> snd (cache_get of_nat 16 1 (cache_set of_nat 10 1 ''a'' 5 (Fastcache_new 4))) = (False, [])"
  by (simp add: cache_exists_def cache_set_def Fastcache_new_def at_shard_def calc_index_def cache_get_def CacheItem_new_def expired_def Let_def)

lemma append_revives:
  "snd (cache_get of_nat 16 1 (cache_append of_nat 16 1 ''b'' 5 (cache_set of_nat 10 (1::nat) ''a'' 5 (Fastcache_new 4)))) = (True, ''a,b'')"
  by (simp add: cache_append_def cache_set_def Fastcache_new_def at_shard_def calc_index_def cache_get_def CacheItem_new_def expired_def item_append_def Let_def)

lemma longest_duration_expires: "snd (cache_get of_nat 10 1 (cache_set of_nat 10 (1::nat) ''a'' (- 1) (Fastcache_new 4))) = (False, [])"
  by (simp add: cache_set_def Fastcache_new_def at_shard_def calc_index_def cache_get_def CacheItem_new_def expired_def Let_def)

section \<open>The cache of pages\<close>

text \<open>
  The iterator \<open>cur_it_\<close> stands at an entry, at the end, or at an entry that has been erased. Where the hash table puts a new entry is an argument.
  A use of the dangling iterator has no value.
\<close>

datatype cache_it = At string | At_end | Dangling

record http_cache =
  need_cache :: bool
  hc_cache :: "(string \<times> string list) list"
  cur_it :: cache_it
  skip_cache :: "string list"
  need_single_cache :: "string list"
  max_cache_age :: int
  cache_time :: "(string \<times> int) list"

definition MAX_CACHE_SIZE :: nat where
  "MAX_CACHE_SIZE = 100000"

definition http_cache_new :: http_cache where
  "http_cache_new = \<lparr>need_cache = False, hc_cache = [], cur_it = At_end, skip_cache = [], need_single_cache = [], max_cache_age = 0, cache_time = []\<rparr>"

fun hc_begin :: "(string \<times> string list) list \<Rightarrow> cache_it" where
  "hc_begin [] = At_end"
| "hc_begin (e # c) = At (fst e)"

fun distance_to_end :: "cache_it \<Rightarrow> (string \<times> string list) list \<Rightarrow> nat option" where
  "distance_to_end Dangling c = None"
| "distance_to_end At_end c = Some 0"
| "distance_to_end (At k) c = Some (length (dropWhile (\<lambda>e. fst e \<noteq> k) c))"

definition hc_add :: "nat \<Rightarrow> int \<Rightarrow> string \<Rightarrow> string list \<Rightarrow> http_cache \<Rightarrow> http_cache option" where
  "hc_add place now key content C =
     (case distance_to_end (cur_it C) (hc_cache C) of
        None \<Rightarrow> None
      | Some d \<Rightarrow>
          (let C = (if MAX_CACHE_SIZE < d then C\<lparr>cur_it := hc_begin (hc_cache C)\<rparr> else C);
               c = (if map_of (hc_cache C) key = None then take place (hc_cache C) @ (key, content) # drop place (hc_cache C) else hc_cache C) in
           Some (C\<lparr>hc_cache := c, cur_it := At key, cache_time := AList.update key (now + max_cache_age C) (cache_time C)\<rparr>)))"

definition hc_get :: "int \<Rightarrow> string \<Rightarrow> http_cache \<Rightarrow> http_cache \<times> string list" where
  "hc_get now_time key C =
     (let time_it = map_of (cache_time C) key; it = map_of (hc_cache C) key in
      if time_it \<noteq> None \<and> the time_it \<ge> now_time then (C, case it of None \<Rightarrow> [] | Some v \<Rightarrow> v)
      else if time_it \<noteq> None \<and> it \<noteq> None
           then (C\<lparr>hc_cache := AList.delete key (hc_cache C), cur_it := hc_begin (drop 1 (dropWhile (\<lambda>e. fst e \<noteq> key) (hc_cache C)))\<rparr>, [])
           else (C, []))"

definition hc_empty :: "http_cache \<Rightarrow> bool" where
  "hc_empty C \<longleftrightarrow> hc_cache C = []"

definition hc_del :: "string \<Rightarrow> http_cache \<Rightarrow> http_cache" where
  "hc_del key C =
     (if map_of (hc_cache C) key = None then C
      else C\<lparr>hc_cache := AList.delete key (hc_cache C), cur_it := (if cur_it C = At key then Dangling else cur_it C)\<rparr>)"

definition add_skip :: "string \<Rightarrow> http_cache \<Rightarrow> http_cache" where
  "add_skip key C = C\<lparr>skip_cache := List.insert key (skip_cache C)\<rparr>"

definition add_single_cache :: "string \<Rightarrow> http_cache \<Rightarrow> http_cache" where
  "add_single_cache key C = C\<lparr>need_single_cache := List.insert key (need_single_cache C)\<rparr>"

definition enable_cache :: "bool \<Rightarrow> http_cache \<Rightarrow> http_cache" where
  "enable_cache b C = C\<lparr>need_cache := b\<rparr>"

definition hc_need_cache :: "string \<Rightarrow> http_cache \<Rightarrow> bool" where
  "hc_need_cache key C \<longleftrightarrow> (if need_cache C then need_cache C else key \<in> set (need_single_cache C))"

definition not_cache :: "string \<Rightarrow> http_cache \<Rightarrow> bool" where
  "not_cache key C \<longleftrightarrow> key \<in> set (skip_cache C)"

definition set_cache_max_age :: "int \<Rightarrow> http_cache \<Rightarrow> http_cache" where
  "set_cache_max_age seconds C = C\<lparr>max_cache_age := seconds\<rparr>"

text \<open>
  An entry that has been added is returned until its time is over, but a page that is added again keeps its first content with the new time; and
  once the page that was added last is deleted, the next addition computes with an iterator into nothing.
\<close>

lemma hc_add_get:
  assumes "hc_add place now key content C = Some C'" "t \<le> now + max_cache_age C"
  shows "snd (hc_get t key C') = (case map_of (hc_cache C) key of None \<Rightarrow> content | Some first \<Rightarrow> first)"
proof -
  have "map_of (take n xs @ (key, content) # drop n xs) key = Some content" if "map_of xs key = None" for n and xs :: "(string \<times> string list) list"
    using that by (auto simp: map_of_eq_None_iff map_add_def image_iff dest!: in_set_takeD map_of_SomeD split: option.split)
  then show ?thesis using assms by (auto simp: hc_add_def hc_get_def Let_def update_conv' split: option.splits if_splits)
qed

lemma hc_add_after_del: "hc_add place now key content C = Some C' \<Longrightarrow> hc_add place' now' key' content' (hc_del key C') = None"
  by (auto simp: hc_add_def hc_del_def Let_def map_add_def split: option.splits if_splits)

end
