(* ===== verification/Session.thy ===== *)
theory Session
  imports Response "HOL-Library.AList"
begin

text \<open>
  \<^verbatim>\<open>core/session.hpp\<close>, \<^verbatim>\<open>core/session_manager.hpp\<close> and the counter of \<^verbatim>\<open>lib/uuid.hpp\<close>. Sessions are shared objects: the manager maps identifiers to addresses, and
  the objects are in a store. The clock and its nanoseconds are arguments. The value of a \<^verbatim>\<open>std::any\<close> and the cast to a type are parameters; a failed cast is \<open>None\<close>.
\<close>

section \<open>Sessions\<close>

record 'a session =
  session_id :: string
  session_expire :: size_t
  session_time_stamp :: int
  session_cookie :: cookie
  is_update :: bool
  session_data :: "(string \<times> 'a) list"

definition SESSION_DEFAULT_EXPIRE :: size_t where
  "SESSION_DEFAULT_EXPIRE = 7 * 24 * 60 * 60"

definition session_new :: "int \<Rightarrow> string \<Rightarrow> string \<Rightarrow> size_t \<Rightarrow> string \<Rightarrow> string \<Rightarrow> 'a session" where
  "session_new now name uuid_str expire pth dmn =
     (let e = (if expire = - 1 then SESSION_DEFAULT_EXPIRE else expire);
          ts = sint (e + of_int now);
          ck = (cookie_new [] [])\<lparr>ck_name := name, ck_path := pth, domain := dmn, ck_value := uuid_str, version := 0,
                 max_age := (if expire = - 1 then - 1 else ts)\<rparr> in
      \<lparr>session_id = uuid_str, session_expire = e, session_time_stamp = ts, session_cookie = ck, is_update = True, session_data = []\<rparr>)"

definition set_data :: "string \<Rightarrow> 'a \<Rightarrow> 'a session \<Rightarrow> 'a session" where
  "set_data name d s = s\<lparr>session_data := AList.update name d (session_data s)\<rparr>"

definition get_data :: "('a \<Rightarrow> 't option) \<Rightarrow> 't \<Rightarrow> string \<Rightarrow> 'a session \<Rightarrow> 't option" where
  "get_data any_cast empty_value name s = (case map_of (session_data s) name of Some d \<Rightarrow> any_cast d | None \<Rightarrow> Some empty_value)"

definition session_has :: "string \<Rightarrow> 'a session \<Rightarrow> bool" where
  "session_has name s \<longleftrightarrow> map_of (session_data s) name \<noteq> None"

definition set_max_age :: "int \<Rightarrow> int \<Rightarrow> 'a session \<Rightarrow> 'a session" where
  "set_max_age now seconds s =
     (let e = (if seconds = - 1 then 86400 else of_int seconds); ts = sint (of_int now + e) in
      s\<lparr>is_update := True, session_expire := e, session_time_stamp := ts, session_cookie := (session_cookie s)\<lparr>max_age := (if seconds = - 1 then - 1 else ts)\<rparr>\<rparr>)"

definition session_remove :: "int \<Rightarrow> 'a session \<Rightarrow> 'a session" where
  "session_remove now s = set_max_age now 0 s"

definition set_need_update :: "bool \<Rightarrow> 'a session \<Rightarrow> 'a session" where
  "set_need_update flag s = s\<lparr>is_update := flag\<rparr>"

section \<open>The manager\<close>

record 'a session_manager =
  sm_map :: "(string \<times> nat) list"
  sm_max_age :: int
  sm_counter :: int
  sm_store :: "'a session list"

definition session_manager_new :: "'a session_manager" where
  "session_manager_new = \<lparr>sm_map = [], sm_max_age = 0, sm_counter = 0, sm_store = []\<rparr>"

text \<open>\<^verbatim>\<open>create_session\<close>; the result is the address of the new object. \<open>emplace\<close> does not replace an entry.\<close>

definition create_session :: "int \<Rightarrow> int \<Rightarrow> string \<Rightarrow> size_t \<Rightarrow> string \<Rightarrow> string \<Rightarrow> 'a session_manager \<Rightarrow> 'a session_manager \<times> nat" where
  "create_session nano now name expire pth dmn M =
     (let n = sm_counter M + 1;
          uuid_str = dec_int nano @ dec_int n;
          a = length (sm_store M);
          s = session_new now name uuid_str expire pth dmn in
      (M\<lparr>sm_counter := n, sm_store := sm_store M @ [s],
         sm_map := (if map_of (sm_map M) uuid_str = None then sm_map M @ [(uuid_str, a)] else sm_map M)\<rparr>, a))"

definition create_session_host :: "int \<Rightarrow> int \<Rightarrow> string \<Rightarrow> string \<Rightarrow> int \<Rightarrow> string \<Rightarrow> 'a session_manager \<Rightarrow> 'a session_manager \<times> nat" where
  "create_session_host nano now host name expire pth M =
     create_session nano now name (of_int expire) pth (takeWhile (\<lambda>c. c \<noteq> CHR '':'') host) M"

definition get_session :: "string \<Rightarrow> 'a session_manager \<Rightarrow> nat option" where
  "get_session sid M = map_of (sm_map M) sid"

definition del_session :: "string \<Rightarrow> 'a session_manager \<Rightarrow> 'a session_manager" where
  "del_session sid M = M\<lparr>sm_map := AList.delete sid (sm_map M)\<rparr>"

fun drop_expired :: "int \<Rightarrow> int \<Rightarrow> 'a session list \<Rightarrow> (string \<times> nat) list \<Rightarrow> (string \<times> nat) list" where
  "drop_expired now interval st [] = []"
| "drop_expired now interval st (e # es) =
     (if interval \<le> now - session_time_stamp (st ! snd e) then drop_expired now interval st es else e # drop_expired now interval st es)"

definition check_expire :: "int \<Rightarrow> 'a session_manager \<Rightarrow> 'a session_manager" where
  "check_expire now M = (if sm_map M = [] then M else M\<lparr>sm_map := drop_expired now (sm_max_age M) (sm_store M) (sm_map M)\<rparr>)"

definition set_max_inactive_interval :: "int \<Rightarrow> 'a session_manager \<Rightarrow> 'a session_manager" where
  "set_max_inactive_interval seconds M = M\<lparr>sm_max_age := seconds\<rparr>"

definition get_session_size :: "'a session_manager \<Rightarrow> nat" where
  "get_session_size M = length (sm_map M)"

section \<open>Proofs\<close>

text \<open>The entries are distinct and point to objects that carry their identifier.\<close>

definition sessions_ok :: "'a session_manager \<Rightarrow> bool" where
  "sessions_ok M \<longleftrightarrow> distinct (map fst (sm_map M)) \<and> (\<forall>(k, a) \<in> set (sm_map M). a < length (sm_store M) \<and> session_id (sm_store M ! a) = k)"

lemma drop_expired_filter: "drop_expired now m st es = filter (\<lambda>e. now - session_time_stamp (st ! snd e) < m) es"
  by (induction es) auto

lemma create_ok: "sessions_ok M \<Longrightarrow> sessions_ok (fst (create_session nano now name expire pth dmn M))"
  by (auto simp: sessions_ok_def create_session_def session_new_def Let_def nth_append map_of_eq_None_iff image_iff split: if_splits)

lemma del_ok: "sessions_ok M \<Longrightarrow> sessions_ok (del_session sid M)"
  unfolding sessions_ok_def del_session_def by (auto simp: distinct_delete dest: in_set_takeD) (auto simp: AList.delete_eq)

lemma check_ok: "sessions_ok M \<Longrightarrow> sessions_ok (check_expire now M)"
  by (auto simp: sessions_ok_def check_expire_def drop_expired_filter distinct_map_filter)

text \<open>A session is found under its identifier until it is deleted or its time is over by more than the interval.\<close>

lemma created_found:
  "map_of (sm_map M) (dec_int nano @ dec_int (sm_counter M + 1)) = None \<Longrightarrow>
    get_session (dec_int nano @ dec_int (sm_counter M + 1)) (fst (create_session nano now name expire pth dmn M)) = Some (snd (create_session nano now name expire pth dmn M))"
  by (auto simp: get_session_def create_session_def Let_def map_add_def split: option.split)

lemma check_expire_found:
  assumes "sessions_ok M" "get_session sid M = Some a"
  shows "get_session sid (check_expire now M) = (if now - session_time_stamp (sm_store M ! a) < sm_max_age M then Some a else None)"
proof -
  have "map_of (filter (\<lambda>e. P (snd e)) es) sid = (if P a then Some a else None)" if "map_of es sid = Some a" "distinct (map fst es)" for P and es :: "(string \<times> nat) list"
    using that by (induction es) (auto split: if_splits simp: map_of_eq_None_iff image_iff dest: map_of_SomeD)
  from this [of "sm_map M" "\<lambda>a. now - session_time_stamp (sm_store M ! a) < sm_max_age M"]
  show ?thesis using assms by (auto simp: get_session_def check_expire_def drop_expired_filter sessions_ok_def)
qed

text \<open>A time and a counter are printed without a separator: session 11 of time 1 and session 1 of time 11 have one identifier, and the later one is not entered.\<close>

lemma session_id_collision: "dec_int 1 @ dec_int 11 = dec_int 11 @ dec_int 1"
  by code_simp

section \<open>Numbers\<close>

text \<open>\<^verbatim>\<open>UUID<int>::get\<close>: the counter is increased, and set to zero when it has reached the largest value.\<close>

definition UUID_get :: "32 word \<Rightarrow> 32 word \<times> 32 word" where
  "UUID_get n = (let m = n + 1 in (if m = 2147483647 then 0 else m, n))"

fun UUID_run :: "nat \<Rightarrow> 32 word \<Rightarrow> 32 word list" where
  "UUID_run 0 n = []"
| "UUID_run (Suc k) n = (case UUID_get n of (m, r) \<Rightarrow> r # UUID_run k m)"

lemma UUID_cycle: "unat n < 2147483647 \<Longrightarrow> map unat (UUID_run k n) = map (\<lambda>i. (unat n + i) mod 2147483647) [0 ..< k]"
proof (induction k arbitrary: n)
  case (Suc k)
  have u: "unat (n + 1) = unat n + 1" using Suc.prems unat_add_lem [of n 1] by simp
  obtain m where m: "UUID_get n = (m, n)" by (simp add: UUID_get_def Let_def)
  then have "unat m = (unat n + 1) mod 2147483647" using u Suc.prems by (auto simp: UUID_get_def Let_def word_unat_eq_iff split: if_splits)
  moreover have "map unat (UUID_run (Suc k) n) = unat n # map unat (UUID_run k m)" by (simp add: m)
  ultimately show ?case using Suc.IH [of m] Suc.prems by (simp add: upt_conv_Cons map_Suc_upt [symmetric] mod_add_left_eq comp_def del: upt_Suc)
qed simp

end
