(* ===== verification/Thread_Pool.thy ===== *)
theory Thread_Pool
  imports Netcore_Prelude
begin

text \<open>
  The thread pools: \<^verbatim>\<open>lib/threadpool.hpp\<close> and \<^verbatim>\<open>core/threadpool.h\<close>. A worker is where its loop stands; each labelled action is what one thread does
  under the lock of the queue. A waiting thread may look at its condition at any time, so wake-ups are not lost in the model.
\<close>

section \<open>The contract\<close>

text \<open>The tasks of a pool start in the order in which they were given to it, each once: an action starts tasks from the front and adds tasks behind.\<close>

locale pool_order =
  fixes step :: "'l \<Rightarrow> 'p \<Rightarrow> 'p option" and queued :: "'p \<Rightarrow> 't list" and adds :: "'l \<Rightarrow> 't list" and starts :: "'l \<Rightarrow> 'p \<Rightarrow> 't list"
  assumes step_order: "step l p = Some p' \<Longrightarrow> queued p @ adds l = starts l p @ queued p'"
begin

fun run_acts :: "'l list \<Rightarrow> 'p \<Rightarrow> ('t list \<times> 'p) option" where
  "run_acts [] p = Some ([], p)"
| "run_acts (l # ls) p = (case step l p of None \<Rightarrow> None | Some p' \<Rightarrow> map_option (\<lambda>(ts, q). (starts l p @ ts, q)) (run_acts ls p'))"

lemma run_acts_order: "run_acts ls p = Some (ts, q) \<Longrightarrow> queued p @ concat (map adds ls) = ts @ queued q"
proof (induction ls arbitrary: p ts)
  case (Cons l ls)
  then obtain p' us where p': "step l p = Some p'" "run_acts ls p' = Some (us, q)" "ts = starts l p @ us"
    by (auto split: option.splits)
  have "queued p @ concat (map adds (l # ls)) = (queued p @ adds l) @ concat (map adds ls)" by simp
  also have "\<dots> = starts l p @ queued p' @ concat (map adds ls)" using step_order [OF p'(1)] by simp
  also have "\<dots> = ts @ queued q" using Cons.IH [OF p'(2)] p'(3) by simp
  finally show ?case .
qed simp

end

section \<open>The pool of lib/threadpool.hpp\<close>

datatype 't worker = Loop_test | Waits | Executes 't | Ended

record 't threadpool =
  pool_workers :: "'t worker list"
  pool_tasks :: "'t list"
  pool_run :: bool
  idlThrNum :: int

definition THREADPOOL_MAX_NUM :: nat where
  "THREADPOOL_MAX_NUM = 16"

fun addThread :: "nat \<Rightarrow> 't threadpool \<Rightarrow> 't threadpool" where
  "addThread 0 p = p"
| "addThread (Suc n) p =
     (if length (pool_workers p) < THREADPOOL_MAX_NUM
      then addThread n (p\<lparr>pool_workers := pool_workers p @ [Loop_test], idlThrNum := idlThrNum p + 1\<rparr>) else p)"

definition threadpool_new :: "nat \<Rightarrow> 't threadpool" where
  "threadpool_new n = addThread n \<lparr>pool_workers = [], pool_tasks = [], pool_run = True, idlThrNum = 0\<rparr>"

text \<open>\<^verbatim>\<open>commit\<close>; \<open>None\<close> is the exception of a stopped pool.\<close>

definition commit :: "'t \<Rightarrow> 't threadpool \<Rightarrow> 't threadpool option" where
  "commit t p = (if \<not> pool_run p then None else Some (p\<lparr>pool_tasks := pool_tasks p @ [t]\<rparr>))"

definition pool_stop :: "'t threadpool \<Rightarrow> 't threadpool" where
  "pool_stop p = p\<lparr>pool_run := False\<rparr>"

definition idlCount :: "'t threadpool \<Rightarrow> int" where
  "idlCount p = idlThrNum p"

definition thrCount :: "'t threadpool \<Rightarrow> nat" where
  "thrCount p = length (pool_workers p)"

text \<open>The loop of a thread: the test of \<open>while\<close>, the wait that ends with a task or with the thread, and the return from the task.\<close>

definition worker_test :: "nat \<Rightarrow> 't threadpool \<Rightarrow> 't threadpool option" where
  "worker_test w p =
     (if w < length (pool_workers p) \<and> (case pool_workers p ! w of Loop_test \<Rightarrow> True | _ \<Rightarrow> False)
      then Some (p\<lparr>pool_workers := (pool_workers p)[w := if pool_run p then Waits else Ended]\<rparr>) else None)"

definition worker_wake :: "nat \<Rightarrow> 't threadpool \<Rightarrow> 't threadpool option" where
  "worker_wake w p =
     (if w < length (pool_workers p) \<and> (case pool_workers p ! w of Waits \<Rightarrow> True | _ \<Rightarrow> False)
      then case pool_tasks p of
             [] \<Rightarrow> if pool_run p then None else Some (p\<lparr>pool_workers := (pool_workers p)[w := Ended]\<rparr>)
           | task # ts \<Rightarrow> Some (p\<lparr>pool_workers := (pool_workers p)[w := Executes task], pool_tasks := ts, idlThrNum := idlThrNum p - 1\<rparr>)
      else None)"

definition worker_done :: "nat \<Rightarrow> 't threadpool \<Rightarrow> 't threadpool option" where
  "worker_done w p =
     (if w < length (pool_workers p) \<and> (case pool_workers p ! w of Executes t \<Rightarrow> True | _ \<Rightarrow> False)
      then Some (p\<lparr>pool_workers := (pool_workers p)[w := Loop_test], idlThrNum := idlThrNum p + 1\<rparr>) else None)"

datatype 't pool_act = Commit 't | Test nat | Wake nat | Return nat | Stop

fun pool_step :: "'t pool_act \<Rightarrow> 't threadpool \<Rightarrow> 't threadpool option" where
  "pool_step (Commit t) p = commit t p"
| "pool_step (Test w) p = worker_test w p"
| "pool_step (Wake w) p = worker_wake w p"
| "pool_step (Return w) p = worker_done w p"
| "pool_step Stop p = Some (pool_stop p)"

fun pool_adds :: "'t pool_act \<Rightarrow> 't list" where
  "pool_adds (Commit t) = [t]"
| "pool_adds _ = []"

fun pool_starts :: "'t pool_act \<Rightarrow> 't threadpool \<Rightarrow> 't list" where
  "pool_starts (Wake w) p = take 1 (pool_tasks p)"
| "pool_starts _ p = []"

lemmas pool_step_defs = commit_def worker_test_def worker_wake_def worker_done_def pool_stop_def

interpretation lib_pool: pool_order pool_step pool_tasks pool_adds pool_starts
proof
  fix l and p p' :: "'a threadpool"
  assume "pool_step l p = Some p'"
  then show "pool_tasks p @ pool_adds l = pool_starts l p @ pool_tasks p'"
    by (cases l) (auto simp: pool_step_defs split: if_splits list.splits)
qed

section \<open>The pool of core/threadpool.h\<close>

record 't ThreadPool =
  tp_workers :: "'t worker list"
  tp_tasks :: "'t list"
  isClosed :: bool

definition ThreadPool_new :: "nat \<Rightarrow> 't ThreadPool option" where
  "ThreadPool_new threadCount =
     (if threadCount > 0 then Some \<lparr>tp_workers = replicate threadCount Loop_test, tp_tasks = [], isClosed = False\<rparr> else None)"

definition AddTask :: "'t \<Rightarrow> 't ThreadPool \<Rightarrow> 't ThreadPool" where
  "AddTask t p = p\<lparr>tp_tasks := tp_tasks p @ [t]\<rparr>"

definition ThreadPool_destroy :: "'t ThreadPool \<Rightarrow> 't ThreadPool" where
  "ThreadPool_destroy p = p\<lparr>isClosed := True\<rparr>"

text \<open>One turn of a thread of the pool that holds the lock: it takes a task, ends, or waits.\<close>

definition tp_turn :: "nat \<Rightarrow> 't ThreadPool \<Rightarrow> 't ThreadPool option" where
  "tp_turn w p =
     (if w < length (tp_workers p) \<and> (case tp_workers p ! w of Loop_test \<Rightarrow> True | Waits \<Rightarrow> True | _ \<Rightarrow> False)
      then Some (case tp_tasks p of
                   task # ts \<Rightarrow> p\<lparr>tp_workers := (tp_workers p)[w := Executes task], tp_tasks := ts\<rparr>
                 | [] \<Rightarrow> p\<lparr>tp_workers := (tp_workers p)[w := if isClosed p then Ended else Waits]\<rparr>)
      else None)"

definition tp_done :: "nat \<Rightarrow> 't ThreadPool \<Rightarrow> 't ThreadPool option" where
  "tp_done w p =
     (if w < length (tp_workers p) \<and> (case tp_workers p ! w of Executes t \<Rightarrow> True | _ \<Rightarrow> False)
      then Some (p\<lparr>tp_workers := (tp_workers p)[w := Loop_test]\<rparr>) else None)"

fun tp_step :: "'t pool_act \<Rightarrow> 't ThreadPool \<Rightarrow> 't ThreadPool option" where
  "tp_step (Commit t) p = Some (AddTask t p)"
| "tp_step (Test w) p = None"
| "tp_step (Wake w) p = tp_turn w p"
| "tp_step (Return w) p = tp_done w p"
| "tp_step Stop p = Some (ThreadPool_destroy p)"

fun tp_starts :: "'t pool_act \<Rightarrow> 't ThreadPool \<Rightarrow> 't list" where
  "tp_starts (Wake w) p = take 1 (tp_tasks p)"
| "tp_starts _ p = []"

interpretation core_pool: pool_order tp_step tp_tasks pool_adds tp_starts
proof
  fix l and p p' :: "'a ThreadPool"
  assume "tp_step l p = Some p'"
  then show "tp_tasks p @ pool_adds l = tp_starts l p @ tp_tasks p'"
    by (cases l) (auto simp: AddTask_def tp_turn_def tp_done_def ThreadPool_destroy_def split: if_splits list.splits)
qed

section \<open>Ending\<close>

text \<open>
  The threads of \<^verbatim>\<open>core/threadpool.h\<close> end only when the queue is empty. Those of \<^verbatim>\<open>lib/threadpool.hpp\<close> test \<open>_run\<close> before they look at the queue,
  so that tasks which were accepted before the pool is destroyed are dropped.
\<close>

lemma tp_end_drains: "tp_turn w p = Some p' \<Longrightarrow> tp_workers p' ! w = Ended \<Longrightarrow> tp_tasks p' = []"
  by (auto simp: tp_turn_def split: if_splits list.splits)

lemma pool_drops_tasks:
  "lib_pool.run_acts [Commit t, Commit u, Test 0, Wake 0, Stop, Return 0, Test 0] (threadpool_new 1) =
     Some ([t], \<lparr>pool_workers = [Ended], pool_tasks = [u], pool_run = False, idlThrNum = 1\<rparr>)"
  by (simp add: threadpool_new_def pool_step_defs THREADPOOL_MAX_NUM_def)

text \<open>The number of idle threads is the number of those that do not execute a task, ended ones included.\<close>

definition busy :: "'t worker \<Rightarrow> bool" where
  "busy w \<longleftrightarrow> (case w of Executes t \<Rightarrow> True | _ \<Rightarrow> False)"

definition idle_ok :: "'t threadpool \<Rightarrow> bool" where
  "idle_ok p \<longleftrightarrow> idlThrNum p = int (length (filter (\<lambda>w. \<not> busy w) (pool_workers p)))"

lemma count_update: "i < length xs \<Longrightarrow> int (length (filter P (xs[i := x]))) = int (length (filter P xs)) - (if P (xs ! i) then 1 else 0) + (if P x then 1 else 0)"
proof (induction xs arbitrary: i)
  case (Cons y ys)
  show ?case
  proof (cases i)
    case (Suc j)
    then show ?thesis using Cons.IH [of j] Cons.prems by (auto split: if_splits)
  qed simp
qed simp

lemma addThread_shape: "pool_run (addThread n p) = pool_run p \<and> pool_tasks (addThread n p) = pool_tasks p \<and> (idle_ok p \<longrightarrow> idle_ok (addThread n p)) \<and>
    length (pool_workers (addThread n p)) = length (pool_workers p) + min n (THREADPOOL_MAX_NUM - length (pool_workers p))"
  by (induction n p rule: addThread.induct) (auto simp: idle_ok_def busy_def THREADPOOL_MAX_NUM_def)

lemma pool_step_idle: "pool_step l p = Some p' \<Longrightarrow> idle_ok p \<Longrightarrow> idle_ok p'"
  by (cases l) (auto simp: pool_step_defs idle_ok_def count_update busy_def split: if_splits list.splits worker.splits)

end
