(* ===== verification/Ws_Manager.thy ===== *)
theory Ws_Manager
  imports Thread_Pool Key_Store Websocket "HOL-Library.Multiset"
begin

text \<open>
  \<^verbatim>\<open>include/netcore/websocket_manager.h\<close> (and its older copy \<^verbatim>\<open>core/websocket_manager.cpp\<close>): the registry of WebSocket connections, and the messages that other threads
  send on them through a thread pool. A descriptor is an integer; what was written on it, and whether it was shut down, is part of the state. The
  calls of \<^verbatim>\<open>send\<close> of one task may be interleaved with everything the other threads do.
\<close>

section \<open>State\<close>

record ws_task =
  send_msg :: "byte list"
  task_close :: bool
  task_fd :: int

text \<open>Where a thread stands in its task: before the lock, in the loop of \<^verbatim>\<open>Writen\<close> with \<open>nLeft\<close> and \<open>idx\<close>, or behind it.\<close>

datatype ws_phase = At_lock | In_send int nat | Behind_send

record WS_manager =
  thpool :: "ws_task threadpool"
  u_map :: "string \<Rightarrow> int option"
  fd_set :: "int set"
  fd_mutex :: "nat \<Rightarrow> nat option"
  task_phase :: "nat \<Rightarrow> ws_phase"
  fd_wire :: "int \<Rightarrow> byte list"
  fd_shut :: "int set"

definition ws_thpool_size :: nat where
  "ws_thpool_size = 4"

definition WS_manager_new :: WS_manager where
  "WS_manager_new = \<lparr>thpool = threadpool_new ws_thpool_size, u_map = Map.empty, fd_set = {}, fd_mutex = Map.empty, task_phase = (\<lambda>w. At_lock), fd_wire = (\<lambda>fd. []), fd_shut = {}\<rparr>"

section \<open>The registry\<close>

definition regist :: "string \<Rightarrow> int \<Rightarrow> WS_manager \<Rightarrow> WS_manager \<times> bool" where
  "regist wid fd m =
     (if u_map m wid \<noteq> None then (m, False)
      else if fd \<in> fd_set m then (m, False)
      else (m\<lparr>u_map := (u_map m)(wid \<mapsto> fd), fd_set := insert fd (fd_set m)\<rparr>, True))"

definition unregist :: "string \<Rightarrow> int \<Rightarrow> WS_manager \<Rightarrow> WS_manager" where
  "unregist wid fd m = m\<lparr>u_map := (u_map m)(wid := None), fd_set := fd_set m - {fd}\<rparr>"

definition get_fd :: "string \<Rightarrow> WS_manager \<Rightarrow> int" where
  "get_fd key m = (case u_map m key of None \<Rightarrow> - 1 | Some fd \<Rightarrow> fd)"

section \<open>Sending\<close>

text \<open>\<^verbatim>\<open>shutdown\<close> of both directions.\<close>

definition ws_Close :: "int \<Rightarrow> WS_manager \<Rightarrow> WS_manager" where
  "ws_Close fd m = m\<lparr>fd_shut := insert fd (fd_shut m)\<rparr>"

definition close_by_key :: "string \<Rightarrow> WS_manager \<Rightarrow> WS_manager" where
  "close_by_key key m = (let fd = get_fd key m in if fd \<noteq> - 1 then ws_Close fd m else m)"

definition send_ws_msg :: "int \<Rightarrow> byte list \<Rightarrow> opcode \<Rightarrow> bool \<Rightarrow> WS_manager \<Rightarrow> WS_manager option" where
  "send_ws_msg fd msg op close m =
     (let header = format_header (of_nat (length msg)) op in
      map_option (\<lambda>p. m\<lparr>thpool := p\<rparr>) (commit \<lparr>send_msg = header @ msg, task_close = close, task_fd = fd\<rparr> (thpool m)))"

definition send_ws_string :: "int \<Rightarrow> byte list \<Rightarrow> bool \<Rightarrow> WS_manager \<Rightarrow> WS_manager option" where
  "send_ws_string fd msg close m = send_ws_msg fd msg text_op close m"

definition send_msg_by_id :: "string \<Rightarrow> byte list \<Rightarrow> bool \<Rightarrow> WS_manager \<Rightarrow> WS_manager option" where
  "send_msg_by_id wid msg close m =
     (let fd = get_fd wid m in if fd \<noteq> - 1 then send_ws_string fd msg close m else Some m)"

text \<open>The task of a worker: the lock (\<open>fd % 4\<close> of a negative descriptor is no index), one turn of the loop of \<^verbatim>\<open>Writen\<close> with the answer of \<^verbatim>\<open>send\<close>, and the end.\<close>

definition task_of :: "nat \<Rightarrow> WS_manager \<Rightarrow> ws_task option" where
  "task_of w m = (if w < length (pool_workers (thpool m)) then case pool_workers (thpool m) ! w of Executes t \<Rightarrow> Some t | _ \<Rightarrow> None else None)"

definition mutex_of :: "int \<Rightarrow> nat" where
  "mutex_of fd = nat (fd mod 4)"

definition as_int :: "nat \<Rightarrow> int" where
  "as_int n = sint (of_nat n :: 32 word)"

definition task_lock :: "nat \<Rightarrow> WS_manager \<Rightarrow> WS_manager option" where
  "task_lock w m =
     (case (task_of w m, task_phase m w) of
        (Some t, At_lock) \<Rightarrow>
          if task_fd t < 0 \<or> fd_mutex m (mutex_of (task_fd t)) \<noteq> None then None
          else Some (m\<lparr>fd_mutex := (fd_mutex m)(mutex_of (task_fd t) \<mapsto> w), task_phase := (task_phase m)(w := In_send (as_int (length (send_msg t))) 0)\<rparr>)
      | _ \<Rightarrow> None)"

definition task_send :: "nat \<Rightarrow> int \<Rightarrow> WS_manager \<Rightarrow> WS_manager option" where
  "task_send w nwritten m =
     (case (task_of w m, task_phase m w) of
        (Some t, In_send nLeft idx) \<Rightarrow>
          if nLeft > 0 then
            (if nwritten \<le> 0 then Some (m\<lparr>task_phase := (task_phase m)(w := Behind_send)\<rparr>)
             else if nwritten \<le> nLeft \<and> task_fd t \<notin> fd_shut m
             then Some (m\<lparr>fd_wire := (fd_wire m)(task_fd t := fd_wire m (task_fd t) @ take (nat nwritten) (drop idx (send_msg t))),
                          task_phase := (task_phase m)(w := In_send (nLeft - nwritten) (idx + nat nwritten))\<rparr>)
             else None)
          else Some (m\<lparr>task_phase := (task_phase m)(w := Behind_send)\<rparr>)
      | _ \<Rightarrow> None)"

definition task_end :: "nat \<Rightarrow> WS_manager \<Rightarrow> WS_manager option" where
  "task_end w m =
     (case (task_of w m, task_phase m w) of
        (Some t, Behind_send) \<Rightarrow>
          (let m = (if task_close t then ws_Close (task_fd t) m else m);
               m = m\<lparr>fd_mutex := (fd_mutex m)(mutex_of (task_fd t) := None), task_phase := (task_phase m)(w := At_lock)\<rparr> in
           map_option (\<lambda>p. m\<lparr>thpool := p\<rparr>) (worker_done w (thpool m)))
      | _ \<Rightarrow> None)"

text \<open>
  What all threads do: callers register, remove, send and close; a worker looks at the queue and executes its task. \<^verbatim>\<open>send_msg_by_id\<close> and \<^verbatim>\<open>close_by_key\<close> look the
  descriptor up under one lock and use it later: besides their uninterrupted runs, a caller may at any time go on with a descriptor that was looked up before, whatever
  happened to the registry in between (\<open>Send_fd\<close>, \<open>Close_fd\<close>; the former is also a call of the public \<^verbatim>\<open>send_ws_string\<close>).
\<close>

datatype ws_act = Regist string int | Unregist string int | Send string "byte list" bool | Send_fd int "byte list" bool | Close_key string | Close_fd int
  | Worker_test nat | Worker_wake nat | Task_lock nat | Task_send nat int | Task_end nat

fun ws_step :: "ws_act \<Rightarrow> WS_manager \<Rightarrow> WS_manager option" where
  "ws_step (Regist wid fd) m = Some (fst (regist wid fd m))"
| "ws_step (Unregist wid fd) m = Some (unregist wid fd m)"
| "ws_step (Send wid msg close) m = send_msg_by_id wid msg close m"
| "ws_step (Send_fd fd msg close) m = send_ws_string fd msg close m"
| "ws_step (Close_key wid) m = Some (close_by_key wid m)"
| "ws_step (Close_fd fd) m = Some (ws_Close fd m)"
| "ws_step (Worker_test w) m = map_option (\<lambda>p. m\<lparr>thpool := p\<rparr>) (worker_test w (thpool m))"
| "ws_step (Worker_wake w) m = map_option (\<lambda>p. m\<lparr>thpool := p\<rparr>) (worker_wake w (thpool m))"
| "ws_step (Task_lock w) m = task_lock w m"
| "ws_step (Task_send w k) m = task_send w k m"
| "ws_step (Task_end w) m = task_end w m"

fun ws_run :: "ws_act list \<Rightarrow> WS_manager \<Rightarrow> WS_manager option" where
  "ws_run [] m = Some m"
| "ws_run (a # as) m = (case ws_step a m of None \<Rightarrow> None | Some m' \<Rightarrow> ws_run as m')"

text \<open>The uninterrupted calls are the lookup and then the second action.\<close>

lemma send_two_steps: "ws_step (Send wid msg close) m = (if get_fd wid m \<noteq> - 1 then ws_step (Send_fd (get_fd wid m) msg close) m else Some m)"
  by (simp add: send_msg_by_id_def Let_def)

lemma close_two_steps: "ws_step (Close_key wid) m = (if get_fd wid m \<noteq> - 1 then ws_step (Close_fd (get_fd wid m)) m else Some m)"
  by (simp add: close_by_key_def Let_def)

section \<open>Registration\<close>

text \<open>Callers that remove an identifier together with the descriptor it was registered with keep the registry one to one.\<close>

definition registry_ok :: "WS_manager \<Rightarrow> bool" where
  "registry_ok m \<longleftrightarrow> (\<forall>i j fd. u_map m i = Some fd \<longrightarrow> u_map m j = Some fd \<longrightarrow> i = j) \<and> (\<forall>fd. fd \<in> fd_set m \<longleftrightarrow> (\<exists>i. u_map m i = Some fd))"

lemma regist_ok: "registry_ok m \<Longrightarrow> registry_ok (fst (regist wid fd m))"
  unfolding registry_ok_def regist_def by (auto split: if_splits) (metis option.distinct(1))

lemma unregist_ok: "registry_ok m \<Longrightarrow> u_map m wid = Some fd \<Longrightarrow> registry_ok (unregist wid fd m)"
  unfolding registry_ok_def unregist_def by (auto split: if_splits) (metis option.inject)

section \<open>Messages on one connection\<close>

text \<open>The messages for a descriptor that are not written completely: those in the queue, and those of workers that have not left \<^verbatim>\<open>Writen\<close>.\<close>

definition worker_pend :: "int \<Rightarrow> WS_manager \<Rightarrow> nat \<Rightarrow> byte list multiset" where
  "worker_pend fd m w = (case task_of w m of Some t \<Rightarrow> if task_fd t = fd \<and> task_phase m w \<noteq> Behind_send then {# send_msg t #} else {#} | None \<Rightarrow> {#})"

definition queue_pend :: "int \<Rightarrow> WS_manager \<Rightarrow> byte list multiset" where
  "queue_pend fd m = mset (map send_msg (filter (\<lambda>t. task_fd t = fd) (pool_tasks (thpool m))))"

definition pend :: "int \<Rightarrow> WS_manager \<Rightarrow> byte list multiset" where
  "pend fd m = queue_pend fd m + (\<Sum>w < length (pool_workers (thpool m)). worker_pend fd m w)"

text \<open>The part of a message that its worker has written, if the worker holds the lock of the descriptor.\<close>

definition part_of :: "int \<Rightarrow> WS_manager \<Rightarrow> byte list" where
  "part_of fd m =
     (case fd_mutex m (mutex_of fd) of
        None \<Rightarrow> []
      | Some w \<Rightarrow> (case (task_of w m, task_phase m w) of (Some t, In_send nLeft idx) \<Rightarrow> if task_fd t = fd then take idx (send_msg t) else [] | _ \<Rightarrow> []))"

definition lock_ok :: "WS_manager \<Rightarrow> nat \<Rightarrow> bool" where
  "lock_ok m w \<longleftrightarrow> (task_phase m w \<noteq> At_lock \<longrightarrow> (\<exists>t. task_of w m = Some t \<and> fd_mutex m (mutex_of (task_fd t)) = Some w)) \<and>
     (\<forall>nLeft idx t. task_phase m w = In_send nLeft idx \<longrightarrow> task_of w m = Some t \<longrightarrow> nLeft = int (length (send_msg t)) - int idx \<and> idx \<le> length (send_msg t)) \<and>
     (\<forall>t. task_of w m = Some t \<longrightarrow> length (send_msg t) < 2 ^ 31)"

definition ws_inv :: "WS_manager \<Rightarrow> bool" where
  "ws_inv m \<longleftrightarrow> (\<forall>w. lock_ok m w) \<and> (\<forall>k w. fd_mutex m k = Some w \<longrightarrow> task_phase m w \<noteq> At_lock \<and> (\<forall>t. task_of w m = Some t \<longrightarrow> mutex_of (task_fd t) = k)) \<and>
     (\<forall>t \<in> set (pool_tasks (thpool m)). length (send_msg t) < 2 ^ 31)"

text \<open>The account of a descriptor: what is on its wire is whole messages and the part of the one being written; the messages sent to it are those and the pending ones.\<close>

definition account :: "int \<Rightarrow> byte list list \<Rightarrow> WS_manager \<Rightarrow> bool" where
  "account fd sent m \<longleftrightarrow> (\<exists>ms. fd_wire m fd = concat ms @ part_of fd m \<and> mset sent = mset ms + pend fd m)"

lemma sum_change:
  fixes f g :: "nat \<Rightarrow> 'x multiset"
  assumes "w < n" "\<And>v. v \<noteq> w \<Longrightarrow> g v = f v"
  shows "sum g {..<n} + f w = sum f {..<n} + g w"
proof -
  have "sum g ({..<n} - {w}) = sum f ({..<n} - {w})" by (rule sum.cong) (use assms(2) in auto)
  then show ?thesis using assms(1) by (simp add: sum.remove [of "{..<n}" w])
qed

lemma task_of_update:
  "w < length (pool_workers (thpool m)) \<Longrightarrow> pool_workers p = (pool_workers (thpool m))[w := x] \<Longrightarrow>
    task_of v (m\<lparr>thpool := p\<rparr>) = (if v = w then (case x of Executes t \<Rightarrow> Some t | _ \<Rightarrow> None) else task_of v m)"
  by (simp add: task_of_def)

lemma task_of_worker: "task_of w m = Some t \<Longrightarrow> w < length (pool_workers (thpool m)) \<and> pool_workers (thpool m) ! w = Executes t"
  by (auto simp: task_of_def split: if_splits worker.splits)

lemma task_of_frame [simp]:
  "task_of w (u_map_update f m) = task_of w m" "task_of w (fd_set_update g m) = task_of w m" "task_of w (fd_mutex_update h m) = task_of w m"
  "task_of w (task_phase_update i m) = task_of w m" "task_of w (fd_wire_update j m) = task_of w m" "task_of w (fd_shut_update k m) = task_of w m"
  by (simp_all add: task_of_def)

lemma part_cong:
  assumes "fd_mutex m' (mutex_of fd) = fd_mutex m (mutex_of fd)" "\<And>w. fd_mutex m (mutex_of fd) = Some w \<Longrightarrow> task_of w m' = task_of w m \<and> task_phase m' w = task_phase m w"
  shows "part_of fd m' = part_of fd m"
  by (cases "fd_mutex m (mutex_of fd)") (simp_all add: part_of_def assms)

lemma pend_cong: "task_of w m' = task_of w m \<Longrightarrow> task_phase m' w = task_phase m w \<Longrightarrow> worker_pend fd m' w = worker_pend fd m w"
  by (simp add: worker_pend_def split: option.split)

text \<open>An action that keeps tasks, phases, locks and wires keeps the account.\<close>

lemma same_account:
  assumes "task_phase m' = task_phase m" "fd_mutex m' = fd_mutex m" "fd_wire m' = fd_wire m" "thpool m' = thpool m"
  shows "ws_inv m' = ws_inv m" "account fd sent m' = account fd sent m"
proof -
  have t: "task_of w m' = task_of w m" for w using assms(4) by (simp add: task_of_def)
  show "ws_inv m' = ws_inv m" using assms t by (simp add: ws_inv_def lock_ok_def)
  have "worker_pend fd m' = worker_pend fd m" using assms(1) t by (intro ext pend_cong) simp_all
  moreover have "part_of fd m' = part_of fd m" using assms t by (intro part_cong) simp_all
  ultimately show "account fd sent m' = account fd sent m" using assms by (simp add: account_def pend_def queue_pend_def)
qed

text \<open>A message that is given to the pool.\<close>

lemma frame_header_bound: "length (format_header n op) \<le> 10"
  by (simp add: format_header_def encode_header_def be16_def be64_def Let_def)

lemma send_account:
  assumes "send_ws_msg fd' msg op close m = Some m'" "ws_inv m" "account fd sent m" "length msg < 2 ^ 31 - 10"
  shows "ws_inv m'" "account fd (sent @ (if fd' = fd then [format_header (of_nat (length msg)) op @ msg] else [])) m'"
proof -
  define t where "t = \<lparr>send_msg = format_header (of_nat (length msg)) op @ msg, task_close = close, task_fd = fd'\<rparr>"
  have m': "m' = m\<lparr>thpool := (thpool m)\<lparr>pool_tasks := pool_tasks (thpool m) @ [t]\<rparr>\<rparr>"
    using assms(1) by (auto simp: send_ws_msg_def commit_def t_def Let_def split: if_splits)
  have k: "task_of w m' = task_of w m" for w by (simp add: m' task_of_def)
  have l: "length (send_msg t) < 2 ^ 31" using frame_header_bound [of "of_nat (length msg)" op] assms(4) by (simp add: t_def)
  show "ws_inv m'" using assms(2) k l by (simp add: ws_inv_def lock_ok_def m')
  have "worker_pend fd m' = worker_pend fd m" using k by (intro ext pend_cong) (simp_all add: m')
  moreover have "part_of fd m' = part_of fd m" by (intro part_cong) (simp_all add: k, simp_all add: m')
  ultimately show "account fd (sent @ (if fd' = fd then [format_header (of_nat (length msg)) op @ msg] else [])) m'"
    using assms(3) by (auto simp: account_def pend_def queue_pend_def m' t_def)
qed

text \<open>A worker that tests the flag, or starts a task.\<close>

lemma test_account:
  assumes "worker_test w (thpool m) = Some p" "ws_inv m" "account fd sent m"
  shows "ws_inv (m\<lparr>thpool := p\<rparr>)" "account fd sent (m\<lparr>thpool := p\<rparr>)"
proof -
  have w: "w < length (pool_workers (thpool m))" "pool_workers (thpool m) ! w = Loop_test"
    and p: "pool_workers p = (pool_workers (thpool m))[w := if pool_run (thpool m) then Waits else Ended]" "pool_tasks p = pool_tasks (thpool m)"
    using assms(1) by (auto simp: worker_test_def split: if_splits worker.splits)
  have k: "task_of v (m\<lparr>thpool := p\<rparr>) = task_of v m" for v
    using task_of_update [OF w(1) p(1), of v] w by (auto simp: task_of_def split: if_splits)
  show "ws_inv (m\<lparr>thpool := p\<rparr>)" using assms(2) k p(2) by (simp add: ws_inv_def lock_ok_def)
  have "worker_pend fd (m\<lparr>thpool := p\<rparr>) = worker_pend fd m" using k by (intro ext pend_cong) simp_all
  moreover have "part_of fd (m\<lparr>thpool := p\<rparr>) = part_of fd m" by (intro part_cong) (simp_all add: k)
  ultimately show "account fd sent (m\<lparr>thpool := p\<rparr>)" using assms(3) p by (simp add: account_def pend_def queue_pend_def)
qed

lemma idle_at_lock: "ws_inv m \<Longrightarrow> task_of w m = None \<Longrightarrow> task_phase m w = At_lock"
  by (auto simp: ws_inv_def lock_ok_def)

lemma inv_owner:
  assumes "ws_inv m" "task_of w m = Some t" "task_phase m w \<noteq> At_lock"
  shows "fd_mutex m (mutex_of (task_fd t)) = Some w"
proof -
  have "lock_ok m w" using assms(1) by (simp add: ws_inv_def)
  then show ?thesis using assms(2,3) by (simp add: lock_ok_def)
qed

lemma wake_account:
  assumes "worker_wake w (thpool m) = Some p" "ws_inv m" "account fd sent m"
  shows "ws_inv (m\<lparr>thpool := p\<rparr>)" "account fd sent (m\<lparr>thpool := p\<rparr>)"
proof -
  have w: "w < length (pool_workers (thpool m))" "pool_workers (thpool m) ! w = Waits"
    using assms(1) by (auto simp: worker_wake_def split: if_splits worker.splits)
  then have nt: "task_of w m = None" by (simp add: task_of_def)
  note al = idle_at_lock [OF assms(2) nt]
  have free: "fd_mutex m k \<noteq> Some w" for k using assms(2) al by (auto simp: ws_inv_def)
  consider (ended) "pool_workers p = (pool_workers (thpool m))[w := Ended]" "pool_tasks p = pool_tasks (thpool m)"
    | (task) t where "pool_workers p = (pool_workers (thpool m))[w := Executes t]" "pool_tasks (thpool m) = t # pool_tasks p"
    using assms(1) by (auto simp: worker_wake_def split: if_splits worker.splits list.splits)
  then have "ws_inv (m\<lparr>thpool := p\<rparr>) \<and> account fd sent (m\<lparr>thpool := p\<rparr>)"
  proof cases
    case ended
    have k: "task_of v (m\<lparr>thpool := p\<rparr>) = task_of v m" for v using task_of_update [OF w(1) ended(1), of v] nt by simp
    have "worker_pend fd (m\<lparr>thpool := p\<rparr>) = worker_pend fd m" using k by (intro ext pend_cong) simp_all
    moreover have "part_of fd (m\<lparr>thpool := p\<rparr>) = part_of fd m" by (intro part_cong) (simp_all add: k)
    ultimately show ?thesis using assms(2,3) k ended by (simp add: ws_inv_def lock_ok_def account_def pend_def queue_pend_def)
  next
    case (task t)
    have k: "task_of v (m\<lparr>thpool := p\<rparr>) = (if v = w then Some t else task_of v m)" for v using task_of_update [OF w(1) task(1), of v] by simp
    have "ws_inv (m\<lparr>thpool := p\<rparr>)" using assms(2) k task(2) free al by (auto simp: ws_inv_def lock_ok_def)
    moreover have "part_of fd (m\<lparr>thpool := p\<rparr>) = part_of fd m" using free by (intro part_cong) (auto simp: k)
    moreover have "(\<Sum>v < length (pool_workers (thpool m)). worker_pend fd (m\<lparr>thpool := p\<rparr>) v) =
        (\<Sum>v < length (pool_workers (thpool m)). worker_pend fd m v) + (if task_fd t = fd then {# send_msg t #} else {#})"
    proof -
      have "worker_pend fd m w = {#}" "worker_pend fd (m\<lparr>thpool := p\<rparr>) w = (if task_fd t = fd then {# send_msg t #} else {#})"
        using nt al k by (simp_all add: worker_pend_def)
      moreover have "worker_pend fd (m\<lparr>thpool := p\<rparr>) v = worker_pend fd m v" if "v \<noteq> w" for v using that k by (intro pend_cong) simp_all
      ultimately show ?thesis using sum_change [OF w(1), of "worker_pend fd (m\<lparr>thpool := p\<rparr>)" "worker_pend fd m"] by simp
    qed
    ultimately show ?thesis using assms(3) task by (cases "task_fd t = fd") (simp_all add: account_def pend_def queue_pend_def)
  qed
  then show "ws_inv (m\<lparr>thpool := p\<rparr>)" "account fd sent (m\<lparr>thpool := p\<rparr>)" by simp_all
qed

text \<open>A step of one worker keeps the invariant if what the others have stays.\<close>

lemma inv_step:
  assumes "ws_inv m" and others: "\<And>v. v \<noteq> w \<Longrightarrow> task_of v m' = task_of v m \<and> task_phase m' v = task_phase m v"
    and locks: "\<And>v k. v \<noteq> w \<Longrightarrow> fd_mutex m' k = Some v \<longleftrightarrow> fd_mutex m k = Some v"
    and mine: "lock_ok m' w" "\<And>k. fd_mutex m' k = Some w \<Longrightarrow> task_phase m' w \<noteq> At_lock \<and> (\<forall>t. task_of w m' = Some t \<longrightarrow> mutex_of (task_fd t) = k)"
    and tasks: "pool_tasks (thpool m') = pool_tasks (thpool m)"
  shows "ws_inv m'"
proof -
  have "lock_ok m' v" for v
  proof (cases "v = w")
    case True
    then show ?thesis using mine by simp
  next
    case False
    have "lock_ok m v" using assms(1) by (simp add: ws_inv_def)
    then show ?thesis unfolding lock_ok_def using others [OF False] locks [OF False] by simp
  qed
  moreover have "task_phase m' v \<noteq> At_lock \<and> (\<forall>t. task_of v m' = Some t \<longrightarrow> mutex_of (task_fd t) = k)" if "fd_mutex m' k = Some v" for k v
    using that mine(2) others [of v] locks [of v k] assms(1) by (cases "v = w") (simp_all add: ws_inv_def)
  ultimately show ?thesis using assms(1) tasks by (simp add: ws_inv_def)
qed

text \<open>The steps of a task. They change the phase of one worker, and keep what it is pending unless it leaves the loop.\<close>

lemma phase_pend:
  assumes "task_of w m = Some t" "thpool m' = thpool m" "task_phase m' = (task_phase m)(w := ph)"
  shows "pend fd m' + worker_pend fd m w = pend fd m + (if task_fd t = fd \<and> ph \<noteq> Behind_send then {# send_msg t #} else {#})"
proof -
  have k: "task_of v m' = task_of v m" for v using assms(2) by (simp add: task_of_def)
  have "worker_pend fd m' v = worker_pend fd m v" if "v \<noteq> w" for v using that k assms(3) by (intro pend_cong) simp_all
  moreover have "worker_pend fd m' w = (if task_fd t = fd \<and> ph \<noteq> Behind_send then {# send_msg t #} else {#})" using k assms by (simp add: worker_pend_def)
  ultimately show ?thesis
    using sum_change [of w "length (pool_workers (thpool m))" "worker_pend fd m'" "worker_pend fd m"] task_of_worker [OF assms(1)] assms(2)
    by (simp add: pend_def queue_pend_def ac_simps)
qed

lemma lock_account:
  assumes "task_lock w m = Some m'" "ws_inv m" "account fd sent m"
  shows "ws_inv m'" "account fd sent m'"
proof -
  obtain t where t: "task_of w m = Some t" "task_phase m w = At_lock" "fd_mutex m (mutex_of (task_fd t)) = None"
    and m': "m' = m\<lparr>fd_mutex := (fd_mutex m)(mutex_of (task_fd t) \<mapsto> w), task_phase := (task_phase m)(w := In_send (as_int (length (send_msg t))) 0)\<rparr>"
    using assms(1) by (auto simp: task_lock_def split: option.splits ws_phase.splits if_splits)
  have l: "length (send_msg t) < 2 ^ 31" using assms(2) t(1) by (auto simp: ws_inv_def lock_ok_def)
  then have "as_int (length (send_msg t)) = int (length (send_msg t))" unfolding as_int_def by (simp add: signed_of_nat signed_take_bit_int_eq_self)
  moreover have "fd_mutex m k \<noteq> Some w" for k using assms(2) t(2) by (auto simp: ws_inv_def)
  ultimately show "ws_inv m'" by (intro inv_step [OF assms(2), of w]) (use t l in \<open>auto simp: m' lock_ok_def split: if_splits\<close>)
  have "part_of fd m' = part_of fd m"
  proof (cases "mutex_of fd = mutex_of (task_fd t)")
    case True
    then show ?thesis using t by (simp add: part_of_def m')
  next
    case False
    moreover have "v \<noteq> w" if "fd_mutex m k = Some v" for k v using assms(2) t(2) that by (auto simp: ws_inv_def)
    ultimately show ?thesis by (intro part_cong) (auto simp: m')
  qed
  moreover have "pend fd m' = pend fd m"
    using phase_pend [OF t(1), of m' "In_send (as_int (length (send_msg t))) 0" fd] t by (auto simp: m' worker_pend_def split: if_splits)
  ultimately show "account fd sent m'" using assms(3) by (simp add: account_def m')
qed

lemma wrote_account:
  assumes t: "task_of w m = Some t" "task_phase m w = In_send nLeft idx" and owner: "fd_mutex m (mutex_of (task_fd t)) = Some w" and acc: "account fd sent m"
    and m': "m' = m\<lparr>fd_wire := (fd_wire m)(task_fd t := fd_wire m (task_fd t) @ take k (drop idx (send_msg t))), task_phase := (task_phase m)(w := In_send n (idx + k))\<rparr>"
  shows "account fd sent m'"
proof -
  have p: "pend fd m' = pend fd m"
    using phase_pend [OF t(1), of m' "In_send n (idx + k)" fd] t by (auto simp: m' worker_pend_def split: if_splits)
  show ?thesis
  proof (cases "task_fd t = fd")
    case True
    then have "part_of fd m' = part_of fd m @ take k (drop idx (send_msg t))" using owner t by (simp add: part_of_def m' take_add)
    then show ?thesis using acc p True by (auto simp: account_def m')
  next
    case False
    have "part_of fd m' = part_of fd m" using owner t False by (cases "fd_mutex m (mutex_of fd)") (auto simp: part_of_def m')
    then show ?thesis using acc p False by (auto simp: account_def m')
  qed
qed

lemma written_account:
  assumes t: "task_of w m = Some t" "task_phase m w = In_send nLeft (length (send_msg t))" and owner: "fd_mutex m (mutex_of (task_fd t)) = Some w" and acc: "account fd sent m"
    and m': "m' = m\<lparr>task_phase := (task_phase m)(w := Behind_send)\<rparr>"
  shows "account fd sent m'"
proof -
  note p = phase_pend [OF t(1), of m' Behind_send fd]
  show ?thesis
  proof (cases "task_fd t = fd")
    case True
    then have "part_of fd m = send_msg t" "part_of fd m' = []" using owner t by (simp_all add: part_of_def m')
    moreover obtain ms where "fd_wire m fd = concat ms @ part_of fd m" "mset sent = mset ms + pend fd m" using acc by (auto simp: account_def)
    moreover have "pend fd m = add_mset (send_msg t) (pend fd m')" using p True t by (simp add: m' worker_pend_def)
    ultimately show ?thesis unfolding account_def by (intro exI [of _ "ms @ [send_msg t]"]) (simp add: m')
  next
    case False
    have "part_of fd m' = part_of fd m" using owner t False by (cases "fd_mutex m (mutex_of fd)") (auto simp: part_of_def m')
    moreover have "pend fd m' = pend fd m" using p False t by (simp add: m' worker_pend_def)
    ultimately show ?thesis using acc by (auto simp: account_def m')
  qed
qed

lemma send_step_account:
  assumes "task_send w k m = Some m'" "0 < k" "ws_inv m" "account fd sent m"
  shows "ws_inv m'" "account fd sent m'"
proof -
  obtain t nLeft idx where t: "task_of w m = Some t" "task_phase m w = In_send nLeft idx"
    using assms(1) by (auto simp: task_send_def split: option.splits ws_phase.splits)
  have owner: "fd_mutex m (mutex_of (task_fd t)) = Some w" using inv_owner [OF assms(3) t(1)] t(2) by simp
  have left: "nLeft = int (length (send_msg t)) - int idx" "idx \<le> length (send_msg t)" using assms(3) t by (auto simp: ws_inv_def lock_ok_def)
  have l: "length (send_msg t) < 2 ^ 31" using assms(3) t(1) by (auto simp: ws_inv_def lock_ok_def)
  have unique: "k = mutex_of (task_fd t)" if "fd_mutex m k = Some w" for k using assms(3) t(1) that by (auto simp: ws_inv_def)
  show "ws_inv m'"
  proof (rule inv_step [OF assms(3), of w])
    show "lock_ok m' w" using assms(1,2) t owner left l by (auto simp: task_send_def lock_ok_def split: if_splits)
    show "pool_tasks (thpool m') = pool_tasks (thpool m)" using assms(1) t by (auto simp: task_send_def split: if_splits)
    show "task_of v m' = task_of v m \<and> task_phase m' v = task_phase m v" if "v \<noteq> w" for v
      using assms(1) t that by (auto simp: task_send_def split: if_splits)
    show "fd_mutex m' k = Some v \<longleftrightarrow> fd_mutex m k = Some v" for v k using assms(1) t by (auto simp: task_send_def split: if_splits)
    show "task_phase m' w \<noteq> At_lock \<and> (\<forall>t. task_of w m' = Some t \<longrightarrow> mutex_of (task_fd t) = k)" if "fd_mutex m' k = Some w" for k
      using assms(1) t that unique by (auto simp: task_send_def split: if_splits)
  qed
  show "account fd sent m'"
  proof (cases "0 < nLeft")
    case True
    then show ?thesis using assms(1,2) t by (intro wrote_account [OF t owner assms(4)]) (auto simp: task_send_def split: if_splits)
  next
    case False
    then have "idx = length (send_msg t)" using left by simp
    then show ?thesis using assms(1,2) t False by (intro written_account [OF t(1) _ owner assms(4)]) (auto simp: task_send_def)
  qed
qed

lemma end_account:
  assumes "task_end w m = Some m'" "ws_inv m" "account fd sent m"
  shows "ws_inv m'" "account fd sent m'"
proof -
  obtain t where t: "task_of w m = Some t" "task_phase m w = Behind_send"
    using assms(1) by (auto simp: task_end_def split: option.splits ws_phase.splits)
  note w = task_of_worker [OF t(1)]
  have owner: "fd_mutex m (mutex_of (task_fd t)) = Some w" using inv_owner [OF assms(2) t(1)] t(2) by simp
  have unique: "k = mutex_of (task_fd t)" if "fd_mutex m k = Some w" for k using assms(2) t(1) that by (auto simp: ws_inv_def)
  have f: "fd_mutex m' = (fd_mutex m)(mutex_of (task_fd t) := None)" "task_phase m' = (task_phase m)(w := At_lock)" "fd_wire m' = fd_wire m"
    "pool_tasks (thpool m') = pool_tasks (thpool m)" "pool_workers (thpool m') = (pool_workers (thpool m))[w := Loop_test]"
    using assms(1) t w by (auto simp: task_end_def worker_done_def ws_Close_def Let_def split: if_splits)
  have k: "task_of v m' = (if v = w then None else task_of v m)" for v using w by (simp add: task_of_def f)
  have "fd_mutex m' j \<noteq> Some w" for j using unique by (auto simp: f)
  then show "ws_inv m'" by (intro inv_step [OF assms(2), of w]) (use owner in \<open>auto simp: f k lock_ok_def\<close>)
  have "worker_pend fd m' v = worker_pend fd m v" for v
    using t by (cases "v = w") (simp_all add: worker_pend_def f k split: option.split)
  then have "pend fd m' = pend fd m" by (simp add: pend_def queue_pend_def f)
  moreover have "part_of fd m' = part_of fd m"
  proof (cases "mutex_of fd = mutex_of (task_fd t)")
    case True
    then show ?thesis using owner t by (simp add: part_of_def f)
  next
    case False
    then show ?thesis using unique by (intro part_cong) (auto simp: f k)
  qed
  ultimately show "account fd sent m'" using assms(3) by (simp add: account_def f)
qed

section \<open>All threads\<close>

definition frame_of :: "byte list \<Rightarrow> byte list" where
  "frame_of msg = format_header (of_nat (length msg)) text_op @ msg"

text \<open>The frames that a run sends to a descriptor, and the actions of runs in which no \<^verbatim>\<open>send\<close> fails and the frames fit an \<^verbatim>\<open>int\<close>.\<close>

fun ws_sends :: "ws_act \<Rightarrow> WS_manager \<Rightarrow> int \<Rightarrow> byte list list" where
  "ws_sends (Send wid msg close) m fd = (if get_fd wid m = fd \<and> fd \<noteq> - 1 then [frame_of msg] else [])"
| "ws_sends (Send_fd fd' msg close) m fd = (if fd' = fd then [frame_of msg] else [])"
| "ws_sends _ m fd = []"

fun ws_sent :: "ws_act list \<Rightarrow> WS_manager \<Rightarrow> int \<Rightarrow> byte list list" where
  "ws_sent [] m fd = []"
| "ws_sent (a # as) m fd = ws_sends a m fd @ (case ws_step a m of None \<Rightarrow> [] | Some m' \<Rightarrow> ws_sent as m' fd)"

fun good_act :: "ws_act \<Rightarrow> bool" where
  "good_act (Task_send w k) \<longleftrightarrow> 0 < k"
| "good_act (Send wid msg close) \<longleftrightarrow> length msg < 2 ^ 31 - 10"
| "good_act (Send_fd fd msg close) \<longleftrightarrow> length msg < 2 ^ 31 - 10"
| "good_act _ \<longleftrightarrow> True"

lemma ws_step_account:
  assumes "ws_step a m = Some m'" "good_act a" "ws_inv m" "account fd sent m"
  shows "ws_inv m' \<and> account fd (sent @ ws_sends a m fd) m'"
proof (cases a)
  case (Regist wid fd')
  have "ws_inv (fst (regist wid fd' m)) = ws_inv m" "account fd sent (fst (regist wid fd' m)) = account fd sent m"
    by (rule same_account; simp add: regist_def)+
  then show ?thesis using assms Regist by simp
next
  case (Unregist wid fd')
  have "ws_inv (unregist wid fd' m) = ws_inv m" "account fd sent (unregist wid fd' m) = account fd sent m"
    by (rule same_account; simp add: unregist_def)+
  then show ?thesis using assms Unregist by simp
next
  case (Close_key wid)
  have "ws_inv (close_by_key wid m) = ws_inv m" "account fd sent (close_by_key wid m) = account fd sent m"
    by (rule same_account; simp add: close_by_key_def ws_Close_def Let_def)+
  then show ?thesis using assms Close_key by simp
next
  case (Close_fd fd')
  have "ws_inv (ws_Close fd' m) = ws_inv m" "account fd sent (ws_Close fd' m) = account fd sent m"
    by (rule same_account; simp add: ws_Close_def)+
  then show ?thesis using assms Close_fd by simp
next
  case (Send_fd fd' msg close)
  then have "send_ws_msg fd' msg text_op close m = Some m'" using assms(1) by (simp add: send_ws_string_def)
  from send_account [OF this assms(3,4)] show ?thesis using assms(2) Send_fd by (auto simp: frame_of_def)
next
  case (Send wid msg close)
  show ?thesis
  proof (cases "get_fd wid m = - 1")
    case True
    then show ?thesis using assms Send by (auto simp: send_msg_by_id_def)
  next
    case False
    then have "send_ws_msg (get_fd wid m) msg text_op close m = Some m'" using assms(1) Send by (simp add: send_msg_by_id_def send_ws_string_def Let_def)
    from send_account [OF this assms(3,4)] show ?thesis using assms(2) Send False by (auto simp: frame_of_def)
  qed
next
  case (Worker_test w)
  then show ?thesis using assms test_account [OF _ assms(3,4)] by auto
next
  case (Worker_wake w)
  then show ?thesis using assms wake_account [OF _ assms(3,4)] by auto
next
  case (Task_lock w)
  then show ?thesis using assms lock_account [OF _ assms(3,4)] by simp
next
  case (Task_send w k)
  then show ?thesis using assms send_step_account [OF _ _ assms(3,4)] by simp
next
  case (Task_end w)
  then show ?thesis using assms end_account [OF _ assms(3,4)] by simp
qed

lemma ws_run_account:
  "ws_run acts m = Some m' \<Longrightarrow> list_all good_act acts \<Longrightarrow> ws_inv m \<Longrightarrow> account fd sent m \<Longrightarrow> ws_inv m' \<and> account fd (sent @ ws_sent acts m fd) m'"
proof (induction acts arbitrary: m sent)
  case (Cons a as)
  then obtain m1 where m1: "ws_step a m = Some m1" by (cases "ws_step a m") auto
  then show ?case using Cons.IH [of m1 "sent @ ws_sends a m fd"] Cons.prems ws_step_account [OF m1 _ Cons.prems(3,4)] by simp
qed simp

lemma new_pool: "pool_workers (threadpool_new ws_thpool_size) = replicate 4 Loop_test \<and> pool_tasks (threadpool_new ws_thpool_size) = [] \<and> pool_run (threadpool_new ws_thpool_size)"
  by (simp add: threadpool_new_def ws_thpool_size_def THREADPOOL_MAX_NUM_def numeral_eq_Suc)

lemma task_of_new [simp]: "task_of w WS_manager_new = None"
  by (simp add: task_of_def WS_manager_new_def new_pool)

lemma ws_new: "ws_inv WS_manager_new" "account fd [] WS_manager_new"
proof -
  have p: "worker_pend fd WS_manager_new v = {#}" for v by (simp add: worker_pend_def)
  show "ws_inv WS_manager_new" unfolding ws_inv_def lock_ok_def task_of_new by (simp add: WS_manager_new_def new_pool)
  show "account fd [] WS_manager_new" unfolding account_def pend_def p queue_pend_def by (simp add: WS_manager_new_def new_pool part_of_def)
qed

definition ws_quiet :: "WS_manager \<Rightarrow> bool" where
  "ws_quiet m \<longleftrightarrow> pool_tasks (thpool m) = [] \<and> list_all (\<lambda>w. \<not> busy w) (pool_workers (thpool m))"

lemma quiet_task: "ws_quiet m \<Longrightarrow> task_of w m = None"
  by (auto simp: ws_quiet_def busy_def task_of_def list_all_length split: worker.splits)

lemma quiet_empty: "ws_quiet m \<Longrightarrow> pend fd m = {#} \<and> part_of fd m = []"
  using quiet_task [of m] by (simp add: pend_def queue_pend_def worker_pend_def part_of_def ws_quiet_def split: option.split)

text \<open>
  (C7) Messages are not mixed. Whatever the threads do, in any interleaving down to the single calls of \<^verbatim>\<open>send\<close>, as long as these succeed, the bytes on a
  connection are whole frames followed by the written part of the frame whose worker holds the lock; these frames and the pending ones are those that were
  sent to the connection, each once. When the pool is at rest nothing is pending: every frame has been written exactly once, and no frame is cut.
\<close>

theorem ws_messages_whole:
  assumes "ws_run acts WS_manager_new = Some m" "list_all good_act acts"
  shows "(\<exists>ms. fd_wire m fd = concat ms @ part_of fd m \<and> mset (ws_sent acts WS_manager_new fd) = mset ms + pend fd m) \<and>
    (ws_quiet m \<longrightarrow> (\<exists>ms. fd_wire m fd = concat ms \<and> mset ms = mset (ws_sent acts WS_manager_new fd)))"
proof -
  have "account fd (ws_sent acts WS_manager_new fd) m" using ws_run_account [OF assms ws_new, of fd] by simp
  then show ?thesis using quiet_empty [of m fd] by (auto simp: account_def)
qed

definition two_senders :: "ws_act list" where
  "two_senders = [Regist ''a'' 7, Send ''a'' [1] False, Send ''a'' [2, 3] False, Worker_test 0, Worker_test 1, Worker_wake 0, Worker_wake 1,
     Task_lock 1, Task_send 1 3, Task_send 1 1, Task_send 1 1, Task_end 1, Task_lock 0, Task_send 0 3, Task_send 0 1, Task_end 0]"

theorem ws_messages_whole_witness:
  "\<exists>ms. fd_wire (the (ws_run two_senders WS_manager_new)) 7 = concat ms \<and> mset ms = mset [frame_of [1], frame_of [2, 3]]"
proof -
  have "\<not> Option.is_none (ws_run two_senders WS_manager_new)" by code_simp
  then have r: "ws_run two_senders WS_manager_new = Some (the (ws_run two_senders WS_manager_new))" by (simp add: Option.is_none_def)
  have g: "list_all good_act two_senders" by (simp add: two_senders_def)
  have q: "ws_quiet (the (ws_run two_senders WS_manager_new))" by code_simp
  have "ws_sent two_senders WS_manager_new 7 = [frame_of [1], frame_of [2, 3]]" by code_simp
  then show ?thesis using ws_messages_whole [OF r g, of 7] q by simp
qed

text \<open>
  The order of two messages is not kept, since two workers may take them; a failed \<^verbatim>\<open>send\<close> is ignored, so that the next frame follows a part of the
  one before; and a removal with a descriptor of another identifier lets two identifiers share a connection.
\<close>

lemma ws_messages_reordered: "map_option (\<lambda>m. fd_wire m 7) (ws_run two_senders WS_manager_new) = Some (frame_of [2, 3] @ frame_of [1])"
  by code_simp

lemma ws_frame_cut:
  "map_option (\<lambda>m. fd_wire m 7) (ws_run [Regist ''a'' 7, Send ''a'' [1] False, Send ''a'' [2] False, Worker_test 0, Worker_wake 0, Task_lock 0, Task_send 0 1, Task_send 0 (- 1), Task_end 0,
     Worker_test 0, Worker_wake 0, Task_lock 0, Task_send 0 3, Task_send 0 1, Task_end 0] WS_manager_new) = Some (take 1 (frame_of [1]) @ frame_of [2])"
  by code_simp

text \<open>A message can go to a descriptor that was given up, and taken by another identifier, between the lookup and the commit.\<close>

lemma stale_descriptor:
  "get_fd ''a'' (fst (regist ''a'' 7 WS_manager_new)) = 7 \<and>
   map_option (\<lambda>m. (get_fd ''b'' m, map task_fd (pool_tasks (thpool m)))) (ws_run [Regist ''a'' 7, Unregist ''a'' 7, Regist ''b'' 7, Send_fd 7 [1] False] WS_manager_new) = Some (7, [7])"
  by code_simp

lemma unregist_mismatch:
  "map_option (\<lambda>m. (get_fd ''a'' m, get_fd ''b'' m)) (ws_run [Regist ''a'' 7, Unregist ''c'' 7, Regist ''b'' 7] WS_manager_new) = Some (7, 7)"
  by code_simp

section \<open>The registry as a table\<close>

text \<open>An action that is not possible changes nothing.\<close>

definition ws_try :: "ws_act \<Rightarrow> WS_manager \<Rightarrow> WS_manager" where
  "ws_try a m = (case ws_step a m of None \<Rightarrow> m | Some m' \<Rightarrow> m')"

fun ws_about :: "ws_act \<Rightarrow> string \<Rightarrow> bool" where
  "ws_about (Regist wid fd) k \<longleftrightarrow> wid = k"
| "ws_about (Unregist wid fd) k \<longleftrightarrow> wid = k"
| "ws_about _ k \<longleftrightarrow> False"

definition pool_ok :: "WS_manager \<Rightarrow> bool" where
  "pool_ok m \<longleftrightarrow> pool_run (thpool m) \<and> length (pool_workers (thpool m)) = ws_thpool_size"

lemmas ws_step_defs = regist_def unregist_def send_msg_by_id_def send_ws_string_def send_ws_msg_def close_by_key_def ws_Close_def task_lock_def task_send_def task_end_def

interpretation ws_store: key_store pool_ok u_map ws_try ws_about
proof
  fix a m and k :: string
  show "pool_ok (ws_try a m)" if "pool_ok m"
    using that by (cases a) (auto simp: ws_try_def pool_ok_def ws_step_defs pool_step_defs Let_def split: option.splits if_splits ws_phase.splits list.splits)
  show "u_map (ws_try a m) k = u_map m k" if "pool_ok m" "\<not> ws_about a k"
    using that by (cases a) (auto simp: ws_try_def ws_step_defs Let_def split: option.splits if_splits ws_phase.splits)
qed

text \<open>
  A message for a registered identifier reaches its connection: whatever happens between, short of a removal of the identifier (or another registration), the frame is
  put into the queue of the pool for the registered descriptor.
\<close>

lemma registered_message:
  assumes "pool_ok m" "snd (regist wid fd m)" "fd \<noteq> - 1" "\<forall>a \<in> set acts. \<not> ws_about a wid"
  shows "\<exists>m'. send_msg_by_id wid msg close (fold ws_try acts (fst (regist wid fd m))) = Some m' \<and>
    pool_tasks (thpool m') = pool_tasks (thpool (fold ws_try acts (fst (regist wid fd m)))) @ [\<lparr>send_msg = frame_of msg, task_close = close, task_fd = fd\<rparr>]"
proof -
  have ok: "pool_ok (fst (regist wid fd m))" using assms(1) by (simp add: pool_ok_def regist_def)
  have "u_map (fst (regist wid fd m)) wid = Some fd" using assms(2) by (auto simp: regist_def split: if_splits)
  then have "u_map (fold ws_try acts (fst (regist wid fd m))) wid = Some fd" using ws_store.run_frame [OF ok assms(4)] by simp
  moreover have "pool_ok (fold ws_try acts (fst (regist wid fd m)))" by (rule ws_store.run_ok [OF ok])
  ultimately show ?thesis using assms(3) by (simp add: send_msg_by_id_def get_fd_def send_ws_string_def send_ws_msg_def commit_def pool_ok_def frame_of_def Let_def)
qed

end
