(* ===== verification/Connection_Send.thy ===== *)
theory Connection_Send
  imports Connection Ws_Manager
begin

text \<open>
  Messages that other threads send on a WebSocket connection: the functions of \<^verbatim>\<open>connection.hpp\<close> that hand them to the manager, the double buffer they replaced, and what
  the peer reads.
\<close>

section \<open>Sending through the manager\<close>

definition conn_send_msg :: "int \<Rightarrow> byte list \<Rightarrow> byte list \<Rightarrow> WS_manager \<Rightarrow> WS_manager option" where
  "conn_send_msg fd header data m = send_ws_string fd (header @ data) False m"

definition conn_send_ws_msg :: "int \<Rightarrow> byte list \<Rightarrow> opcode \<Rightarrow> WS_manager \<Rightarrow> WS_manager option" where
  "conn_send_ws_msg fd msg op m = (let header = format_header (of_nat (length msg)) op in conn_send_msg fd header msg m)"

definition conn_send_ws_string :: "int \<Rightarrow> byte list \<Rightarrow> WS_manager \<Rightarrow> WS_manager option" where
  "conn_send_ws_string fd msg m = conn_send_ws_msg fd msg text_op m"

definition conn_send_ws_binary :: "int \<Rightarrow> byte list \<Rightarrow> WS_manager \<Rightarrow> WS_manager option" where
  "conn_send_ws_binary fd msg m = conn_send_ws_msg fd msg binary m"

section \<open>The double buffer\<close>

text \<open>Two lists of texts, one of them active, and the sequence that marks a write under way, to which nothing is ever added.\<close>

record send_buffers =
  buffer_0 :: "string list"
  buffer_1 :: "string list"
  active_buffer :: bool
  buffer_seq :: "string list"

definition push_inactive :: "string \<Rightarrow> send_buffers \<Rightarrow> send_buffers" where
  "push_inactive data B = (if active_buffer B then B\<lparr>buffer_0 := buffer_0 B @ [data]\<rparr> else B\<lparr>buffer_1 := buffer_1 B @ [data]\<rparr>)"

definition writing :: "send_buffers \<Rightarrow> bool" where
  "writing B \<longleftrightarrow> buffer_seq B \<noteq> []"

definition do_write_msg :: "send_buffers \<Rightarrow> connection \<Rightarrow> send_buffers \<times> connection" where
  "do_write_msg B c =
     (let B = B\<lparr>active_buffer := \<not> active_buffer B\<rparr>;
          c = fold direct_write (if active_buffer B then buffer_1 B else buffer_0 B) c;
          B = (if active_buffer B then B\<lparr>buffer_1 := []\<rparr> else B\<lparr>buffer_0 := []\<rparr>) in
      (B\<lparr>buffer_seq := []\<rparr>, c))"

definition buffered_send_msg :: "string \<Rightarrow> send_buffers \<Rightarrow> connection \<Rightarrow> send_buffers \<times> connection" where
  "buffered_send_msg data B c = (let B = push_inactive data B in if \<not> writing B then do_write_msg B c else (B, c))"

lemma direct_writes: "direct_out (fold direct_write xs c) = direct_out c @ concat xs"
  by (induction xs arbitrary: c) (simp_all add: direct_write_def)

text \<open>With no write under way a text is written at once, behind everything before, and the buffers are empty again.\<close>

lemma buffered_send_writes:
  assumes "buffer_0 B = []" "buffer_1 B = []" "buffer_seq B = []" "buffered_send_msg data B c = (B', c')"
  shows "direct_out c' = direct_out c @ data \<and> buffer_0 B' = [] \<and> buffer_1 B' = [] \<and> buffer_seq B' = []"
  using assms by (cases "active_buffer B") (auto simp: buffered_send_msg_def push_inactive_def writing_def do_write_msg_def Let_def direct_writes direct_write_def)

section \<open>What the peer reads\<close>

text \<open>A peer that decodes frame after frame with the reference decoder.\<close>

function rfc_messages :: "byte list \<Rightarrow> (nat \<times> byte list) list" where
  "rfc_messages bs =
     (case rfc_decode bs of
        Some (fin, op, key, payload, rest) \<Rightarrow> if length rest < length bs then (op, payload) # rfc_messages rest else []
      | None \<Rightarrow> [])"
  by pat_completeness auto
termination
  by (relation "measure length") auto

declare rfc_messages.simps [simp del]

lemma frame_of_message: "frame_of msg = format_message msg text_op"
  by (simp add: frame_of_def format_message_def format_header_def)

lemma rfc_messages_frame: "length msg < 2 ^ 64 \<Longrightarrow> rfc_messages (frame_of msg @ rest) = (1, msg) # rfc_messages rest"
  using format_message_decodes [of msg text_op rest]
  by (subst rfc_messages.simps) (simp add: frame_of_message format_message_def encode_header_def)

lemma rfc_messages_frames: "\<forall>p \<in> set ps. length p < 2 ^ 64 \<Longrightarrow> rfc_messages (concat (map frame_of ps)) = map (\<lambda>p. (1, p)) ps"
proof (induction ps)
  case Nil
  then show ?case by (subst rfc_messages.simps) (simp add: rfc_decode_def)
next
  case (Cons p ps)
  then show ?case using rfc_messages_frame [of p "concat (map frame_of ps)"] by simp
qed

text \<open>The texts a run sends to a descriptor.\<close>

fun act_text :: "ws_act \<Rightarrow> WS_manager \<Rightarrow> int \<Rightarrow> byte list list" where
  "act_text (Send wid msg close) m fd = (if get_fd wid m = fd \<and> fd \<noteq> - 1 then [msg] else [])"
| "act_text (Send_fd fd' msg close) m fd = (if fd' = fd then [msg] else [])"
| "act_text _ m fd = []"

fun ws_texts :: "ws_act list \<Rightarrow> WS_manager \<Rightarrow> int \<Rightarrow> byte list list" where
  "ws_texts [] m fd = []"
| "ws_texts (a # as) m fd = act_text a m fd @ (case ws_step a m of None \<Rightarrow> [] | Some m' \<Rightarrow> ws_texts as m' fd)"

lemma ws_sent_texts: "ws_sent acts m fd = map frame_of (ws_texts acts m fd)"
proof (induction acts arbitrary: m)
  case (Cons a as)
  have "ws_sends a m fd = map frame_of (act_text a m fd)" by (cases a) simp_all
  then show ?case using Cons by (simp split: option.split)
qed simp

lemma ws_texts_short: "list_all good_act acts \<Longrightarrow> p \<in> set (ws_texts acts m fd) \<Longrightarrow> length p < 2 ^ 31 - 10"
proof (induction acts arbitrary: m)
  case (Cons a as)
  have "length p < 2 ^ 31 - 10" if "p \<in> set (act_text a m fd)" using that Cons.prems(1) by (cases a) (auto split: if_splits)
  then show ?case using Cons by (auto split: option.splits)
qed simp

lemma map_of_images: "mset ms = image_mset f M \<Longrightarrow> \<exists>ps. ms = map f ps \<and> mset ps = M"
proof (induction ms arbitrary: M)
  case (Cons x ms)
  have "x \<in># image_mset f M" using Cons.prems by (metis list.set_intros(1) set_mset_mset)
  then obtain y where y: "y \<in># M" "x = f y" by auto
  then obtain M' where M': "M = add_mset y M'" by (metis mset_add)
  then have "mset ms = image_mset f M'" using Cons.prems y by simp
  then obtain ps where "ms = map f ps" "mset ps = M'" using Cons.IH by blast
  then show ?case using y M' by (intro exI [of _ "y # ps"]) simp
qed simp

text \<open>
  (C8) The manager, the thread pool and the frame writer together: after any run in which no \<^verbatim>\<open>send\<close> fails and every frame fits an \<^verbatim>\<open>int\<close>, when the pool is at rest, a peer that decodes the bytes of a connection as RFC 6455 says reads, as unfragmented text
  messages, exactly the texts that were sent to it by whatever threads, each once.
\<close>

theorem ws_peer_reads:
  assumes "ws_run acts WS_manager_new = Some m" "list_all good_act acts" "ws_quiet m"
  shows "\<exists>ps. rfc_messages (fd_wire m fd) = map (\<lambda>p. (1, p)) ps \<and> mset ps = mset (ws_texts acts WS_manager_new fd)"
proof -
  have "account fd (ws_sent acts WS_manager_new fd) m" using ws_run_account [OF assms(1,2) ws_new, of fd] by simp
  then obtain ms where ms: "fd_wire m fd = concat ms" "mset ms = mset (ws_sent acts WS_manager_new fd)"
    using quiet_empty [OF assms(3), of fd] by (auto simp: account_def)
  then obtain ps where ps: "ms = map frame_of ps" "mset ps = mset (ws_texts acts WS_manager_new fd)"
    using map_of_images [of ms frame_of "mset (ws_texts acts WS_manager_new fd)"] by (auto simp: ws_sent_texts)
  have "length p < 2 ^ 64" if "p \<in> set ps" for p
  proof -
    have "p \<in> set (ws_texts acts WS_manager_new fd)" using mset_eq_setD [OF ps(2)] that by simp
    from ws_texts_short [OF assms(2) this] show ?thesis by simp
  qed
  then have "rfc_messages (fd_wire m fd) = map (\<lambda>p. (1, p)) ps" using rfc_messages_frames [of ps] ms(1) ps(1) by simp
  then show ?thesis using ps(2) by blast
qed

theorem ws_peer_reads_witness:
  "\<exists>ps. rfc_messages (fd_wire (the (ws_run two_senders WS_manager_new)) 7) = map (\<lambda>p. (1, p)) ps \<and> mset ps = mset [[1], [2, 3]]"
proof -
  have "\<not> Option.is_none (ws_run two_senders WS_manager_new)" by code_simp
  then have r: "ws_run two_senders WS_manager_new = Some (the (ws_run two_senders WS_manager_new))" by (simp add: Option.is_none_def)
  have g: "list_all good_act two_senders" by (simp add: two_senders_def)
  have q: "ws_quiet (the (ws_run two_senders WS_manager_new))" by code_simp
  have "ws_texts two_senders WS_manager_new 7 = [[1], [2, 3]]" by code_simp
  then show ?thesis using ws_peer_reads [OF r g q, of 7] by simp
qed

text \<open>
  The functions of the connection make the header of the frame, and the manager makes another one: what the peer reads as the message starts with the bytes of a header, and a binary
  message arrives as a text message.
\<close>

lemma conn_send_double_header:
  "conn_send_ws_msg fd msg op m = send_ws_string fd (format_message msg op) False m"
  by (simp add: conn_send_ws_msg_def conn_send_msg_def format_message_def format_header_def)

lemma conn_send_read_back:
  assumes "length (format_message msg op) < 2 ^ 64"
  shows "rfc_messages (frame_of (format_message msg op)) = [(1, format_message msg op)] \<and> format_message msg op \<noteq> msg"
  using rfc_messages_frames [of "[format_message msg op]"] assms by (simp add: format_message_def encode_header_def)

end
