(* ===== verification/Epoll_Server.thy ===== *)
theory Epoll_Server
  imports Heap_Timer Thread_Pool
begin

unbundle bit_operations_syntax

text \<open>
  The older server of \<^verbatim>\<open>core/\<close>: \<^verbatim>\<open>epoller.cpp\<close>, \<^verbatim>\<open>epoll_server.hpp\<close> and the loop of \<^verbatim>\<open>http_server.hpp\<close>, over the timer heap and the thread pool. The main thread waits for events
  and hands readable and writable connections to the pool. The class of the connections is a template parameter and here a record of its operations; the
  answers of the kernel are arguments. A descriptor with \<^verbatim>\<open>EPOLLONESHOT\<close> is switched off when an event is reported. \<open>None\<close> is a failed assertion.
  A worker holds the rest of its task, and each of its actions is one call on the connection or on epoll: other threads act between the call of \<^verbatim>\<open>process\<close>, the
  \<^verbatim>\<open>ModFd\<close> that switches the descriptor on again and the return from the task, and between the \<^verbatim>\<open>DelFd\<close> and the \<^verbatim>\<open>Close\<close> of \<^verbatim>\<open>CloseConn_\<close>.
\<close>

section \<open>Epoll\<close>

definition EPOLLIN :: u32 where "EPOLLIN = 1"

definition EPOLLOUT :: u32 where "EPOLLOUT = 4"

definition EPOLLERR :: u32 where "EPOLLERR = 8"

definition EPOLLHUP :: u32 where "EPOLLHUP = 16"

definition EPOLLRDHUP :: u32 where "EPOLLRDHUP = 0x2000"

definition EPOLLONESHOT :: u32 where "EPOLLONESHOT = 0x40000000"

definition EPOLLET :: u32 where "EPOLLET = 0x80000000"

lemmas epoll_defs = EPOLLIN_def EPOLLOUT_def EPOLLERR_def EPOLLHUP_def EPOLLRDHUP_def EPOLLONESHOT_def EPOLLET_def

type_synonym interest = "int \<Rightarrow> u32 option"

definition AddFd :: "int \<Rightarrow> u32 \<Rightarrow> interest \<Rightarrow> interest \<times> bool" where
  "AddFd fd events E = (if fd < 0 then (E, False) else if E fd \<noteq> None then (E, False) else (E(fd \<mapsto> events), True))"

definition ModFd :: "int \<Rightarrow> u32 \<Rightarrow> interest \<Rightarrow> interest \<times> bool" where
  "ModFd fd events E = (if fd < 0 then (E, False) else if E fd = None then (E, False) else (E(fd \<mapsto> events), True))"

definition DelFd :: "int \<Rightarrow> interest \<Rightarrow> interest \<times> bool" where
  "DelFd fd E = (if fd < 0 then (E, False) else if E fd = None then (E, False) else (E(fd := None), True))"

text \<open>What the kernel does: an event is reported for a descriptor that is switched on, and switches it off if it is one-shot.\<close>

definition switched_on :: "u32 \<Rightarrow> bool" where
  "switched_on msk \<longleftrightarrow> msk AND NOT (EPOLLONESHOT OR EPOLLET) \<noteq> 0"

definition armed :: "interest \<Rightarrow> int \<Rightarrow> bool" where
  "armed E fd \<longleftrightarrow> (case E fd of None \<Rightarrow> False | Some msk \<Rightarrow> switched_on msk)"

definition report :: "int \<Rightarrow> interest \<Rightarrow> interest" where
  "report fd E =
     (case E fd of
        None \<Rightarrow> E
      | Some msk \<Rightarrow> if msk AND EPOLLONESHOT \<noteq> 0 then E(fd \<mapsto> msk AND (EPOLLONESHOT OR EPOLLET)) else E)"

section \<open>The server\<close>

text \<open>
  A task and what can be left of one: the two functions that are given to the pool, the points inside them before the next call, and the return.
\<close>

datatype ep_task =
    OnRead int | OnWrite int | Written int int int | Process int | Processed int bool | Rearm int u32 | Quit int | Quit_close int | Return_task

text \<open>The connection that the rest of a task still works on: none once it is switched on again or closed.\<close>

fun works_on :: "ep_task \<Rightarrow> int option" where
  "works_on (OnRead fd) = Some fd"
| "works_on (OnWrite fd) = Some fd"
| "works_on (Written fd ret writeErrno) = Some fd"
| "works_on (Process fd) = Some fd"
| "works_on (Processed fd finished) = Some fd"
| "works_on (Rearm fd events) = Some fd"
| "works_on (Quit fd) = Some fd"
| "works_on (Quit_close fd) = Some fd"
| "works_on Return_task = None"

record 'c HttpConn =
  conn_new :: 'c
  conn_init :: "int \<Rightarrow> 'c \<Rightarrow> 'c"
  conn_read :: "'c \<Rightarrow> 'c \<times> int \<times> int"
  conn_process :: "'c \<Rightarrow> 'c \<times> bool"
  is_ws_socket :: "'c \<Rightarrow> bool"
  conn_write :: "'c \<Rightarrow> 'c \<times> int \<times> int"
  ToWriteBytes :: "'c \<Rightarrow> int"
  has_continue_workd :: "'c \<Rightarrow> bool"
  conn_IsKeepAlive :: "'c \<Rightarrow> bool"
  conn_Close :: "'c \<Rightarrow> 'c"

text \<open>Where the main thread stands: in the loop of \<^verbatim>\<open>Start\<close>, in that of \<^verbatim>\<open>DealListen_\<close>, or in \<^verbatim>\<open>CloseConn_\<close> before the \<^verbatim>\<open>Close\<close>.\<close>

datatype ep_main = Main_loop | Main_accept | Main_close int

text \<open>Besides the members of the class: where the main thread stands, the open descriptors, and the reported events that it has not handled.\<close>

record 'c epoll_server =
  port :: int
  openLinger :: bool
  timeoutMS :: int
  isClose :: bool
  listenFd :: int
  listenEvent :: u32
  connEvent :: u32
  timer :: "int HeapTimer"
  ep_pool :: "ep_task ThreadPool"
  epoller :: interest
  users :: "int \<Rightarrow> 'c option"
  main_at :: ep_main
  open_fds :: "int set"
  ready :: "(int \<times> u32) list"

definition MAX_FD :: int where
  "MAX_FD = 65536"

definition InitEventMode :: "int \<Rightarrow> 'c epoll_server \<Rightarrow> 'c epoll_server" where
  "InitEventMode trigMode S =
     (let le = EPOLLRDHUP; ce = EPOLLONESHOT OR EPOLLRDHUP in
      if trigMode = 0 then S\<lparr>listenEvent := le, connEvent := ce\<rparr>
      else if trigMode = 1 then S\<lparr>listenEvent := le, connEvent := ce OR EPOLLET\<rparr>
      else if trigMode = 2 then S\<lparr>listenEvent := le OR EPOLLET, connEvent := ce\<rparr>
      else S\<lparr>listenEvent := le OR EPOLLET, connEvent := ce OR EPOLLET\<rparr>)"

text \<open>The results of \<^verbatim>\<open>socket\<close>, the two calls of \<^verbatim>\<open>setsockopt\<close>, \<^verbatim>\<open>bind\<close> and \<^verbatim>\<open>listen\<close>.\<close>

record socket_answers =
  ans_socket :: int
  ans_linger :: int
  ans_reuse :: int
  ans_bind :: int
  ans_listen :: int

definition SetFdNonblock :: "int \<Rightarrow> 'c epoll_server \<Rightarrow> 'c epoll_server option" where
  "SetFdNonblock fd S = (if fd > 0 then Some S else None)"

definition InitSocket :: "socket_answers \<Rightarrow> 'c epoll_server \<Rightarrow> ('c epoll_server \<times> bool) option" where
  "InitSocket A S =
     (if port S > 65535 \<or> port S < 1024 then Some (S, False)
      else let S = S\<lparr>listenFd := ans_socket A\<rparr> in
        if ans_socket A < 0 then Some (S, False)
        else if ans_linger A < 0 then Some (S, False)
        else if ans_reuse A = - 1 then Some (S, False)
        else if ans_bind A < 0 then Some (S, False)
        else if ans_listen A < 0 then Some (S, False)
        else (case AddFd (ans_socket A) (listenEvent S OR EPOLLIN) (epoller S) of
                (E, False) \<Rightarrow> Some (S\<lparr>epoller := E\<rparr>, False)
              | (E, True) \<Rightarrow>
                  map_option (\<lambda>S. (S, True)) (SetFdNonblock (ans_socket A) (S\<lparr>epoller := E, open_fds := insert (ans_socket A) (open_fds S)\<rparr>))))"

text \<open>The server as constructed and initialised; the pool asserts that it has a thread, and \<^verbatim>\<open>SetFdNonblock\<close> that the descriptor is not 0.\<close>

definition ep_init :: "int \<Rightarrow> int \<Rightarrow> int \<Rightarrow> bool \<Rightarrow> nat \<Rightarrow> socket_answers \<Rightarrow> 'c epoll_server option" where
  "ep_init prt trigMode tmo OptLinger threadNum A =
     (case ThreadPool_new threadNum of
        None \<Rightarrow> None
      | Some p \<Rightarrow>
          (let S = \<lparr>port = prt, openLinger = OptLinger, timeoutMS = tmo, isClose = False, listenFd = 0, listenEvent = 0, connEvent = 0, timer = HeapTimer_new,
                     ep_pool = p, epoller = Map.empty, users = Map.empty, main_at = Main_loop, open_fds = {}, ready = []\<rparr> in
           map_option (\<lambda>(S, ok). if ok then S else S\<lparr>isClose := True\<rparr>) (InitSocket A (InitEventMode trigMode S))))"

text \<open>\<^verbatim>\<open>CloseConn_\<close> has two steps. \<^verbatim>\<open>Close\<close> closes the descriptor, which the kernel then takes out of the interest list.\<close>

definition quit_del :: "int \<Rightarrow> 'c epoll_server \<Rightarrow> 'c epoll_server" where
  "quit_del fd S = S\<lparr>epoller := fst (DelFd fd (epoller S))\<rparr>"

definition quit_close :: "'c HttpConn \<Rightarrow> int \<Rightarrow> 'c epoll_server \<Rightarrow> 'c epoll_server" where
  "quit_close H fd S =
     S\<lparr>users := (users S)(fd := map_option (conn_Close H) (users S fd)), open_fds := open_fds S - {fd}, epoller := (epoller S)(fd := None)\<rparr>"

definition CloseConn :: "'c HttpConn \<Rightarrow> int \<Rightarrow> 'c epoll_server \<Rightarrow> 'c epoll_server" where
  "CloseConn H fd S = quit_close H fd (quit_del fd S)"

definition SendError :: "int \<Rightarrow> 'c epoll_server \<Rightarrow> 'c epoll_server option" where
  "SendError fd S = (if fd > 0 then Some S else None)"

definition ExtentTime :: "int \<Rightarrow> int \<Rightarrow> int \<Rightarrow> 'c epoll_server \<Rightarrow> 'c epoll_server option" where
  "ExtentTime ms now fd S =
     (if timeoutMS S > 0 then map_option (\<lambda>t. S\<lparr>timer := t\<rparr>) (adjust fd (now + timeoutMS S * ms) (timer S)) else Some S)"

definition DealRead :: "int \<Rightarrow> int \<Rightarrow> int \<Rightarrow> 'c epoll_server \<Rightarrow> 'c epoll_server option" where
  "DealRead ms now fd S = map_option (\<lambda>S. S\<lparr>ep_pool := AddTask (OnRead fd) (ep_pool S)\<rparr>) (ExtentTime ms now fd S)"

definition DealWrite :: "int \<Rightarrow> int \<Rightarrow> int \<Rightarrow> 'c epoll_server \<Rightarrow> 'c epoll_server option" where
  "DealWrite ms now fd S = map_option (\<lambda>S. S\<lparr>ep_pool := AddTask (OnWrite fd) (ep_pool S)\<rparr>) (ExtentTime ms now fd S)"

definition EAGAIN :: int where
  "EAGAIN = 11"

text \<open>The functions of a task, from one call to the next: what the call makes of the connection, and the rest of the task.\<close>

definition On_Read :: "'c HttpConn \<Rightarrow> int \<Rightarrow> 'c \<Rightarrow> 'c \<times> ep_task" where
  "On_Read H fd client =
     (let (client, ret, readErrno) = conn_read H client in (client, if ret \<le> 0 \<and> readErrno \<noteq> EAGAIN then Quit fd else Process fd))"

definition OnProcess :: "'c HttpConn \<Rightarrow> int \<Rightarrow> 'c \<Rightarrow> 'c \<times> ep_task" where
  "OnProcess H fd client = (let (client, finished) = conn_process H client in (client, Processed fd finished))"

definition after_process :: "'c HttpConn \<Rightarrow> u32 \<Rightarrow> int \<Rightarrow> bool \<Rightarrow> 'c \<Rightarrow> ep_task" where
  "after_process H ce fd finished client =
     (if finished then (if is_ws_socket H client then Rearm fd ce else Rearm fd (ce OR EPOLLOUT)) else Rearm fd (ce OR EPOLLIN))"

definition On_Write :: "'c HttpConn \<Rightarrow> int \<Rightarrow> 'c \<Rightarrow> 'c \<times> ep_task" where
  "On_Write H fd client = (let (client, ret, writeErrno) = conn_write H client in (client, Written fd ret writeErrno))"

definition after_write :: "'c HttpConn \<Rightarrow> u32 \<Rightarrow> int \<Rightarrow> int \<Rightarrow> int \<Rightarrow> 'c \<Rightarrow> ep_task" where
  "after_write H ce fd ret writeErrno client =
     (if ToWriteBytes H client = 0 then
        (if has_continue_workd H client then Process fd
         else if conn_IsKeepAlive H client then Process fd
         else Quit fd)
      else if ret < 0 \<and> writeErrno = EAGAIN then Rearm fd (ce OR EPOLLOUT)
      else Quit fd)"

text \<open>One action of a worker inside its task.\<close>

definition on_client :: "int \<Rightarrow> ('c \<Rightarrow> 'c \<times> ep_task) \<Rightarrow> 'c epoll_server \<Rightarrow> ('c epoll_server \<times> ep_task) option" where
  "on_client fd f S =
     (case users S fd of None \<Rightarrow> None | Some client \<Rightarrow> (let (client, t) = f client in Some (S\<lparr>users := (users S)(fd \<mapsto> client)\<rparr>, t)))"

fun task_step :: "'c HttpConn \<Rightarrow> ep_task \<Rightarrow> 'c epoll_server \<Rightarrow> ('c epoll_server \<times> ep_task) option" where
  "task_step H (OnRead fd) S = on_client fd (On_Read H fd) S"
| "task_step H (OnWrite fd) S = on_client fd (On_Write H fd) S"
| "task_step H (Written fd ret writeErrno) S = on_client fd (\<lambda>client. (client, after_write H (connEvent S) fd ret writeErrno client)) S"
| "task_step H (Process fd) S = on_client fd (OnProcess H fd) S"
| "task_step H (Processed fd finished) S = on_client fd (\<lambda>client. (client, after_process H (connEvent S) fd finished client)) S"
| "task_step H (Rearm fd events) S = Some (S\<lparr>epoller := fst (ModFd fd events (epoller S))\<rparr>, Return_task)"
| "task_step H (Quit fd) S = Some (quit_del fd S, Quit_close fd)"
| "task_step H (Quit_close fd) S = Some (quit_close H fd S, Return_task)"
| "task_step H Return_task S = None"

text \<open>\<^verbatim>\<open>AddClient_\<close>, and one round of \<^verbatim>\<open>DealListen_\<close> for an answer of \<^verbatim>\<open>accept\<close> and the number of connections at that time.\<close>

definition AddClient :: "'c HttpConn \<Rightarrow> int \<Rightarrow> int \<Rightarrow> int \<Rightarrow> 'c epoll_server \<Rightarrow> 'c epoll_server option" where
  "AddClient H ms now fd S =
     (if fd > 0 then
        (let c = (case users S fd of None \<Rightarrow> conn_new H | Some c \<Rightarrow> c);
             S = S\<lparr>users := (users S)(fd \<mapsto> conn_init H fd c), open_fds := insert fd (open_fds S)\<rparr> in
         case (if timeoutMS S > 0 then map_option (\<lambda>t. S\<lparr>timer := t\<rparr>) (Heap_Timer.add fd (now + timeoutMS S * ms) fd (timer S)) else Some S) of
           None \<Rightarrow> None
         | Some S \<Rightarrow> SetFdNonblock fd (S\<lparr>epoller := fst (AddFd fd (EPOLLIN OR connEvent S) (epoller S))\<rparr>))
      else None)"

definition DealListen :: "'c HttpConn \<Rightarrow> int \<Rightarrow> int \<Rightarrow> int \<Rightarrow> int \<Rightarrow> 'c epoll_server \<Rightarrow> 'c epoll_server option" where
  "DealListen H ms now fd userCount S =
     (if fd \<le> 0 then Some (S\<lparr>main_at := Main_loop\<rparr>)
      else if userCount \<ge> MAX_FD then SendError fd (S\<lparr>main_at := Main_loop\<rparr>)
      else (case AddClient H ms now fd S of
              None \<Rightarrow> None
            | Some S \<Rightarrow> Some (S\<lparr>main_at := if listenEvent S AND EPOLLET \<noteq> 0 then Main_accept else Main_loop\<rparr>)))"

text \<open>The body of the loop of \<^verbatim>\<open>Start\<close> for one event.\<close>

definition on_event :: "int \<Rightarrow> int \<Rightarrow> int \<Rightarrow> u32 \<Rightarrow> 'c epoll_server \<Rightarrow> 'c epoll_server option" where
  "on_event ms now fd events S =
     (if fd = listenFd S then Some (S\<lparr>main_at := Main_accept\<rparr>)
      else if events AND (EPOLLRDHUP OR EPOLLHUP OR EPOLLERR) \<noteq> 0
        then (if users S fd \<noteq> None then Some ((quit_del fd S)\<lparr>main_at := Main_close fd\<rparr>) else None)
      else if events AND EPOLLIN \<noteq> 0 then (if users S fd \<noteq> None then DealRead ms now fd S else None)
      else if events AND EPOLLOUT \<noteq> 0 then (if users S fd \<noteq> None then DealWrite ms now fd S else None)
      else Some S)"

text \<open>The timer at the head of the loop: expired connections are closed, here in one action.\<close>

definition on_timer :: "'c HttpConn \<Rightarrow> int \<Rightarrow> (nat \<Rightarrow> int) \<Rightarrow> int \<Rightarrow> 'c epoll_server \<Rightarrow> 'c epoll_server option" where
  "on_timer H ms now later S =
     (if timeoutMS S > 0 then
        (case GetNextTick ms now later (timer S) of
           None \<Rightarrow> None
         | Some (timeMS, fired, t) \<Rightarrow> Some (fold (\<lambda>n. CloseConn H (tn_cb n)) fired (S\<lparr>timer := t\<rparr>)))
      else Some S)"

section \<open>All threads\<close>

datatype ep_act = Tick "nat \<Rightarrow> int" int | Epoll_wait "(int \<times> u32) list" | Event int | Accept int int int | Main_quit | Turn nat | Exec nat

definition worker_task :: "nat \<Rightarrow> 'c epoll_server \<Rightarrow> ep_task option" where
  "worker_task w S = (if w < length (tp_workers (ep_pool S)) then case tp_workers (ep_pool S) ! w of Executes t \<Rightarrow> Some t | _ \<Rightarrow> None else None)"

text \<open>
  When an action is possible: the main thread alternates between the timer, the wait and the events; the kernel reports switched-on descriptors, each once, and accepts
  connections under descriptors that are not open; a worker turns if it holds no task, and goes on with the one it holds.
\<close>

fun ep_enabled :: "ep_act \<Rightarrow> 'c epoll_server \<Rightarrow> bool" where
  "ep_enabled (Tick now later) S \<longleftrightarrow> \<not> isClose S \<and> main_at S = Main_loop \<and> ready S = []"
| "ep_enabled (Epoll_wait evs) S \<longleftrightarrow>
     \<not> isClose S \<and> main_at S = Main_loop \<and> ready S = [] \<and> distinct (map fst evs) \<and> list_all (\<lambda>(fd, ev). armed (epoller S) fd) evs"
| "ep_enabled (Event now) S \<longleftrightarrow> main_at S = Main_loop \<and> ready S \<noteq> []"
| "ep_enabled (Accept now fd userCount) S \<longleftrightarrow> main_at S = Main_accept \<and> fd \<notin> open_fds S"
| "ep_enabled Main_quit S \<longleftrightarrow> (case main_at S of Main_close fd \<Rightarrow> True | _ \<Rightarrow> False)"
| "ep_enabled (Turn w) S \<longleftrightarrow> tp_turn w (ep_pool S) \<noteq> None"
| "ep_enabled (Exec w) S \<longleftrightarrow> worker_task w S \<noteq> None"

definition set_task :: "nat \<Rightarrow> ep_task \<Rightarrow> 'c epoll_server \<Rightarrow> 'c epoll_server" where
  "set_task w t S = S\<lparr>ep_pool := (ep_pool S)\<lparr>tp_workers := (tp_workers (ep_pool S))[w := Executes t]\<rparr>\<rparr>"

fun ep_step :: "'c HttpConn \<Rightarrow> int \<Rightarrow> ep_act \<Rightarrow> 'c epoll_server \<Rightarrow> 'c epoll_server option" where
  "ep_step H ms (Tick now later) S = on_timer H ms now later S"
| "ep_step H ms (Epoll_wait evs) S = Some (S\<lparr>ready := evs, epoller := fold (\<lambda>e. report (fst e)) evs (epoller S)\<rparr>)"
| "ep_step H ms (Event now) S = (case ready S of [] \<Rightarrow> None | (fd, events) # rest \<Rightarrow> on_event ms now fd events (S\<lparr>ready := rest\<rparr>))"
| "ep_step H ms (Accept now fd userCount) S = DealListen H ms now fd userCount S"
| "ep_step H ms Main_quit S = (case main_at S of Main_close fd \<Rightarrow> Some ((quit_close H fd S)\<lparr>main_at := Main_loop\<rparr>) | _ \<Rightarrow> None)"
| "ep_step H ms (Turn w) S = map_option (\<lambda>p. S\<lparr>ep_pool := p\<rparr>) (tp_turn w (ep_pool S))"
| "ep_step H ms (Exec w) S =
     (case worker_task w S of
        None \<Rightarrow> None
      | Some Return_task \<Rightarrow> map_option (\<lambda>p. S\<lparr>ep_pool := p\<rparr>) (tp_done w (ep_pool S))
      | Some t \<Rightarrow> map_option (\<lambda>(S, t). set_task w t S) (task_step H t S))"

inductive ep_reach :: "'c HttpConn \<Rightarrow> int \<Rightarrow> 'c epoll_server \<Rightarrow> 'c epoll_server \<Rightarrow> bool" for H ms S0 where
  start: "ep_reach H ms S0 S0"
| act: "ep_reach H ms S0 S \<Longrightarrow> ep_enabled a S \<Longrightarrow> ep_step H ms a S = Some S' \<Longrightarrow> ep_reach H ms S0 S'"

section \<open>One thread per connection\<close>

text \<open>The connections that someone is occupied with: the main thread, reported events, queued tasks and tasks in execution.\<close>

definition main_load :: "'c epoll_server \<Rightarrow> int multiset" where
  "main_load S = (case main_at S of Main_close fd \<Rightarrow> {# fd #} | _ \<Rightarrow> {#}) + mset (filter (\<lambda>fd. fd \<noteq> listenFd S) (map fst (ready S)))"

definition task_load :: "ep_task \<Rightarrow> int multiset" where
  "task_load t = (case works_on t of Some fd \<Rightarrow> {# fd #} | None \<Rightarrow> {#})"

definition worker_load :: "ep_task worker \<Rightarrow> int multiset" where
  "worker_load w = (case w of Executes t \<Rightarrow> task_load t | _ \<Rightarrow> {#})"

definition pool_load :: "ep_task ThreadPool \<Rightarrow> int multiset" where
  "pool_load p = sum_list (map task_load (tp_tasks p)) + sum_list (map worker_load (tp_workers p))"

definition conn_ok :: "int \<Rightarrow> u32 \<Rightarrow> interest \<Rightarrow> (int \<Rightarrow> 'c option) \<Rightarrow> int set \<Rightarrow> int multiset \<Rightarrow> bool" where
  "conn_ok lfd ce E U Fds W \<longleftrightarrow> ce AND EPOLLONESHOT \<noteq> 0 \<and> lfd \<in> Fds \<and> (\<forall>fd. count W fd \<le> 1) \<and>
     (\<forall>fd. fd \<in># W \<longrightarrow> \<not> armed E fd \<and> fd \<in> Fds \<and> U fd \<noteq> None \<and> fd \<noteq> lfd) \<and>
     (\<forall>fd m. E fd = Some m \<longrightarrow> fd \<noteq> lfd \<longrightarrow> 0 \<le> fd \<and> U fd \<noteq> None \<and> fd \<in> Fds \<and> m AND EPOLLONESHOT \<noteq> 0)"

lemma conn_drop:
  assumes "conn_ok l ce E U Fds (add_mset fd W)"
  shows "conn_ok l ce E U Fds W"
proof -
  have "count W x \<le> count (add_mset fd W) x" for x by simp
  then have "\<forall>x. count W x \<le> 1" using assms unfolding conn_ok_def by (meson le_trans)
  then show ?thesis using assms unfolding conn_ok_def by (auto simp del: One_nat_def)
qed

lemma conn_users: "conn_ok l ce E U Fds W \<Longrightarrow> \<forall>fd. U fd \<noteq> None \<longrightarrow> U' fd \<noteq> None \<Longrightarrow> conn_ok l ce E U' Fds W"
  unfolding conn_ok_def by blast

lemma conn_unique:
  assumes "conn_ok l ce E U Fds (add_mset fd W)"
  shows "fd \<notin># W \<and> fd \<in> Fds \<and> U fd \<noteq> None \<and> fd \<noteq> l"
proof -
  have "count (add_mset fd W) fd \<le> 1" using assms unfolding conn_ok_def by blast
  then have "fd \<notin># W" by (simp add: not_in_iff)
  then show ?thesis using assms unfolding conn_ok_def by auto
qed

lemma conn_arm:
  assumes "conn_ok l ce E U Fds (add_mset fd W)" "m AND EPOLLONESHOT \<noteq> 0"
  shows "conn_ok l ce (fst (ModFd fd m E)) U Fds W"
  using conn_unique [OF assms(1)] conn_drop [OF assms(1)] assms(2) unfolding conn_ok_def ModFd_def armed_def by auto

lemma conn_del:
  assumes "conn_ok l ce E U Fds (add_mset fd W)"
  shows "conn_ok l ce (fst (DelFd fd E)) U Fds (add_mset fd W)"
  using assms unfolding conn_ok_def DelFd_def armed_def by auto

lemma conn_close:
  assumes "conn_ok l ce E U Fds (add_mset fd W)"
  shows "conn_ok l ce (E(fd := None)) (U(fd := map_option f (U fd))) (Fds - {fd}) W"
  using conn_unique [OF assms] conn_drop [OF assms] unfolding conn_ok_def armed_def by auto

lemma switched_off: "\<not> switched_on (m AND (EPOLLONESHOT OR EPOLLET))" "(m AND (EPOLLONESHOT OR EPOLLET)) AND EPOLLONESHOT = m AND EPOLLONESHOT"
proof -
  have "(m AND (EPOLLONESHOT OR EPOLLET)) AND NOT (EPOLLONESHOT OR EPOLLET) = 0" by (rule bit_word_eqI) (auto simp: bit_simps)
  then show "\<not> switched_on (m AND (EPOLLONESHOT OR EPOLLET))" unfolding switched_on_def by simp
  show "(m AND (EPOLLONESHOT OR EPOLLET)) AND EPOLLONESHOT = m AND EPOLLONESHOT" by (rule bit_word_eqI) (auto simp: bit_simps)
qed

lemma conn_report:
  assumes "conn_ok l ce E U Fds W" "armed E fd" "fd \<noteq> l"
  shows "conn_ok l ce (report fd E) U Fds (add_mset fd W)"
proof -
  obtain m where m: "E fd = Some m" using assms(2) by (auto simp: armed_def split: option.splits)
  then have one: "m AND EPOLLONESHOT \<noteq> 0" using assms(1,3) by (auto simp: conn_ok_def)
  have new: "fd \<notin># W" using assms(1,2) by (auto simp: conn_ok_def)
  show ?thesis using assms(1,3) m one new switched_off [of m] unfolding conn_ok_def report_def by (auto simp: armed_def not_in_iff)
qed

lemma conn_new_client:
  assumes "conn_ok l ce E U Fds W" "fd \<notin> Fds" "m AND EPOLLONESHOT \<noteq> 0"
  shows "conn_ok l ce (fst (AddFd fd m E)) (U(fd \<mapsto> c)) (insert fd Fds) W"
  using assms unfolding conn_ok_def AddFd_def armed_def by auto

text \<open>The load of the pool.\<close>

lemma sum_list_update: "i < length xs \<Longrightarrow> sum_list (map f (xs[i := x])) + f (xs ! i) = sum_list (map f xs) + (f x :: 'm multiset)"
proof (induction xs arbitrary: i)
  case (Cons y ys)
  show ?case
  proof (cases i)
    case (Suc j)
    then show ?thesis using Cons.IH [of j] Cons.prems by (simp add: ac_simps)
  qed (simp add: ac_simps)
qed simp

lemma add_load: "pool_load (AddTask t p) = task_load t + pool_load p"
  by (simp add: pool_load_def AddTask_def)

lemma turn_load: "tp_turn w p = Some p' \<Longrightarrow> pool_load p' = pool_load p"
  using sum_list_update [of w "tp_workers p" worker_load]
  by (auto simp: tp_turn_def pool_load_def worker_load_def split: if_splits list.splits worker.splits)

text \<open>The load without the task of one worker, whatever that worker does next.\<close>

definition others_load :: "nat \<Rightarrow> ep_task ThreadPool \<Rightarrow> int multiset" where
  "others_load w p = pool_load (p\<lparr>tp_workers := (tp_workers p)[w := Loop_test]\<rparr>)"

lemma executes_load:
  assumes "w < length (tp_workers p)" "tp_workers p ! w = Executes t"
  shows "pool_load p = task_load t + others_load w p"
    "pool_load (p\<lparr>tp_workers := (tp_workers p)[w := Executes t']\<rparr>) = task_load t' + others_load w p"
  using sum_list_update [OF assms(1), of worker_load Loop_test] sum_list_update [of w "(tp_workers p)[w := Executes t']" worker_load Loop_test] assms
  by (simp_all add: others_load_def pool_load_def worker_load_def ac_simps)

lemma load_member:
  assumes "w < length (tp_workers p)" "tp_workers p ! w = Executes t" "works_on t = Some fd"
  shows "fd \<in># pool_load p"
  using executes_load(1) [OF assms(1,2)] assms(3) by (simp add: task_load_def)

text \<open>The operations of the server on a state with a given load.\<close>

definition S_ok :: "'c epoll_server \<Rightarrow> int multiset \<Rightarrow> bool" where
  "S_ok S W \<longleftrightarrow> conn_ok (listenFd S) (connEvent S) (epoller S) (users S) (open_fds S) W"

definition same :: "'c epoll_server \<Rightarrow> 'c epoll_server \<Rightarrow> bool" where
  "same S S' \<longleftrightarrow> listenFd S' = listenFd S \<and> connEvent S' = connEvent S \<and> timeoutMS S' = timeoutMS S \<and> main_at S' = main_at S \<and> ready S' = ready S \<and> ep_pool S' = ep_pool S"

lemma oneshot_or: "m AND EPOLLONESHOT \<noteq> 0 \<Longrightarrow> (m OR k) AND EPOLLONESHOT \<noteq> 0" "m AND EPOLLONESHOT \<noteq> 0 \<Longrightarrow> (k OR m) AND EPOLLONESHOT \<noteq> 0"
  by (simp_all add: bit.conj_disj_distrib2 or_eq_0_iff)

lemma S_ok_oneshot: "S_ok S W \<Longrightarrow> connEvent S AND EPOLLONESHOT \<noteq> 0"
  by (simp add: S_ok_def conn_ok_def)

lemma S_ok_users: "S_ok S W \<Longrightarrow> S_ok (S\<lparr>users := (users S)(fd \<mapsto> c)\<rparr>) W"
  unfolding S_ok_def by (auto elim: conn_users)

lemma quit_del_ok: "S_ok S (add_mset fd W) \<Longrightarrow> S_ok (quit_del fd S) (add_mset fd W) \<and> same S (quit_del fd S)"
  unfolding S_ok_def by (simp add: quit_del_def same_def conn_del)

lemma close_ok: "S_ok S (add_mset fd W) \<Longrightarrow> S_ok (quit_close H fd S) W \<and> same S (quit_close H fd S)"
  unfolding S_ok_def by (simp add: quit_close_def same_def conn_close)

lemma arm_ok: "S_ok S (add_mset fd W) \<Longrightarrow> m AND EPOLLONESHOT \<noteq> 0 \<Longrightarrow> S_ok (S\<lparr>epoller := fst (ModFd fd m (epoller S))\<rparr>) W"
  unfolding S_ok_def by (simp add: conn_arm)

text \<open>The rest of a task switches a descriptor on for one event only.\<close>

definition task_ok :: "ep_task \<Rightarrow> bool" where
  "task_ok t \<longleftrightarrow> (case t of Rearm fd m \<Rightarrow> m AND EPOLLONESHOT \<noteq> 0 | _ \<Rightarrow> True)"

lemma client_calls:
  "works_on (snd (On_Read H fd c)) = Some fd \<and> task_ok (snd (On_Read H fd c))"
  "works_on (snd (On_Write H fd c)) = Some fd \<and> task_ok (snd (On_Write H fd c))"
  "works_on (snd (OnProcess H fd c)) = Some fd \<and> task_ok (snd (OnProcess H fd c))"
  "ce AND EPOLLONESHOT \<noteq> 0 \<Longrightarrow> works_on (after_process H ce fd b c) = Some fd \<and> task_ok (after_process H ce fd b c)"
  "ce AND EPOLLONESHOT \<noteq> 0 \<Longrightarrow> works_on (after_write H ce fd r e c) = Some fd \<and> task_ok (after_write H ce fd r e c)"
  by (auto simp: On_Read_def On_Write_def OnProcess_def after_process_def after_write_def task_ok_def oneshot_or split: prod.split)

lemma on_client_ok:
  assumes "S_ok S (add_mset fd W)" "\<And>c. works_on (snd (f c)) = Some fd \<and> task_ok (snd (f c))"
  shows "\<exists>S' t'. on_client fd f S = Some (S', t') \<and> S_ok S' (task_load t' + W) \<and> task_ok t' \<and> same S S'"
proof -
  obtain c where c: "users S fd = Some c" using conn_unique assms(1) unfolding S_ok_def by blast
  obtain c' t' where f: "f c = (c', t')" by fastforce
  show ?thesis using S_ok_users [OF assms(1), of fd c'] assms(2) [of c] c by (simp add: on_client_def f same_def task_load_def)
qed

lemma task_step_ok:
  assumes "S_ok S (task_load t + W)" "task_ok t" "t \<noteq> Return_task"
  shows "\<exists>S' t'. task_step H t S = Some (S', t') \<and> S_ok S' (task_load t' + W) \<and> task_ok t' \<and> same S S'"
proof -
  obtain fd where fd: "works_on t = Some fd" using assms(3) by (cases t) auto
  then have ok: "S_ok S (add_mset fd W)" using assms(1) by (simp add: task_load_def)
  note call = on_client_ok [OF ok] and one = S_ok_oneshot [OF ok]
  show ?thesis
  proof (cases t)
    case (Rearm fd' m)
    then show ?thesis using fd assms(2) arm_ok [OF ok, of m] by (simp add: task_load_def task_ok_def same_def)
  next
    case (Quit fd')
    then show ?thesis using fd quit_del_ok [OF ok] by (simp add: task_load_def task_ok_def)
  next
    case (Quit_close fd')
    then show ?thesis using fd close_ok [OF ok, of H] by (simp add: task_load_def task_ok_def)
  qed (use fd assms(3) in \<open>auto intro!: call simp: client_calls one\<close>)
qed

lemma client_ok:
  assumes "S_ok S W" "timeoutMS S \<le> 0" "0 < fd" "fd \<notin> open_fds S"
  shows "\<exists>S'. AddClient H ms now fd S = Some S' \<and> S_ok S' W \<and> same S S'"
  using assms(2,3) conn_new_client [OF assms(1) [unfolded S_ok_def] assms(4)] oneshot_or(2) [OF S_ok_oneshot [OF assms(1)]]
  by (simp add: AddClient_def S_ok_def same_def Let_def SetFdNonblock_def)

text \<open>What the invariant needs of an action of the main thread.\<close>

definition main_same :: "'c epoll_server \<Rightarrow> 'c epoll_server \<Rightarrow> bool" where
  "main_same S S' \<longleftrightarrow> listenFd S' = listenFd S \<and> timeoutMS S' = timeoutMS S \<and> ready S' = ready S"

lemma listen_ok:
  assumes "S_ok S W" "timeoutMS S \<le> 0" "fd \<notin> open_fds S"
  shows "\<exists>S'. DealListen H ms now fd n S = Some S' \<and> S_ok S' W \<and> main_same S S' \<and> ep_pool S' = ep_pool S \<and> main_at S' \<in> {Main_loop, Main_accept}"
  using assms(1) client_ok [OF assms(1,2) _ assms(3), of H ms now] by (auto simp: DealListen_def SendError_def same_def main_same_def S_ok_def)

lemma event_ok:
  assumes "S_ok S ((if fd = listenFd S then {#} else {# fd #}) + W + pool_load (ep_pool S))" "timeoutMS S \<le> 0" "main_at S = Main_loop"
  shows "\<exists>S'. on_event ms now fd events S = Some S' \<and> main_same S S' \<and>
    S_ok S' ((case main_at S' of Main_close fd \<Rightarrow> {# fd #} | _ \<Rightarrow> {#}) + W + pool_load (ep_pool S')) \<and>
    (ep_pool S' = ep_pool S \<or> ep_pool S' = AddTask (OnRead fd) (ep_pool S) \<or> ep_pool S' = AddTask (OnWrite fd) (ep_pool S))"
proof (cases "fd = listenFd S")
  case True
  then show ?thesis using assms by (simp add: on_event_def main_same_def S_ok_def)
next
  case False
  then have ok: "S_ok S (add_mset fd (W + pool_load (ep_pool S)))" using assms(1) by simp
  then obtain c where c: "users S fd = Some c" using conn_unique unfolding S_ok_def by blast
  have task: "S_ok (S\<lparr>ep_pool := AddTask t (ep_pool S)\<rparr>) (W + pool_load (AddTask t (ep_pool S)))" if "works_on t = Some fd" for t
    using ok that by (simp add: S_ok_def add_load task_load_def)
  have drop: "S_ok S (W + pool_load (ep_pool S))" using ok unfolding S_ok_def by (rule conn_drop)
  have quit: "S_ok (quit_del fd S\<lparr>main_at := Main_close fd\<rparr>) (add_mset fd (W + pool_load (ep_pool S)))" "same S (quit_del fd S)"
    using quit_del_ok [OF ok] by (simp_all add: S_ok_def)
  show ?thesis
    using quit task [of "OnRead fd"] task [of "OnWrite fd"] drop False assms(2,3) c
    by (auto simp: on_event_def same_def main_same_def DealRead_def DealWrite_def ExtentTime_def quit_del_def)
qed

lemma report_other: "fd' \<noteq> fd \<Longrightarrow> report fd E fd' = E fd'"
  by (simp add: report_def split: option.split)

lemma conn_cong:
  assumes "conn_ok l ce E U Fds W" "\<And>fd. fd \<noteq> l \<Longrightarrow> E' fd = E fd"
  shows "conn_ok l ce E' U Fds W"
proof -
  have "armed E' fd = armed E fd" if "fd \<noteq> l" for fd using assms(2) [OF that] by (simp add: armed_def)
  moreover have "E fd = Some m" if "E' fd = Some m" "fd \<noteq> l" for fd m using assms(2) [OF that(2)] that(1) by simp
  ultimately show ?thesis using assms(1) unfolding conn_ok_def by blast
qed

lemma reports_ok:
  "conn_ok l ce E U Fds W \<Longrightarrow> distinct (map fst evs) \<Longrightarrow> list_all (\<lambda>(fd, ev). armed E fd) evs \<Longrightarrow>
    conn_ok l ce (fold (\<lambda>e. report (fst e)) evs E) U Fds (mset (filter (\<lambda>fd. fd \<noteq> l) (map fst evs)) + W)"
proof (induction evs arbitrary: E W)
  case (Cons e evs)
  obtain fd ev where e: "e = (fd, ev)" by fastforce
  have "armed (report fd E) fd'" if "(fd', ev') \<in> set evs" for fd' ev'
  proof -
    have "fd' \<noteq> fd" using Cons.prems(2) that by (force simp: e)
    moreover have "armed E fd'" using Cons.prems(3) that by (auto simp: list_all_iff)
    ultimately show ?thesis by (simp add: armed_def report_other)
  qed
  then have rest: "list_all (\<lambda>(fd, ev). armed (report (fst e) E) fd) evs" by (auto simp: e list_all_iff)
  show ?case
  proof (cases "fd = l")
    case True
    have "conn_ok l ce (report l E) U Fds W" by (rule conn_cong [OF Cons.prems(1)]) (rule report_other)
    then show ?thesis using Cons.IH [OF _ _ rest, of W] Cons.prems(2) True by (simp add: e)
  next
    case False
    have "conn_ok l ce (report fd E) U Fds (add_mset fd W)" using conn_report [OF Cons.prems(1) _ False] Cons.prems(3) by (simp add: e)
    then show ?thesis using Cons.IH [OF _ _ rest, of "add_mset fd W"] Cons.prems(2) False by (simp add: e)
  qed
qed simp

section \<open>The invariant\<close>

definition tasks_ok :: "ep_task ThreadPool \<Rightarrow> bool" where
  "tasks_ok p \<longleftrightarrow> list_all task_ok (tp_tasks p) \<and> list_all (\<lambda>w. case w of Executes t \<Rightarrow> task_ok t | _ \<Rightarrow> True) (tp_workers p)"

definition ep_inv :: "'c epoll_server \<Rightarrow> bool" where
  "ep_inv S \<longleftrightarrow> timeoutMS S \<le> 0 \<and> tasks_ok (ep_pool S) \<and> S_ok S (main_load S + pool_load (ep_pool S))"

lemma worker_taskD:
  "worker_task w S = Some t \<Longrightarrow> w < length (tp_workers (ep_pool S)) \<and> tp_workers (ep_pool S) ! w = Executes t"
  by (auto simp: worker_task_def split: if_splits worker.splits)

lemma tasks_ok_add: "tasks_ok p \<Longrightarrow> tasks_ok (AddTask (OnRead fd) p) \<and> tasks_ok (AddTask (OnWrite fd) p)"
  by (simp add: tasks_ok_def AddTask_def task_ok_def)

lemma list_all_update: "list_all P xs \<Longrightarrow> P x \<Longrightarrow> list_all P (xs[i := x])"
  by (auto simp: list_all_iff dest: set_update_subset_insert [THEN subsetD])

lemma tasks_ok_update: "tasks_ok p \<Longrightarrow> (case x of Executes t \<Rightarrow> task_ok t | _ \<Rightarrow> True) \<Longrightarrow> tasks_ok (p\<lparr>tp_workers := (tp_workers p)[w := x]\<rparr>)"
  by (simp add: tasks_ok_def list_all_update)

lemma tasks_ok_turn: "tasks_ok p \<Longrightarrow> tp_turn w p = Some p' \<Longrightarrow> tasks_ok p'"
  by (auto simp: tp_turn_def tasks_ok_def intro!: list_all_update split: if_splits list.splits)

lemma tasks_ok_task: "tasks_ok p \<Longrightarrow> w < length (tp_workers p) \<Longrightarrow> tp_workers p ! w = Executes t \<Longrightarrow> task_ok t"
  unfolding tasks_ok_def list_all_length by force

lemma exec_ok:
  assumes "ep_inv S" "worker_task w S = Some t"
  shows "\<exists>S'. ep_step H ms (Exec w) S = Some S' \<and> ep_inv S'"
proof (cases "t = Return_task")
  case True
  note w = worker_taskD [OF assms(2)]
  then have "tp_done w (ep_pool S) = Some ((ep_pool S)\<lparr>tp_workers := (tp_workers (ep_pool S))[w := Loop_test]\<rparr>)" by (simp add: tp_done_def)
  then show ?thesis using assms executes_load(1) [of w "ep_pool S" t] w True tasks_ok_update [of "ep_pool S" Loop_test]
    by (simp add: ep_inv_def S_ok_def main_load_def others_load_def task_load_def)
next
  case False
  note w = worker_taskD [OF assms(2)]
  have "S_ok S (task_load t + (main_load S + others_load w (ep_pool S)))" "task_ok t"
    using assms(1) executes_load(1) [of w "ep_pool S" t] w tasks_ok_task [of "ep_pool S" w t] by (auto simp: ep_inv_def ac_simps)
  from task_step_ok [OF this False, of H] obtain S' t' where S': "task_step H t S = Some (S', t')"
    "S_ok S' (task_load t' + (main_load S + others_load w (ep_pool S)))" "task_ok t'" "same S S'" by blast
  have "ep_step H ms (Exec w) S = Some (set_task w t' S')" using S'(1) assms(2) False by (cases t) simp_all
  moreover have "ep_inv (set_task w t' S')"
    using S'(2-4) assms(1) executes_load(2) [of w "ep_pool S" t t'] w tasks_ok_update [of "ep_pool S" "Executes t'"]
    by (simp add: ep_inv_def set_task_def same_def S_ok_def main_load_def ac_simps)
  ultimately show ?thesis by blast
qed

lemma ep_step_ok:
  assumes "ep_inv S" "ep_enabled a S"
  shows "\<exists>S'. ep_step H ms a S = Some S' \<and> ep_inv S'"
proof (cases a)
  case (Tick now later)
  then show ?thesis using assms by (simp add: on_timer_def ep_inv_def)
next
  case (Epoll_wait evs)
  have "conn_ok (listenFd S) (connEvent S) (fold (\<lambda>e. report (fst e)) evs (epoller S)) (users S) (open_fds S)
      (mset (filter (\<lambda>fd. fd \<noteq> listenFd S) (map fst evs)) + pool_load (ep_pool S))"
    using reports_ok [of _ _ _ _ _ "pool_load (ep_pool S)" evs] assms Epoll_wait by (auto simp: ep_inv_def S_ok_def main_load_def)
  then show ?thesis using assms Epoll_wait by (simp add: ep_inv_def S_ok_def main_load_def)
next
  case (Event now)
  then obtain fd ev rest where r: "ready S = (fd, ev) # rest" "main_at S = Main_loop" using assms(2) by (cases "ready S") auto
  let ?S = "S\<lparr>ready := rest\<rparr>"
  have "S_ok ?S ((if fd = listenFd ?S then {#} else {# fd #}) + main_load ?S + pool_load (ep_pool ?S))" "timeoutMS ?S \<le> 0" "main_at ?S = Main_loop"
    using assms(1) r by (auto simp: ep_inv_def main_load_def S_ok_def)
  from event_ok [OF this, of ms now ev] obtain S' where S': "on_event ms now fd ev ?S = Some S'" "main_same ?S S'"
    "S_ok S' ((case main_at S' of Main_close fd \<Rightarrow> {# fd #} | _ \<Rightarrow> {#}) + main_load ?S + pool_load (ep_pool S'))"
    "ep_pool S' = ep_pool S \<or> ep_pool S' = AddTask (OnRead fd) (ep_pool S) \<or> ep_pool S' = AddTask (OnWrite fd) (ep_pool S)" by auto
  then have "ep_inv S'" using assms(1) r tasks_ok_add [of "ep_pool S" fd] by (auto simp: ep_inv_def main_load_def main_same_def)
  then show ?thesis using Event r S'(1) by simp
next
  case (Accept now fd n)
  then have "S_ok S (main_load S + pool_load (ep_pool S))" "timeoutMS S \<le> 0" "fd \<notin> open_fds S" "main_at S = Main_accept" using assms by (auto simp: ep_inv_def)
  from listen_ok [OF this(1-3), of H ms now n] this(4) show ?thesis using assms(1) Accept
    by (auto simp: ep_inv_def main_same_def main_load_def)
next
  case Main_quit
  then obtain fd where fd: "main_at S = Main_close fd" using assms(2) by (auto split: ep_main.splits)
  then have "S_ok S (add_mset fd (mset (filter (\<lambda>fd. fd \<noteq> listenFd S) (map fst (ready S))) + pool_load (ep_pool S)))"
    using assms(1) by (simp add: ep_inv_def main_load_def)
  from close_ok [OF this, of H] show ?thesis using Main_quit fd assms(1) by (auto simp: ep_inv_def main_load_def same_def S_ok_def)
next
  case (Turn w)
  then show ?thesis using assms turn_load [of w "ep_pool S"] tasks_ok_turn [of "ep_pool S" w] by (auto simp: ep_inv_def S_ok_def main_load_def)
next
  case (Exec w)
  then obtain t where t: "worker_task w S = Some t" using assms(2) by auto
  show ?thesis unfolding Exec by (rule exec_ok [OF assms(1) t])
qed

lemma mode_props:
  "connEvent (InitEventMode k S) AND EPOLLONESHOT \<noteq> 0 \<and> timeoutMS (InitEventMode k S) = timeoutMS S \<and> epoller (InitEventMode k S) = epoller S \<and>
    users (InitEventMode k S) = users S \<and> ready (InitEventMode k S) = ready S \<and> main_at (InitEventMode k S) = main_at S \<and> ep_pool (InitEventMode k S) = ep_pool S \<and> open_fds (InitEventMode k S) = open_fds S"
  by (simp add: InitEventMode_def epoll_defs Let_def)

lemma socket_props:
  assumes "InitSocket A S = Some (S', True)"
  shows "epoller S' = (epoller S)(listenFd S' \<mapsto> listenEvent S OR EPOLLIN) \<and> open_fds S' = insert (listenFd S') (open_fds S) \<and>
    connEvent S' = connEvent S \<and> timeoutMS S' = timeoutMS S \<and> users S' = users S \<and> ready S' = ready S \<and> main_at S' = main_at S \<and> ep_pool S' = ep_pool S"
  using assms by (auto simp: InitSocket_def SetFdNonblock_def AddFd_def Let_def split: if_splits prod.splits bool.splits)

lemma ep_init_inv:
  fixes S :: "'c epoll_server"
  assumes "ep_init prt trigMode tmo OptLinger threadNum A = Some S" "\<not> isClose S" "tmo \<le> 0"
  shows "ep_inv S"
proof -
  obtain p :: "ep_task ThreadPool" where p: "ThreadPool_new threadNum = Some p" using assms(1) by (cases "ThreadPool_new threadNum :: ep_task ThreadPool option") (auto simp: ep_init_def)
  define S1 :: "'c epoll_server" where "S1 = InitEventMode trigMode \<lparr>port = prt, openLinger = OptLinger, timeoutMS = tmo, isClose = False, listenFd = 0, listenEvent = 0, connEvent = 0, timer = HeapTimer_new,
      ep_pool = p, epoller = Map.empty, users = Map.empty, main_at = Main_loop, open_fds = {}, ready = []\<rparr>"
  have "InitSocket A S1 = Some (S, True)"
    using assms(1,2) by (auto simp: ep_init_def p S1_def Let_def split: if_splits)
  moreover have "sum_list (replicate n ({#} :: int multiset)) = {#}" for n by (induction n) simp_all
  then have "pool_load p = {#}" "tasks_ok p"
    using p by (auto simp: ThreadPool_new_def pool_load_def tasks_ok_def worker_load_def map_replicate list_all_iff split: if_splits)
  ultimately show ?thesis using socket_props [of A S1 S] assms(3)
    by (simp add: S1_def mode_props ep_inv_def S_ok_def main_load_def conn_ok_def)
qed

lemma ep_reach_inv: "ep_reach H ms S0 S \<Longrightarrow> ep_inv S0 \<Longrightarrow> ep_inv S"
proof (induction rule: ep_reach.induct)
  case (act S a S')
  then show ?case using ep_step_ok [of S a H ms] by simp
qed

lemma alone:
  assumes "ep_inv S" "worker_task w S = Some t" "works_on t = Some fd"
  shows "fd \<notin># main_load S + others_load w (ep_pool S) \<and> fd \<in> open_fds S"
proof -
  have "S_ok S (add_mset fd (main_load S + others_load w (ep_pool S)))"
    using assms executes_load(1) [of w "ep_pool S" t] worker_taskD [OF assms(2)] by (simp add: ep_inv_def task_load_def)
  then show ?thesis using conn_unique unfolding S_ok_def by blast
qed

lemma other_worker:
  assumes "worker_task v S = Some t" "works_on t = Some fd" "v \<noteq> w"
  shows "fd \<in># others_load w (ep_pool S)"
  using worker_taskD [OF assms(1)] assms(2,3) load_member [of v "(ep_pool S)\<lparr>tp_workers := (tp_workers (ep_pool S))[w := Loop_test]\<rparr>" t]
  by (simp add: others_load_def)

text \<open>
  (C9) The comment above \<^verbatim>\<open>OnProcess\<close> claims that only one thread works on a descriptor. For a server that listens and has no timeout this holds, and no assertion fails: in every
  state that it reaches, for every behaviour of the connections and of the kernel and every interleaving of the threads between two calls, no two workers work on one connection (a worker that has
  switched the descriptor on again or has closed it does not touch it any more, though its task has not returned); the main thread closes no connection that a worker works on;
  the connection for a descriptor that is not open, which the main thread initialises for a new client, is not in use; and every possible action goes through.
\<close>

theorem one_thread_per_connection:
  assumes "ep_init prt trigMode tmo OptLinger threadNum A = Some S0" "\<not> isClose S0" "tmo \<le> 0" "ep_reach H ms S0 S"
  shows "(\<forall>v w t u fd. worker_task v S = Some t \<longrightarrow> works_on t = Some fd \<longrightarrow> worker_task w S = Some u \<longrightarrow> works_on u = Some fd \<longrightarrow> v = w) \<and>
    (\<forall>w t fd. worker_task w S = Some t \<longrightarrow> works_on t = Some fd \<longrightarrow> main_at S \<noteq> Main_close fd \<and> fd \<in> open_fds S) \<and>
    (\<forall>a. ep_enabled a S \<longrightarrow> (\<exists>S'. ep_step H ms a S = Some S'))"
proof -
  have inv: "ep_inv S" using ep_reach_inv [OF assms(4) ep_init_inv [OF assms(1-3)]] .
  have "v = w" if "worker_task v S = Some t" "works_on t = Some fd" "worker_task w S = Some u" "works_on u = Some fd" for v w t u fd
    using other_worker [OF that(1,2), of w] alone [OF inv that(3,4)] by auto
  moreover have "main_at S \<noteq> Main_close fd" if "worker_task w S = Some t" "works_on t = Some fd" for w t fd
    using alone [OF inv that] by (auto simp: main_load_def)
  ultimately show ?thesis using alone [OF inv] ep_step_ok [OF inv] by blast
qed

fun ep_run :: "'c HttpConn \<Rightarrow> int \<Rightarrow> ep_act list \<Rightarrow> 'c epoll_server \<Rightarrow> 'c epoll_server option" where
  "ep_run H ms [] S = Some S"
| "ep_run H ms (a # as) S = (if ep_enabled a S then case ep_step H ms a S of None \<Rightarrow> None | Some S' \<Rightarrow> ep_run H ms as S' else None)"

lemma ep_run_reach: "ep_run H ms as S = Some S' \<Longrightarrow> ep_reach H ms S0 S \<Longrightarrow> ep_reach H ms S0 S'"
  by (induction as arbitrary: S) (auto split: if_splits option.splits intro: ep_reach.act)

definition demo_conn :: "nat HttpConn" where
  "demo_conn = \<lparr>conn_new = 0, conn_init = (\<lambda>fd c. c + 1), conn_read = (\<lambda>c. (c, 4, 0)), conn_process = (\<lambda>c. (c, True)), is_ws_socket = (\<lambda>c. False),
     conn_write = (\<lambda>c. (c, 4, 0)), ToWriteBytes = (\<lambda>c. 0), has_continue_workd = (\<lambda>c. False), conn_IsKeepAlive = (\<lambda>c. False), conn_Close = (\<lambda>c. c)\<rparr>"

definition demo_start :: "int \<Rightarrow> nat epoll_server" where
  "demo_start tmo = the (ep_init 8080 3 tmo False 3 \<lparr>ans_socket = 3, ans_linger = 0, ans_reuse = 0, ans_bind = 0, ans_listen = 0\<rparr>)"

definition demo_acts :: "ep_act list" where
  "demo_acts = [Epoll_wait [(3, 1)], Event 0, Accept 0 5 0, Accept 0 6 1, Accept 0 (- 1) 2, Epoll_wait [(5, 1), (6, 1)], Event 1, Event 1, Turn 0, Turn 1,
     Exec 0, Exec 0, Exec 0, Exec 0, Epoll_wait [(5, 4)], Event 2, Turn 2]"

text \<open>Here the first worker has switched connection 5 on again and not returned, the second is about to read from 6, and a third has the next task of 5.\<close>

theorem one_thread_per_connection_witness:
  "worker_task 0 (the (ep_run demo_conn 1 demo_acts (demo_start 0))) = Some Return_task \<and>
   worker_task 1 (the (ep_run demo_conn 1 demo_acts (demo_start 0))) = Some (OnRead 6) \<and>
   worker_task 2 (the (ep_run demo_conn 1 demo_acts (demo_start 0))) = Some (OnWrite 5) \<and>
   main_at (the (ep_run demo_conn 1 demo_acts (demo_start 0))) \<noteq> Main_close 5 \<and>
   (\<exists>S'. ep_step demo_conn 1 (Exec 2) (the (ep_run demo_conn 1 demo_acts (demo_start 0))) = Some S')"
proof -
  let ?init = "demo_start 0" and ?reached = "the (ep_run demo_conn 1 demo_acts (demo_start 0))"
  have "\<not> Option.is_none (ep_init 8080 3 0 False 3 \<lparr>ans_socket = 3, ans_linger = 0, ans_reuse = 0, ans_bind = 0, ans_listen = 0\<rparr> :: nat epoll_server option)" by code_simp
  then have i: "ep_init 8080 3 0 False 3 \<lparr>ans_socket = 3, ans_linger = 0, ans_reuse = 0, ans_bind = 0, ans_listen = 0\<rparr> = Some ?init"
    by (simp add: demo_start_def Option.is_none_def)
  have "\<not> Option.is_none (ep_run demo_conn 1 demo_acts ?init)" by code_simp
  then have "ep_run demo_conn 1 demo_acts ?init = Some ?reached" by (simp add: Option.is_none_def)
  from ep_run_reach [OF this ep_reach.start] have r: "ep_reach demo_conn 1 ?init ?reached" .
  have c: "\<not> isClose ?init" by code_simp
  have w: "worker_task 0 ?reached = Some Return_task" "worker_task 1 ?reached = Some (OnRead 6)" "worker_task 2 ?reached = Some (OnWrite 5)" by code_simp+
  have "ep_enabled (Exec 2) ?reached" "works_on (OnWrite 5) = Some 5" using w by simp_all
  then show ?thesis using one_thread_per_connection [OF i c _ r] w by blast
qed

text \<open>
  With a timeout it does not hold: the timer closes a connection that a worker is reading, a new connection gets the free descriptor and with it the same connection
  object, and a second worker reads it at the same time.
\<close>

definition timeout_acts :: "ep_act list" where
  "timeout_acts = [Epoll_wait [(3, 1)], Event 0, Accept 0 5 0, Accept 0 (- 1) 1, Epoll_wait [(5, 1)], Event 1, Turn 0, Tick (\<lambda>k. 5000) 5000,
     Epoll_wait [(3, 1)], Event 5001, Accept 5001 5 0, Accept 5001 (- 1) 1, Epoll_wait [(5, 1)], Event 5002, Turn 1]"

lemma timeout_two_threads:
  "worker_task 0 (the (ep_run demo_conn 1 timeout_acts (demo_start 1000))) = Some (OnRead 5) \<and>
   worker_task 1 (the (ep_run demo_conn 1 timeout_acts (demo_start 1000))) = Some (OnRead 5)"
  by code_simp

text \<open>A listening descriptor 0 is registered, and then the assertion of \<^verbatim>\<open>SetFdNonblock\<close> fails.\<close>

lemma listen_on_zero:
  "1024 \<le> prt \<Longrightarrow> prt \<le> 65535 \<Longrightarrow>
    ep_init prt trigMode tmo OptLinger threadNum \<lparr>ans_socket = 0, ans_linger = 0, ans_reuse = 0, ans_bind = 0, ans_listen = 0\<rparr> = None"
  by (simp add: ep_init_def InitSocket_def InitEventMode_def SetFdNonblock_def AddFd_def Let_def split: option.split)

end
