(* ===== verification/Gzip.thy ===== *)
theory Gzip
  imports Netcore_Prelude
begin

text \<open>
  \<^verbatim>\<open>include/netcore/gzip.hpp\<close>: the loops around zlib. The library is a parameter, a record of its functions on streams: a call of \<open>deflate\<close> or \<open>inflate\<close> is given the room
  in the output and returns the new stream, the bytes it wrote and its result. A loop that does not end has the value \<open>None\<close>.
\<close>

record 'z zlib =
  z_deflateInit2 :: "int \<Rightarrow> byte list \<Rightarrow> 'z option"
  z_deflate :: "'z \<Rightarrow> nat \<Rightarrow> 'z \<times> byte list \<times> int"
  z_deflateEnd :: "'z \<Rightarrow> int"
  z_inflateInit2 :: "byte list \<Rightarrow> 'z option"
  z_inflate :: "'z \<Rightarrow> nat \<Rightarrow> 'z \<times> byte list \<times> int"
  z_inflateEnd :: "'z \<Rightarrow> int"

definition CHUNK :: nat where "CHUNK = 16384"
definition Z_OK :: int where "Z_OK = 0"
definition Z_NEED_DICT :: int where "Z_NEED_DICT = 2"
definition Z_STREAM_ERROR :: int where "Z_STREAM_ERROR = - 2"
definition Z_DATA_ERROR :: int where "Z_DATA_ERROR = - 3"
definition Z_MEM_ERROR :: int where "Z_MEM_ERROR = - 4"
definition Z_BUF_ERROR :: int where "Z_BUF_ERROR = - 5"

text \<open>\<^verbatim>\<open>(uInt)data.length()\<close> cuts the length to 32 bits.\<close>

definition avail_in :: "byte list \<Rightarrow> byte list" where
  "avail_in data = take (length data mod 2 ^ 32) data"

partial_function (option) compress_loop :: "'z zlib \<Rightarrow> 'z \<Rightarrow> byte list \<Rightarrow> (bool \<times> byte list) option" where
  [code]: "compress_loop Z strm acc =
     (case z_deflate Z strm CHUNK of
        (strm, written, ret) \<Rightarrow>
          if ret = Z_STREAM_ERROR then Some (False, acc)
          else if length written = CHUNK then compress_loop Z strm (acc @ written)
          else Some (z_deflateEnd Z strm = Z_OK, acc @ written))"

definition compress :: "'z zlib \<Rightarrow> byte list \<Rightarrow> byte list \<Rightarrow> int \<Rightarrow> (bool \<times> byte list) option" where
  "compress Z data compressed_data level =
     (case z_deflateInit2 Z level (avail_in data) of None \<Rightarrow> Some (False, compressed_data) | Some strm \<Rightarrow> compress_loop Z strm compressed_data)"

partial_function (option) uncompress_loop :: "'z zlib \<Rightarrow> 'z \<Rightarrow> byte list \<Rightarrow> (bool \<times> byte list) option" where
  [code]: "uncompress_loop Z strm acc =
     (case z_inflate Z strm CHUNK of
        (strm, written, ret) \<Rightarrow>
          if ret = Z_NEED_DICT \<or> ret = Z_DATA_ERROR \<or> ret = Z_MEM_ERROR then Some (False, acc)
          else if length written = CHUNK then uncompress_loop Z strm (acc @ written)
          else Some (z_inflateEnd Z strm = Z_OK, acc @ written))"

definition uncompress :: "'z zlib \<Rightarrow> byte list \<Rightarrow> byte list \<Rightarrow> (bool \<times> byte list) option" where
  "uncompress Z compressed_data data =
     (case z_inflateInit2 Z (avail_in compressed_data) of None \<Rightarrow> Some (False, data) | Some strm \<Rightarrow> uncompress_loop Z strm data)"

text \<open>
  \<^verbatim>\<open>compress_file\<close>: blocks of the source file are given to \<open>gzwrite\<close>, whose results are a list; the blocks written and the result. Whether the files could be opened are arguments.
\<close>

definition BUFSIZ :: nat where "BUFSIZ = 8192"

fun write_blocks :: "nat \<Rightarrow> int list \<Rightarrow> byte list \<Rightarrow> byte list list \<times> int" where
  "write_blocks 0 ks file = ([], 0)"
| "write_blocks (Suc n) ks file =
     (let buf = take BUFSIZ file in
      if buf = [] then ([], 0)
      else if ks = [] \<or> hd ks = 0 then ([], - 1)
      else if length buf \<noteq> BUFSIZ then ([buf], 0)
      else (let (ws, r) = write_blocks n (List.tl ks) (drop BUFSIZ file) in (buf # ws, r)))"

definition compress_file :: "bool \<Rightarrow> bool \<Rightarrow> int list \<Rightarrow> byte list \<Rightarrow> byte list list \<times> int" where
  "compress_file out_open in_open ks file =
     (if \<not> out_open then ([], - 1) else if \<not> in_open then ([], - 1) else write_blocks (Suc (length file)) ks file)"

section \<open>Proofs\<close>

text \<open>
  What zlib documents of a stream whose output is \<open>rest\<close>: a call fills the room as far as there is output, and goes on behind it; it reports no error of the stream.
\<close>

definition streams :: "('z \<Rightarrow> nat \<Rightarrow> 'z \<times> byte list \<times> int) \<Rightarrow> int set \<Rightarrow> ('z \<Rightarrow> byte list) \<Rightarrow> bool" where
  "streams f fails rest \<longleftrightarrow> (\<forall>strm n. \<exists>strm' ret. f strm n = (strm', take n (rest strm), ret) \<and> rest strm' = drop n (rest strm) \<and> ret \<notin> fails)"

lemma compress_loop_all:
  assumes "streams (z_deflate Z) {Z_STREAM_ERROR} rest" "\<forall>strm. z_deflateEnd Z strm = Z_OK"
  shows "compress_loop Z strm acc = Some (True, acc @ rest strm)"
proof (induction "length (rest strm)" arbitrary: strm acc rule: less_induct)
  case less
  obtain s r where s: "z_deflate Z strm CHUNK = (s, take CHUNK (rest strm), r)" "rest s = drop CHUNK (rest strm)" "r \<noteq> Z_STREAM_ERROR"
    using assms(1) unfolding streams_def by (metis insertI1)
  show ?case
  proof (cases "CHUNK \<le> length (rest strm)")
    case True
    then have "length (rest s) < length (rest strm)" using s(2) by (simp add: CHUNK_def)
    then have "compress_loop Z s (acc @ take CHUNK (rest strm)) = Some (True, (acc @ take CHUNK (rest strm)) @ rest s)" by (rule less)
    then show ?thesis using True s by (subst compress_loop.simps) simp
  next
    case False
    then show ?thesis using s assms(2) by (subst compress_loop.simps) simp
  qed
qed

lemma uncompress_loop_all:
  assumes "streams (z_inflate Z) {Z_NEED_DICT, Z_DATA_ERROR, Z_MEM_ERROR} rest" "\<forall>strm. z_inflateEnd Z strm = Z_OK"
  shows "uncompress_loop Z strm acc = Some (True, acc @ rest strm)"
proof (induction "length (rest strm)" arbitrary: strm acc rule: less_induct)
  case less
  obtain s r where s: "z_inflate Z strm CHUNK = (s, take CHUNK (rest strm), r)" "rest s = drop CHUNK (rest strm)" "r \<notin> {Z_NEED_DICT, Z_DATA_ERROR, Z_MEM_ERROR}"
    using assms(1) unfolding streams_def by metis
  show ?case
  proof (cases "CHUNK \<le> length (rest strm)")
    case True
    then have "length (rest s) < length (rest strm)" using s(2) by (simp add: CHUNK_def)
    then have "uncompress_loop Z s (acc @ take CHUNK (rest strm)) = Some (True, (acc @ take CHUNK (rest strm)) @ rest s)" by (rule less)
    then show ?thesis using True s by (subst uncompress_loop.simps) simp
  next
    case False
    then show ?thesis using s assms(2) by (subst uncompress_loop.simps) simp
  qed
qed

text \<open>
  If the library is a codec on data below 4 GB, so are the two functions: they return, and \<open>uncompress\<close> gives back what \<open>compress\<close> was given. The hypotheses on the library: initialisation succeeds, both
  streams behave as documented, and the output of the second on the output of the first is the data.
\<close>

lemma gzip_roundtrip:
  assumes "streams (z_deflate Z) {Z_STREAM_ERROR} packed" "\<forall>strm. z_deflateEnd Z strm = Z_OK"
    and "streams (z_inflate Z) {Z_NEED_DICT, Z_DATA_ERROR, Z_MEM_ERROR} unpacked" "\<forall>strm. z_inflateEnd Z strm = Z_OK"
    and "z_deflateInit2 Z level data = Some s" "z_inflateInit2 Z (packed s) = Some t" "unpacked t = data"
    and "length data < 2 ^ 32" "length (packed s) < 2 ^ 32"
  shows "compress Z data [] level = Some (True, packed s) \<and> uncompress Z (packed s) [] = Some (True, data)"
  using compress_loop_all [OF assms(1,2), of s "[]"] uncompress_loop_all [OF assms(3,4), of t "[]"] assms(5-)
  by (simp add: compress_def uncompress_def avail_in_def)

text \<open>
  The result of \<open>inflate\<close> at the end of the input is not looked at: for input that was cut off, for which it is \<open>Z_BUF_ERROR\<close>, \<open>uncompress\<close> returns true with the part it has.
  The same hypotheses cover it, since that result is not among those tested.
\<close>

lemma uncompress_truncated:
  assumes "z_inflateInit2 Z (avail_in packed) = Some t" "z_inflate Z t CHUNK = (t', part, Z_BUF_ERROR)" "length part < CHUNK" "z_inflateEnd Z t' = Z_OK"
  shows "uncompress Z packed [] = Some (True, part)"
  using assms by (simp add: uncompress_def uncompress_loop.simps Z_BUF_ERROR_def Z_NEED_DICT_def Z_DATA_ERROR_def Z_MEM_ERROR_def)

text \<open>A library that stores the data as they are meets the hypotheses.\<close>

definition stored :: "byte list zlib" where
  "stored = \<lparr>z_deflateInit2 = (\<lambda>l d. Some d), z_deflate = (\<lambda>s n. (drop n s, take n s, Z_OK)), z_deflateEnd = (\<lambda>s. Z_OK),
     z_inflateInit2 = Some, z_inflate = (\<lambda>s n. (drop n s, take n s, Z_OK)), z_inflateEnd = (\<lambda>s. Z_OK)\<rparr>"

lemma gzip_stored: "compress stored [1, 2, 3] [] 9 = Some (True, [1, 2, 3]) \<and> uncompress stored [1, 2, 3] [] = Some (True, [1, 2, 3])"
  using gzip_roundtrip [of stored "\<lambda>s. s" "\<lambda>s. s" 9 "[1, 2, 3]" "[1, 2, 3]" "[1, 2, 3]"]
  by (simp add: stored_def streams_def Z_OK_def Z_NEED_DICT_def Z_DATA_ERROR_def Z_MEM_ERROR_def Z_STREAM_ERROR_def)

text \<open>A file is compressed whole when no write fails.\<close>

lemma write_blocks_all: "length bytes < n \<Longrightarrow> length bytes < length ks \<Longrightarrow> 0 \<notin> set ks \<Longrightarrow> concat (fst (write_blocks n ks bytes)) = bytes \<and> snd (write_blocks n ks bytes) = 0"
proof (induction n arbitrary: ks bytes)
  case (Suc n)
  then obtain k ks' where ks: "ks = k # ks'" by (cases ks) auto
  have "bytes = []" if "take BUFSIZ bytes = []" using that by (simp add: BUFSIZ_def)
  moreover have "concat (fst (write_blocks n ks' (drop BUFSIZ bytes))) = drop BUFSIZ bytes \<and> snd (write_blocks n ks' (drop BUFSIZ bytes)) = 0" if "bytes \<noteq> []"
  proof -
    have "length (drop BUFSIZ bytes) < length bytes" using that by (cases bytes) (simp_all add: BUFSIZ_def)
    then have "length (drop BUFSIZ bytes) < n" "length (drop BUFSIZ bytes) < length ks'" using Suc.prems(1,2) unfolding ks list.size by linarith+
    then show ?thesis using Suc.prems(3) by (intro Suc.IH) (simp_all add: ks)
  qed
  moreover have "drop BUFSIZ bytes = []" if "length (take BUFSIZ bytes) \<noteq> BUFSIZ" using that by simp
  ultimately show ?case using Suc.prems(3) append_take_drop_id [of BUFSIZ bytes] by (auto simp: ks Let_def split: prod.split)
qed simp

lemma compress_file_all: "length bytes < length ks \<Longrightarrow> 0 \<notin> set ks \<Longrightarrow> concat (fst (compress_file True True ks bytes)) = bytes \<and> snd (compress_file True True ks bytes) = 0"
  unfolding compress_file_def using write_blocks_all [of bytes "Suc (length bytes)" ks] by simp

end
