(* ===== verification/Spec2Isabelle.thy ===== *)
theory Spec2Isabelle
  imports Pico_Roundtrip Chunked Sha1 Base64 Utf8 Url_Codec Text_Utils Websocket Buffer Block_Queue Io_Socket Heap_Timer Itoa Multipart_Reader Response Mime_Types
    Connection_Session Server Http_Client_Correct Cache Session Ws_Manager Connection_Send Epoll_Server Gzip
begin

text \<open>
  Verification of netcore, an HTTP and WebSocket server on C++20 coroutines, with its client and the older server it grew out of.

  \<^bold>\<open>The program.\<close> An event loop per thread (\<^verbatim>\<open>include/netcore/core.hpp\<close>, \<^verbatim>\<open>basic.hpp\<close>) runs queued tasks and the callbacks of ready
  sockets; a coroutine that waits for a socket suspends with a deadline. For every accepted connection the server
  (\<^verbatim>\<open>http_server.hpp\<close>) starts the coroutine \<^verbatim>\<open>handle\<close>: read into the buffer of the request, let the connection process what is there,
  read more or send the response. The connection (\<^verbatim>\<open>connection.hpp\<close>) parses the head (\<^verbatim>\<open>picohttpparser.h\<close>), looks for a route
  (\<^verbatim>\<open>http_router.hpp\<close>), reads string, form and multipart bodies (\<^verbatim>\<open>multipart_parser.hpp\<close>) or upgrades to WebSocket frames
  (\<^verbatim>\<open>websocket.hpp\<close>), and calls the application; the application fills a response (\<^verbatim>\<open>response.hpp\<close>) or sends a file (\<^verbatim>\<open>hs_utils.hpp\<close>).
  Other threads send WebSocket messages through a manager (\<^verbatim>\<open>websocket_manager.h\<close>) and a thread pool. The directory \<^verbatim>\<open>core/\<close> holds a client
  (\<^verbatim>\<open>http_client.hpp\<close>), sessions, a timer heap and the older server on \<^verbatim>\<open>epoll\<close> and worker threads.
  Handshakes use SHA-1 and Base64, texts are checked for UTF-8, URLs are percent-decoded, lengths printed by \<^verbatim>\<open>itoa.hpp\<close>.

  \<^bold>\<open>Theories and sources\<close> (below \<^verbatim>\<open>src/\<close>; headers without a directory are in \<^verbatim>\<open>include/netcore/\<close>).

  \<^item> \<open>Netcore_Prelude\<close>: machine types, checked reads of a byte range, the result type of the pointer-walking parsers.
  \<^item> \<open>Pico_Parser\<close>, \<open>Pico_Correct\<close>, \<open>Pico_Roundtrip\<close>: \<^verbatim>\<open>picohttpparser.h\<close>, heads of requests and responses. A pointer is an offset, a read
    at or behind the end is the value \<open>Fault\<close>. Proved: no fault; results do not change when more bytes arrive; what is
    returned lies in the buffer; a printed head is parsed back.
  \<^item> \<open>Chunked\<close>: \<^verbatim>\<open>phr_decode_chunked\<close> with its in-place moves, and the chunk writer of the response. The decoder refines an automaton that
    reads one byte at a time, and reads back what the writer wrote, however it is cut.
  \<^item> \<open>Multipart\<close>, \<open>Multipart_Correct\<close>, \<open>Multipart_Reader\<close>: \<^verbatim>\<open>multipart_parser.hpp\<close>, \<^verbatim>\<open>multipart_reader.hpp\<close>; the same two results for multipart
    bodies, with the reader's headers and data.
  \<^item> \<open>Sha1\<close>, \<open>Base64\<close>, \<open>Utf8\<close>, \<open>Url_Codec\<close>, \<open>Itoa\<close>, \<open>Text_Utils\<close>: \<^verbatim>\<open>sha1.hpp\<close>, \<^verbatim>\<open>utils.hpp\<close>, \<^verbatim>\<open>lib/base64.hpp\<close>, \<^verbatim>\<open>url_encode_decode.hpp\<close>, \<^verbatim>\<open>itoa.hpp\<close>, \<^verbatim>\<open>define.h\<close>.
    Each is compared with a direct definition of what it computes: the standard's hash, the encodings of code points, decimal digits;
    decoders invert encoders.
  \<^item> \<open>Websocket\<close>: \<^verbatim>\<open>websocket.hpp\<close>, \<^verbatim>\<open>ws_define.h\<close>: handshake, frames read and written, against the frames of RFC 6455.
  \<^item> \<open>Fifo\<close>, \<open>Buffer\<close>, \<open>Block_Queue\<close>: the queues \<^verbatim>\<open>lib/buffer.cpp\<close>, \<^verbatim>\<open>lib/blockqueue.h\<close>, \<^verbatim>\<open>lib/lockfree_queue.hpp\<close>; used by one thread at a time, what is put in comes out in order.
    The lock-free queue is also a step relation over interleaved atomic actions, in which it loses elements.
  \<^item> \<open>Io_Queue\<close>, \<open>Io_Socket\<close>: the intrusive task list of \<^verbatim>\<open>basic.hpp\<close> over an explicit heap, a turn of the event loop, deadlines, reading and writing
    of \<^verbatim>\<open>core.hpp\<close> over any answers of the kernel.
  \<^item> \<open>Heap_Timer\<close>: \<^verbatim>\<open>core/heaptimer.cpp\<close>; heap order and positions, exact ticks.
  \<^item> \<open>Ordered_Map\<close>, \<open>Mime_Types\<close>: \<^verbatim>\<open>std::map\<close> over a comparison, and the table of \<^verbatim>\<open>mime_types.hpp\<close>.
  \<^item> \<open>Response\<close>: \<^verbatim>\<open>response.hpp\<close>, \<^verbatim>\<open>response_cv.hpp\<close>, \<^verbatim>\<open>cookie.hpp\<close>; the bytes of a response, read back by the response parser.
  \<^item> \<open>Request\<close>, \<open>Request_Correct\<close>: \<^verbatim>\<open>request.hpp\<close>, \<^verbatim>\<open>upload_file.hpp\<close>; buffer accounting at the width of \<^verbatim>\<open>size_t\<close>, head, queries, cookies.
  \<^item> \<open>Connection\<close>: \<^verbatim>\<open>connection.hpp\<close> and the loop \<^verbatim>\<open>handle\<close>. \<open>Connection_Correct\<close>: requests are handed to the application once and complete.
    \<open>Connection_Invariant\<close>: the buffer, on every run. \<open>Connection_Session\<close>: connections that read more than once.
  \<^item> \<open>Router\<close>, \<open>Download\<close>, \<open>Server\<close>: \<^verbatim>\<open>http_router.hpp\<close>, \<^verbatim>\<open>ws_before_ap.hpp\<close>, \<^verbatim>\<open>hs_utils.hpp\<close>, \<^verbatim>\<open>http_server.hpp\<close>; routing against its order of
    precedence, the download state machine, and the constructed server from the bytes read to the bytes sent.
  \<^item> \<open>Uri\<close>, \<open>Jeaiii\<close>, \<open>Http_Client\<close>, \<open>Http_Client_Correct\<close>: \<^verbatim>\<open>core/uri.hpp\<close>, \<^verbatim>\<open>core/itoa_jeaiii.hpp\<close>, \<^verbatim>\<open>core/http_client.hpp\<close>, \<^verbatim>\<open>core/http_parser.hpp\<close>. Printed URIs are parsed
    back; the fixed-point conversion gives decimal digits for every value; the client and the server loop run together from the URI to the headers and the body. Headers that
    a response returns as views of a freed string are \<open>None\<close>.
  \<^item> \<open>Key_Store\<close>, \<open>Cache\<close>, \<open>Session\<close>: \<^verbatim>\<open>fastCache.hpp\<close>, \<^verbatim>\<open>http_cache.hpp\<close>, \<^verbatim>\<open>core/session.hpp\<close>, \<^verbatim>\<open>core/session_manager.hpp\<close>, \<^verbatim>\<open>lib/uuid.hpp\<close>. The sharded cache refines a
    table; an entry is found exactly during its lifetime, whatever other threads do to other keys.
  \<^item> \<open>Thread_Pool\<close>, \<open>Ws_Manager\<close>: \<^verbatim>\<open>lib/threadpool.hpp\<close>, \<^verbatim>\<open>core/threadpool.h\<close>, \<^verbatim>\<open>websocket_manager.h\<close> as interleaved actions of threads down to the single calls of
    \<^verbatim>\<open>send\<close>, the lookup and the use of a descriptor being apart: tasks start in order, and frames on a connection are never mixed. \<open>Connection_Send\<close>: the functions of \<^verbatim>\<open>connection.hpp\<close> that send through the manager, and what
    a peer reads with the decoder of RFC 6455.
  \<^item> \<open>Epoll_Server\<close>: \<^verbatim>\<open>core/epoll_server.hpp\<close>, \<^verbatim>\<open>core/epoller.cpp\<close>, the loop of \<^verbatim>\<open>core/http_server.hpp\<close>: a step relation of main thread, kernel and workers, whose tasks stop
    before every call on the connection or on epoll; one thread at a time works on a connection as long as there is no timeout.
  \<^item> \<open>Gzip\<close>: the loops of \<^verbatim>\<open>gzip.hpp\<close> around zlib, which is a parameter; they return, and are inverse to each other if the library is.

  \<^bold>\<open>Interfaces.\<close> The locales and where they are interpreted on the definitions of the model: \<open>fifo\<close> and \<open>total_fifo\<close> (\<open>buffer\<close>, \<open>block_deque\<close>,
  \<open>lock_free\<close>, \<open>task_queue\<close>); \<open>incremental_digest\<close> (\<open>sha1_inc\<close>); \<open>percent_encoder\<close> (\<open>url\<close>, \<open>quote_codec\<close>, \<open>quote_plus_codec\<close>);
  \<open>strict_weak_order\<close> (\<open>str\<close>, \<open>ci\<close>); \<open>keeping_app\<close>, what a connection needs of the application to keep its buffer in order (\<open>new_server\<close>); \<open>key_store\<close>, tables in which
  an action leaves other keys alone (\<open>cache_store\<close>, \<open>ws_store\<close>); \<open>pool_order\<close>, pools that start tasks in order (\<open>lib_pool\<close>, \<open>core_pool\<close>).

  \<^bold>\<open>Parameters.\<close> The answers of the kernel to reads and writes are lists; the clock and its formatting, the file system, \<^verbatim>\<open>std::regex_match\<close>,
  the names of uploaded files and the iteration order of hash tables are arguments. What a resumed coroutine does until it suspends again
  is a function of its own state. Undefined behaviour is the value \<open>None\<close> or \<open>Fault\<close>.

  \<^bold>\<open>Termination.\<close> Loops are total functions with a measure: parsers on the rest of the buffer, the server loop on the answers of the kernel not yet
  used. The loop that feeds a multipart body, those of the timer heap and those around zlib are partial functions with the value \<open>None\<close> when they do not end; what is
  claimed of them includes that they return. Fuel occurs where a caller drives a state machine, in the blocks of a file (its length is enough), and in the calls of a download,
  for which length div 3 MB + 2 is proved to be enough.

  \<^bold>\<open>Not modelled.\<close> The logging library below \<^verbatim>\<open>lib/easyloggingpp\<close> is vendored; the type traits and the coroutine machinery are the
  compiler's. Creating and binding sockets of the present server, starting its threads, time and locale formatting are system calls. Of the client the chunk functions, which
  nothing calls, and the forwarding overloads are left out; of the requests the typed query values, which read numbers through the C library; of the
  connections the setters of callbacks that the server does not call; of \<^verbatim>\<open>gzip.hpp\<close> reading a compressed file.
\<close>

end
